(* ===== verification/Prelude.thy ===== *)
theory Prelude
  imports Main "HOL-Library.Word"
begin

text \<open>
  Shared vocabulary of the development: the C integer types as words, kernel panics as
  error values, counted loops over \<open>uint64_t\<close> with and without an early return, the
  alignment macros, and the generic lemmas on words that the components use.
\<close>

unbundle bit_operations_syntax

named_theorems align_simps \<open>what the alignment macros compute on natural numbers\<close>

section \<open>Types\<close>

type_synonym u8 = "8 word"
type_synonym u16 = "16 word"
type_synonym u32 = "32 word"
type_synonym u64 = "64 word"

definition NULL :: u64 where "NULL = 0"

text \<open>
  A kernel panic never returns to its caller (\<^verbatim>\<open>kernel_panic\<close> ends in \<^verbatim>\<open>hcf\<close>), so a
  function that may panic returns a value of a sum type, the panic on the left.
  \<open>Bad_access\<close> is the dereference of a null pointer, where the code omits the check.
\<close>

datatype fault = Panic string | Bad_access

type_synonym 'a outcome = "fault + 'a"

definition bind_ok :: "'e + 'a \<Rightarrow> ('a \<Rightarrow> 'e + 'b) \<Rightarrow> 'e + 'b" where
  "bind_ok r f = (case r of Inl e \<Rightarrow> Inl e | Inr a \<Rightarrow> f a)"

lemma bind_ok_simps [simp]:
  "bind_ok (Inl e) f = Inl e"
  "bind_ok (Inr a) f = f a"
  by (simp_all add: bind_ok_def)

lemma bind_ok_eq_Inr:
  "bind_ok r f = Inr b \<longleftrightarrow> (\<exists>a. r = Inr a \<and> f a = Inr b)"
  by (simp add: bind_ok_def split: sum.splits)

section \<open>Words and natural numbers\<close>

lemma unat64_bound: "unat (w :: u64) < 2 ^ 64"
  using unsigned_less [of w] by simp

lemma unat_add_no_overflow:
  fixes a b :: "'a::len word"
  shows "unat a + unat b < 2 ^ LENGTH('a) \<Longrightarrow> unat (a + b) = unat a + unat b"
  by (simp add: unat_word_ariths)

lemma unat_and_mask: "unat (w AND mask k) = unat w mod 2 ^ k"
  by (simp only: take_bit_eq_mask [symmetric] unsigned_take_bit_eq take_bit_eq_mod [of k "unat w"])

section \<open>Counted loops\<close>

text \<open>
  \<open>for_range i n f s\<close> is \<^verbatim>\<open>for (; i < n; i++) f\<close> for an unsigned 64-bit counter; the
  guard keeps the increment from wrapping. \<open>for_until\<close> is the same loop with a body that
  may leave the function: \<open>Inl\<close> is the state after a normal iteration, \<open>Inr\<close> the value
  of a \<^verbatim>\<open>return\<close> inside the loop.
\<close>

lemma unat_succ_less:
  fixes i n :: "'a::len word"
  assumes "i < n"
  shows "unat (i + 1) = Suc (unat i)"
proof -
  have "unat n < 2 ^ LENGTH('a)"
    by (rule unsigned_less)
  then have "Suc (unat i) < 2 ^ LENGTH('a)"
    using assms unfolding word_less_nat_alt by linarith
  then show ?thesis
    by (simp add: unat_word_ariths)
qed

lemma word_succ_le:
  fixes i n :: "'a::len word"
  assumes "i < n"
  shows "i + 1 \<le> n"
  using assms inc_le by blast

function for_range :: "u64 \<Rightarrow> u64 \<Rightarrow> (u64 \<Rightarrow> 's \<Rightarrow> 's) \<Rightarrow> 's \<Rightarrow> 's" where
  "for_range i n f s = (if i < n then for_range (i + 1) n f (f i s) else s)"
  by pat_completeness auto
termination
  by (relation "measure (\<lambda>(i, n, f, s). unat n - unat i)")
    (auto simp: unat_succ_less word_less_nat_alt)

function for_until :: "u64 \<Rightarrow> u64 \<Rightarrow> (u64 \<Rightarrow> 's \<Rightarrow> 's + 'r) \<Rightarrow> 's \<Rightarrow> 's + 'r" where
  "for_until i n f s =
     (if i < n then (case f i s of Inl s' \<Rightarrow> for_until (i + 1) n f s' | Inr r \<Rightarrow> Inr r)
      else Inl s)"
  by pat_completeness auto
termination
  by (relation "measure (\<lambda>(i, n, f, s). unat n - unat i)")
    (auto simp: unat_succ_less word_less_nat_alt)

declare for_range.simps [simp del] for_until.simps [simp del]

lemma for_range_done: "\<not> i < n \<Longrightarrow> for_range i n f s = s"
  by (simp add: for_range.simps)

lemma for_until_done: "\<not> i < n \<Longrightarrow> for_until i n f s = Inl s"
  by (simp add: for_until.simps)

text \<open>The loop rule: an invariant indexed by the counter.\<close>

lemma for_range_inv:
  assumes "i \<le> n" and "I i s"
    and "\<And>j t. i \<le> j \<Longrightarrow> j < n \<Longrightarrow> I j t \<Longrightarrow> I (j + 1) (f j t)"
  shows "I n (for_range i n f s)"
  using assms
proof (induction i n f s rule: for_range.induct)
  case (1 i n f s)
  show ?case
  proof (cases "i < n")
    case True
    have "i \<le> i + 1"
      using True by (simp add: word_le_nat_alt unat_succ_less)
    moreover have "I (i + 1) (f i s)"
      using True "1.prems" by simp
    moreover have "i + 1 \<le> n"
      using True by (rule word_succ_le)
    ultimately have "I n (for_range (i + 1) n f (f i s))"
      using "1.IH" True "1.prems"(3) order_trans by metis
    then show ?thesis
      using True by (simp add: for_range.simps [of i])
  next
    case False
    then have "i = n"
      using "1.prems"(1) by simp
    then show ?thesis
      using "1.prems"(2) by (simp add: for_range_done)
  qed
qed

lemma for_until_inv:
  assumes "i \<le> n" and "I i s"
    and "\<And>j t. i \<le> j \<Longrightarrow> j < n \<Longrightarrow> I j t \<Longrightarrow>
           (case f j t of Inl t' \<Rightarrow> I (j + 1) t' | Inr r \<Rightarrow> R r)"
  shows "case for_until i n f s of Inl t \<Rightarrow> I n t | Inr r \<Rightarrow> R r"
  using assms
proof (induction i n f s rule: for_until.induct)
  case (1 i n f s)
  show ?case
  proof (cases "i < n")
    case True
    have le: "i \<le> i + 1" "i + 1 \<le> n"
      using True by (simp_all add: word_le_nat_alt unat_succ_less word_less_nat_alt)
    show ?thesis
    proof (cases "f i s")
      case (Inl s')
      then have "I (i + 1) s'"
        using True "1.prems"(2) "1.prems"(3) [of i s] by simp
      then have "case for_until (i + 1) n f s' of Inl t \<Rightarrow> I n t | Inr r \<Rightarrow> R r"
        using "1.IH" [OF True Inl] le "1.prems"(3) order_trans by metis
      then show ?thesis
        using True Inl by (simp add: for_until.simps [of i])
    next
      case (Inr r)
      then show ?thesis
        using True "1.prems"(2) "1.prems"(3) [of i s] by (simp add: for_until.simps [of i])
    qed
  next
    case False
    then have "i = n"
      using "1.prems"(1) by simp
    then show ?thesis
      using "1.prems"(2) by (simp add: for_until_done)
  qed
qed

text \<open>What a body only promises for the value it returns holds for the loop.\<close>

lemma for_until_result:
  assumes "\<And>j t. case f j t of Inl t' \<Rightarrow> True | Inr r \<Rightarrow> R r"
  shows "case for_until i n f s of Inl t \<Rightarrow> True | Inr r \<Rightarrow> R r"
proof (cases "i \<le> n")
  case True
  then show ?thesis
    by (rule for_until_inv [where I = "\<lambda>_ _. True"]) (use assms in \<open>simp_all split: sum.splits\<close>)
qed (simp add: for_until_done)

lemma for_until_two:
  "for_until 0 2 f s =
     (case f 0 s of Inl t \<Rightarrow> f 1 t | Inr r \<Rightarrow> Inr r)"
  by (simp add: for_until.simps [of 0 2] for_until.simps [of 1 2] for_until.simps [of 2 2]
      word_less_nat_alt split: sum.split)

section \<open>Alignment\<close>

text \<open>
  The macros of \<^verbatim>\<open>pmm.c\<close>; the same masking is written out as \<^verbatim>\<open>(size + 15) & ~15\<close> in
  \<^verbatim>\<open>heap.c\<close> and as \<^verbatim>\<open>& PAGE_FRAME_MASK\<close> in \<^verbatim>\<open>vmm.c\<close>.
\<close>

definition ALIGN_UP :: "u64 \<Rightarrow> u64 \<Rightarrow> u64" where
  "ALIGN_UP val align = (val + align - 1) AND NOT (align - 1)"

definition ALIGN_DOWN :: "u64 \<Rightarrow> u64 \<Rightarrow> u64" where
  "ALIGN_DOWN val align = val AND NOT (align - 1)"

lemma and_not_mask_eq:
  fixes w :: "'a::len word"
  shows "w AND NOT (mask k) = push_bit k (drop_bit k w)"
  by (rule bit_eqI) (auto simp: bit_simps)

lemma unat_and_not_mask:
  fixes w :: "'a::len word"
  shows "unat (w AND NOT (mask k)) = (unat w div 2 ^ k) * 2 ^ k"
proof -
  have "unat w div 2 ^ k * 2 ^ k \<le> unat w"
    by (rule div_times_less_eq_dividend)
  also have "unat w < 2 ^ LENGTH('a)"
    by (rule unsigned_less)
  finally have bound: "unat w div 2 ^ k * 2 ^ k < 2 ^ LENGTH('a)" .
  have "unat (push_bit k (drop_bit k w)) = take_bit LENGTH('a) (push_bit k (unat w div 2 ^ k))"
    by (simp only: unsigned_push_bit_eq unat_drop_bit_eq drop_bit_eq_div [of k "unat w"])
  also have "\<dots> = unat w div 2 ^ k * 2 ^ k"
    using bound by (simp only: push_bit_eq_mult take_bit_nat_eq_self_iff)
  finally show ?thesis
    by (simp only: and_not_mask_eq)
qed

lemma mask_numerals:
  "(7 :: 'a::len word) = mask 3" "(15 :: 'a::len word) = mask 4"
  "(63 :: 'a::len word) = mask 6" "(0xFFF :: 'a::len word) = mask 12"
  by (simp_all add: mask_eq_exp_minus_1)

lemma unat_ALIGN_DOWN_64 [align_simps]: "unat (ALIGN_DOWN v 64) = unat v div 64 * 64"
  using unat_and_not_mask [of v 6] by (simp add: ALIGN_DOWN_def mask_numerals)

lemma unat_ALIGN_DOWN_4096 [align_simps]: "unat (ALIGN_DOWN v 4096) = unat v div 4096 * 4096"
  using unat_and_not_mask [of v 12] by (simp add: ALIGN_DOWN_def mask_numerals)

lemma unat_ALIGN_UP_64 [align_simps]:
  assumes "unat v + 63 < 2 ^ 64"
  shows "unat (ALIGN_UP v 64) = (unat v + 63) div 64 * 64"
proof -
  have "unat (v + 63) = unat v + 63"
    using assms by (subst unat_add_no_overflow) simp_all
  then show ?thesis
    using unat_and_not_mask [of "v + 63" 6]
    by (simp add: ALIGN_UP_def mask_numerals [symmetric] add.commute)
qed

lemma unat_ALIGN_UP_4096 [align_simps]:
  assumes "unat v + 4095 < 2 ^ 64"
  shows "unat (ALIGN_UP v 4096) = (unat v + 4095) div 4096 * 4096"
proof -
  have "unat (v + 4095) = unat v + 4095"
    using assms by (subst unat_add_no_overflow) simp_all
  then show ?thesis
    using unat_and_not_mask [of "v + 4095" 12]
    by (simp add: ALIGN_UP_def mask_numerals [symmetric] add.commute)
qed

end
