(* ===== verification/Mem.thy ===== *)
theory Mem
  imports Prelude
begin

text \<open>
  Byte-addressed memory and the block routines of \<^verbatim>\<open>klib/mem.c\<close>. Memory is a total map
  from 64-bit addresses to bytes; a \<^verbatim>\<open>uint64_t\<close> access reads or writes eight bytes in
  little-endian order. \<^verbatim>\<open>memcpy\<close>, \<^verbatim>\<open>memset\<close> and \<^verbatim>\<open>memmove\<close> return \<^verbatim>\<open>dest\<close> on every path,
  so their models give the memory only.
\<close>

section \<open>Memory accesses\<close>

type_synonym mem = "u64 \<Rightarrow> u8"

definition rd64 :: "mem \<Rightarrow> u64 \<Rightarrow> u64" where
  "rd64 m a =
     ucast (m a) OR push_bit 8 (ucast (m (a + 1))) OR push_bit 16 (ucast (m (a + 2))) OR
     push_bit 24 (ucast (m (a + 3))) OR push_bit 32 (ucast (m (a + 4))) OR
     push_bit 40 (ucast (m (a + 5))) OR push_bit 48 (ucast (m (a + 6))) OR
     push_bit 56 (ucast (m (a + 7)))"

definition wr64 :: "mem \<Rightarrow> u64 \<Rightarrow> u64 \<Rightarrow> mem" where
  "wr64 m a v = (\<lambda>x. if x - a < 8 then ucast (drop_bit (8 * unat (x - a)) v) else m x)"

lemma lt8_cases:
  fixes j :: nat
  assumes "j < 8"
  obtains "j = 0" | "j = 1" | "j = 2" | "j = 3" | "j = 4" | "j = 5" | "j = 6" | "j = 7"
  using assms by linarith

lemma bit_rd64:
  "bit (rd64 m a) n \<longleftrightarrow> n < 64 \<and> bit (m (a + of_nat (n div 8))) (n mod 8)"
proof (cases "n < 64")
  case True
  obtain j r where n: "n = 8 * j + r" and r: "r < 8"
    by (metis mod_less_divisor mult_div_mod_eq zero_less_numeral)
  have j: "j < 8" and jr: "n div 8 = j" "n mod 8 = r"
    using True n r by auto
  have hi: "\<And>x :: u8. \<And>k. 8 \<le> k \<Longrightarrow> \<not> bit x k"
    by (auto dest: bit_imp_le_length)
  show ?thesis
    unfolding rd64_def jr unfolding n
    using r by (cases rule: lt8_cases [OF j]) (simp_all add: bit_simps hi)
next
  case False
  then show ?thesis
    by (auto dest: bit_imp_le_length)
qed

lemma unat_lt8:
  fixes x :: u64
  shows "x < 8 \<longleftrightarrow> unat x < 8"
  by (simp add: word_less_nat_alt)

lemma rd64_wr64_same [simp]: "rd64 (wr64 m a v) a = v"
proof (rule bit_eqI)
  fix n
  show "bit (rd64 (wr64 m a v) a) n = bit v n"
  proof (cases "n < 64")
    case True
    then have lt: "n div 8 < 8"
      by linarith
    then have "unat (word_of_nat (n div 8) :: u64) = n div 8"
      by (simp add: unat_of_nat)
    with True lt show ?thesis
      by (simp add: bit_rd64 wr64_def bit_simps unat_lt8 del: div_less)
  next
    case False
    then show ?thesis
      by (auto simp: bit_rd64 dest: bit_imp_le_length)
  qed
qed

lemma rd64_cong:
  assumes "\<And>i. i < 8 \<Longrightarrow> m (a + i) = m' (a' + i)"
  shows "rd64 m a = rd64 m' a'"
  using assms [of 0] assms [of 1] assms [of 2] assms [of 3] assms [of 4] assms [of 5]
    assms [of 6] assms [of 7]
  by (simp add: rd64_def)

text \<open>Two eight-byte cells that do not overlap.\<close>

lemma diff_less_8:
  fixes i j :: u64
  assumes "i < 8" and "j < 8"
  shows "i - j < 8 \<or> j - i < 8"
  using assms by (auto simp: word_less_nat_alt unat_sub_if')

definition apart8 :: "u64 \<Rightarrow> u64 \<Rightarrow> bool" where
  "apart8 a b \<longleftrightarrow> 8 \<le> a - b \<and> 8 \<le> b - a"

lemma apart8_sym: "apart8 a b \<longleftrightarrow> apart8 b a"
  by (auto simp: apart8_def)

lemma apart8_offset:
  assumes "apart8 a b" and "i < 8"
  shows "\<not> b + i - a < 8"
proof
  assume lt: "b + i - a < 8"
  have "b - a = (b + i - a) - i" and "a - b = i - (b + i - a)"
    by simp_all
  with assms lt show False
    unfolding apart8_def by (metis diff_less_8 not_le)
qed

lemma rd64_wr64_apart [simp]:
  assumes "apart8 a b"
  shows "rd64 (wr64 m a v) b = rd64 m b"
  by (rule rd64_cong) (simp add: wr64_def apart8_offset [OF assms])

lemma wr64_outside: "\<not> x - a < 8 \<Longrightarrow> wr64 m a v x = m x"
  by (simp add: wr64_def)

text \<open>Copying a word copies its eight bytes, whatever the overlap.\<close>

lemma byte_of_rd64:
  assumes "j < 8"
  shows "ucast (drop_bit (8 * unat j) (rd64 m a)) = m (a + j)"
proof (rule bit_word_eqI)
  fix n :: nat
  assume n: "n < LENGTH(8)"
  have "unat j < 8"
    using assms by (simp add: unat_lt8)
  then have "(8 * unat j + n) div 8 = unat j" and "(8 * unat j + n) mod 8 = n" and
    "8 * unat j + n < 64"
    using n by auto
  then show "bit (ucast (drop_bit (8 * unat j) (rd64 m a)) :: u8) n = bit (m (a + j)) n"
    using n by (simp add: bit_simps bit_rd64)
qed

lemma wr64_rd64:
  "wr64 m d (rd64 m s) = (\<lambda>x. if x - d < 8 then m (s + (x - d)) else m x)"
  by (rule ext) (simp add: wr64_def byte_of_rd64)

section \<open>Filling a block\<close>

text \<open>
  \<open>filled m d f S\<close> is \<open>m\<close> with the bytes at the offsets \<open>S\<close> from \<open>d\<close> replaced by
  \<open>f\<close>: what a block routine has done after it has written exactly the offsets in \<open>S\<close>.
\<close>

definition filled :: "mem \<Rightarrow> u64 \<Rightarrow> (u64 \<Rightarrow> u8) \<Rightarrow> u64 set \<Rightarrow> mem" where
  "filled m d f S = (\<lambda>x. if x - d \<in> S then f (x - d) else m x)"

definition word_at :: "u64 \<Rightarrow> u64 set" where
  "word_at i = {x. x - i < 8}"

lemma filled_empty: "m = filled m d f {}"
  by (simp add: filled_def)

lemma filled_byte: "(filled m d f S)(d + i := f i) = filled m d f (insert i S)"
  by (rule ext) (auto simp: filled_def)

lemma filled_const:
  "(filled m d (\<lambda>_. c) S)(d + i := c) = filled m d (\<lambda>_. c) (insert i S)"
  using filled_byte [of m d "\<lambda>_. c" S i] by simp

lemma filled_word:
  assumes "\<And>j. j < 8 \<Longrightarrow> ucast (drop_bit (8 * unat j) v) = f (i + j)"
  shows "wr64 (filled m d f S) (d + i) v = filled m d f (S \<union> word_at i)"
proof (rule ext)
  fix x
  have e: "x - (d + i) = x - d - i" by simp
  show "wr64 (filled m d f S) (d + i) v x = filled m d f (S \<union> word_at i) x"
    unfolding filled_def wr64_def word_at_def e using assms [of "x - d - i"] by auto
qed

lemma word_at_below:
  assumes "unat i + 8 \<le> unat n"
  shows "word_at i \<subseteq> {..<n}"
proof
  fix x assume "x \<in> word_at i"
  then have "unat (x - i) < 8"
    by (simp add: word_at_def unat_lt8)
  then have "unat (i + (x - i)) = unat i + unat (x - i)"
    using assms unat64_bound [of n] by (subst unat_add_no_overflow) auto
  then show "x \<in> {..<n}"
    using assms \<open>unat (x - i) < 8\<close> by (simp add: word_less_nat_alt)
qed

lemma word_at_iff:
  assumes "unat i + 8 \<le> 2 ^ 64"
  shows "x \<in> word_at i \<longleftrightarrow> unat i \<le> unat x \<and> unat x < unat i + 8"
  using assms unat64_bound [of x]
  by (auto simp: word_at_def unat_lt8 unat_sub_if' split: if_splits)

text \<open>The offsets from \<open>a\<close> up to, not including, \<open>b\<close>.\<close>

definition offs :: "nat \<Rightarrow> nat \<Rightarrow> u64 set" where
  "offs a b = {x. a \<le> unat x \<and> unat x < b}"

lemma offs_iff [simp]: "x \<in> offs a b \<longleftrightarrow> a \<le> unat x \<and> unat x < b"
  by (simp add: offs_def)

lemma offs_join [simp]: "a \<le> b \<Longrightarrow> b \<le> c \<Longrightarrow> S \<union> offs a b \<union> offs b c = S \<union> offs a c"
  by auto

lemma offs_empty [simp]: "offs a a = {}"
  by auto

lemma word_at_offs: "unat i + 8 \<le> 2 ^ 64 \<Longrightarrow> word_at i = offs (unat i) (unat i + 8)"
  by (auto simp: word_at_iff)

lemma filled_word_offs:
  assumes "\<And>j. j < 8 \<Longrightarrow> ucast (drop_bit (8 * unat j) v) = f (i + j)"
    and "unat i + 8 \<le> 2 ^ 64"
  shows "wr64 (filled m d f S) (d + i) v = filled m d f (S \<union> offs (unat i) (unat i + 8))"
  using filled_word [OF assms(1)] word_at_offs [OF assms(2)] by simp

section \<open>memset\<close>

function memset_words4 :: "mem \<Rightarrow> u64 \<Rightarrow> u64 \<Rightarrow> u64 \<Rightarrow> mem \<times> u64 \<times> u64" where
  "memset_words4 m ws n wc =
     (if 4 \<le> n then
        let m = wr64 m ws wc;
            m = wr64 m (ws + 8) wc;
            m = wr64 m (ws + 16) wc;
            m = wr64 m (ws + 24) wc
        in memset_words4 m (ws + 32) (n - 4) wc
      else (m, ws, n))"
  by pat_completeness auto
termination
  by (relation "measure (\<lambda>(m, ws, n, wc). unat n)") (auto simp: word_le_nat_alt unat_sub_if')

function memset_words1 :: "mem \<Rightarrow> u64 \<Rightarrow> u64 \<Rightarrow> u64 \<Rightarrow> mem" where
  "memset_words1 m ws n wc =
     (if 0 < n then memset_words1 (wr64 m ws wc) (ws + 8) (n - 1) wc else m)"
  by pat_completeness auto
termination
  by (relation "measure (\<lambda>(m, ws, n, wc). unat n)") (auto simp: word_less_nat_alt unat_sub_if')

declare memset_words4.simps [simp del] memset_words1.simps [simp del]

definition memset_word :: "u32 \<Rightarrow> u64" where
  "memset_word c =
     (let wc = ucast (c AND 0xFF) :: u64;
          wc = wc OR (push_bit 8 wc OR push_bit 16 wc OR push_bit 24 wc);
          wc = wc OR push_bit 32 wc
      in wc)"

definition memset :: "mem \<Rightarrow> u64 \<Rightarrow> u32 \<Rightarrow> u64 \<Rightarrow> mem" where
  "memset m dest c n =
     (let s = dest; b = (ucast c :: u8) in
      if n = 0 then m else
      let m = m(s + (n - 1) := b, s := b) in
      if n \<le> 2 then m else
      let m = m(s + (n - 2) := b, s + 1 := b);
          m = m(s + (n - 3) := b, s + 2 := b) in
      if n \<le> 6 then m else
      let m = m(s + (n - 4) := b, s + 3 := b) in
      if n \<le> 8 then m else
      let m = m(s + (n - 5) := b, s + 4 := b);
          m = m(s + (n - 6) := b, s + 5 := b);
          m = m(s + (n - 7) := b, s + 6 := b);
          m = m(s + (n - 8) := b, s + 7 := b) in
      if n \<le> 16 then m else
      let k = (- s) AND 7;
          s = s + k;
          n = n - k;
          n = n AND (- 8);
          n = n div 8;
          ws = s;
          wc = memset_word c
      in case memset_words4 m ws n wc of (m, ws, n) \<Rightarrow> memset_words1 m ws n wc)"

lemma memset_pattern:
  fixes c :: u32
  assumes "j < 8"
  shows "ucast (drop_bit (8 * unat (j :: u64)) (memset_word c)) = (ucast c :: u8)"
proof (rule bit_word_eqI)
  fix n :: nat
  assume n: "n < LENGTH(8)"
  have ff: "(0xFF :: u32) = mask 8"
    by (simp add: mask_eq_exp_minus_1)
  have "unat j < 8"
    using assms by (simp add: unat_lt8)
  then show "bit (ucast (drop_bit (8 * unat j) (memset_word c)) :: u8) n = bit (ucast c :: u8) n"
    unfolding memset_word_def ff Let_def using n
    by (cases rule: lt8_cases) (auto simp: bit_simps)
qed

lemma memset_words4_filled:
  assumes "\<And>j :: u64. j < 8 \<Longrightarrow> ucast (drop_bit (8 * unat j) wc) = c"
    and "unat i + 8 * unat n < 2 ^ 64"
  shows "\<exists>i' n'. memset_words4 (filled m d (\<lambda>_. c) S) (d + i) n wc =
           (filled m d (\<lambda>_. c) (S \<union> offs (unat i) (unat i')), d + i', n') \<and>
           unat i \<le> unat i' \<and> unat i' + 8 * unat n' = unat i + 8 * unat n"
  using assms(2)
proof (induction "unat n" arbitrary: n i S rule: less_induct)
  case less
  show ?case
  proof (cases "4 \<le> n")
    case True
    let ?m = "filled m d (\<lambda>_. c)"
    have n: "4 \<le> unat n" "unat (n - 4) = unat n - 4"
      using True by (simp_all add: word_le_nat_alt unat_sub)
    have u: "unat (i + 8) = unat i + 8" "unat (i + 16) = unat i + 16"
      "unat (i + 24) = unat i + 24" "unat (i + 32) = unat i + 32"
      using less.prems n by (subst unat_add_no_overflow; simp)+
    have w: "\<And>S x. unat x + 8 \<le> 2 ^ 64 \<Longrightarrow>
        wr64 (?m S) (d + x) wc = ?m (S \<union> offs (unat x) (unat x + 8))"
      by (rule filled_word_offs) (simp_all add: assms(1))
    have step: "memset_words4 (?m S) (d + i) n wc =
        memset_words4 (?m (S \<union> offs (unat i) (unat (i + 32)))) (d + (i + 32)) (n - 4) wc"
      using True less.prems n w [of i S] w [of "i + 8"] w [of "i + 16"] w [of "i + 24"] u
      by (subst memset_words4.simps) (simp add: Let_def add.assoc)
    from less.hyps [of "n - 4" "i + 32" "S \<union> offs (unat i) (unat (i + 32))"]
    show ?thesis
      unfolding step using less.prems n u by (fastforce simp: offs_join)
  next
    case False
    then show ?thesis
      by (subst memset_words4.simps) (auto intro: exI [of _ i] exI [of _ n])
  qed
qed

lemma memset_words1_filled:
  assumes "\<And>j :: u64. j < 8 \<Longrightarrow> ucast (drop_bit (8 * unat j) wc) = c"
    and "unat i + 8 * unat n < 2 ^ 64"
  shows "memset_words1 (filled m d (\<lambda>_. c) S) (d + i) n wc =
           filled m d (\<lambda>_. c) (S \<union> offs (unat i) (unat i + 8 * unat n))"
  using assms(2)
proof (induction "unat n" arbitrary: n i S rule: less_induct)
  case less
  show ?case
  proof (cases "0 < n")
    case True
    then have n: "0 < unat n" "unat (n - 1) = unat n - 1"
      by (simp_all add: word_less_nat_alt unat_minus_one unat_gt_0)
    have u: "unat (i + 8) = unat i + 8"
      using less.prems n by (subst unat_add_no_overflow; simp)
    have "wr64 (filled m d (\<lambda>_. c) S) (d + i) wc =
        filled m d (\<lambda>_. c) (S \<union> offs (unat i) (unat i + 8))"
      using less.prems n by (intro filled_word_offs) (simp_all add: assms(1))
    then have "memset_words1 (filled m d (\<lambda>_. c) S) (d + i) n wc =
        memset_words1 (filled m d (\<lambda>_. c) (S \<union> offs (unat i) (unat i + 8))) (d + (i + 8)) (n - 1) wc"
      using True by (subst memset_words1.simps) (simp add: add.assoc)
    also have "\<dots> = filled m d (\<lambda>_. c) (S \<union> offs (unat i) (unat i + 8) \<union>
        offs (unat (i + 8)) (unat (i + 8) + 8 * unat (n - 1)))"
      using less.prems n u by (intro less.hyps) auto
    also have "S \<union> offs (unat i) (unat i + 8) \<union> offs (unat (i + 8)) (unat (i + 8) + 8 * unat (n - 1)) =
        S \<union> offs (unat i) (unat i + 8 * unat n)"
      using n u by auto
    finally show ?thesis .
  next
    case False
    then have "n = 0"
      by (simp add: word_less_nat_alt unat_eq_0)
    then show ?thesis
      by (subst memset_words1.simps) simp
  qed
qed

text \<open>The alignment prologue and the length in words, shared by the three block routines.\<close>

lemma align_prologue:
  fixes x n :: u64
  assumes "16 < n" and "k = x AND 7"
  shows "unat k < 8" and "unat (n - k) = unat n - unat k"
    and "unat (((n - k) AND (- 8)) div 8) = (unat n - unat k) div 8"
proof -
  show k: "unat k < 8"
    unfolding assms(2) mask_numerals unat_and_mask by simp
  show nk: "unat (n - k) = unat n - unat k"
    using k assms(1) by (intro unat_sub) (simp add: word_less_nat_alt word_le_nat_alt)
  have "(- 8 :: u64) = NOT (mask 3)"
    by (simp add: mask_eq_exp_minus_1)
  then show "unat (((n - k) AND (- 8)) div 8) = (unat n - unat k) div 8"
    using unat_and_not_mask [of "n - k" 3] by (simp add: unat_div nk)
qed

text \<open>
  All three routines first write the first and the last few bytes of the block, in pairs
  from both ends. \<open>ends a n\<close> are the offsets written after \<open>a\<close> such pairs.
\<close>

definition ends :: "nat \<Rightarrow> u64 \<Rightarrow> u64 set" where
  "ends a n = {x. unat x < a \<or> (unat n \<le> unat x + a \<and> unat x < unat n)}"

lemma ends_0: "ends 0 n = {}"
  by (auto simp: ends_def)

lemma ends_Suc:
  assumes "a < unat n"
  shows "insert (of_nat a) (insert (n - of_nat (Suc a)) (ends a n)) = ends (Suc a) n"
proof -
  have a: "unat (of_nat a :: u64) = a" "unat (of_nat (Suc a) :: u64) = Suc a"
    using assms unat64_bound [of n] by (simp_all add: unat_of_nat del: of_nat_Suc)
  have "unat (n - of_nat (Suc a)) = unat n - Suc a"
    using assms a by (subst unat_sub) (simp_all add: word_le_nat_alt del: of_nat_Suc)
  then show ?thesis
    using assms a(1) by (auto simp: ends_def word_unat_eq_iff [where 'a = 64])
qed

lemma ends_all:
  assumes "unat n \<le> 2 * a" and "a \<le> unat n"
  shows "ends a n = {..<n}"
  using assms by (auto simp: ends_def word_less_nat_alt)

lemma ends_below: "a \<le> unat n \<Longrightarrow> ends a n \<subseteq> {..<n}"
  by (auto simp: ends_def word_less_nat_alt)

text \<open>The end of a block routine: ends, aligned head and words together cover the block.\<close>

lemma ends_words_all:
  assumes "16 < n" and "k < 8" and "w = (unat n - k) div 8"
  shows "ends 8 n \<union> offs k (k + 8 * w) = {..<n}"
proof -
  have "unat n < k + 8 * w + 8" and "16 < unat n" and "k + 8 * w \<le> unat n"
    using assms by (auto simp: word_less_nat_alt)
  then show ?thesis
    using assms(2) by (auto simp: ends_def word_less_nat_alt)
qed

lemma length_cases:
  fixes n :: u64
  shows "n = 0 \<or> 0 < unat n \<and> unat n \<le> 2 \<or> 2 < unat n \<and> unat n \<le> 6 \<or>
    6 < unat n \<and> unat n \<le> 8 \<or> 8 < unat n \<and> unat n \<le> 16 \<or> 16 < n"
  by (auto simp: word_less_nat_alt unat_0_iff [symmetric])

lemma memset_pair:
  assumes "a < unat n"
  shows "(filled m d (\<lambda>_. c) (ends a n))(d + (n - of_nat (Suc a)) := c, d + of_nat a := c) =
           filled m d (\<lambda>_. c) (ends (Suc a) n)"
  by (simp add: filled_const ends_Suc [OF assms, symmetric] del: of_nat_Suc)

lemma memset_eq:
  "memset m d c n = (\<lambda>x. if x - d < n then ucast c else m x)"
proof -
  let ?c = "ucast c :: u8"
  let ?f = "filled m d (\<lambda>_. ?c)"
  have fin: "?f {..<n} = (\<lambda>x. if x - d < n then ucast c else m x)"
    by (rule ext) (simp add: filled_def)
  have le: "\<And>b :: u64. b < n \<longleftrightarrow> unat b < unat n" "\<And>b :: u64. n \<le> b \<longleftrightarrow> unat n \<le> unat b"
    by (simp_all add: word_less_nat_alt word_le_nat_alt)
  have e1: "0 < unat n \<Longrightarrow> m(d + (n - 1) := ?c, d := ?c) = ?f (ends (Suc 0) n)"
    using memset_pair [of 0 n m d ?c] by (simp add: ends_0 filled_empty [symmetric])
  have e: "Suc 0 < unat n \<Longrightarrow> (?f (ends (Suc 0) n))(d + (n - 2) := ?c, d + 1 := ?c) = ?f (ends 2 n)"
    "2 < unat n \<Longrightarrow> (?f (ends 2 n))(d + (n - 3) := ?c, d + 2 := ?c) = ?f (ends 3 n)"
    "3 < unat n \<Longrightarrow> (?f (ends 3 n))(d + (n - 4) := ?c, d + 3 := ?c) = ?f (ends 4 n)"
    "4 < unat n \<Longrightarrow> (?f (ends 4 n))(d + (n - 5) := ?c, d + 4 := ?c) = ?f (ends 5 n)"
    "5 < unat n \<Longrightarrow> (?f (ends 5 n))(d + (n - 6) := ?c, d + 5 := ?c) = ?f (ends 6 n)"
    "6 < unat n \<Longrightarrow> (?f (ends 6 n))(d + (n - 7) := ?c, d + 6 := ?c) = ?f (ends 7 n)"
    "7 < unat n \<Longrightarrow> (?f (ends 7 n))(d + (n - 8) := ?c, d + 7 := ?c) = ?f (ends 8 n)"
    using memset_pair [of 1 n m d ?c] memset_pair [of 2 n m d ?c] memset_pair [of 3 n m d ?c]
      memset_pair [of 4 n m d ?c] memset_pair [of 5 n m d ?c] memset_pair [of 6 n m d ?c]
      memset_pair [of 7 n m d ?c]
    by (simp_all add: numeral_eq_Suc)
  consider "n = 0" | "0 < unat n" "unat n \<le> 2" | "2 < unat n" "unat n \<le> 6"
    | "6 < unat n" "unat n \<le> 8" | "8 < unat n" "unat n \<le> 16" | "16 < n"
    by (metis length_cases)
  then show ?thesis
  proof cases
    case 6
    define k where "k = (- d) AND 7"
    note pro = align_prologue [OF 6 k_def]
    let ?w = "((n - k) AND (- 8)) div 8"
    let ?wc = "memset_word c"
    note pat = memset_pattern [of _ c]
    have "unat k + 8 * unat ?w < 2 ^ 64"
      using pro 6 unat64_bound [of n] by (simp add: word_less_nat_alt)
    from memset_words4_filled [OF pat this, of m d "ends 8 n"]
    obtain i' n' where w4: "memset_words4 (?f (ends 8 n)) (d + k) ?w ?wc =
          (?f (ends 8 n \<union> offs (unat k) (unat i')), d + i', n')"
      and i': "unat k \<le> unat i'" "unat i' + 8 * unat n' = unat k + 8 * unat ?w"
      by blast
    have w1: "memset_words1 (?f (ends 8 n \<union> offs (unat k) (unat i'))) (d + i') n' ?wc =
        ?f (ends 8 n \<union> offs (unat k) (unat k + 8 * unat ?w))"
      using memset_words1_filled [OF pat, of i' n' m d "ends 8 n \<union> offs (unat k) (unat i')"]
        i' \<open>unat k + 8 * unat ?w < 2 ^ 64\<close> by simp
    have "ends 8 n \<union> offs (unat k) (unat k + 8 * unat ?w) = {..<n}"
      using 6 pro by (intro ends_words_all) simp_all
    moreover have "memset m d c n = (case memset_words4 (?f (ends 8 n)) (d + k) ?w ?wc of
        (m, ws, n) \<Rightarrow> memset_words1 m ws n ?wc)"
      using 6 by (simp add: memset_def Let_def e1 e word_less_nat_alt word_le_nat_alt k_def
          unat_0_iff [symmetric])
    ultimately show ?thesis
      using w4 w1 fin by simp
  next
    case 1
    then show ?thesis
      by (simp add: memset_def)
  qed (simp_all add: memset_def Let_def e1 e ends_all fin [symmetric] word_le_nat_alt
        unat_0_iff [symmetric])
qed

text \<open>C18. \<^verbatim>\<open>memset\<close> sets exactly the \<open>n\<close> bytes of the block, for every length and alignment.\<close>

theorem memset_correct:
  "memset m d c n = (\<lambda>x. if x - d < n then ucast c else m x)"
  by (rule memset_eq)

section \<open>memcpy\<close>

text \<open>\<^verbatim>\<open>d[i] = s[i]\<close> on bytes and on 64-bit words.\<close>

definition put8 :: "mem \<Rightarrow> u64 \<Rightarrow> u64 \<Rightarrow> u64 \<Rightarrow> mem" where
  "put8 m d s i = m(d + i := m (s + i))"

definition put64 :: "mem \<Rightarrow> u64 \<Rightarrow> u64 \<Rightarrow> u64 \<Rightarrow> mem" where
  "put64 m d s i = wr64 m (d + 8 * i) (rd64 m (s + 8 * i))"

function memcpy_words4 :: "mem \<Rightarrow> u64 \<Rightarrow> u64 \<Rightarrow> u64 \<Rightarrow> u64 \<Rightarrow> mem \<times> u64 \<times> u64" where
  "memcpy_words4 m d64 s64 i total_words =
     (if 4 \<le> total_words then
        let m = put64 m d64 s64 i;
            m = put64 m d64 s64 (i + 1);
            m = put64 m d64 s64 (i + 2);
            m = put64 m d64 s64 (i + 3)
        in memcpy_words4 m d64 s64 (i + 4) (total_words - 4)
      else (m, i, total_words))"
  by pat_completeness auto
termination
  by (relation "measure (\<lambda>(m, d, s, i, tw). unat tw)") (auto simp: word_le_nat_alt unat_sub_if')

function memcpy_words1 :: "mem \<Rightarrow> u64 \<Rightarrow> u64 \<Rightarrow> u64 \<Rightarrow> u64 \<Rightarrow> mem" where
  "memcpy_words1 m d64 s64 i total_words =
     (if 0 < total_words then
        memcpy_words1 (put64 m d64 s64 i) d64 s64 (i + 1) (total_words - 1)
      else m)"
  by pat_completeness auto
termination
  by (relation "measure (\<lambda>(m, d, s, i, tw). unat tw)") (auto simp: word_less_nat_alt unat_sub_if')

declare memcpy_words4.simps [simp del] memcpy_words1.simps [simp del]

definition memcpy :: "mem \<Rightarrow> u64 \<Rightarrow> u64 \<Rightarrow> u64 \<Rightarrow> mem" where
  "memcpy m dest src n =
     (let d = dest; s = src in
      if n = 0 then m else
      let m = put8 m d s 0;
          m = put8 m d s (n - 1) in
      if n \<le> 2 then m else
      let m = put8 m d s 1;
          m = put8 m d s (n - 2);
          m = put8 m d s 2;
          m = put8 m d s (n - 3) in
      if n \<le> 6 then m else
      let m = put8 m d s 3;
          m = put8 m d s (n - 4) in
      if n \<le> 8 then m else
      let m = put8 m d s 4;
          m = put8 m d s (n - 5);
          m = put8 m d s 5;
          m = put8 m d s (n - 6);
          m = put8 m d s 6;
          m = put8 m d s (n - 7);
          m = put8 m d s 7;
          m = put8 m d s (n - 8) in
      if n \<le> 16 then m else
      let k = (- d) AND 7;
          m = for_range 0 k (\<lambda>i m. put8 m d s i) m;
          d = d + k;
          s = s + k;
          n = n - k;
          n = n AND (- 8);
          total_words = n div 8
      in case memcpy_words4 m d s 0 total_words of
           (m, i, total_words) \<Rightarrow> memcpy_words1 m d s i total_words)"

text \<open>
  The two blocks share no byte. Offsets are taken modulo \<open>2 ^ 64\<close>, as the addresses are.
\<close>

definition no_overlap :: "u64 \<Rightarrow> u64 \<Rightarrow> u64 \<Rightarrow> bool" where
  "no_overlap d s n \<longleftrightarrow> n \<le> s - d \<and> n \<le> d - s"

lemma diff_less:
  fixes i j n :: u64
  assumes "i < n" and "j < n"
  shows "i - j < n \<or> j - i < n"
  using assms by (auto simp: word_less_nat_alt unat_sub_if')

definition copying :: "mem \<Rightarrow> u64 \<Rightarrow> u64 \<Rightarrow> u64 set \<Rightarrow> mem" where
  "copying m d s = filled m d (\<lambda>j. m (s + j))"

lemma copying_read:
  assumes "no_overlap d s n" and "S \<subseteq> {..<n}" and "i < n"
  shows "copying m d s S (s + i) = m (s + i)"
proof -
  have "s + i - d \<notin> S"
  proof
    assume "s + i - d \<in> S"
    then have j: "s + i - d < n"
      using assms(2) by auto
    have "s - d = (s + i - d) - i" and "d - s = i - (s + i - d)"
      by simp_all
    then show False
      using diff_less [OF j assms(3)] assms(1) unfolding no_overlap_def by (metis not_le)
  qed
  then show ?thesis
    by (simp add: copying_def filled_def)
qed

lemma put8_copying:
  assumes "no_overlap d s n" and "S \<subseteq> {..<n}" and "i < n"
  shows "put8 (copying m d s S) d s i = copying m d s (insert i S)"
  unfolding put8_def copying_read [OF assms]
  using filled_byte [of m d "\<lambda>j. m (s + j)" S i] by (simp add: copying_def)

lemma wr64_copying:
  assumes ov: "no_overlap d s n" "S \<subseteq> {..<n}" and i: "unat i + 8 \<le> unat n"
  shows "wr64 (copying m d s S) (d + i) (rd64 (copying m d s S) (s + i)) =
           copying m d s (S \<union> offs (unat i) (unat i + 8))"
proof -
  have lt: "j < 8 \<Longrightarrow> i + j < n" for j
    using subsetD [OF word_at_below [OF i], of "i + j"] by (simp add: word_at_def)
  have "rd64 (copying m d s S) (s + i) = rd64 m (s + i)"
    by (rule rd64_cong) (use copying_read [OF ov lt] in \<open>simp add: add.assoc\<close>)
  then show ?thesis
    using i unat64_bound [of n]
    by (simp add: copying_def, intro filled_word_offs) (simp_all add: byte_of_rd64 add.assoc)
qed

text \<open>
  The loops of the aligned part, at byte offset \<open>k\<close> of the block. The destination covered
  so far grows by eight bytes for each word.
\<close>

lemma put64_copying:
  assumes "no_overlap d s n" "S \<subseteq> {..<n}" and "unat k + 8 * unat i + 8 \<le> unat n"
  shows "put64 (copying m d s S) (d + k) (s + k) i =
           copying m d s (S \<union> offs (unat k + 8 * unat i) (unat k + 8 * unat i + 8))"
proof -
  have "unat (8 * i) = 8 * unat i"
    using assms(3) unat64_bound [of n] by (simp add: unat_word_ariths)
  then have u: "unat (k + 8 * i) = unat k + 8 * unat i"
    using assms(3) unat64_bound [of n] by (subst unat_add_no_overflow) simp_all
  show ?thesis
    using wr64_copying [OF assms(1,2), of "k + 8 * i" m] assms(3)
    by (simp add: put64_def u add.assoc)
qed

lemma offs_below: "b \<le> unat n \<Longrightarrow> offs a b \<subseteq> {..<n}"
  by (auto simp: word_less_nat_alt)

lemma memcpy_words4_copying:
  assumes "no_overlap d s n" and "S \<subseteq> {..<n}"
    and "unat k + 8 * (unat i + unat tw) \<le> unat n"
  shows "\<exists>i' tw'. memcpy_words4 (copying m d s S) (d + k) (s + k) i tw =
           (copying m d s (S \<union> offs (unat k + 8 * unat i) (unat k + 8 * unat i')), i', tw') \<and>
           unat i \<le> unat i' \<and> unat i' + unat tw' = unat i + unat tw"
  using assms(2,3)
proof (induction "unat tw" arbitrary: tw i S rule: less_induct)
  case less
  show ?case
  proof (cases "4 \<le> tw")
    case True
    let ?c = "copying m d s"
    have n: "4 \<le> unat tw" "unat (tw - 4) = unat tw - 4"
      using True by (simp_all add: word_le_nat_alt unat_sub)
    have bnd: "unat i + 4 < 2 ^ 64"
      using less.prems(2) n unat64_bound [of n] by simp
    have u: "unat (i + 1) = unat i + 1" "unat (i + 2) = unat i + 2"
      "unat (i + 3) = unat i + 3" "unat (i + 4) = unat i + 4"
      using bnd by (subst unat_add_no_overflow; simp)+
    let ?o = "\<lambda>c. unat k + 8 * (unat i + c)"
    have sub: "S \<union> offs (?o 0) (?o c) \<subseteq> {..<n}" if "c \<le> 4" for c
      using less.prems n offs_below [of "?o c" n] that by simp
    have w: "put64 (?c (S \<union> offs (?o 0) (?o c))) (d + k) (s + k) (i + of_nat c) =
        ?c (S \<union> offs (?o 0) (?o (Suc c)))" if "c < 4" for c
    proof -
      have c: "unat (i + of_nat c) = unat i + c"
        using bnd that by (subst unat_add_no_overflow) (simp_all add: unat_of_nat)
      show ?thesis
        using put64_copying [OF assms(1) sub, of c k "i + of_nat c" m] less.prems(2) n that
        by (simp add: c algebra_simps)
    qed
    have step: "memcpy_words4 (?c S) (d + k) (s + k) i tw =
        memcpy_words4 (?c (S \<union> offs (?o 0) (?o 4))) (d + k) (s + k) (i + 4) (tw - 4)"
      using True w [of 0] w [of 1] w [of 2] w [of 3]
      by (subst memcpy_words4.simps) (simp add: Let_def numeral_eq_Suc)
    have "unat (tw - 4) < unat tw" and "unat k + 8 * (unat (i + 4) + unat (tw - 4)) \<le> unat n"
      using less.prems(2) n u by auto
    from less.hyps [OF this(1) sub [of 4] this(2)] show ?thesis
      unfolding step using n u by (fastforce simp: algebra_simps)
  next
    case False
    then show ?thesis
      by (subst memcpy_words4.simps) (auto intro: exI [of _ i] exI [of _ tw])
  qed
qed

lemma memcpy_words1_copying:
  assumes "no_overlap d s n" and "S \<subseteq> {..<n}"
    and "unat k + 8 * (unat i + unat tw) \<le> unat n"
  shows "memcpy_words1 (copying m d s S) (d + k) (s + k) i tw =
           copying m d s (S \<union> offs (unat k + 8 * unat i) (unat k + 8 * (unat i + unat tw)))"
  using assms(2,3)
proof (induction "unat tw" arbitrary: tw i S rule: less_induct)
  case less
  show ?case
  proof (cases "0 < tw")
    case True
    let ?S = "S \<union> offs (unat k + 8 * unat i) (unat k + 8 * unat i + 8)"
    have n: "0 < unat tw" "unat (tw - 1) = unat tw - 1"
      using True by (simp_all add: word_less_nat_alt unat_minus_one unat_gt_0)
    have u: "unat (i + 1) = unat i + 1"
      using less.prems(2) n unat64_bound [of n] by (subst unat_add_no_overflow; simp)
    have sub: "?S \<subseteq> {..<n}"
      using less.prems n offs_below [of "unat k + 8 * unat i + 8" n] by simp
    have "memcpy_words1 (copying m d s S) (d + k) (s + k) i tw =
        memcpy_words1 (copying m d s ?S) (d + k) (s + k) (i + 1) (tw - 1)"
      using True put64_copying [OF assms(1) less.prems(1), of k i m] less.prems(2) n
      by (subst memcpy_words1.simps) simp
    also have "\<dots> = copying m d s (?S \<union>
        offs (unat k + 8 * unat (i + 1)) (unat k + 8 * (unat (i + 1) + unat (tw - 1))))"
      using less.prems n u by (intro less.hyps sub) auto
    also have "unat k + 8 * unat (i + 1) = unat k + 8 * unat i + 8"
      using u by simp
    also have "unat k + 8 * (unat (i + 1) + unat (tw - 1)) = unat k + 8 * (unat i + unat tw)"
      using n u by simp
    finally show ?thesis
      using n by simp
  next
    case False
    then have "tw = 0"
      by (simp add: word_less_nat_alt unat_eq_0)
    then show ?thesis
      by (subst memcpy_words1.simps) simp
  qed
qed

lemma memcpy_head_copying:
  assumes "no_overlap d s n" and "S \<subseteq> {..<n}" and "k \<le> n"
  shows "for_range 0 k (\<lambda>i m. put8 m d s i) (copying m d s S) =
           copying m d s (S \<union> offs 0 (unat k))"
proof (rule for_range_inv [where I = "\<lambda>j t. t = copying m d s (S \<union> offs 0 (unat j))"])
  fix j t
  assume j: "j < k" and t: "t = copying m d s (S \<union> offs 0 (unat j))"
  have "j < n"
    using j assms(3) by simp
  moreover have "S \<union> offs 0 (unat j) \<subseteq> {..<n}"
    using assms(2) offs_below [of "unat j" n 0] \<open>j < n\<close> by (simp add: word_less_nat_alt)
  moreover have "insert j (S \<union> offs 0 (unat j)) = S \<union> offs 0 (unat (j + 1))"
    using j by (auto simp: unat_succ_less word_unat_eq_iff [where 'a = 64])
  ultimately show "put8 t d s j = copying m d s (S \<union> offs 0 (unat (j + 1)))"
    using t put8_copying [OF assms(1)] by simp
qed simp_all

lemma memcpy_pair:
  assumes "no_overlap d s n" and a: "a < unat n"
  shows "put8 (put8 (copying m d s (ends a n)) d s (of_nat a)) d s (n - of_nat (Suc a)) =
           copying m d s (ends (Suc a) n)"
proof -
  have E: "ends a n \<subseteq> {..<n}" "insert (of_nat a) (insert (n - of_nat (Suc a)) (ends a n)) = ends (Suc a) n"
    "ends (Suc a) n \<subseteq> {..<n}"
    using a ends_Suc [OF a] ends_below [of a n] ends_below [of "Suc a" n] by simp_all
  then have "of_nat a < n" "n - of_nat (Suc a) < n"
    by (auto simp del: of_nat_Suc)
  then show ?thesis
    using E put8_copying [OF assms(1)] by (simp add: insert_commute del: of_nat_Suc)
qed

lemma memcpy_eq:
  assumes "no_overlap d s n"
  shows "memcpy m d s n = (\<lambda>x. if x - d < n then m (s + (x - d)) else m x)"
proof -
  let ?c = "copying m d s"
  have fin: "?c {..<n} = (\<lambda>x. if x - d < n then m (s + (x - d)) else m x)"
    by (rule ext) (simp add: copying_def filled_def)
  note pair = memcpy_pair [OF assms]
  have c0: "?c {} = m"
    by (simp add: copying_def filled_empty [symmetric])
  have e1: "0 < unat n \<Longrightarrow> put8 (put8 m d s 0) d s (n - 1) = ?c (ends (Suc 0) n)"
    using pair [of 0 m] by (simp add: ends_0 c0)
  have e: "Suc 0 < unat n \<Longrightarrow> put8 (put8 (?c (ends (Suc 0) n)) d s 1) d s (n - 2) = ?c (ends 2 n)"
    "2 < unat n \<Longrightarrow> put8 (put8 (?c (ends 2 n)) d s 2) d s (n - 3) = ?c (ends 3 n)"
    "3 < unat n \<Longrightarrow> put8 (put8 (?c (ends 3 n)) d s 3) d s (n - 4) = ?c (ends 4 n)"
    "4 < unat n \<Longrightarrow> put8 (put8 (?c (ends 4 n)) d s 4) d s (n - 5) = ?c (ends 5 n)"
    "5 < unat n \<Longrightarrow> put8 (put8 (?c (ends 5 n)) d s 5) d s (n - 6) = ?c (ends 6 n)"
    "6 < unat n \<Longrightarrow> put8 (put8 (?c (ends 6 n)) d s 6) d s (n - 7) = ?c (ends 7 n)"
    "7 < unat n \<Longrightarrow> put8 (put8 (?c (ends 7 n)) d s 7) d s (n - 8) = ?c (ends 8 n)"
    using pair [of 1 m] pair [of 2 m] pair [of 3 m] pair [of 4 m] pair [of 5 m] pair [of 6 m]
      pair [of 7 m]
    by (simp_all add: numeral_eq_Suc)
  consider "n = 0" | "0 < unat n" "unat n \<le> 2" | "2 < unat n" "unat n \<le> 6"
    | "6 < unat n" "unat n \<le> 8" | "8 < unat n" "unat n \<le> 16" | "16 < n"
    by (metis length_cases)
  then show ?thesis
  proof cases
    case 6
    define k where "k = (- d) AND 7"
    note pro = align_prologue [OF 6 k_def]
    let ?w = "((n - k) AND (- 8)) div 8"
    have n8: "8 \<le> unat n" and kw: "unat k + 8 * unat ?w \<le> unat n" and kn: "k \<le> n"
      using pro 6 by (simp_all add: word_less_nat_alt word_le_nat_alt)
    have hd: "for_range 0 k (\<lambda>i m. put8 m d s i) (?c (ends 8 n)) = ?c (ends 8 n \<union> offs 0 (unat k))"
      by (rule memcpy_head_copying [OF assms ends_below [OF n8] kn])
    have sub: "ends 8 n \<union> offs 0 (unat k) \<subseteq> {..<n}"
      using ends_below [OF n8] offs_below [of "unat k" n 0] kn by (simp add: word_le_nat_alt)
    obtain i' tw' where w4: "memcpy_words4 (?c (ends 8 n \<union> offs 0 (unat k))) (d + k) (s + k) 0 ?w =
          (?c (ends 8 n \<union> offs 0 (unat k) \<union> offs (unat k) (unat k + 8 * unat i')), i', tw')"
      and i': "unat i' + unat tw' = unat ?w"
      using memcpy_words4_copying [OF assms sub, of k 0 ?w m] kw by auto
    have "unat k + 8 * (unat i' + unat tw') \<le> unat n"
      using i' kw by simp
    then have w1: "memcpy_words1 (?c (ends 8 n \<union> offs 0 (unat k + 8 * unat i'))) (d + k) (s + k) i' tw' =
        ?c (ends 8 n \<union> offs 0 (unat k + 8 * unat ?w))"
      using memcpy_words1_copying [OF assms, of "ends 8 n \<union> offs 0 (unat k + 8 * unat i')" k i' tw' m]
        ends_below [OF n8] offs_below [of "unat k + 8 * unat i'" n 0] i' by simp
    have "ends 8 n \<union> offs (unat k) (unat k + 8 * unat ?w) = {..<n}"
      using 6 pro by (intro ends_words_all) simp_all
    moreover have "offs 0 (unat k) \<subseteq> {..<n}"
      using sub by simp
    moreover have "ends 8 n \<union> offs 0 (unat k + 8 * unat ?w) =
        ends 8 n \<union> offs 0 (unat k) \<union> offs (unat k) (unat k + 8 * unat ?w)"
      by simp
    ultimately have "ends 8 n \<union> offs 0 (unat k + 8 * unat ?w) = {..<n}"
      by blast
    moreover have "memcpy m d s n =
        (case memcpy_words4 (?c (ends 8 n \<union> offs 0 (unat k))) (d + k) (s + k) 0 ?w of
           (m, i, total_words) \<Rightarrow> memcpy_words1 m (d + k) (s + k) i total_words)"
      using 6 hd by (simp add: memcpy_def Let_def e1 e word_less_nat_alt word_le_nat_alt k_def
          unat_0_iff [symmetric])
    ultimately show ?thesis
      using w4 w1 fin by simp
  next
    case 1
    then show ?thesis
      by (simp add: memcpy_def)
  qed (simp_all add: memcpy_def Let_def e1 e ends_all fin [symmetric] word_le_nat_alt
        unat_0_iff [symmetric])
qed

text \<open>C19. On blocks that share no byte, \<^verbatim>\<open>memcpy\<close> copies the \<open>n\<close> bytes and changes nothing else.\<close>

theorem memcpy_correct:
  assumes "no_overlap d s n"
  shows "memcpy m d s n = (\<lambda>x. if x - d < n then m (s + (x - d)) else m x)"
  using assms by (rule memcpy_eq)

section \<open>memmove\<close>

function memmove_words4 :: "mem \<Rightarrow> u64 \<Rightarrow> u64 \<Rightarrow> u64 \<Rightarrow> mem \<times> u64 \<times> u64 \<times> u64" where
  "memmove_words4 m d64 s64 total_words =
     (if 4 \<le> total_words then
        let d64 = d64 - 32;
            s64 = s64 - 32;
            m = put64 m d64 s64 3;
            m = put64 m d64 s64 2;
            m = put64 m d64 s64 1;
            m = put64 m d64 s64 0
        in memmove_words4 m d64 s64 (total_words - 4)
      else (m, d64, s64, total_words))"
  by pat_completeness auto
termination
  by (relation "measure (\<lambda>(m, d, s, tw). unat tw)") (auto simp: word_le_nat_alt unat_sub_if')

function memmove_words1 :: "mem \<Rightarrow> u64 \<Rightarrow> u64 \<Rightarrow> u64 \<Rightarrow> mem" where
  "memmove_words1 m d64 s64 total_words =
     (if 0 < total_words then
        let d64 = d64 - 8;
            s64 = s64 - 8
        in memmove_words1 (wr64 m d64 (rd64 m s64)) d64 s64 (total_words - 1)
      else m)"
  by pat_completeness auto
termination
  by (relation "measure (\<lambda>(m, d, s, tw). unat tw)") (auto simp: word_less_nat_alt unat_sub_if')

declare memmove_words4.simps [simp del] memmove_words1.simps [simp del]

definition memmove :: "mem \<Rightarrow> u64 \<Rightarrow> u64 \<Rightarrow> u64 \<Rightarrow> mem" where
  "memmove m dest src n =
     (let d = dest; s = src in
      if n = 0 \<or> d = s then m else
      if d < s \<or> d \<ge> s + n then memcpy m dest src n else
      let m = put8 m d s 0;
          m = put8 m d s (n - 1) in
      if n \<le> 2 then m else
      let m = put8 m d s 1;
          m = put8 m d s (n - 2);
          m = put8 m d s 2;
          m = put8 m d s (n - 3) in
      if n \<le> 6 then m else
      let m = put8 m d s 3;
          m = put8 m d s (n - 4) in
      if n \<le> 8 then m else
      let m = put8 m d s 4;
          m = put8 m d s (n - 5);
          m = put8 m d s 5;
          m = put8 m d s (n - 6);
          m = put8 m d s 6;
          m = put8 m d s (n - 7);
          m = put8 m d s 7;
          m = put8 m d s (n - 8) in
      if n \<le> 16 then m else
      let d = d + n;
          s = s + n;
          k = d AND 7;
          (m, d, s) = for_range 0 k (\<lambda>i (m, d, s).
             let d = d - 1; s = s - 1 in (m(d := m s), d, s)) (m, d, s);
          n = n - k;
          n = n AND (- 8);
          total_words = n div 8
      in case memmove_words4 m d s total_words of
           (m, d, s, total_words) \<Rightarrow> memmove_words1 m d s total_words)"

text \<open>The backward branch is only entered for blocks that do share bytes.\<close>

lemma memmove_branch:
  assumes "no_overlap d s n"
  shows "d < s \<or> s + n \<le> d"
proof (rule ccontr)
  assume "\<not> (d < s \<or> s + n \<le> d)"
  then have "unat s \<le> unat d" and "unat d < unat (s + n)"
    by (simp_all add: word_le_nat_alt word_less_nat_alt not_le not_less)
  then have "unat (d - s) < unat n"
    by (auto simp: unat_sub_if' unat_plus_if' split: if_splits)
  then show False
    using assms by (simp add: no_overlap_def word_le_nat_alt)
qed

text \<open>On blocks that share no byte, \<^verbatim>\<open>memmove\<close> copies the \<open>n\<close> bytes and changes nothing else.\<close>

theorem memmove_disjoint:
  assumes "no_overlap d s n"
  shows "memmove m d s n = (\<lambda>x. if x - d < n then m (s + (x - d)) else m x)"
proof (cases "n = 0 \<or> d = s")
  case True
  then have "n = 0"
    using assms by (auto simp: no_overlap_def)
  then show ?thesis
    by (simp add: memmove_def)
next
  case False
  then show ?thesis
    using memmove_branch [OF assms] memcpy_eq [OF assms] by (simp add: memmove_def)
qed

text \<open>
  On overlapping blocks it is not a move. Moving two bytes up by one stores the first
  byte twice, and moving three bytes down by one takes the middle byte from a cell that
  has been overwritten already: the bytes at both ends are copied before the others.
\<close>

theorem memmove_overlap_corrupts:
  assumes "a < a + 3"
  shows "memmove m (a + 1) a 2 (a + 2) = m a \<and> memmove m a (a + 1) 3 (a + 1) = m (a + 3)"
proof -
  have u: "unat (a + 1) = unat a + 1" "unat (a + 2) = unat a + 2" "unat (a + 3) = unat a + 3"
    using assms by (auto simp: unat_plus_if' word_less_nat_alt split: if_splits)
  then have "\<not> (a + 1 < a \<or> a + 1 \<ge> a + 2)" and "a < a + 1"
    by (simp_all add: word_less_nat_alt word_le_nat_alt)
  then show ?thesis
    by (simp_all add: memmove_def memcpy_def put8_def word_le_nat_alt add.assoc)
qed

section \<open>memcmp\<close>

text \<open>
  The first loop counts the equal words in \<open>i\<close>; the second one moves both pointers. The
  byte loop starts from the pointers, so the words counted in \<open>i\<close> are not skipped, and
  the word that stopped a loop is looked at again only in its first \<open>n mod 8\<close> bytes.
\<close>

function memcmp_words4 :: "mem \<Rightarrow> u64 \<Rightarrow> u64 \<Rightarrow> u64 \<Rightarrow> u64 \<Rightarrow> u64 \<times> u64" where
  "memcmp_words4 m s1_64 s2_64 i total_words =
     (if 4 \<le> total_words then
        if rd64 m (s1_64 + 8 * i) \<noteq> rd64 m (s2_64 + 8 * i) then (i, total_words) else
        if rd64 m (s1_64 + 8 * (i + 1)) \<noteq> rd64 m (s2_64 + 8 * (i + 1)) then (i + 1, total_words) else
        if rd64 m (s1_64 + 8 * (i + 2)) \<noteq> rd64 m (s2_64 + 8 * (i + 2)) then (i + 2, total_words) else
        if rd64 m (s1_64 + 8 * (i + 3)) \<noteq> rd64 m (s2_64 + 8 * (i + 3)) then (i + 3, total_words) else
        memcmp_words4 m s1_64 s2_64 (i + 4) (total_words - 4)
      else (i, total_words))"
  by pat_completeness auto
termination
  by (relation "measure (\<lambda>(m, d, s, i, tw). unat tw)") (auto simp: word_le_nat_alt unat_sub_if')

function memcmp_words1 :: "mem \<Rightarrow> u64 \<Rightarrow> u64 \<Rightarrow> u64 \<Rightarrow> u64 \<times> u64" where
  "memcmp_words1 m s1_64 s2_64 total_words =
     (if 0 < total_words then
        if rd64 m s1_64 \<noteq> rd64 m s2_64 then (s1_64, s2_64)
        else memcmp_words1 m (s1_64 + 8) (s2_64 + 8) (total_words - 1)
      else (s1_64, s2_64))"
  by pat_completeness auto
termination
  by (relation "measure (\<lambda>(m, d, s, tw). unat tw)") (auto simp: word_less_nat_alt unat_sub_if')

declare memcmp_words4.simps [simp del] memcmp_words1.simps [simp del]

definition memcmp_bytes :: "mem \<Rightarrow> u64 \<Rightarrow> u64 \<Rightarrow> u64 \<Rightarrow> int" where
  "memcmp_bytes m s1 s2 n =
     (case for_until 0 n (\<lambda>i u. if m (s1 + i) \<noteq> m (s2 + i)
          then Inr (uint (m (s1 + i)) - uint (m (s2 + i))) else Inl u) () of
        Inr r \<Rightarrow> r | Inl u \<Rightarrow> 0)"

definition memcmp :: "mem \<Rightarrow> u64 \<Rightarrow> u64 \<Rightarrow> u64 \<Rightarrow> int" where
  "memcmp m p1 p2 n =
     (if p1 = p2 then 0 else
      let s1 = p1; s2 = p2; total_words = n div 8;
          (s1, s2, n) =
            (if 0 < total_words then
               let s1_64 = s1; s2_64 = s2;
                   (i, total_words) = memcmp_words4 m s1_64 s2_64 0 total_words;
                   (s1_64, s2_64) =
                     (if total_words < 4 \<and> 0 < total_words
                      then memcmp_words1 m s1_64 s2_64 total_words else (s1_64, s2_64))
               in (s1_64, s2_64, n mod 8)
             else (s1, s2, n))
      in memcmp_bytes m s1 s2 n)"

lemma memcmp_bytes_cases:
  "(\<forall>i < n. m (p + i) = m (q + i)) \<and> memcmp_bytes m p q n = 0 \<or>
   (\<exists>i < n. (\<forall>j < i. m (p + j) = m (q + j)) \<and> m (p + i) \<noteq> m (q + i) \<and>
      memcmp_bytes m p q n = uint (m (p + i)) - uint (m (q + i)))"
proof -
  let ?f = "\<lambda>i u. if m (p + i) \<noteq> m (q + i)
          then Inr (uint (m (p + i)) - uint (m (q + i))) else Inl u"
  have "case for_until 0 n ?f () of Inl u \<Rightarrow> \<forall>i < n. m (p + i) = m (q + i)
    | Inr r \<Rightarrow> \<exists>i < n. (\<forall>j < i. m (p + j) = m (q + j)) \<and> m (p + i) \<noteq> m (q + i) \<and>
        r = uint (m (p + i)) - uint (m (q + i))"
  proof (rule for_until_inv [where I = "\<lambda>i u. \<forall>j < i. m (p + j) = m (q + j)"])
    fix j :: u64 and u :: unit
    assume "j < n" and eq: "\<forall>i < j. m (p + i) = m (q + i)"
    then have "i < j + 1 \<Longrightarrow> i < j \<or> i = j" for i
      using unat_succ_less [OF \<open>j < n\<close>] by (auto simp: word_less_nat_alt word_unat_eq_iff)
    with eq \<open>j < n\<close> show "case ?f j u of Inl u \<Rightarrow> \<forall>i < j + 1. m (p + i) = m (q + i)
      | Inr r \<Rightarrow> \<exists>i < n. (\<forall>j < i. m (p + j) = m (q + j)) \<and> m (p + i) \<noteq> m (q + i) \<and>
          r = uint (m (p + i)) - uint (m (q + i))"
      by auto
  qed simp_all
  then show ?thesis
    by (simp add: memcmp_bytes_def split: sum.splits)
qed

lemma memcmp_bytes_0 [simp]: "memcmp_bytes m p q 0 = 0"
  by (simp add: memcmp_bytes_def for_until_done)

lemma memcmp_words1_steps:
  "\<exists>j. j \<le> unat tw \<and> memcmp_words1 m p q tw = (p + 8 * of_nat j, q + 8 * of_nat j)"
proof (induction "unat tw" arbitrary: tw p q rule: less_induct)
  case less
  show ?case
  proof (cases "0 < tw \<and> rd64 m p = rd64 m q")
    case True
    then have n: "0 < unat tw" "unat (tw - 1) = unat tw - 1"
      by (simp_all add: word_less_nat_alt unat_minus_one unat_gt_0)
    then obtain j where "j \<le> unat (tw - 1)"
      "memcmp_words1 m (p + 8) (q + 8) (tw - 1) = (p + 8 + 8 * of_nat j, q + 8 + 8 * of_nat j)"
      using less.hyps [of "tw - 1" "p + 8" "q + 8"] by auto
    with True n show ?thesis
      by (subst memcmp_words1.simps) (auto intro!: exI [of _ "Suc j"] simp: algebra_simps)
  next
    case False
    then show ?thesis
      by (subst memcmp_words1.simps) (auto intro: exI [of _ 0])
  qed
qed

lemma memcmp_words4_le: "unat (snd (memcmp_words4 m p q i tw)) \<le> unat tw"
proof (induction m p q i tw rule: memcmp_words4.induct)
  case (1 m p q i tw)
  have "4 \<le> tw \<Longrightarrow> unat (tw - 4) \<le> unat tw"
    by (simp add: unat_sub)
  with 1 show ?case
    by (subst memcmp_words4.simps) (auto simp del: One_nat_def intro: order_trans)
qed

text \<open>
  Below eight bytes \<^verbatim>\<open>memcmp\<close> is correct: 0 exactly for equal blocks, otherwise the
  difference of the first two bytes that differ.
\<close>

theorem memcmp_short:
  assumes "n < 8" and "p \<noteq> q"
  shows "(\<forall>i < n. m (p + i) = m (q + i)) \<and> memcmp m p q n = 0 \<or>
         (\<exists>i < n. (\<forall>j < i. m (p + j) = m (q + j)) \<and> m (p + i) \<noteq> m (q + i) \<and>
            memcmp m p q n = uint (m (p + i)) - uint (m (q + i)))"
proof -
  have "n div 8 = 0"
    using assms(1) by (simp add: word_unat_eq_iff unat_div word_less_nat_alt)
  then have "memcmp m p q n = memcmp_bytes m p q n"
    using assms(2) by (simp add: memcmp_def)
  then show ?thesis
    using memcmp_bytes_cases [of n m p q] by simp
qed

text \<open>
  A non-zero result of \<^verbatim>\<open>memcmp\<close> is never wrong about the blocks being different: there
  is a differing byte among the \<open>n\<close> compared ones, for every length.
\<close>

theorem memcmp_nonzero_sound:
  assumes "memcmp m p q n \<noteq> 0"
  shows "\<exists>i < n. m (p + i) \<noteq> m (q + i)"
proof -
  have neq: "p \<noteq> q"
    using assms by (auto simp: memcmp_def)
  obtain j n' where j: "8 * j + unat n' \<le> unat n"
    and eq: "memcmp m p q n = memcmp_bytes m (p + 8 * of_nat j) (q + 8 * of_nat j) n'"
  proof (cases "0 < n div 8")
    case False
    then show thesis
      using neq that [of 0 n] by (simp add: memcmp_def)
  next
    case True
    obtain i tw where w4: "memcmp_words4 m p q 0 (n div 8) = (i, tw)"
      by (cases "memcmp_words4 m p q 0 (n div 8)")
    then have tw: "unat tw \<le> unat n div 8"
      using memcmp_words4_le [of m p q 0 "n div 8"] by (simp add: unat_div)
    obtain k where k: "k \<le> unat tw"
      "memcmp_words1 m p q tw = (p + 8 * of_nat k, q + 8 * of_nat k)"
      using memcmp_words1_steps by blast
    have "unat (n mod 8) = unat n mod 8"
      by (simp add: unat_mod)
    then have le: "c \<le> unat tw \<Longrightarrow> 8 * c + unat (n mod 8) \<le> unat n" for c
      using tw div_mult_mod_eq [of "unat n" 8] by linarith
    show thesis
    proof (cases "tw < 4 \<and> 0 < tw")
      case True
      with \<open>0 < n div 8\<close> neq w4 k le that [of k "n mod 8"] show thesis
        by (simp add: memcmp_def)
    next
      case False
      with \<open>0 < n div 8\<close> neq w4 le [of 0] that [of 0 "n mod 8"] show thesis
        by (simp add: memcmp_def)
    qed
  qed
  from assms obtain i where i: "i < n'"
      "m (p + 8 * of_nat j + i) \<noteq> m (q + 8 * of_nat j + i)"
    unfolding eq using memcmp_bytes_cases [of n' m "p + 8 * of_nat j" "q + 8 * of_nat j"] by auto
  have "8 * j + unat i < unat n"
    using i(1) j by (simp add: word_less_nat_alt)
  then have "unat (8 * of_nat j + i) = 8 * j + unat i"
    using unat64_bound [of n] by (simp add: unat_word_ariths unat_of_nat)
  then have "8 * of_nat j + i < n"
    using \<open>8 * j + unat i < unat n\<close> by (simp add: word_less_nat_alt)
  then show ?thesis
    using i(2) by (auto simp: add.assoc)
qed

text \<open>
  C40. But a zero result says nothing once \<open>n\<close> is a multiple of eight: \<^verbatim>\<open>memcmp\<close> then returns
  0 whatever the blocks hold, because no byte is left for the byte loop.
\<close>

theorem memcmp_blind_on_words:
  assumes "n mod 8 = 0"
  shows "memcmp m p q n = 0"
proof (cases "0 < n div 8")
  case True
  then show ?thesis
    using assms by (simp add: memcmp_def Let_def split: prod.split)
next
  case False
  then have "n div 8 = 0"
    by (metis word_gt_0)
  with assms have "n = 0"
    using div_mult_mod_eq [of n 8] by simp
  then show ?thesis
    by (simp add: memcmp_def)
qed

section \<open>Instances\<close>

theorem memcpy_correct_witness:
  "no_overlap 0 64 8 \<and>
   memcpy (\<lambda>x. ucast x) 0 64 8 = (\<lambda>x. if x - 0 < 8 then ucast (64 + (x - 0)) else ucast x)"
proof -
  have "no_overlap 0 64 8"
    by (simp add: no_overlap_def)
  then show ?thesis
    using memcpy_correct [of 0 64 8 "\<lambda>x. ucast x"] by simp
qed

theorem memmove_disjoint_witness:
  "no_overlap 64 0 32 \<and>
   memmove (\<lambda>x. ucast x) 64 0 32 = (\<lambda>x. if x - 64 < 32 then ucast (0 + (x - 64)) else ucast x)"
proof -
  have "no_overlap 64 0 32"
    by (simp add: no_overlap_def)
  then show ?thesis
    using memmove_disjoint [of 64 0 32 "\<lambda>x. ucast x"] by simp
qed

theorem memmove_overlap_corrupts_witness:
  "memmove (\<lambda>x. ucast x) (16 + 1) 16 2 (16 + 2) = 16 \<and>
   memmove (\<lambda>x. ucast x) 16 (16 + 1) 3 (16 + 1) = 19"
  using memmove_overlap_corrupts [of 16 "\<lambda>x. ucast x"] by simp

theorem memcmp_short_witness:
  "(\<forall>i < (3 :: u64). (ucast (16 + i) :: u8) = ucast (32 + i)) \<and>
     memcmp (\<lambda>x. ucast x) 16 32 3 = 0 \<or>
   (\<exists>i < (3 :: u64). (\<forall>j < i. (ucast (16 + j) :: u8) = ucast (32 + j)) \<and>
      (ucast (16 + i) :: u8) \<noteq> ucast (32 + i) \<and>
      memcmp (\<lambda>x. ucast x) 16 32 3 = uint (ucast (16 + i) :: u8) - uint (ucast (32 + i) :: u8))"
  using memcmp_short [of 3 16 32 "\<lambda>x. ucast x"] by simp

theorem memcmp_nonzero_sound_witness:
  "\<exists>i < (1 :: u64). (ucast (16 + i) :: u8) \<noteq> ucast (32 + i)"
proof -
  have "memcmp (\<lambda>x. ucast x) 16 32 1 \<noteq> 0"
    by (simp add: memcmp_def memcmp_bytes_def for_until.simps [of 0 1])
  then show ?thesis
    using memcmp_nonzero_sound [of "\<lambda>x. ucast x" 16 32 1] by simp
qed

theorem memcmp_blind_on_words_witness:
  "memcmp (\<lambda>x. ucast x) 16 32 8 = 0 \<and> (ucast (16 :: u64) :: u8) \<noteq> ucast (32 :: u64)"
  using memcmp_blind_on_words [of 8 "\<lambda>x. ucast x" 16 32] by simp

end
