(* ===== verification/Pmm.thy ===== *)
theory Pmm
  imports Mem
begin

text \<open>
  The physical memory manager of \<^verbatim>\<open>kernel/memory/pmm.c\<close>: one bit per 4 KiB page, held in
  memory at \<^verbatim>\<open>pmm_bitmap\<close>, set for a page in use. This theory has the state, the bitmap
  accesses and the allocation and release of pages; \<^verbatim>\<open>Pmm_Init\<close> has the construction of
  the bitmap from the boot memory map.
\<close>

section \<open>Machine and allocator state\<close>

text \<open>
  \<open>mem\<close> is physical memory as the kernel addresses it through the higher-half direct map,
  at \<open>hhdm_offset\<close> plus the physical address. \<open>cr3\<close> and \<open>efer\<close> are the registers the
  kernel reads and writes, and \<open>tlb_flushes\<close> records the \<^verbatim>\<open>invlpg\<close> instructions issued.
\<close>

record machine =
  mem :: mem
  cr3 :: u64
  efer :: u64
  tlb_flushes :: "u64 list"

record pmm = machine +
  physical_memory_initialized :: bool
  hhdm_offset :: u64
  pmm_bitmap :: u64
  pmm_bitmap_size :: u64
  pmm_total_pages :: u64
  pmm_last_free_index :: u64
  kernel_start_phys :: u64
  kernel_end_phys :: u64
  pmm_bootloader_cr3 :: u64

definition get_current_cr3 :: "'a machine_scheme \<Rightarrow> u64" where
  "get_current_cr3 s = cr3 s"

definition write_cr3 :: "'a machine_scheme \<Rightarrow> u64 \<Rightarrow> 'a machine_scheme" where
  "write_cr3 s phys_addr = s\<lparr>cr3 := phys_addr\<rparr>"

definition flush_tlb :: "'a machine_scheme \<Rightarrow> u64 \<Rightarrow> 'a machine_scheme" where
  "flush_tlb s virt_addr = s\<lparr>tlb_flushes := tlb_flushes s @ [virt_addr]\<rparr>"

definition P2V :: "'a pmm_scheme \<Rightarrow> u64 \<Rightarrow> u64" where
  "P2V s phys = phys + hhdm_offset s"

definition V2P :: "'a pmm_scheme \<Rightarrow> u64 \<Rightarrow> u64" where
  "V2P s virt = virt - hhdm_offset s"

section \<open>The bitmap\<close>

definition bitmap_set_page :: "'a pmm_scheme \<Rightarrow> u64 \<Rightarrow> 'a pmm_scheme" where
  "bitmap_set_page s page =
     (let a = pmm_bitmap s + page div 8
      in s\<lparr>mem := (mem s)(a := mem s a OR push_bit (unat (page mod 8)) 1)\<rparr>)"

definition bitmap_clear_page :: "'a pmm_scheme \<Rightarrow> u64 \<Rightarrow> 'a pmm_scheme" where
  "bitmap_clear_page s page =
     (let a = pmm_bitmap s + page div 8
      in s\<lparr>mem := (mem s)(a := mem s a AND NOT (push_bit (unat (page mod 8)) 1))\<rparr>)"

definition page_occupied :: "'a pmm_scheme \<Rightarrow> u64 \<Rightarrow> bool" where
  "page_occupied s page \<longleftrightarrow>
     mem s (pmm_bitmap s + page div 8) AND push_bit (unat (page mod 8)) 1 \<noteq> 0"

definition bitmap64 :: "'a pmm_scheme \<Rightarrow> u64 \<Rightarrow> u64" where
  "bitmap64 s i = rd64 (mem s) (pmm_bitmap s + 8 * i)"

text \<open>\<^verbatim>\<open>__builtin_ctzll\<close>: the number of zero bits below the lowest one bit.\<close>

definition ctzll :: "u64 \<Rightarrow> nat" where
  "ctzll w = length (takeWhile (\<lambda>n. \<not> bit w n) [0..<64])"

lemma ctzll_bit:
  assumes "w \<noteq> 0"
  shows "ctzll w < 64" and "bit w (ctzll w)" and "\<And>n. n < ctzll w \<Longrightarrow> \<not> bit w n"
proof -
  obtain n where n: "n < 64" "bit w n"
    using assms bit_imp_le_length [of w] by (auto simp: bit_eq_iff)
  let ?ns = "takeWhile (\<lambda>n. \<not> bit w n) [0..<64]"
  show lt: "ctzll w < 64"
  proof (rule ccontr)
    assume "\<not> ctzll w < 64"
    then have "?ns = [0..<64]"
      using length_takeWhile_le [of "\<lambda>n. \<not> bit w n" "[0..<64]"]
      by (metis ctzll_def diff_zero le_antisym length_upt not_less takeWhile_eq_take take_all_iff order_refl)
    then show False
      using n set_takeWhileD [of n "\<lambda>n. \<not> bit w n" "[0..<64]"] by simp
  qed
  show "bit w (ctzll w)"
    using nth_length_takeWhile [of "\<lambda>n. \<not> bit w n" "[0..<64]"] lt by (simp add: ctzll_def)
  show "\<not> bit w n" if "n < ctzll w" for n
  proof -
    have "n < length ?ns"
      using that by (simp add: ctzll_def)
    then have "?ns ! n = n"
      using lt by (simp add: takeWhile_nth ctzll_def)
    moreover have "?ns ! n \<in> set ?ns"
      using \<open>n < length ?ns\<close> by (rule nth_mem)
    ultimately show ?thesis
      using set_takeWhileD by metis
  qed
qed

text \<open>
  The abstract view: which pages are in use. Addresses and bit positions of different pages
  differ even when the index wraps, so the updates act on single pages.
\<close>

definition used :: "'a pmm_scheme \<Rightarrow> u64 \<Rightarrow> bool" where
  "used s page \<longleftrightarrow> bit (mem s (pmm_bitmap s + page div 8)) (unat (page mod 8))"

lemma page_eq_iff:
  fixes p q :: u64
  shows "p = q \<longleftrightarrow> p div 8 = q div 8 \<and> p mod 8 = q mod 8"
  by (metis div_mult_mod_eq)

lemma mod8_lt: "unat ((p :: u64) mod 8) < 8"
  by (simp add: unat_mod)

lemma mod8_eq_iff: "unat ((p :: u64) mod 8) = unat (q mod 8) \<longleftrightarrow> p mod 8 = q mod 8"
  by (simp add: word_unat_eq_iff)

lemma page_occupied_iff: "page_occupied s p \<longleftrightarrow> used s p"
proof -
  let ?b = "mem s (pmm_bitmap s + p div 8)" and ?n = "unat (p mod 8)"
  have "?b AND push_bit ?n 1 \<noteq> 0 \<longleftrightarrow> bit ?b ?n"
    by (simp add: push_bit_eq_mult and_exp_eq_0_iff_not_bit)
  then show ?thesis
    by (simp add: page_occupied_def used_def)
qed

lemma used_set [simp]: "used (bitmap_set_page s q) p \<longleftrightarrow> p = q \<or> used s p"
  using mod8_lt [of p] mod8_lt [of q]
  by (auto simp: used_def bitmap_set_page_def Let_def bit_simps page_eq_iff [of p q] mod8_eq_iff)

lemma used_clear [simp]: "used (bitmap_clear_page s q) p \<longleftrightarrow> p \<noteq> q \<and> used s p"
  using mod8_lt [of p] mod8_lt [of q]
  by (auto simp: used_def bitmap_clear_page_def Let_def bit_simps page_eq_iff [of p q] mod8_eq_iff)

lemma used_mem_cong: "mem s' = mem s \<Longrightarrow> pmm_bitmap s' = pmm_bitmap s \<Longrightarrow> used s' p = used s p"
  by (simp add: used_def)

text \<open>A bitmap update writes one byte of memory and no field of the allocator.\<close>

lemma bitmap_set_fields [simp]:
  "pmm_bitmap (bitmap_set_page s p) = pmm_bitmap s"
  "pmm_bitmap_size (bitmap_set_page s p) = pmm_bitmap_size s"
  "pmm_total_pages (bitmap_set_page s p) = pmm_total_pages s"
  "pmm_last_free_index (bitmap_set_page s p) = pmm_last_free_index s"
  "hhdm_offset (bitmap_set_page s p) = hhdm_offset s"
  "physical_memory_initialized (bitmap_set_page s p) = physical_memory_initialized s"
  "cr3 (bitmap_set_page s p) = cr3 s"
  by (simp_all add: bitmap_set_page_def Let_def)

lemma bitmap_clear_fields [simp]:
  "pmm_bitmap (bitmap_clear_page s p) = pmm_bitmap s"
  "pmm_bitmap_size (bitmap_clear_page s p) = pmm_bitmap_size s"
  "pmm_total_pages (bitmap_clear_page s p) = pmm_total_pages s"
  "pmm_last_free_index (bitmap_clear_page s p) = pmm_last_free_index s"
  "hhdm_offset (bitmap_clear_page s p) = hhdm_offset s"
  "physical_memory_initialized (bitmap_clear_page s p) = physical_memory_initialized s"
  "cr3 (bitmap_clear_page s p) = cr3 s"
  by (simp_all add: bitmap_clear_page_def Let_def)

section \<open>Allocation and release\<close>

text \<open>
  The two loops over the bitmap, each run on \<open>[first, end)\<close> in pass 0 and on \<open>[0, first)\<close>
  in pass 1: the scan for a word with a clear bit, and the scan for a run of clear bits.
  \<open>Inr\<close> is the \<^verbatim>\<open>return\<close> from inside the loop.
\<close>

definition pmm_scan_words ::
  "'a pmm_scheme \<Rightarrow> u64 \<Rightarrow> u64 \<Rightarrow> unit + (u64 \<times> 'a pmm_scheme)" where
  "pmm_scan_words s lo hi =
     for_until lo hi (\<lambda>i u.
       if bitmap64 s i \<noteq> 0xFFFFFFFFFFFFFFFF then
         let bit = of_nat (ctzll (NOT (bitmap64 s i)));
             page = i * 64 + bit
         in if page \<ge> pmm_total_pages s then Inl u
            else Inr (page * 4096, (bitmap_set_page s page)\<lparr>pmm_last_free_index := i\<rparr>)
       else Inl u) ()"

definition pmm_alloc_page :: "'a pmm_scheme \<Rightarrow> (u64 \<times> 'a pmm_scheme) outcome" where
  "pmm_alloc_page s =
     (if \<not> physical_memory_initialized s then
        Inl (Panic ''Attempted to allocate a physical page before the physical memory manager was initialized'')
      else
        let size64 = pmm_bitmap_size s div 8;
            first_index = pmm_last_free_index s;
            first_index = (if first_index \<ge> size64 then 0 else first_index);
            r = for_until 0 2 (\<lambda>pass u.
              let lo = (if pass = 0 then first_index else 0);
                  hi = (if pass = 0 then size64 else first_index)
              in pmm_scan_words s lo hi) ()
        in case r of Inr found \<Rightarrow> Inr found | Inl u \<Rightarrow> Inr (NULL, s))"

definition pmm_take_run :: "'a pmm_scheme \<Rightarrow> u64 \<Rightarrow> u64 \<Rightarrow> u64 \<times> 'a pmm_scheme" where
  "pmm_take_run s start_page count =
     (let s = for_range start_page (start_page + count) (\<lambda>p s. bitmap_set_page s p) s
      in (start_page * 4096, s\<lparr>pmm_last_free_index := (start_page + count) div 64\<rparr>))"

definition pmm_scan_pages ::
  "'a pmm_scheme \<Rightarrow> u64 \<Rightarrow> u64 \<Rightarrow> u64 \<Rightarrow> u64 \<times> u64 \<Rightarrow> (u64 \<times> u64) + (u64 \<times> 'a pmm_scheme)" where
  "pmm_scan_pages s count lo hi st =
     for_until lo hi (\<lambda>page (consecutive_free, start_page).
       if \<not> page_occupied s page then
         let start_page = (if consecutive_free = 0 then page else start_page);
             consecutive_free = consecutive_free + 1
         in if consecutive_free = count then Inr (pmm_take_run s start_page count)
            else Inl (consecutive_free, start_page)
       else Inl (0, start_page)) st"

definition pmm_alloc_pages :: "'a pmm_scheme \<Rightarrow> u64 \<Rightarrow> (u64 \<times> 'a pmm_scheme) outcome" where
  "pmm_alloc_pages s count =
     (if count = 0 then Inr (NULL, s) else
      if count = 1 then pmm_alloc_page s else
      if \<not> physical_memory_initialized s then
        Inl (Panic ''Attempted to allocate physical pages before PMM initialization'')
      else
        let first_page = pmm_last_free_index s * 64;
            first_page = (if first_page \<ge> pmm_total_pages s then 0 else first_page);
            r = for_until 0 2 (\<lambda>pass (consecutive_free, start_page).
              let lo = (if pass = 0 then first_page else 0);
                  hi = (if pass = 0 then pmm_total_pages s else first_page)
              in case pmm_scan_pages s count lo hi (consecutive_free, start_page) of
                   Inr found \<Rightarrow> Inr found
                 | Inl (consecutive_free, start_page) \<Rightarrow> Inl (0, start_page)) (0, 0)
        in case r of Inr found \<Rightarrow> Inr found | Inl u \<Rightarrow> Inr (NULL, s))"

definition pmm_free_page :: "'a pmm_scheme \<Rightarrow> u64 \<Rightarrow> (bool \<times> 'a pmm_scheme) outcome" where
  "pmm_free_page s phys_addr =
     (if \<not> physical_memory_initialized s \<or> phys_addr = NULL then Inr (False, s) else
      let addr = phys_addr in
      if addr mod 4096 \<noteq> 0 then
        Inl (Panic ''Attempted to free a physical page that is not aligned to 4KB'')
      else let page = addr div 4096 in
      if page \<ge> pmm_total_pages s then
        Inl (Panic ''Attempted to free a physical page that is out of bounds of the physical memory bitmap'')
      else if \<not> page_occupied s page then
        Inl (Panic ''Attempted to free a physical page that is already free'')
      else
        let s = bitmap_clear_page s page;
            index64 = page div 64;
            s = (if index64 < pmm_last_free_index s then s\<lparr>pmm_last_free_index := index64\<rparr> else s)
        in Inr (True, s))"

definition pmm_free_pages :: "'a pmm_scheme \<Rightarrow> u64 \<Rightarrow> u64 \<Rightarrow> (bool \<times> 'a pmm_scheme) outcome" where
  "pmm_free_pages s phys_addr count =
     (if \<not> physical_memory_initialized s \<or> phys_addr = NULL \<or> count = 0 then Inr (False, s) else
      let addr = phys_addr in
      if addr mod 4096 \<noteq> 0 then
        Inl (Panic ''Attempted to free a physical page that is not aligned to 4KB'')
      else let start_page = addr div 4096 in
      if start_page + count > pmm_total_pages s then
        Inl (Panic ''Attempted to free pages out of bitmap bounds'')
      else
        case for_until start_page (start_page + count) (\<lambda>page s.
               if \<not> page_occupied s page then
                 Inr (Panic ''Attempted to free a physical page that is already free'')
               else Inl (bitmap_clear_page s page)) s of
          Inr p \<Rightarrow> Inl p
        | Inl s \<Rightarrow>
            let index64 = start_page div 64;
                s = (if index64 < pmm_last_free_index s then s\<lparr>pmm_last_free_index := index64\<rparr> else s)
            in Inr (True, s))"

section \<open>Scanning for a free page\<close>

text \<open>
  The sizes fit together: page numbers are below \<open>2 ^ 52\<close>, so that page addresses do not
  wrap, and the whole 64-bit words of the bitmap cover all pages.
\<close>

definition pmm_sized :: "'a pmm_scheme \<Rightarrow> bool" where
  "pmm_sized s \<longleftrightarrow> unat (pmm_total_pages s) \<le> 2 ^ 52 \<and> unat (pmm_bitmap_size s) \<le> 2 ^ 50 \<and>
     unat (pmm_total_pages s) \<le> 64 * (unat (pmm_bitmap_size s) div 8)"

lemma page_in_word:
  fixes i :: u64
  assumes "unat i < 2 ^ 50" and "n < 64"
  shows "unat (i * 64 + of_nat n) = 64 * unat i + n"
    and "(i * 64 + of_nat n) div 64 = i"
    and "(i * 64 + of_nat n) div 8 = 8 * i + of_nat (n div 8)"
    and "unat ((i * 64 + of_nat n) mod 8) = n mod 8"
proof -
  have n: "unat (of_nat n :: u64) = n" "unat (of_nat (n div 8) :: u64) = n div 8"
    using assms(2) by (simp_all add: unat_of_nat)
  show u: "unat (i * 64 + of_nat n) = 64 * unat i + n"
    using assms n by (simp add: unat_word_ariths)
  show "(i * 64 + of_nat n) div 64 = i"
    using assms(2) by (simp add: word_unat_eq_iff unat_div u)
  have "unat (8 * i + of_nat (n div 8)) = 8 * unat i + n div 8"
    using assms n by (simp add: unat_word_ariths)
  then show "(i * 64 + of_nat n) div 8 = 8 * i + of_nat (n div 8)"
    by (simp add: word_unat_eq_iff unat_div u)
  show "unat ((i * 64 + of_nat n) mod 8) = n mod 8"
    by (simp add: unat_mod u) presburger
qed

lemma bit_bitmap64:
  assumes "unat i < 2 ^ 50" and "n < 64"
  shows "bit (bitmap64 s i) n \<longleftrightarrow> used s (i * 64 + of_nat n)"
  using assms by (simp add: bitmap64_def bit_rd64 used_def page_in_word add.assoc)

lemma page_decompose:
  fixes p :: u64
  shows "p = p div 64 * 64 + of_nat (unat (p mod 64))" and "unat (p mod 64) < 64"
  using div_mult_mod_eq [of p 64] by (simp, simp add: unat_mod)

lemma all_ones: "(0xFFFFFFFFFFFFFFFF :: u64) = - 1"
  by simp

lemma ctzll_page:
  assumes i: "unat i < 2 ^ 50" and full: "bitmap64 s i \<noteq> 0xFFFFFFFFFFFFFFFF"
    and p: "page = i * 64 + of_nat (ctzll (NOT (bitmap64 s i)))"
  shows "page div 64 = i" and "\<not> used s page" and "\<And>q. q div 64 = i \<Longrightarrow> q < page \<Longrightarrow> used s q"
proof -
  let ?n = "ctzll (NOT (bitmap64 s i))"
  have "NOT (bitmap64 s i) \<noteq> 0"
    using full unfolding all_ones by (metis bit.double_compl bit.compl_zero)
  note n = ctzll_bit [OF this]
  show "page div 64 = i"
    unfolding p using page_in_word(2) [OF i n(1)] .
  show "\<not> used s page"
    using n(1,2) i by (simp add: p bit_bitmap64 [symmetric] bit_not_iff)
  show "used s q" if q: "q div 64 = i" "q < page" for q
  proof -
    let ?m = "unat (q mod 64)"
    have q': "q = i * 64 + of_nat ?m" "?m < 64"
      using page_decompose [of q] q(1) by simp_all
    have "unat q < unat page"
      using q(2) by (simp add: word_less_nat_alt)
    then have "?m < ?n"
      using q' page_in_word(1) [OF i q'(2)] page_in_word(1) [OF i n(1)] p by simp
    then show ?thesis
      using n(3) q'(2) bit_bitmap64 [OF i q'(2), of s] q'(1) by (auto simp: bit_not_iff)
  qed
qed

lemma full_word:
  assumes "unat i < 2 ^ 50" and "bitmap64 s i = 0xFFFFFFFFFFFFFFFF" and "q div 64 = i"
  shows "used s q"
proof -
  have "bit (bitmap64 s i) (unat (q mod 64))"
    unfolding assms(2) all_ones using page_decompose(2) [of q] by simp
  then show ?thesis
    using bit_bitmap64 [OF assms(1) page_decompose(2) [of q], of s] page_decompose(1) [of q] assms(3)
    by metis
qed

text \<open>What a found page is: free, in range, and returned as its address with its bit set.\<close>

definition page_taken :: "'a pmm_scheme \<Rightarrow> u64 \<times> 'a pmm_scheme \<Rightarrow> bool" where
  "page_taken s r \<longleftrightarrow> (\<exists>p. p < pmm_total_pages s \<and> \<not> used s p \<and>
     r = (p * 4096, (bitmap_set_page s p)\<lparr>pmm_last_free_index := p div 64\<rparr>))"

lemma pmm_scan_words_spec:
  assumes lohi: "lo \<le> hi" and hi: "unat hi < 2 ^ 50"
  shows "case pmm_scan_words s lo hi of
      Inl u \<Rightarrow> \<forall>p < pmm_total_pages s. lo \<le> p div 64 \<and> p div 64 < hi \<longrightarrow> used s p
    | Inr r \<Rightarrow> page_taken s r"
  unfolding pmm_scan_words_def
proof (rule for_until_inv [OF lohi, where
      I = "\<lambda>i u. \<forall>p < pmm_total_pages s. lo \<le> p div 64 \<and> p div 64 < i \<longrightarrow> used s p"], goal_cases)
  case 1
  then show ?case
    by auto
next
  case (2 i u)
  have i: "unat i < 2 ^ 50"
    using 2 hi by (simp add: word_less_nat_alt)
  have upto: "p div 64 < i + 1 \<Longrightarrow> p div 64 < i \<or> p div 64 = i" for p :: u64
    using unat_succ_less [OF 2(2)] by (auto simp: word_less_nat_alt word_unat_eq_iff)
  define page where "page = i * 64 + of_nat (ctzll (NOT (bitmap64 s i)))"
  show ?case
  proof (cases "bitmap64 s i = 0xFFFFFFFFFFFFFFFF")
    case True
    then show ?thesis
      using 2 upto full_word [OF i True] by auto
  next
    case False
    note c = ctzll_page [OF i False page_def]
    show ?thesis
    proof (cases "pmm_total_pages s \<le> page")
      case True
      then have "used s p" if "p < pmm_total_pages s" "p div 64 = i" for p
        using c(3) that by auto
      then show ?thesis
        using False True 2 upto by (auto simp: Let_def page_def [symmetric])
    next
      case in_range: False
      then show ?thesis
        using False c by (auto simp: Let_def page_def [symmetric] page_taken_def intro: exI [of _ page])
    qed
  qed
qed

lemma pmm_sized_words:
  assumes "pmm_sized s" and "p < pmm_total_pages s"
  shows "p div 64 < pmm_bitmap_size s div 8"
proof -
  have "unat p div 64 < unat (pmm_bitmap_size s) div 8"
    using assms by (auto simp: pmm_sized_def word_less_nat_alt)
  then show ?thesis
    by (simp add: word_less_nat_alt unat_div)
qed

lemma pmm_alloc_page_cases:
  assumes init: "physical_memory_initialized s" and sized: "pmm_sized s"
  shows "\<exists>r. pmm_alloc_page s = Inr r \<and>
           (page_taken s r \<or> r = (NULL, s) \<and> (\<forall>p < pmm_total_pages s. used s p))"
proof -
  let ?size64 = "pmm_bitmap_size s div 8"
  define first where "first = (if pmm_last_free_index s \<ge> ?size64 then 0 else pmm_last_free_index s)"
  have le: "first \<le> ?size64"
    by (auto simp: first_def)
  have size: "unat ?size64 < 2 ^ 50"
    using sized div_le_dividend [of "unat (pmm_bitmap_size s)" 8]
    unfolding pmm_sized_def unat_div by simp linarith
  have f: "unat first < 2 ^ 50"
    using le size by (simp add: word_le_nat_alt)
  note scan0 = pmm_scan_words_spec [OF le size, of s]
  note scan1 = pmm_scan_words_spec [of 0 first s, OF _ f]
  have run: "pmm_alloc_page s =
      (case pmm_scan_words s first ?size64 of
         Inr found \<Rightarrow> Inr found
       | Inl u \<Rightarrow> (case pmm_scan_words s 0 first of Inr found \<Rightarrow> Inr found | Inl u \<Rightarrow> Inr (NULL, s)))"
    using init by (simp add: pmm_alloc_page_def for_until_two Let_def first_def split: sum.split)
  show ?thesis
  proof (cases "pmm_scan_words s first ?size64")
    case (Inr r)
    then show ?thesis
      using scan0 run by auto
  next
    case Inl0: (Inl u)
    show ?thesis
    proof (cases "pmm_scan_words s 0 first")
      case (Inr r)
      then show ?thesis
        using Inl0 scan1 run by auto
    next
      case (Inl u')
      then have "used s p" if "p < pmm_total_pages s" for p
        using Inl0 scan0 scan1 that pmm_sized_words [OF sized that] not_le by auto
      then show ?thesis
        using Inl Inl0 run by simp
    qed
  qed
qed

section \<open>The set of free pages\<close>

definition free_pages :: "'a pmm_scheme \<Rightarrow> u64 set" where
  "free_pages s = {p. p < pmm_total_pages s \<and> \<not> used s p}"

lemma free_pages_set: "free_pages (bitmap_set_page s p) = free_pages s - {p}"
  by (auto simp: free_pages_def)

lemma free_pages_clear:
  "p < pmm_total_pages s \<Longrightarrow> free_pages (bitmap_clear_page s p) = insert p (free_pages s)"
  by (auto simp: free_pages_def)

lemma free_pages_last [simp]: "free_pages (s\<lparr>pmm_last_free_index := i\<rparr>) = free_pages s"
  by (simp add: free_pages_def used_def)

lemma used_last [simp]: "used (s\<lparr>pmm_last_free_index := i\<rparr>) = used s"
  by (simp add: used_def fun_eq_iff)

lemma pmm_sized_cong:
  "pmm_total_pages s' = pmm_total_pages s \<Longrightarrow> pmm_bitmap_size s' = pmm_bitmap_size s \<Longrightarrow>
     pmm_sized s' = pmm_sized s"
  by (simp add: pmm_sized_def)

lemma pmm_sized_updates [simp]:
  "pmm_sized (bitmap_set_page s p) = pmm_sized s"
  "pmm_sized (bitmap_clear_page s p) = pmm_sized s"
  "pmm_sized (s\<lparr>pmm_last_free_index := i\<rparr>) = pmm_sized s"
  by (rule pmm_sized_cong; simp)+

lemma page_address_zero:
  assumes "pmm_sized s" and "p < pmm_total_pages s"
  shows "p * 4096 = NULL \<longleftrightarrow> p = 0"
proof -
  have "unat p * 4096 < 2 ^ 64"
    using assms by (simp add: pmm_sized_def word_less_nat_alt)
  then have "unat (p * 4096) = unat p * 4096"
    by (simp add: unat_word_ariths)
  then show ?thesis
    by (auto simp: NULL_def word_unat_eq_iff)
qed

text \<open>
  C3. \<^verbatim>\<open>pmm_alloc_page\<close>, wherever the search hint points, leaves the state alone and reports
  exhaustion by a null result when no page is free. Otherwise it takes one page out of the set of
  free pages and returns its address. The address is null for page 0 alone: unless that page is
  free, a null result means exhaustion and nothing else does.
\<close>

theorem pmm_alloc_page_refines:
  assumes "physical_memory_initialized s" and "pmm_sized s"
  shows "\<exists>a s'. pmm_alloc_page s = Inr (a, s') \<and> pmm_sized s' \<and>
    (if free_pages s = {} then a = NULL \<and> s' = s
     else \<exists>p \<in> free_pages s. a = p * 4096 \<and> free_pages s' = free_pages s - {p} \<and>
            (a = NULL \<longleftrightarrow> p = 0)) \<and>
    (0 \<notin> free_pages s \<longrightarrow> (a = NULL \<longleftrightarrow> free_pages s = {}))"
proof -
  from pmm_alloc_page_cases [OF assms] consider
      r where "pmm_alloc_page s = Inr r" "page_taken s r"
    | "pmm_alloc_page s = Inr (NULL, s)" "\<forall>p < pmm_total_pages s. used s p"
    by blast
  then show ?thesis
  proof cases
    case 1
    then obtain p s' where p: "r = (p * 4096, s')" "p \<in> free_pages s"
      "free_pages s' = free_pages s - {p}" "pmm_sized s'"
      using assms(2) by (fastforce simp: page_taken_def free_pages_set free_pages_def)
    moreover have "p * 4096 = NULL \<longleftrightarrow> p = 0"
      using page_address_zero [OF assms(2)] p(2) by (simp add: free_pages_def)
    ultimately show ?thesis
      using 1(1) by (intro exI [of _ "p * 4096"] exI [of _ s']) auto
  next
    case 2
    then have "free_pages s = {}"
      by (auto simp: free_pages_def)
    then show ?thesis
      using 2 assms(2) by simp
  qed
qed

text \<open>
  A free page 0 makes the allocator lie: its address is the null pointer, so the call
  reports a failure and yet takes the page out of the set of free pages.
\<close>

theorem pmm_alloc_page_zero_lost:
  assumes "physical_memory_initialized s" and "pmm_sized s"
    and "0 \<in> free_pages s" and "pmm_last_free_index s = 0"
  shows "\<exists>s'. pmm_alloc_page s = Inr (NULL, s') \<and> free_pages s' = free_pages s - {0}"
proof -
  have z: "\<not> used s 0" "0 < pmm_total_pages s"
    using assms(3) by (auto simp: free_pages_def)
  have tz: "pmm_total_pages s \<noteq> 0"
    using z(2) by auto
  have size: "0 < pmm_bitmap_size s div 8"
    using pmm_sized_words [OF assms(2) z(2)] by simp
  have b: "\<not> bit (bitmap64 s 0) 0"
    using z(1) bit_bitmap64 [of 0 0 s] by simp
  then have full: "bitmap64 s 0 \<noteq> 0xFFFFFFFFFFFFFFFF"
    unfolding all_ones by (metis bit_minus_1_iff possible_bit_0)
  then have "NOT (bitmap64 s 0) \<noteq> 0"
    unfolding all_ones by (metis bit.double_compl bit.compl_zero)
  then have c: "ctzll (NOT (bitmap64 s 0)) = 0"
    using ctzll_bit(3) [of "NOT (bitmap64 s 0)" 0] b by (auto simp: bit_not_iff)
  have "pmm_scan_words s 0 (pmm_bitmap_size s div 8) =
      Inr (0, (bitmap_set_page s 0)\<lparr>pmm_last_free_index := 0\<rparr>)"
    unfolding pmm_scan_words_def using size tz full c
    by (subst for_until.simps) (simp add: Let_def not_le)
  then have "pmm_alloc_page s = Inr (NULL, (bitmap_set_page s 0)\<lparr>pmm_last_free_index := 0\<rparr>)"
    using assms(1,4) by (simp add: pmm_alloc_page_def for_until_two Let_def NULL_def)
  then show ?thesis
    by (simp add: free_pages_set)
qed

section \<open>Scanning for a run of pages\<close>

definition free_run :: "'a pmm_scheme \<Rightarrow> nat \<Rightarrow> nat \<Rightarrow> bool" where
  "free_run s p c \<longleftrightarrow> (\<forall>q. p \<le> unat q \<and> unat q < p + c \<longrightarrow> \<not> used s q)"

definition run_taken :: "'a pmm_scheme \<Rightarrow> u64 \<Rightarrow> nat \<Rightarrow> nat \<Rightarrow> u64 \<times> 'a pmm_scheme \<Rightarrow> bool" where
  "run_taken s count lo hi r \<longleftrightarrow> (\<exists>p. lo \<le> unat p \<and> unat p + unat count \<le> hi \<and>
     free_run s (unat p) (unat count) \<and> r = pmm_take_run s p count)"

text \<open>
  The state of the scan at \<open>page\<close>: the last \<open>cf\<close> pages are free, the one before them is
  not (or lies before the window), and no run of the wanted length ends at or before it.
\<close>

definition scan_inv :: "'a pmm_scheme \<Rightarrow> u64 \<Rightarrow> nat \<Rightarrow> nat \<Rightarrow> u64 \<times> u64 \<Rightarrow> bool" where
  "scan_inv s count lo page st \<longleftrightarrow> (case st of (cf, sp) \<Rightarrow>
     lo + unat cf \<le> page \<and> unat cf < unat count \<and> (cf \<noteq> 0 \<longrightarrow> unat sp + unat cf = page) \<and>
     free_run s (page - unat cf) (unat cf) \<and>
     (lo + unat cf = page \<or> (\<exists>q. unat q + unat cf + 1 = page \<and> used s q)) \<and>
     (\<forall>p. lo \<le> p \<and> p + unat count \<le> page \<longrightarrow> \<not> free_run s p (unat count)))"

lemma scan_inv_start: "0 < count \<Longrightarrow> scan_inv s count lo lo (0, sp)"
  by (auto simp: scan_inv_def free_run_def word_less_nat_alt)

lemma scan_inv_used:
  assumes inv: "scan_inv s count lo (unat page) (cf, sp)" and u: "used s page"
  shows "scan_inv s count lo (Suc (unat page)) (0, sp)"
proof -
  have "\<not> free_run s p (unat count)" if p: "lo \<le> p" "p + unat count \<le> Suc (unat page)" for p
  proof (cases "p + unat count \<le> unat page")
    case True
    then show ?thesis
      using inv p by (auto simp: scan_inv_def)
  next
    case False
    moreover have "0 < unat count"
      using inv by (auto simp: scan_inv_def)
    ultimately have "p \<le> unat page \<and> unat page < p + unat count"
      using p(2) by linarith
    then show ?thesis
      using u by (auto simp: free_run_def)
  qed
  then show ?thesis
    using inv u by (auto simp: scan_inv_def free_run_def)
qed

lemma free_run_Suc:
  assumes "free_run s (unat page - c) c" and "\<not> used s page" and "c \<le> unat page"
  shows "free_run s (unat page - c) (Suc c)"
  unfolding free_run_def
proof (intro allI impI)
  fix q :: u64
  assume q: "unat page - c \<le> unat q \<and> unat q < unat page - c + Suc c"
  show "\<not> used s q"
  proof (cases "q = page")
    case False
    then have "unat q \<noteq> unat page"
      by (simp add: word_unat_eq_iff)
    then have "unat q < unat page - c + c"
      using q assms(3) by linarith
    then show ?thesis
      using assms(1) q unfolding free_run_def by blast
  qed (simp add: assms(2))
qed

lemma scan_inv_free:
  assumes inv: "scan_inv s count lo (unat page) (cf, sp)" and u: "\<not> used s page"
    and less: "unat cf + 1 < unat count"
  shows "scan_inv s count lo (Suc (unat page)) (cf + 1, if cf = 0 then page else sp)"
proof -
  have c: "unat (cf + 1) = Suc (unat cf)"
    using less unat64_bound [of count] by (subst unat_add_no_overflow) simp_all
  have le: "lo + unat cf \<le> unat page"
    using inv by (simp add: scan_inv_def)
  have "\<not> free_run s p (unat count)" if p: "lo \<le> p" "p + unat count \<le> Suc (unat page)" for p
  proof (cases "p + unat count \<le> unat page")
    case True
    then show ?thesis
      using inv p by (auto simp: scan_inv_def)
  next
    case False
    have "lo + unat cf \<noteq> unat page"
      using p False less by linarith
    then obtain q where q: "unat q + unat cf + 1 = unat page" "used s q"
      using inv by (auto simp: scan_inv_def)
    then have "p \<le> unat q \<and> unat q < p + unat count"
      using p False less by linarith
    then show ?thesis
      using q(2) by (auto simp: free_run_def)
  qed
  moreover have "free_run s (Suc (unat page) - unat (cf + 1)) (unat (cf + 1))"
    using free_run_Suc [of s page "unat cf"] inv u le by (simp add: c scan_inv_def)
  ultimately show ?thesis
    using inv less c by (auto simp: scan_inv_def)
qed

lemma pmm_scan_pages_spec:
  assumes lohi: "lo \<le> hi" and count: "1 < count"
  shows "case pmm_scan_pages s count lo hi (0, sp) of
      Inl st \<Rightarrow> scan_inv s count (unat lo) (unat hi) st
    | Inr r \<Rightarrow> run_taken s count (unat lo) (unat hi) r"
  unfolding pmm_scan_pages_def
proof (rule for_until_inv [OF lohi, where I = "\<lambda>i. scan_inv s count (unat lo) (unat i)"], goal_cases)
  case 1
  then show ?case
    using count by (intro scan_inv_start) (auto intro: order.strict_trans [of 0 1])
next
  case (2 page st)
  obtain cf sp where st: "st = (cf, sp)"
    by (cases st)
  have inv: "scan_inv s count (unat lo) (unat page) (cf, sp)"
    using 2 st by simp
  have nx: "unat (page + 1) = Suc (unat page)"
    using 2 by (simp add: unat_succ_less)
  show ?case
  proof (cases "used s page")
    case True
    then show ?thesis
      using scan_inv_used [OF inv] by (simp add: st page_occupied_iff nx)
  next
    case free: False
    have less: "unat cf < unat count" and c: "unat (cf + 1) = Suc (unat cf)"
      using inv unat64_bound [of count] by (auto simp: scan_inv_def unat_add_no_overflow)
    show ?thesis
    proof (cases "cf + 1 = count")
      case False
      then have "unat cf + 1 < unat count"
        using less c by (simp add: word_unat_eq_iff)
      then show ?thesis
        using scan_inv_free [OF inv free] False free by (simp add: st page_occupied_iff nx Let_def)
    next
      case True
      then have cnt: "unat count = Suc (unat cf)"
        using c by simp
      have "cf \<noteq> 0"
        using True count by auto
      then have sp: "unat sp + unat cf = unat page" "unat lo + unat cf \<le> unat page"
        using inv by (auto simp: scan_inv_def)
      then have "unat page - unat cf = unat sp"
        by linarith
      then have "free_run s (unat sp) (unat count)"
        using sp free_run_Suc [of s page "unat cf"] inv free cnt by (auto simp: scan_inv_def)
      moreover have "unat lo \<le> unat sp" "unat sp + unat count \<le> unat hi"
        using sp cnt 2 by (auto simp: word_less_nat_alt)
      ultimately have "run_taken s count (unat lo) (unat hi) (pmm_take_run s sp count)"
        unfolding run_taken_def by blast
      then show ?thesis
        using True free \<open>cf \<noteq> 0\<close> by (simp add: st page_occupied_iff Let_def)
    qed
  qed
qed

text \<open>Taking a run sets exactly its bits.\<close>

lemma set_range:
  assumes "unat p + n = unat q" and "n \<le> 2 ^ 64"
  shows "used (for_range p q (\<lambda>p s. bitmap_set_page s p) s) x \<longleftrightarrow>
      used s x \<or> (unat p \<le> unat x \<and> unat x < unat q)"
    and "pmm_total_pages (for_range p q (\<lambda>p s. bitmap_set_page s p) s) = pmm_total_pages s"
    and "pmm_bitmap_size (for_range p q (\<lambda>p s. bitmap_set_page s p) s) = pmm_bitmap_size s"
proof -
  let ?I = "\<lambda>j t. (\<forall>x. used t x \<longleftrightarrow> used s x \<or> (unat p \<le> unat x \<and> unat x < unat j)) \<and>
      pmm_total_pages t = pmm_total_pages s \<and> pmm_bitmap_size t = pmm_bitmap_size s"
  have "?I q (for_range p q (\<lambda>p s. bitmap_set_page s p) s)"
  proof (rule for_range_inv [where I = ?I])
    show "p \<le> q"
      using assms by (simp add: word_le_nat_alt)
  next
    fix j t
    assume "p \<le> j" "j < q" and I: "?I j t"
    then have "x = j \<or> unat p \<le> unat x \<and> unat x < unat j \<longleftrightarrow>
        unat p \<le> unat x \<and> unat x < unat (j + 1)" for x
      by (auto simp: unat_succ_less word_le_nat_alt word_unat_eq_iff)
    then show "?I (j + 1) (bitmap_set_page t j)"
      using I by auto
  qed auto
  then show "used (for_range p q (\<lambda>p s. bitmap_set_page s p) s) x \<longleftrightarrow>
      used s x \<or> (unat p \<le> unat x \<and> unat x < unat q)"
    and "pmm_total_pages (for_range p q (\<lambda>p s. bitmap_set_page s p) s) = pmm_total_pages s"
    and "pmm_bitmap_size (for_range p q (\<lambda>p s. bitmap_set_page s p) s) = pmm_bitmap_size s"
    by blast+
qed

lemma pmm_take_run_spec:
  assumes "unat p + unat count < 2 ^ 64"
  shows "\<exists>s'. pmm_take_run s p count = (p * 4096, s') \<and> pmm_sized s' = pmm_sized s \<and>
           free_pages s' = free_pages s - {q. unat p \<le> unat q \<and> unat q < unat p + unat count}"
proof -
  have u: "unat (p + count) = unat p + unat count"
    using assms by (subst unat_add_no_overflow) simp_all
  note r = set_range [of p "unat count" "p + count" s, OF u [symmetric]]
  have "unat count \<le> 2 ^ 64"
    using assms by simp
  note r = r [OF this]
  have "pmm_sized (for_range p (p + count) (\<lambda>p s. bitmap_set_page s p) s) = pmm_sized s"
    by (rule pmm_sized_cong) (simp_all add: r)
  then show ?thesis
    by (auto simp: pmm_take_run_def Let_def free_pages_def r u)
qed

lemma pmm_alloc_pages_run:
  assumes "physical_memory_initialized s" and count: "1 < count"
    and first: "first = (if pmm_last_free_index s * 64 \<ge> pmm_total_pages s then 0
                         else pmm_last_free_index s * 64)"
  shows "(\<exists>r lo hi. pmm_alloc_pages s count = Inr r \<and> run_taken s count lo hi r \<and>
            (lo = unat first \<and> hi = unat (pmm_total_pages s) \<or> lo = 0 \<and> hi = unat first)) \<or>
         (pmm_alloc_pages s count = Inr (NULL, s) \<and>
          (\<forall>p. free_run s p (unat count) \<and> p + unat count \<le> unat (pmm_total_pages s) \<longrightarrow>
             p < unat first \<and> unat first < p + unat count))"
proof -
  have le: "first \<le> pmm_total_pages s"
    by (auto simp: first)
  have ne: "count \<noteq> 0" "count \<noteq> 1"
    using count by auto
  note scan0 = pmm_scan_pages_spec [OF le count, of s 0]
  note scan1 = pmm_scan_pages_spec [of 0 first count s, OF _ count]
  have run: "pmm_alloc_pages s count =
      (case pmm_scan_pages s count first (pmm_total_pages s) (0, 0) of
         Inr found \<Rightarrow> Inr found
       | Inl (cf, sp) \<Rightarrow> (case pmm_scan_pages s count 0 first (0, sp) of
           Inr found \<Rightarrow> Inr found | Inl u \<Rightarrow> Inr (NULL, s)))"
    using assms(1) ne
    by (simp add: pmm_alloc_pages_def for_until_two Let_def first split: sum.split prod.split)
  show ?thesis
  proof (cases "pmm_scan_pages s count first (pmm_total_pages s) (0, 0)")
    case (Inr r)
    then show ?thesis
      using scan0 run by auto
  next
    case Inl0: (Inl st)
    obtain cf sp where st: "st = (cf, sp)"
      by (cases st)
    show ?thesis
    proof (cases "pmm_scan_pages s count 0 first (0, sp)")
      case (Inr r)
      then show ?thesis
        using Inl0 scan1 [of sp] run by (auto simp: st)
    next
      case (Inl st')
      have "p < unat first \<and> unat first < p + unat count"
        if "free_run s p (unat count)" "p + unat count \<le> unat (pmm_total_pages s)" for p
      proof (rule ccontr)
        assume "\<not> (p < unat first \<and> unat first < p + unat count)"
        then consider "unat first \<le> p" | "p + unat count \<le> unat first"
          by linarith
        then show False
          using that Inl0 Inl scan0 scan1 [of sp] by cases (auto simp: scan_inv_def)
      qed
      then show ?thesis
        using Inl Inl0 run by (simp add: st)
    qed
  qed
qed

text \<open>
  C14. \<^verbatim>\<open>pmm_alloc_pages\<close> takes \<open>count\<close> consecutive free pages out of the free set, all within
  the bitmap, and returns the address of the first, which is null for page 0 alone. Otherwise it
  leaves the state alone and reports failure, and every free run of that length crosses the page
  at which the search started; such a run is the only kind it misses. Unless page 0 is free, a null
  result is a failure of this second kind.
\<close>

theorem pmm_alloc_pages_refines:
  assumes "physical_memory_initialized s" and "pmm_sized s" and "1 < count"
    and "first = (if pmm_last_free_index s * 64 \<ge> pmm_total_pages s then 0
                  else pmm_last_free_index s * 64)"
  shows "(\<exists>p s'. pmm_alloc_pages s count = Inr (p * 4096, s') \<and> (p * 4096 = NULL \<longleftrightarrow> p = 0) \<and>
            (p = 0 \<longrightarrow> 0 \<in> free_pages s) \<and>
            unat p + unat count \<le> unat (pmm_total_pages s) \<and>
            {q. unat p \<le> unat q \<and> unat q < unat p + unat count} \<subseteq> free_pages s \<and>
            free_pages s' = free_pages s - {q. unat p \<le> unat q \<and> unat q < unat p + unat count} \<and>
            pmm_sized s') \<or>
         (pmm_alloc_pages s count = Inr (NULL, s) \<and>
          (\<forall>p. {q. p \<le> unat q \<and> unat q < p + unat count} \<subseteq> free_pages s \<and>
               p + unat count \<le> unat (pmm_total_pages s) \<longrightarrow>
             p < unat first \<and> unat first < p + unat count))"
proof -
  have fr: "free_run s p (unat count) \<longleftrightarrow> {q. p \<le> unat q \<and> unat q < p + unat count} \<subseteq> free_pages s"
    if "p + unat count \<le> unat (pmm_total_pages s)" for p
    using that by (auto simp: free_run_def free_pages_def word_less_nat_alt)
  from pmm_alloc_pages_run [OF assms(1,3,4)] show ?thesis
  proof (elim disjE)
    assume "\<exists>r lo hi. pmm_alloc_pages s count = Inr r \<and> run_taken s count lo hi r \<and>
       (lo = unat first \<and> hi = unat (pmm_total_pages s) \<or> lo = 0 \<and> hi = unat first)"
    moreover have "unat first \<le> unat (pmm_total_pages s)"
      by (auto simp: assms(4) word_le_nat_alt)
    ultimately obtain p where p: "pmm_alloc_pages s count = Inr (pmm_take_run s p count)"
      "unat p + unat count \<le> unat (pmm_total_pages s)" "free_run s (unat p) (unat count)"
      unfolding run_taken_def by auto
    moreover have "unat p + unat count < 2 ^ 64"
      using p(2) unat64_bound [of "pmm_total_pages s"] by simp
    moreover have "p \<in> free_pages s"
      using fr [OF p(2)] p(3) assms(3) by (auto simp: word_less_nat_alt)
    moreover from this have "p * 4096 = NULL \<longleftrightarrow> p = 0"
      using page_address_zero [OF assms(2)] by (simp add: free_pages_def)
    ultimately show ?thesis
      using pmm_take_run_spec [of p count s] fr [of "unat p"] assms(2) by auto
  qed (use fr in blast)
qed

lemma unat_two: "unat (2 :: u64) = 2"
  by simp

text \<open>
  The runs it misses are real: with the search starting at page \<open>f\<close>, two free pages
  \<open>f - 1\<close> and \<open>f\<close> side by side, and nothing else free, a request for two pages fails.
\<close>

theorem pmm_alloc_pages_misses_straddling:
  assumes "physical_memory_initialized s" and "f = pmm_last_free_index s * 64"
    and "0 < f" and "f < pmm_total_pages s" and free: "free_pages s = {f - 1, f}"
  shows "pmm_alloc_pages s 2 = Inr (NULL, s)"
proof -
  have f1: "unat (f - 1) = unat f - 1" and f0: "0 < unat f"
    using assms(3) by (simp_all add: unat_minus_one word_less_nat_alt unat_gt_0)
  have first: "f = (if pmm_last_free_index s * 64 \<ge> pmm_total_pages s then 0
      else pmm_last_free_index s * 64)"
    using assms(2,4) by auto
  have no: "\<not> run_taken s 2 lo hi r"
    if w: "lo = unat f \<and> hi = unat (pmm_total_pages s) \<or> lo = 0 \<and> hi = unat f" for lo hi r
  proof
    assume "run_taken s 2 lo hi r"
    then obtain p :: u64 where p: "lo \<le> unat p" "unat p + 2 \<le> hi" "free_run s (unat p) 2"
      unfolding run_taken_def unat_two by blast
    have le: "unat f \<le> unat (pmm_total_pages s)"
      using assms(4) by (simp add: word_less_nat_alt)
    have p1: "unat (p + 1) = unat p + 1"
      using p(2) w le unat64_bound [of "pmm_total_pages s"]
      by (subst unat_add_no_overflow) auto
    have "p \<in> free_pages s" "p + 1 \<in> free_pages s"
      using p w le p1 by (auto simp: free_run_def free_pages_def word_less_nat_alt)
    then have "unat p = unat f - 1 \<or> unat p = unat f" "unat p + 1 = unat f - 1 \<or> unat p + 1 = unat f"
      unfolding free using f1 p1 by auto
    then show False
      using p w f0 by linarith
  qed
  show ?thesis
    using pmm_alloc_pages_run [of s 2, OF assms(1) _ first] no by auto
qed

section \<open>Release\<close>

lemma page_addr:
  fixes p :: u64
  assumes "unat p \<le> 2 ^ 52" and "p \<noteq> 0" and "unat p \<noteq> 2 ^ 52"
  shows "p * 4096 div 4096 = p" and "p * 4096 mod 4096 = 0" and "p * 4096 \<noteq> 0"
proof -
  have u: "unat (p * 4096) = unat p * 4096"
    using assms by (simp add: unat_word_ariths)
  have "unat (p * 4096 div 4096) = unat p"
    unfolding unat_div u by simp
  then show "p * 4096 div 4096 = p"
    by (simp only: word_unat_eq_iff)
  have "unat (p * 4096 mod 4096) = 0"
    unfolding unat_mod u by simp
  then show "p * 4096 mod 4096 = 0"
    by (simp only: unat_0_iff)
  have "unat (p * 4096) \<noteq> 0"
    using assms(2) by (simp only: u) (simp add: unat_0_iff)
  then show "p * 4096 \<noteq> 0"
    by (simp only: unat_0_iff not_False_eq_True)
qed

lemma pmm_sized_page:
  assumes "pmm_sized s" and "p < pmm_total_pages s"
  shows "unat p < 2 ^ 52"
  using assms by (simp add: pmm_sized_def word_less_nat_alt)

text \<open>
  Releasing the page that was just allocated gives back the free set of before, and
  releasing it once more is caught.
\<close>

theorem pmm_alloc_free_roundtrip:
  assumes "physical_memory_initialized s" and "pmm_sized s"
    and "pmm_alloc_page s = Inr (a, s')" and "a \<noteq> NULL"
  shows "\<exists>s''. pmm_free_page s' a = Inr (True, s'') \<and> free_pages s'' = free_pages s \<and>
           pmm_free_page s'' a =
             Inl (Panic ''Attempted to free a physical page that is already free'')"
proof -
  obtain p where p: "p < pmm_total_pages s" "\<not> used s p" "a = p * 4096"
    and s': "s' = (bitmap_set_page s p)\<lparr>pmm_last_free_index := p div 64\<rparr>"
    using pmm_alloc_page_cases [OF assms(1,2)] assms(3,4) by (auto simp: page_taken_def)
  have "p \<noteq> 0"
    using p(3) assms(4) by (auto simp: NULL_def)
  note addr = page_addr [OF _ this, folded p(3)]
  have addr: "a div 4096 = p" "a mod 4096 = 0" "a \<noteq> 0"
    using addr pmm_sized_page [OF assms(2) p(1)] by simp_all
  define s2 where "s2 = bitmap_clear_page s' p"
  have "pmm_free_page s' a = Inr (True, s2)"
    using assms(1) p addr
    by (simp add: pmm_free_page_def NULL_def Let_def s' s2_def page_occupied_iff not_le)
  moreover have "free_pages s2 = free_pages s"
    using p by (simp add: s2_def s' free_pages_clear free_pages_set) (auto simp: free_pages_def)
  moreover have "pmm_free_page s2 a =
      Inl (Panic ''Attempted to free a physical page that is already free'')"
    using assms(1) p addr
    by (simp add: pmm_free_page_def NULL_def Let_def s' s2_def page_occupied_iff not_le)
  ultimately show ?thesis
    by blast
qed

text \<open>Clearing the bits of a range, up to the first page that is free already.\<close>

lemma pmm_free_pages_loop:
  assumes "p \<le> q"
  shows "case for_until p q (\<lambda>page s. if \<not> page_occupied s page then Inr e
            else Inl (bitmap_clear_page s page)) s of
      Inl t \<Rightarrow> (\<forall>x. used t x \<longleftrightarrow> used s x \<and> \<not> (p \<le> x \<and> x < q)) \<and>
               pmm_total_pages t = pmm_total_pages s \<and> pmm_bitmap_size t = pmm_bitmap_size s \<and>
               (\<forall>x. p \<le> x \<and> x < q \<longrightarrow> used s x)
    | Inr r \<Rightarrow> r = e \<and> (\<exists>x. p \<le> x \<and> x < q \<and> \<not> used s x)"
proof (rule for_until_inv [OF assms, where I = "\<lambda>j t.
      (\<forall>x. used t x \<longleftrightarrow> used s x \<and> \<not> (p \<le> x \<and> x < j)) \<and>
      pmm_total_pages t = pmm_total_pages s \<and> pmm_bitmap_size t = pmm_bitmap_size s \<and>
      (\<forall>x. p \<le> x \<and> x < j \<longrightarrow> used s x)"], goal_cases)
  case (2 j t)
  have "x < j + 1 \<longleftrightarrow> x < j \<or> x = j" for x
    using unat_succ_less [OF 2(2)] by (auto simp: word_less_nat_alt word_unat_eq_iff)
  then show ?case
    using 2 by (auto simp: page_occupied_iff)
qed auto

text \<open>
  C15. Releasing a range of pages within the bitmap either adds the whole range to the free
  set, when all of its pages were in use, or stops with a panic, when one was free.
\<close>

theorem pmm_free_pages_refines:
  assumes "physical_memory_initialized s" and "pmm_sized s" and "0 < count" and "0 < p"
    and "unat p + unat count \<le> unat (pmm_total_pages s)"
  shows "if \<exists>q \<in> free_pages s. p \<le> q \<and> q < p + count
         then pmm_free_pages s (p * 4096) count =
                Inl (Panic ''Attempted to free a physical page that is already free'')
         else \<exists>s'. pmm_free_pages s (p * 4096) count = Inr (True, s') \<and>
                free_pages s' = free_pages s \<union> {q. p \<le> q \<and> q < p + count} \<and> pmm_sized s'"
proof -
  have u: "unat (p + count) = unat p + unat count"
    using assms(5) unat64_bound [of "pmm_total_pages s"] by (subst unat_add_no_overflow) simp_all
  have c: "0 < unat count" "count \<noteq> 0" "p \<noteq> 0"
    using assms(3,4) by (auto simp: word_less_nat_alt)
  have "unat p < 2 ^ 52"
    using assms(2,5) c(1) by (auto simp: pmm_sized_def)
  then have addr: "p * 4096 div 4096 = p" "p * 4096 mod 4096 = 0" "p * 4096 \<noteq> NULL"
    using page_addr [of p] c by (simp_all add: NULL_def)
  have le: "p \<le> p + count" "\<not> p + count > pmm_total_pages s"
    using assms(5) by (simp_all add: word_le_nat_alt u not_less)
  have below: "q < p + count \<Longrightarrow> q < pmm_total_pages s" for q
    using assms(5) by (simp add: word_less_nat_alt u)
  let ?e = "Panic ''Attempted to free a physical page that is already free''"
  note loop = pmm_free_pages_loop [OF le(1), where e = ?e and s = s]
  have run: "pmm_free_pages s (p * 4096) count =
      (case for_until p (p + count) (\<lambda>page s. if \<not> page_occupied s page then Inr ?e
            else Inl (bitmap_clear_page s page)) s of
         Inr e \<Rightarrow> Inl e
       | Inl t \<Rightarrow> Inr (True, if p div 64 < pmm_last_free_index t
                            then t\<lparr>pmm_last_free_index := p div 64\<rparr> else t))"
    using assms(1) addr c le(2) by (simp add: pmm_free_pages_def Let_def split: sum.split)
  show ?thesis
    using loop run below assms(2)
    by (auto split: sum.splits simp: free_pages_def pmm_sized_def)
qed

text \<open>
  The range check of \<^verbatim>\<open>pmm_free_pages\<close> wraps around: with \<open>count\<close> the two's complement
  of the start page it passes, nothing is released, and the call reports success.
\<close>

theorem pmm_free_pages_count_wraps:
  assumes "physical_memory_initialized s" and "a mod 4096 = 0" and "a \<noteq> NULL"
  shows "\<exists>s'. pmm_free_pages s a (- (a div 4096)) = Inr (True, s') \<and> free_pages s' = free_pages s"
proof -
  have "a div 4096 \<noteq> 0"
    using assms(2,3) div_mult_mod_eq [of a 4096] by (auto simp: NULL_def)
  then show ?thesis
    using assms by (simp add: pmm_free_pages_def Let_def for_until_done)
qed

section \<open>Instances\<close>

text \<open>
  A machine of 64 pages mapped at address 0: page 0 is never used, page 1 holds the bitmap and
  page 2 the (empty) root table of the page tables; all other pages are free.
\<close>

definition sample_pmm :: pmm where
  "sample_pmm = \<lparr>mem = (\<lambda>_. 0)(0x1000 := 7), cr3 = 0x2000, efer = 0, tlb_flushes = [],
     physical_memory_initialized = True, hhdm_offset = 0, pmm_bitmap = 0x1000,
     pmm_bitmap_size = 8, pmm_total_pages = 64, pmm_last_free_index = 0,
     kernel_start_phys = 0, kernel_end_phys = 0, pmm_bootloader_cr3 = 0\<rparr>"

lemma sample_pmm_fields [simp]:
  "physical_memory_initialized sample_pmm" "hhdm_offset sample_pmm = 0"
  "pmm_bitmap sample_pmm = 0x1000" "pmm_bitmap_size sample_pmm = 8"
  "pmm_total_pages sample_pmm = 64" "pmm_last_free_index sample_pmm = 0" "cr3 sample_pmm = 0x2000"
  "pmm_bootloader_cr3 sample_pmm = 0" "pmm_sized sample_pmm"
  by (simp_all add: sample_pmm_def pmm_sized_def)

lemma sample_used: "used sample_pmm p \<longleftrightarrow> p < 3"
proof (cases "unat p < 8")
  case True
  then have "p div 8 = 0" "unat (p mod 8) = unat p"
    by (simp_all add: word_unat_eq_iff unat_div unat_mod)
  moreover have "bit (7 :: u8) k \<longleftrightarrow> k < 3" for k
    using bit_mask_iff [where m = 3 and 'a = "8 word", of k] by (auto simp: mask_eq_exp_minus_1)
  ultimately show ?thesis
    by (simp add: used_def sample_pmm_def word_less_nat_alt)
next
  case False
  then have "unat (p div 8) \<noteq> 0"
    by (simp add: unat_div)
  then show ?thesis
    using False by (auto simp: used_def sample_pmm_def unat_0_iff word_less_nat_alt)
qed

lemma sample_free: "free_pages sample_pmm = {p. 3 \<le> p \<and> p < 64}"
  by (auto simp: free_pages_def sample_used)

theorem pmm_alloc_page_refines_witness:
  "\<exists>p \<in> free_pages sample_pmm. \<exists>s'. pmm_alloc_page sample_pmm = Inr (p * 4096, s') \<and>
     free_pages s' = free_pages sample_pmm - {p} \<and> p * 4096 \<noteq> NULL"
proof -
  have "(3 :: u64) \<in> free_pages sample_pmm" "0 \<notin> free_pages sample_pmm"
    by (simp_all add: sample_free)
  then show ?thesis
    using pmm_alloc_page_refines [of sample_pmm] by (auto split: if_splits)
qed

theorem pmm_alloc_page_zero_lost_witness:
  "\<exists>s'. pmm_alloc_page (bitmap_clear_page sample_pmm 0) = Inr (NULL, s') \<and>
     free_pages s' = free_pages (bitmap_clear_page sample_pmm 0) - {0}"
  by (rule pmm_alloc_page_zero_lost) (simp_all add: free_pages_def pmm_sized_def)

theorem pmm_alloc_pages_refines_witness:
  "\<exists>p s'. pmm_alloc_pages sample_pmm 3 = Inr (p * 4096, s') \<and> p * 4096 \<noteq> NULL \<and>
     {q. unat p \<le> unat q \<and> unat q < unat p + 3} \<subseteq> free_pages sample_pmm"
proof -
  have "{q :: u64. 3 \<le> unat q \<and> unat q < 3 + unat (3 :: u64)} \<subseteq> free_pages sample_pmm"
    "0 \<notin> free_pages sample_pmm"
    by (auto simp: sample_free word_less_nat_alt word_le_nat_alt)
  then show ?thesis
    using pmm_alloc_pages_refines [of sample_pmm 3 0] by fastforce
qed

text \<open>128 pages, with the search hint on page 64 and only the pages 63 and 64 free.\<close>

definition straddling_pmm :: pmm where
  "straddling_pmm = sample_pmm\<lparr>mem := (\<lambda>_. 0xFF)(0x1007 := 0x7F, 0x1008 := 0xFE),
     pmm_bitmap_size := 16, pmm_total_pages := 128, pmm_last_free_index := 1\<rparr>"

lemma straddling_free: "free_pages straddling_pmm = {63, 64}"
proof -
  have all: "\<forall>k \<in> set [0..<128]. used straddling_pmm (of_nat k) \<longleftrightarrow> k \<noteq> 63 \<and> k \<noteq> 64"
    by code_simp
  have "used straddling_pmm p \<longleftrightarrow> p \<noteq> 63 \<and> p \<noteq> 64" if "p < 128" for p
  proof -
    have "unat p \<in> set [0..<128]"
      using that by (simp add: word_less_nat_alt)
    with all have "used straddling_pmm (of_nat (unat p)) \<longleftrightarrow> unat p \<noteq> 63 \<and> unat p \<noteq> 64"
      by blast
    moreover have "p = 63 \<longleftrightarrow> unat p = 63" "p = 64 \<longleftrightarrow> unat p = 64"
      by (simp_all add: word_unat_eq_iff)
    ultimately show ?thesis
      by simp
  qed
  then show ?thesis
    by (auto simp: free_pages_def) (simp_all add: straddling_pmm_def)
qed

theorem pmm_alloc_pages_misses_straddling_witness:
  "pmm_alloc_pages straddling_pmm 2 = Inr (NULL, straddling_pmm) \<and>
   free_pages straddling_pmm = {63, 64}"
  using pmm_alloc_pages_misses_straddling [of straddling_pmm 64] straddling_free
  by (simp add: straddling_pmm_def)

theorem pmm_alloc_free_roundtrip_witness:
  "\<exists>a s' s''. pmm_alloc_page sample_pmm = Inr (a, s') \<and> pmm_free_page s' a = Inr (True, s'') \<and>
     free_pages s'' = free_pages sample_pmm"
proof -
  have "\<not> used sample_pmm 3"
    by (simp add: sample_used)
  then obtain p s' where p: "p < 64" "\<not> used sample_pmm p"
    "pmm_alloc_page sample_pmm = Inr (p * 4096, s')"
    using pmm_alloc_page_cases [of sample_pmm] by (auto simp: page_taken_def)
  have "p \<noteq> 0" "unat p < 64"
    using p by (auto simp: sample_used word_less_nat_alt)
  then have "p * 4096 \<noteq> NULL"
    using page_addr(3) [of p] by (simp add: NULL_def)
  then show ?thesis
    using pmm_alloc_free_roundtrip [OF _ _ p(3)] p(3) by fastforce
qed

theorem pmm_free_pages_refines_witness:
  "\<exists>s'. pmm_free_pages sample_pmm (1 * 4096) 2 = Inr (True, s') \<and>
     free_pages s' = free_pages sample_pmm \<union> {q. 1 \<le> q \<and> q < 1 + 2} \<and> pmm_sized s'"
proof -
  have no: "\<not> (\<exists>q \<in> free_pages sample_pmm. 1 \<le> q \<and> q < 1 + 2)"
    by (auto simp: sample_free)
  have "if \<exists>q \<in> free_pages sample_pmm. 1 \<le> q \<and> q < 1 + 2
        then pmm_free_pages sample_pmm (1 * 4096) 2 =
          Inl (Panic ''Attempted to free a physical page that is already free'')
        else \<exists>s'. pmm_free_pages sample_pmm (1 * 4096) 2 = Inr (True, s') \<and>
          free_pages s' = free_pages sample_pmm \<union> {q. 1 \<le> q \<and> q < 1 + 2} \<and> pmm_sized s'"
    by (rule pmm_free_pages_refines) simp_all
  then show ?thesis
    unfolding if_not_P [OF no] .
qed

theorem pmm_free_pages_count_wraps_witness:
  "\<exists>s'. pmm_free_pages sample_pmm 0x1000 (- (0x1000 div 4096)) = Inr (True, s') \<and>
     free_pages s' = free_pages sample_pmm"
  by (rule pmm_free_pages_count_wraps) (simp_all add: NULL_def)

end
