(* ===== verification/Limine.thy ===== *)
theory Limine
  imports Prelude
begin

text \<open>
  The bootloader's answers, as \<^verbatim>\<open>bootloader/limine.h\<close> declares them and
  \<^verbatim>\<open>bootloader/limine_request.c\<close> requests them. A response pointer is an option, a response's
  array a list. The kernel only reads them, so they are an argument of the functions that do.
\<close>

record limine_memmap_entry =
  entry_base :: u64
  entry_length :: u64
  entry_type :: u64

definition LIMINE_MEMMAP_USABLE :: u64 where "LIMINE_MEMMAP_USABLE = 0"
definition LIMINE_MEMMAP_ACPI_RECLAIMABLE :: u64 where "LIMINE_MEMMAP_ACPI_RECLAIMABLE = 2"
definition LIMINE_MEMMAP_ACPI_NVS :: u64 where "LIMINE_MEMMAP_ACPI_NVS = 3"
definition LIMINE_MEMMAP_BOOTLOADER_RECLAIMABLE :: u64 where "LIMINE_MEMMAP_BOOTLOADER_RECLAIMABLE = 5"
definition LIMINE_MEMMAP_EXECUTABLE_AND_MODULES :: u64 where "LIMINE_MEMMAP_EXECUTABLE_AND_MODULES = 6"

record limine_video_mode =
  mode_pitch :: u64
  mode_width :: u64
  mode_height :: u64
  mode_bpp :: u16
  mode_memory_model :: u8
  mode_red_mask_size :: u8
  mode_red_mask_shift :: u8
  mode_green_mask_size :: u8
  mode_green_mask_shift :: u8
  mode_blue_mask_size :: u8
  mode_blue_mask_shift :: u8

record limine_framebuffer =
  fb_address :: u64
  fb_width :: u64
  fb_height :: u64
  fb_pitch :: u64
  fb_bpp :: u16
  fb_memory_model :: u8
  fb_red_mask_size :: u8
  fb_red_mask_shift :: u8
  fb_green_mask_size :: u8
  fb_green_mask_shift :: u8
  fb_blue_mask_size :: u8
  fb_blue_mask_shift :: u8
  fb_edid :: "u8 list"
  fb_modes :: "limine_video_mode list"

definition LIMINE_FRAMEBUFFER_RGB :: u8 where "LIMINE_FRAMEBUFFER_RGB = 1"

record limine_executable_address =
  physical_base :: u64
  virtual_base :: u64

record boot_info =
  memmap_response :: "limine_memmap_entry list option"
  kernel_address_response :: "limine_executable_address option"
  hhdm_response :: "u64 option"
  framebuffer_response :: "limine_framebuffer option list option"
  rsdp_response :: "u64 option"

lemmas memmap_types = LIMINE_MEMMAP_USABLE_def LIMINE_MEMMAP_ACPI_RECLAIMABLE_def
  LIMINE_MEMMAP_ACPI_NVS_def LIMINE_MEMMAP_BOOTLOADER_RECLAIMABLE_def
  LIMINE_MEMMAP_EXECUTABLE_AND_MODULES_def

end
