(* ===== verification/Pmm_Init.thy ===== *)
theory Pmm_Init
  imports Pmm Limine
begin

text \<open>
  Boot-time construction of the page bitmap: \<^verbatim>\<open>pmm_init\<close> of \<^verbatim>\<open>kernel/memory/pmm.c\<close> with its
  helpers, the reclaiming of bootloader memory, and the proof that a successful
  initialisation leaves exactly the usable pages free that hold neither the kernel nor the
  bitmap itself.
\<close>

section \<open>Definitions\<close>

definition pmm_validate_bootloader_requests :: "boot_info \<Rightarrow> unit outcome" where
  "pmm_validate_bootloader_requests b =
     (if memmap_response b = None \<or> memmap_response b = Some [] then
        Inl (Panic ''Failed to initialize physical memory: No valid memory map provided by the bootloader.'')
      else if (case kernel_address_response b of None \<Rightarrow> True | Some r \<Rightarrow> physical_base r = 0) then
        Inl (Panic ''Failed to initialize physical memory: No valid kernel address provided by the bootloader.'')
      else if hhdm_response b = None then
        Inl (Panic ''Failed to initialize physical memory: No valid HHDM offset provided by the bootloader.'')
      else Inr ())"

text \<open>The loops over the memory map, the entries in their order.\<close>

fun find_kernel_size :: "u64 \<Rightarrow> limine_memmap_entry list \<Rightarrow> u64" where
  "find_kernel_size kernel_start [] = 0"
| "find_kernel_size kernel_start (entry # entries) =
     (if entry_type entry = LIMINE_MEMMAP_EXECUTABLE_AND_MODULES \<and>
         kernel_start \<ge> entry_base entry \<and>
         kernel_start < entry_base entry + entry_length entry
      then (entry_base entry + entry_length entry) - kernel_start
      else find_kernel_size kernel_start entries)"

definition pmm_calculate_kernel_bounds ::
  "boot_info \<Rightarrow> limine_memmap_entry list \<Rightarrow> 'a pmm_scheme \<Rightarrow> 'a pmm_scheme outcome" where
  "pmm_calculate_kernel_bounds b memmap s =
     (case (hhdm_response b, kernel_address_response b) of
        (Some offset, Some kernel_address) \<Rightarrow>
          let s = s\<lparr>hhdm_offset := offset\<rparr>;
              s = s\<lparr>kernel_start_phys := physical_base kernel_address\<rparr>;
              kernel_size = find_kernel_size (kernel_start_phys s) memmap
          in if kernel_size = 0 then
               Inl (Panic ''Failed to initialize physical memory: Kernel size is zero. No valid executable memory region found in the memory map.'')
             else Inr (s\<lparr>kernel_end_phys := kernel_start_phys s + kernel_size\<rparr>)
      | _ \<Rightarrow> Inl Bad_access)"

fun find_highest :: "limine_memmap_entry list \<Rightarrow> u64 \<Rightarrow> u64" where
  "find_highest [] highest_address = highest_address"
| "find_highest (entry # entries) highest_address =
     find_highest entries
       (if entry_type entry = LIMINE_MEMMAP_USABLE \<or>
           entry_type entry = LIMINE_MEMMAP_BOOTLOADER_RECLAIMABLE \<or>
           entry_type entry = LIMINE_MEMMAP_EXECUTABLE_AND_MODULES \<or>
           entry_type entry = LIMINE_MEMMAP_ACPI_RECLAIMABLE \<or>
           entry_type entry = LIMINE_MEMMAP_ACPI_NVS
        then
          let entry_end = entry_base entry + entry_length entry
          in if entry_end > highest_address then entry_end else highest_address
        else highest_address)"

definition pmm_find_highest_address :: "limine_memmap_entry list \<Rightarrow> u64" where
  "pmm_find_highest_address memmap = find_highest memmap 0"

fun find_bitmap_place :: "u64 \<Rightarrow> limine_memmap_entry list \<Rightarrow> u64" where
  "find_bitmap_place bitmap_size [] = 0"
| "find_bitmap_place bitmap_size (entry # entries) =
     (if entry_type entry = LIMINE_MEMMAP_USABLE then
        let aligned_base = ALIGN_UP (entry_base entry) 4096;
            aligned_end = ALIGN_DOWN (entry_base entry + entry_length entry) 4096;
            aligned_base = (if aligned_base = 0 then aligned_base + 4096 else aligned_base)
        in if aligned_base < aligned_end \<and> aligned_end - aligned_base \<ge> bitmap_size
           then aligned_base
           else find_bitmap_place bitmap_size entries
      else find_bitmap_place bitmap_size entries)"

definition pmm_allocate_bitmap_placeholder ::
  "limine_memmap_entry list \<Rightarrow> 'a pmm_scheme \<Rightarrow> u64 outcome" where
  "pmm_allocate_bitmap_placeholder memmap s =
     (let bitmap_phys_addr = find_bitmap_place (pmm_bitmap_size s) memmap
      in if bitmap_phys_addr = 0 then
           Inl (Panic ''Failed to initialize physical memory: Not enough continuous usable memory to allocate the PMM bitmap.'')
         else Inr bitmap_phys_addr)"

definition pmm_init_bitmap_metadata ::
  "limine_memmap_entry list \<Rightarrow> 'a pmm_scheme \<Rightarrow> 'a pmm_scheme outcome" where
  "pmm_init_bitmap_metadata memmap s =
     (let highest_address = pmm_find_highest_address memmap;
          s = s\<lparr>pmm_total_pages := (highest_address + 4095) div 4096\<rparr>;
          s = s\<lparr>pmm_bitmap_size := ALIGN_UP (pmm_total_pages s) 64 div 8\<rparr>;
          s = (if pmm_total_pages s mod 8 \<noteq> 0
               then s\<lparr>pmm_bitmap_size := pmm_bitmap_size s + 1\<rparr> else s)
      in bind_ok (pmm_allocate_bitmap_placeholder memmap s) (\<lambda>bitmap_phys_addr.
           let s = s\<lparr>pmm_bitmap := P2V s bitmap_phys_addr\<rparr>
           in Inr (s\<lparr>mem := memset (mem s) (pmm_bitmap s) 0xFF (pmm_bitmap_size s)\<rparr>)))"

text \<open>
  The middle loop of \<^verbatim>\<open>pmm_map_usable_memory_regions\<close>, eight bitmap bytes at a time. The
  second conjunct of the guard only says that the counter does not wrap; page numbers are
  addresses divided by 4096, so it always holds.
\<close>

function pmm_clear_bulk :: "'a pmm_scheme \<Rightarrow> u64 \<Rightarrow> u64 \<Rightarrow> 'a pmm_scheme \<times> u64" where
  "pmm_clear_bulk s page bulk_end_page =
     (if page < bulk_end_page \<and> page < page + 64 then
        pmm_clear_bulk (s\<lparr>mem := memset (mem s) (pmm_bitmap s + page div 8) 0 8\<rparr>)
          (page + 64) bulk_end_page
      else (s, page))"
  by pat_completeness auto
termination
  by (relation "measure (\<lambda>(s, page, n). 2 ^ 64 - unat page)")
    (auto simp: word_less_nat_alt, use unat64_bound in \<open>simp add: diff_less_mono2\<close>)

declare pmm_clear_bulk.simps [simp del]

definition pmm_map_usable_region :: "limine_memmap_entry \<Rightarrow> 'a pmm_scheme \<Rightarrow> 'a pmm_scheme" where
  "pmm_map_usable_region entry s =
     (if entry_type entry = LIMINE_MEMMAP_USABLE then
        let aligned_base = ALIGN_UP (entry_base entry) 4096;
            aligned_end = ALIGN_DOWN (entry_base entry + entry_length entry) 4096
        in if aligned_base \<ge> aligned_end then s else
        let start_page = aligned_base div 4096;
            end_page = aligned_end div 4096;
            next_aligned_page = ALIGN_UP start_page 64;
            next_aligned_page =
              (if next_aligned_page > end_page then end_page else next_aligned_page);
            s = for_range start_page next_aligned_page (\<lambda>page s. bitmap_clear_page s page) s;
            bulk_end_page = ALIGN_DOWN end_page 64;
            (s, page) = pmm_clear_bulk s next_aligned_page bulk_end_page
        in for_range page end_page (\<lambda>page s. bitmap_clear_page s page) s
      else s)"

fun pmm_map_usable_memory_regions ::
  "limine_memmap_entry list \<Rightarrow> 'a pmm_scheme \<Rightarrow> 'a pmm_scheme" where
  "pmm_map_usable_memory_regions [] s = s"
| "pmm_map_usable_memory_regions (entry # entries) s =
     pmm_map_usable_memory_regions entries (pmm_map_usable_region entry s)"

definition pmm_protect_critical_structures :: "'a pmm_scheme \<Rightarrow> u64 \<Rightarrow> 'a pmm_scheme" where
  "pmm_protect_critical_structures s bitmap_phys_addr =
     (let kernel_start_page = ALIGN_DOWN (kernel_start_phys s) 4096 div 4096;
          kernel_end_page = ALIGN_UP (kernel_end_phys s) 4096 div 4096;
          s = for_range kernel_start_page kernel_end_page (\<lambda>page s. bitmap_set_page s page) s;
          bitmap_start_page = ALIGN_DOWN bitmap_phys_addr 4096 div 4096;
          bitmap_end_page = ALIGN_UP (bitmap_phys_addr + pmm_bitmap_size s) 4096 div 4096
      in for_range bitmap_start_page bitmap_end_page (\<lambda>page s. bitmap_set_page s page) s)"

definition pmm_init :: "boot_info \<Rightarrow> 'a pmm_scheme \<Rightarrow> 'a pmm_scheme outcome" where
  "pmm_init b s =
     bind_ok (pmm_validate_bootloader_requests b) (\<lambda>_.
     case memmap_response b of None \<Rightarrow> Inl Bad_access | Some memmap \<Rightarrow>
     bind_ok (pmm_calculate_kernel_bounds b memmap s) (\<lambda>s.
     let _ = pmm_find_highest_address memmap in
     bind_ok (pmm_init_bitmap_metadata memmap s) (\<lambda>s.
     let s = pmm_map_usable_memory_regions memmap s;
         phys_bm = V2P s (pmm_bitmap s);
         s = pmm_protect_critical_structures s phys_bm;
         s = s\<lparr>pmm_bootloader_cr3 := get_current_cr3 s\<rparr>
     in Inr (s\<lparr>physical_memory_initialized := True\<rparr>))))"

fun sum_usable :: "limine_memmap_entry list \<Rightarrow> u64 \<Rightarrow> u64" where
  "sum_usable [] total_mem = total_mem"
| "sum_usable (entry # entries) total_mem =
     sum_usable entries
       (if entry_type entry = LIMINE_MEMMAP_USABLE then total_mem + entry_length entry else total_mem)"

definition get_total_memory_size :: "boot_info \<Rightarrow> u64 outcome" where
  "get_total_memory_size b =
     (case memmap_response b of None \<Rightarrow> Inl Bad_access | Some memmap \<Rightarrow> Inr (sum_usable memmap 0))"

definition pmm_reclaim_region :: "limine_memmap_entry \<Rightarrow> 'a pmm_scheme \<Rightarrow> 'a pmm_scheme" where
  "pmm_reclaim_region entry s =
     (if entry_type entry = LIMINE_MEMMAP_BOOTLOADER_RECLAIMABLE then
        let aligned_base = ALIGN_DOWN (entry_base entry) 4096;
            aligned_end = ALIGN_UP (entry_base entry + entry_length entry) 4096;
            start_page = aligned_base div 4096;
            end_page = aligned_end div 4096;
            end_page = (if end_page > pmm_total_pages s then pmm_total_pages s else end_page)
        in for_range start_page end_page (\<lambda>page s. bitmap_clear_page s page) s
      else s)"

fun pmm_reclaim_regions :: "limine_memmap_entry list \<Rightarrow> 'a pmm_scheme \<Rightarrow> 'a pmm_scheme" where
  "pmm_reclaim_regions [] s = s"
| "pmm_reclaim_regions (entry # entries) s =
     pmm_reclaim_regions entries (pmm_reclaim_region entry s)"

definition pmm_reclaim_bootloader_memory :: "boot_info \<Rightarrow> 'a pmm_scheme \<Rightarrow> 'a pmm_scheme outcome" where
  "pmm_reclaim_bootloader_memory b s =
     (if \<not> physical_memory_initialized s then Inr s else
      if get_current_cr3 s = pmm_bootloader_cr3 s then
        Inl (Panic ''Safety Violation: Attempted to reclaim bootloader memory while its page tables are still active in CR3'')
      else case memmap_response b of None \<Rightarrow> Inl Bad_access | Some memmap \<Rightarrow>
        let s = pmm_reclaim_regions memmap s
        in Inr (s\<lparr>pmm_last_free_index := 0\<rparr>))"

section \<open>Ranges of pages\<close>

text \<open>Initialisation after the metadata only writes memory; no field changes.\<close>

definition mem_only :: "'a machine_scheme \<Rightarrow> 'a machine_scheme \<Rightarrow> bool" where
  "mem_only s t \<longleftrightarrow> (\<exists>m. t = s\<lparr>mem := m\<rparr>)"

lemma mem_only_refl [simp]: "mem_only s s"
  unfolding mem_only_def by (rule exI [of _ "mem s"]) simp

lemma mem_only_trans: "mem_only s t \<Longrightarrow> mem_only t u \<Longrightarrow> mem_only s u"
  by (auto simp: mem_only_def)

lemma mem_only_bitmap [simp]: "mem_only s (bitmap_set_page s p)" "mem_only s (bitmap_clear_page s p)"
  by (auto simp: mem_only_def bitmap_set_page_def bitmap_clear_page_def Let_def)

lemma mem_only_fields:
  assumes "mem_only s t"
  shows "pmm_bitmap t = pmm_bitmap s" "pmm_bitmap_size t = pmm_bitmap_size s"
    "pmm_total_pages t = pmm_total_pages s" "hhdm_offset t = hhdm_offset s"
    "kernel_start_phys t = kernel_start_phys s" "kernel_end_phys t = kernel_end_phys s"
    "cr3 t = cr3 s" "pmm_bootloader_cr3 t = pmm_bootloader_cr3 s"
    "pmm_last_free_index t = pmm_last_free_index s"
    "physical_memory_initialized t = physical_memory_initialized s"
  using assms by (auto simp: mem_only_def)

lemma less_succ_iff:
  fixes x j n :: u64
  assumes "j < n"
  shows "x < j + 1 \<longleftrightarrow> x < j \<or> x = j"
  using unat_succ_less [OF assms] by (auto simp: word_less_nat_alt word_unat_eq_iff)

lemma clear_range:
  "mem_only s (for_range p q (\<lambda>page s. bitmap_clear_page s page) s) \<and>
   (\<forall>x. used (for_range p q (\<lambda>page s. bitmap_clear_page s page) s) x \<longleftrightarrow>
      used s x \<and> \<not> (p \<le> x \<and> x < q))"
proof (cases "p \<le> q")
  case True
  show ?thesis
  proof (rule for_range_inv [OF True, where
        I = "\<lambda>j t. mem_only s t \<and> (\<forall>x. used t x \<longleftrightarrow> used s x \<and> \<not> (p \<le> x \<and> x < j))"], goal_cases)
    case (2 j t)
    then show ?case
      using mem_only_trans [of s t "bitmap_clear_page t j"] by (auto simp: less_succ_iff [OF 2(2)])
  qed auto
qed (auto simp: for_range_done)

lemma set_range_used:
  "mem_only s (for_range p q (\<lambda>page s. bitmap_set_page s page) s) \<and>
   (\<forall>x. used (for_range p q (\<lambda>page s. bitmap_set_page s page) s) x \<longleftrightarrow>
      used s x \<or> (p \<le> x \<and> x < q))"
proof (cases "p \<le> q")
  case True
  show ?thesis
  proof (rule for_range_inv [OF True, where
        I = "\<lambda>j t. mem_only s t \<and> (\<forall>x. used t x \<longleftrightarrow> used s x \<or> (p \<le> x \<and> x < j))"], goal_cases)
    case (2 j t)
    then show ?case
      using mem_only_trans [of s t "bitmap_set_page t j"] by (auto simp: less_succ_iff [OF 2(2)])
  qed auto
qed (auto simp: for_range_done)

text \<open>Eight zero bytes are the 64 pages of one bitmap word.\<close>

lemma clear_word:
  assumes "unat page mod 64 = 0" and "unat page + 64 < 2 ^ 64"
  shows "used (s\<lparr>mem := memset (mem s) (pmm_bitmap s + page div 8) 0 8\<rparr>) x \<longleftrightarrow>
           used s x \<and> \<not> (page \<le> x \<and> x < page + 64)"
proof -
  have u: "unat (page + 64) = unat page + 64"
    using assms(2) by (subst unat_add_no_overflow) simp_all
  obtain k where k: "unat page = 64 * k"
    using assms(1) by (metis mod_eq_0_iff_dvd dvdE)
  have d: "x div 8 - page div 8 < 8 \<longleftrightarrow> page \<le> x \<and> x < page + 64"
  proof -
    have "unat x div 8 < 2 ^ 61" "8 * k < 2 ^ 61"
      using unat64_bound [of x] unat64_bound [of page] k by auto
    then show ?thesis
      by (auto simp: word_less_nat_alt word_le_nat_alt unat_sub_if' unat_div u k)
  qed
  show ?thesis
    by (simp add: used_def memset_eq d)
qed

lemma pmm_clear_bulk_spec:
  assumes "unat page mod 64 = 0 \<or> n \<le> page" and "unat n mod 64 = 0" and "unat n \<le> 2 ^ 53"
  shows "\<exists>t. pmm_clear_bulk s page n = (t, max page n) \<and> mem_only s t \<and>
           (\<forall>x. used t x \<longleftrightarrow> used s x \<and> \<not> (page \<le> x \<and> x < n))"
  using assms
proof (induction s page n rule: pmm_clear_bulk.induct)
  case (1 s page n)
  show ?case
  proof (cases "page < n")
    case False
    then show ?thesis
      by (auto simp: pmm_clear_bulk.simps [of s page n] max_def intro!: exI [of _ s])
  next
    case True
    then have lt: "unat page < unat n"
      by (simp add: word_less_nat_alt)
    then have u: "unat (page + 64) = unat page + 64"
      using "1.prems"(3) by (subst unat_add_no_overflow) simp_all
    have m: "unat page mod 64 = 0"
      using "1.prems"(1) True by auto
    have le: "unat page + 64 \<le> unat n"
      using lt m "1.prems"(2) by presburger
    have c: "page < n \<and> page < page + 64"
      using True u by (simp add: word_less_nat_alt)
    let ?s = "s\<lparr>mem := memset (mem s) (pmm_bitmap s + page div 8) 0 8\<rparr>"
    have "unat (page + 64) mod 64 = 0"
      using m u by simp
    then obtain t where t: "pmm_clear_bulk ?s (page + 64) n = (t, max (page + 64) n)"
      "mem_only ?s t" "\<And>x. used t x \<longleftrightarrow> used ?s x \<and> \<not> (page + 64 \<le> x \<and> x < n)"
      using "1.IH" [OF c] "1.prems" by auto
    have mx: "max (page + 64) n = max page n"
      using le u by (auto simp: max_def word_le_nat_alt)
    have cw: "used ?s x \<longleftrightarrow> used s x \<and> \<not> (page \<le> x \<and> x < page + 64)" for x
      by (rule clear_word) (use m lt "1.prems"(3) in simp_all)
    have "used t x \<longleftrightarrow> used s x \<and> \<not> (page \<le> x \<and> x < n)" for x
      unfolding t(3) cw using le by (auto simp: word_le_nat_alt word_less_nat_alt u)
    moreover have "mem_only s t"
      using t(2) by (auto simp: mem_only_def)
    ultimately show ?thesis
      using t(1) c mx by (auto simp: pmm_clear_bulk.simps [of s page n])
  qed
qed

section \<open>Clearing the usable regions\<close>

text \<open>A region that does not reach into the last page of the address space.\<close>

definition fits :: "limine_memmap_entry \<Rightarrow> bool" where
  "fits e \<longleftrightarrow> unat (entry_base e) + unat (entry_length e) + 4095 < 2 ^ 64"

text \<open>The whole pages of a region, those of all usable regions, and all pages that a byte range touches.\<close>

definition whole_pages :: "limine_memmap_entry \<Rightarrow> u64 set" where
  "whole_pages e = {p. (unat (entry_base e) + 4095) div 4096 \<le> unat p \<and>
                       unat p < (unat (entry_base e) + unat (entry_length e)) div 4096}"

definition usable_pages :: "limine_memmap_entry list \<Rightarrow> u64 set" where
  "usable_pages es = {p. \<exists>e \<in> set es. entry_type e = LIMINE_MEMMAP_USABLE \<and> p \<in> whole_pages e}"

definition touched_pages :: "nat \<Rightarrow> nat \<Rightarrow> u64 set" where
  "touched_pages a b = {p. a div 4096 \<le> unat p \<and> unat p < (b + 4095) div 4096}"

lemma fits_sum:
  assumes "fits e"
  shows "unat (entry_base e + entry_length e) = unat (entry_base e) + unat (entry_length e)"
  using assms by (subst unat_add_no_overflow) (simp_all add: fits_def)

lemma pmm_map_usable_region_spec:
  assumes "fits e"
  shows "mem_only s (pmm_map_usable_region e s) \<and>
           (\<forall>x. used (pmm_map_usable_region e s) x \<longleftrightarrow>
              used s x \<and> \<not> (entry_type e = LIMINE_MEMMAP_USABLE \<and> x \<in> whole_pages e))"
proof (cases "entry_type e = LIMINE_MEMMAP_USABLE")
  case True
  define ab where "ab = ALIGN_UP (entry_base e) 4096"
  define ae where "ae = ALIGN_DOWN (entry_base e + entry_length e) 4096"
  define p where "p = ab div 4096"
  define q where "q = ae div 4096"
  have uab: "unat ab = (unat (entry_base e) + 4095) div 4096 * 4096"
    using assms by (simp add: ab_def align_simps fits_def)
  have uae: "unat ae = (unat (entry_base e) + unat (entry_length e)) div 4096 * 4096"
    using fits_sum [OF assms] by (simp add: ae_def align_simps)
  have up: "unat p = (unat (entry_base e) + 4095) div 4096"
    unfolding p_def unat_div uab by simp
  have uq: "unat q = (unat (entry_base e) + unat (entry_length e)) div 4096"
    unfolding q_def unat_div uae by simp
  have pages: "x \<in> whole_pages e \<longleftrightarrow> p \<le> x \<and> x < q" for x
    by (simp add: whole_pages_def word_le_nat_alt word_less_nat_alt up uq)
  have qb: "unat q < 2 ^ 52"
    using assms by (simp add: uq fits_def)
  show ?thesis
  proof (cases "ab \<ge> ae")
    case empty: True
    then have "unat q \<le> unat p"
      unfolding word_le_nat_alt uab uae up uq by simp
    then have "\<not> (p \<le> x \<and> x < q)" for x
      by (auto simp: word_le_nat_alt word_less_nat_alt)
    then show ?thesis
      using empty True pages
      by (simp add: pmm_map_usable_region_def Let_def ab_def [symmetric] ae_def [symmetric])
  next
    case False
    then have pq: "unat p < unat q"
      unfolding word_le_nat_alt uab uae up uq by simp
    define na where "na = ALIGN_UP p 64"
    define na' where "na' = (if na > q then q else na)"
    define be where "be = ALIGN_DOWN q 64"
    have una: "unat na = (unat p + 63) div 64 * 64"
      unfolding na_def using pq qb by (subst unat_ALIGN_UP_64) simp_all
    have ube: "unat be = unat q div 64 * 64"
      by (simp add: be_def align_simps)
    define s1 where "s1 = for_range p na' (\<lambda>page s. bitmap_clear_page s page) s"
    have s1: "mem_only s s1" "\<And>x. used s1 x \<longleftrightarrow> used s x \<and> \<not> (p \<le> x \<and> x < na')"
      using clear_range [of s p na'] by (simp_all add: s1_def)
    have c: "unat na' mod 64 = 0 \<or> be \<le> na'" "unat be mod 64 = 0" "unat be \<le> 2 ^ 53"
      using una ube qb by (auto simp: na'_def word_le_nat_alt not_less)
    obtain s2 where s2: "pmm_clear_bulk s1 na' be = (s2, max na' be)" "mem_only s1 s2"
      "\<And>x. used s2 x \<longleftrightarrow> used s1 x \<and> \<not> (na' \<le> x \<and> x < be)"
      using pmm_clear_bulk_spec [OF c] by blast
    define s3 where "s3 = for_range (max na' be) q (\<lambda>page s. bitmap_clear_page s page) s2"
    have s3: "mem_only s2 s3" "\<And>x. used s3 x \<longleftrightarrow> used s2 x \<and> \<not> (max na' be \<le> x \<and> x < q)"
      using clear_range [of s2 "max na' be" q] by (simp_all add: s3_def)
    have run: "pmm_map_usable_region e s = s3"
      using True False s2(1)
      by (simp add: pmm_map_usable_region_def Let_def ab_def [symmetric] ae_def [symmetric]
          p_def [symmetric] q_def [symmetric] na_def [symmetric] na'_def [symmetric]
          be_def [symmetric] s1_def [symmetric] s3_def cong: if_cong)
    have "p \<le> na'" "na' \<le> q" "be \<le> q"
      using una ube pq by (auto simp: na'_def word_le_nat_alt not_less)
    then have split: "p \<le> x \<and> x < q \<longleftrightarrow>
        (p \<le> x \<and> x < na') \<or> (na' \<le> x \<and> x < be) \<or> (max na' be \<le> x \<and> x < q)" for x
      by (auto simp: max_def)
    have "used s3 x \<longleftrightarrow> used s x \<and> \<not> (p \<le> x \<and> x < q)" for x
      unfolding s3(2) s2(3) s1(2) split by blast
    moreover have "mem_only s s3"
      using s1(1) s2(2) s3(1) mem_only_trans by blast
    ultimately show ?thesis
      using True pages by (simp add: run)
  qed
qed (simp add: pmm_map_usable_region_def)

lemma pmm_map_usable_memory_regions_spec:
  assumes "\<And>e. e \<in> set es \<Longrightarrow> fits e"
  shows "mem_only s (pmm_map_usable_memory_regions es s) \<and>
           (\<forall>x. used (pmm_map_usable_memory_regions es s) x \<longleftrightarrow>
              used s x \<and> \<not> (\<exists>e \<in> set es. entry_type e = LIMINE_MEMMAP_USABLE \<and> x \<in> whole_pages e))"
  using assms
proof (induction es arbitrary: s)
  case (Cons e es)
  then show ?case
    using pmm_map_usable_region_spec [of e s] Cons.IH [of "pmm_map_usable_region e s"]
      mem_only_trans [of s "pmm_map_usable_region e s"
        "pmm_map_usable_memory_regions es (pmm_map_usable_region e s)"] by auto
qed simp

section \<open>Sizes and places\<close>

lemma find_highest_bounds:
  assumes "\<And>e. e \<in> set es \<Longrightarrow> fits e" and "unat h + 4095 < 2 ^ 64"
  shows "h \<le> find_highest es h \<and> unat (find_highest es h) + 4095 < 2 ^ 64 \<and>
    (\<forall>e \<in> set es. entry_type e = LIMINE_MEMMAP_USABLE \<longrightarrow>
       entry_base e + entry_length e \<le> find_highest es h)"
  using assms
proof (induction es arbitrary: h)
  case (Cons e es)
  define h' where "h' = (if entry_type e = LIMINE_MEMMAP_USABLE \<or>
           entry_type e = LIMINE_MEMMAP_BOOTLOADER_RECLAIMABLE \<or>
           entry_type e = LIMINE_MEMMAP_EXECUTABLE_AND_MODULES \<or>
           entry_type e = LIMINE_MEMMAP_ACPI_RECLAIMABLE \<or>
           entry_type e = LIMINE_MEMMAP_ACPI_NVS
        then
          let entry_end = entry_base e + entry_length e
          in if entry_end > h then entry_end else h
        else h)"
  have step: "find_highest (e # es) h = find_highest es h'"
    by (simp add: h'_def)
  have e: "fits e"
    using Cons.prems by simp
  have hh: "h \<le> h'" "unat h' + 4095 < 2 ^ 64"
    and he: "entry_type e = LIMINE_MEMMAP_USABLE \<Longrightarrow> entry_base e + entry_length e \<le> h'"
    using Cons.prems(2) fits_sum [OF e] e by (auto simp: h'_def Let_def fits_def split: if_splits)
  have "h' \<le> find_highest es h' \<and> unat (find_highest es h') + 4095 < 2 ^ 64 \<and>
      (\<forall>e \<in> set es. entry_type e = LIMINE_MEMMAP_USABLE \<longrightarrow>
         entry_base e + entry_length e \<le> find_highest es h')"
    using Cons.IH [of h'] Cons.prems(1) hh(2) by simp
  then show ?case
    using hh(1) he unfolding step by auto
qed simp

lemma find_kernel_size_spec:
  "(find_kernel_size k es = 0 \<and>
     \<not> (\<exists>e \<in> set es. entry_type e = LIMINE_MEMMAP_EXECUTABLE_AND_MODULES \<and>
          entry_base e \<le> k \<and> k < entry_base e + entry_length e)) \<or>
   (\<exists>e \<in> set es. entry_type e = LIMINE_MEMMAP_EXECUTABLE_AND_MODULES \<and>
      entry_base e \<le> k \<and> k < entry_base e + entry_length e \<and>
      find_kernel_size k es \<noteq> 0 \<and>
      k + find_kernel_size k es = entry_base e + entry_length e)"
  by (induction es) auto

lemma find_bitmap_place_spec:
  assumes "\<And>e. e \<in> set es \<Longrightarrow> fits e" and "find_bitmap_place n es \<noteq> 0"
  shows "unat (find_bitmap_place n es) + unat n + 4095 < 2 ^ 64 \<and>
           unat (find_bitmap_place n es) mod 4096 = 0"
  using assms
proof (induction es)
  case (Cons e es)
  define a0 where "a0 = ALIGN_UP (entry_base e) 4096"
  define a where "a = (if a0 = 0 then a0 + 4096 else a0)"
  define z where "z = ALIGN_DOWN (entry_base e + entry_length e) 4096"
  have e: "fits e"
    using Cons.prems by simp
  show ?case
  proof (cases "entry_type e = LIMINE_MEMMAP_USABLE \<and> a < z \<and> n \<le> z - a")
    case True
    then have r: "find_bitmap_place n (e # es) = a"
      by (simp add: Let_def a0_def [symmetric] a_def [symmetric] z_def [symmetric])
    have a0: "unat a0 mod 4096 = 0"
      using e by (simp add: a0_def align_simps fits_def)
    have "unat a mod 4096 = 0"
      using a0 by (simp add: a_def)
    moreover have "unat (z - a) = unat z - unat a"
      using True by (subst unat_sub) auto
    then have "unat a + unat n \<le> unat z"
      using True unfolding word_le_nat_alt word_less_nat_alt by linarith
    moreover have "unat z + 4095 < 2 ^ 64"
      using e fits_sum [OF e] by (simp add: z_def align_simps fits_def)
    ultimately show ?thesis
      unfolding r by linarith
  next
    case False
    then have "find_bitmap_place n (e # es) = find_bitmap_place n es"
      by (auto simp: Let_def a0_def [symmetric] a_def [symmetric] z_def [symmetric])
    then show ?thesis
      using Cons by simp
  qed
qed simp

section \<open>The free set after initialisation\<close>

lemma pmm_protect_spec:
  assumes "unat (kernel_end_phys s) + 4095 < 2 ^ 64"
    and "unat b + unat (pmm_bitmap_size s) + 4095 < 2 ^ 64"
  shows "mem_only s (pmm_protect_critical_structures s b)"
    and "used (pmm_protect_critical_structures s b) x \<longleftrightarrow> used s x \<or>
      x \<in> touched_pages (unat (kernel_start_phys s)) (unat (kernel_end_phys s)) \<or>
      x \<in> touched_pages (unat b) (unat b + unat (pmm_bitmap_size s))"
proof -
  define ks where "ks = ALIGN_DOWN (kernel_start_phys s) 4096 div 4096"
  define ke where "ke = ALIGN_UP (kernel_end_phys s) 4096 div 4096"
  define s1 where "s1 = for_range ks ke (\<lambda>page s. bitmap_set_page s page) s"
  have s1: "mem_only s s1" "\<And>x. used s1 x \<longleftrightarrow> used s x \<or> ks \<le> x \<and> x < ke"
    using set_range_used [of s ks ke] by (auto simp: s1_def)
  define bs where "bs = ALIGN_DOWN b 4096 div 4096"
  define be where "be = ALIGN_UP (b + pmm_bitmap_size s) 4096 div 4096"
  define s2 where "s2 = for_range bs be (\<lambda>page s. bitmap_set_page s page) s1"
  have s2: "mem_only s1 s2" "\<And>x. used s2 x \<longleftrightarrow> used s1 x \<or> bs \<le> x \<and> x < be"
    using set_range_used [of s1 bs be] by (auto simp: s2_def)
  have run: "pmm_protect_critical_structures s b = s2"
    using mem_only_fields(2) [OF s1(1)]
    by (simp add: pmm_protect_critical_structures_def Let_def ks_def [symmetric] ke_def [symmetric]
        s1_def [symmetric] bs_def [symmetric] be_def [symmetric] s2_def [symmetric])
  show "mem_only s (pmm_protect_critical_structures s b)"
    using s1(1) s2(1) mem_only_trans unfolding run by blast
  have sum: "unat (b + pmm_bitmap_size s) = unat b + unat (pmm_bitmap_size s)"
    using assms(2) by (subst unat_add_no_overflow) simp_all
  have "unat ks = unat (kernel_start_phys s) div 4096"
    unfolding ks_def unat_div align_simps by simp
  moreover have "unat ke = (unat (kernel_end_phys s) + 4095) div 4096"
    unfolding ke_def unat_div unat_ALIGN_UP_4096 [OF assms(1)] by simp
  moreover have "unat bs = unat b div 4096"
    unfolding bs_def unat_div align_simps by simp
  moreover have "unat be = (unat b + unat (pmm_bitmap_size s) + 4095) div 4096"
    unfolding be_def unat_div using assms(2) by (simp add: unat_ALIGN_UP_4096 sum)
  ultimately show "used (pmm_protect_critical_structures s b) x \<longleftrightarrow> used s x \<or>
      x \<in> touched_pages (unat (kernel_start_phys s)) (unat (kernel_end_phys s)) \<or>
      x \<in> touched_pages (unat b) (unat b + unat (pmm_bitmap_size s))"
    unfolding run s2(2) s1(2) by (auto simp: touched_pages_def word_le_nat_alt word_less_nat_alt)
qed

text \<open>The sizes computed for the highest address; every page has its bit in the bitmap.\<close>

lemma bitmap_sizes:
  assumes "unat h + 4095 < 2 ^ 64" and "pages = (h + 4095) div 4096"
    and "n = ALIGN_UP pages 64 div 8 + (if pages mod 8 \<noteq> 0 then 1 else 0)"
  shows "unat pages = (unat h + 4095) div 4096" and "unat pages < 2 ^ 52"
    and "unat n \<le> 2 ^ 50" and "unat pages \<le> 64 * (unat n div 8)"
proof -
  have "unat (h + 4095) = unat h + 4095"
    using assms(1) by (subst unat_add_no_overflow) simp_all
  then show up: "unat pages = (unat h + 4095) div 4096"
    by (simp add: assms(2) unat_div)
  then show pb: "unat pages < 2 ^ 52"
    using assms(1) by simp
  have a: "unat (ALIGN_UP pages 64 div 8) = (unat pages + 63) div 64 * 8"
    unfolding unat_div using pb by (subst unat_ALIGN_UP_64) simp_all
  have "unat n = (unat pages + 63) div 64 * 8 + (if pages mod 8 \<noteq> 0 then 1 else 0)"
    unfolding assms(3) using a pb by (subst unat_add_no_overflow) auto
  then show "unat n \<le> 2 ^ 50" and "unat pages \<le> 64 * (unat n div 8)"
    using pb by auto
qed

lemma pmm_init_bitmap_metadata_spec:
  assumes fit: "\<And>e. e \<in> set es \<Longrightarrow> fits e"
    and run: "pmm_init_bitmap_metadata es s = Inr t"
  shows "pmm_sized t" and "\<And>x. x < pmm_total_pages t \<Longrightarrow> used t x"
    and "hhdm_offset t = hhdm_offset s" and "cr3 t = cr3 s"
    and "kernel_start_phys t = kernel_start_phys s" and "kernel_end_phys t = kernel_end_phys s"
    and "\<And>e. e \<in> set es \<Longrightarrow> entry_type e = LIMINE_MEMMAP_USABLE \<Longrightarrow>
           whole_pages e \<subseteq> {..<pmm_total_pages t}"
    and "unat (V2P t (pmm_bitmap t)) + unat (pmm_bitmap_size t) + 4095 < 2 ^ 64"
proof -
  define h where "h = pmm_find_highest_address es"
  define pages where "pages = (h + 4095) div 4096"
  define n where "n = ALIGN_UP pages 64 div 8 + (if pages mod 8 \<noteq> 0 then 1 else 0)"
  define place where "place = find_bitmap_place n es"
  have h: "unat h + 4095 < 2 ^ 64"
    and he: "\<And>e. e \<in> set es \<Longrightarrow> entry_type e = LIMINE_MEMMAP_USABLE \<Longrightarrow>
               entry_base e + entry_length e \<le> h"
    using find_highest_bounds [of es 0] fit by (simp_all add: h_def pmm_find_highest_address_def)
  note sz = bitmap_sizes [OF h pages_def n_def]
  let ?s = "s\<lparr>pmm_total_pages := pages, pmm_bitmap_size := n, pmm_bitmap := place + hhdm_offset s\<rparr>"
  have ne: "place \<noteq> 0" and t: "t = ?s\<lparr>mem := memset (mem s) (pmm_bitmap ?s) 0xFF n\<rparr>"
    using run
    by (auto simp: pmm_init_bitmap_metadata_def Let_def h_def [symmetric] pages_def [symmetric]
        place_def n_def pmm_allocate_bitmap_placeholder_def bind_ok_eq_Inr P2V_def
        split: if_splits)
  show "pmm_sized t"
    using sz by (simp add: pmm_sized_def t)
  show "used t x" if "x < pmm_total_pages t" for x
  proof -
    have "unat x div 8 < unat n"
      using that sz by (auto simp: t word_less_nat_alt)
    moreover have ones: "(255 :: u8) = - 1"
      by simp
    have "bit (255 :: u8) (unat (x mod 8))"
      unfolding ones using mod8_lt [of x] by simp
    ultimately show ?thesis
      by (simp add: used_def t memset_eq word_less_nat_alt unat_div)
  qed
  show "hhdm_offset t = hhdm_offset s" "cr3 t = cr3 s"
    "kernel_start_phys t = kernel_start_phys s" "kernel_end_phys t = kernel_end_phys s"
    by (simp_all add: t)
  show "whole_pages e \<subseteq> {..<pmm_total_pages t}"
    if e: "e \<in> set es" "entry_type e = LIMINE_MEMMAP_USABLE" for e
  proof -
    have "unat (entry_base e) + unat (entry_length e) \<le> unat h"
      using he [OF e] fits_sum [OF fit [OF e(1)]] by (simp add: word_le_nat_alt)
    then have "(unat (entry_base e) + unat (entry_length e)) div 4096 \<le> (unat h + 4095) div 4096"
      by (intro div_le_mono) simp
    then show ?thesis
      using sz by (auto simp: whole_pages_def t word_less_nat_alt)
  qed
  show "unat (V2P t (pmm_bitmap t)) + unat (pmm_bitmap_size t) + 4095 < 2 ^ 64"
    using find_bitmap_place_spec [of es n] fit ne by (simp add: t V2P_def place_def)
qed

text \<open>
  A successful initialisation leaves free exactly the whole pages of the usable regions
  that hold no byte of the kernel image and none of the bitmap; in particular the bitmap can
  never be handed out by the allocator.
\<close>

lemma pmm_init_spec:
  assumes "pmm_init b s = Inr t" and "memmap_response b = Some es"
    and "\<forall>e \<in> set es. fits e"
  shows "free_pages t =
           usable_pages es
           - touched_pages (unat (kernel_start_phys t)) (unat (kernel_end_phys t))
           - touched_pages (unat (V2P t (pmm_bitmap t)))
               (unat (V2P t (pmm_bitmap t)) + unat (pmm_bitmap_size t))"
    and "pmm_sized t" and "physical_memory_initialized t" and "pmm_bootloader_cr3 t = cr3 s"
    and "\<exists>e \<in> set es. entry_type e = LIMINE_MEMMAP_EXECUTABLE_AND_MODULES \<and>
           entry_base e \<le> kernel_start_phys t \<and>
           kernel_end_phys t = entry_base e + entry_length e"
proof -
  have fit: "\<And>e. e \<in> set es \<Longrightarrow> fits e"
    using assms(3) by blast
  obtain s1 where s1: "pmm_calculate_kernel_bounds b es s = Inr s1"
    and rest: "bind_ok (pmm_init_bitmap_metadata es s1) (\<lambda>s.
        let s = pmm_map_usable_memory_regions es s;
            phys_bm = V2P s (pmm_bitmap s);
            s = pmm_protect_critical_structures s phys_bm;
            s = s\<lparr>pmm_bootloader_cr3 := get_current_cr3 s\<rparr>
        in Inr (s\<lparr>physical_memory_initialized := True\<rparr>)) = Inr t"
    using assms(1,2) by (auto simp: pmm_init_def bind_ok_eq_Inr simp del: Let_def)
  obtain s2 where s2: "pmm_init_bitmap_metadata es s1 = Inr s2"
    using rest by (auto simp: bind_ok_eq_Inr)
  note m = pmm_init_bitmap_metadata_spec [OF fit s2]
  define s3 where "s3 = pmm_map_usable_memory_regions es s2"
  have s3: "mem_only s2 s3" "\<And>x. used s3 x \<longleftrightarrow> used s2 x \<and>
      \<not> (\<exists>e \<in> set es. entry_type e = LIMINE_MEMMAP_USABLE \<and> x \<in> whole_pages e)"
    using pmm_map_usable_memory_regions_spec [of es s2] fit by (auto simp: s3_def)
  note f3 = mem_only_fields [OF s3(1)]
  have v3: "V2P s3 (pmm_bitmap s3) = V2P s2 (pmm_bitmap s2)"
    by (simp add: V2P_def f3)
  obtain e where e: "e \<in> set es" "entry_type e = LIMINE_MEMMAP_EXECUTABLE_AND_MODULES"
    "entry_base e \<le> kernel_start_phys s1" "kernel_end_phys s1 = entry_base e + entry_length e"
    and cr3: "cr3 s1 = cr3 s"
    using s1 find_kernel_size_spec [of _ es]
    by (auto simp: pmm_calculate_kernel_bounds_def Let_def split: option.splits if_splits) metis
  have ke: "unat (kernel_end_phys s3) + 4095 < 2 ^ 64"
    using fit [OF e(1)] fits_sum [OF fit [OF e(1)]] by (simp add: f3 m e fits_def)
  have bm: "unat (V2P s3 (pmm_bitmap s3)) + unat (pmm_bitmap_size s3) + 4095 < 2 ^ 64"
    using m(8) by (simp add: V2P_def f3)
  define s4 where "s4 = pmm_protect_critical_structures s3 (V2P s3 (pmm_bitmap s3))"
  have s4: "mem_only s3 s4" "\<And>x. used s4 x \<longleftrightarrow> used s3 x \<or>
      x \<in> touched_pages (unat (kernel_start_phys s3)) (unat (kernel_end_phys s3)) \<or>
      x \<in> touched_pages (unat (V2P s3 (pmm_bitmap s3)))
            (unat (V2P s3 (pmm_bitmap s3)) + unat (pmm_bitmap_size s3))"
    using pmm_protect_spec [OF ke bm] by (simp_all add: s4_def)
  note f4 = mem_only_fields [OF s4(1)]
  have t: "t = s4\<lparr>pmm_bootloader_cr3 := cr3 s4, physical_memory_initialized := True\<rparr>"
    using rest s2 by (simp add: Let_def s3_def [symmetric] s4_def [symmetric] get_current_cr3_def)
  have v4: "V2P t (pmm_bitmap t) = V2P s3 (pmm_bitmap s3)"
    by (simp add: V2P_def t f4)
  have ut: "used t x = used s4 x" for x
    by (rule used_mem_cong) (simp_all add: t)
  have sub: "x < pmm_total_pages s2"
    if "e \<in> set es" "entry_type e = LIMINE_MEMMAP_USABLE" "x \<in> whole_pages e" for e x
    using m(7) that by blast
  have "p \<in> free_pages t \<longleftrightarrow> p < pmm_total_pages s2 \<and> \<not> used s4 p" for p
    by (simp add: free_pages_def ut) (simp add: t f4 f3)
  then show "free_pages t =
      usable_pages es
      - touched_pages (unat (kernel_start_phys t)) (unat (kernel_end_phys t))
      - touched_pages (unat (V2P t (pmm_bitmap t)))
          (unat (V2P t (pmm_bitmap t)) + unat (pmm_bitmap_size t))"
    using m(2) sub unfolding v4 s4(2) s3(2) by (auto simp: t f4 usable_pages_def)
  show "pmm_sized t"
    using m(1) by (simp add: pmm_sized_def t f4 f3)
  show "physical_memory_initialized t" "pmm_bootloader_cr3 t = cr3 s"
    by (simp_all add: t f4 f3 m cr3)
  show "\<exists>e \<in> set es. entry_type e = LIMINE_MEMMAP_EXECUTABLE_AND_MODULES \<and>
      entry_base e \<le> kernel_start_phys t \<and> kernel_end_phys t = entry_base e + entry_length e"
    using e by (auto simp: t f4 f3 m intro!: bexI [of _ e])
qed

text \<open>
  C4. A successful initialisation leaves free exactly the whole pages of the usable regions
  that hold no byte of the kernel image and none of the bitmap: the allocator can never hand
  out the kernel or its own bitmap. The sizes fit, and the kernel image ends where its region
  of the memory map ends.
\<close>

theorem pmm_init_free_pages:
  assumes "pmm_init b s = Inr t" and "memmap_response b = Some es"
    and "\<forall>e \<in> set es. fits e"
  shows "free_pages t =
           usable_pages es
           - touched_pages (unat (kernel_start_phys t)) (unat (kernel_end_phys t))
           - touched_pages (unat (V2P t (pmm_bitmap t)))
               (unat (V2P t (pmm_bitmap t)) + unat (pmm_bitmap_size t)) \<and>
         pmm_sized t \<and> physical_memory_initialized t \<and>
         (\<exists>e \<in> set es. entry_type e = LIMINE_MEMMAP_EXECUTABLE_AND_MODULES \<and>
            entry_base e \<le> kernel_start_phys t \<and>
            kernel_end_phys t = entry_base e + entry_length e)"
  using pmm_init_spec [OF assms] by blast

section \<open>When initialisation succeeds\<close>

text \<open>The bytes the bitmap needs, and a usable region that can hold them.\<close>

definition bitmap_bytes :: "limine_memmap_entry list \<Rightarrow> u64" where
  "bitmap_bytes es =
     (let pages = (pmm_find_highest_address es + 4095) div 4096
      in ALIGN_UP pages 64 div 8 + (if pages mod 8 \<noteq> 0 then 1 else 0))"

definition holds_bitmap :: "u64 \<Rightarrow> limine_memmap_entry \<Rightarrow> bool" where
  "holds_bitmap n e \<longleftrightarrow> entry_type e = LIMINE_MEMMAP_USABLE \<and>
     (let lo = ALIGN_UP (entry_base e) 4096;
          lo = (if lo = 0 then 4096 else lo);
          hi = ALIGN_DOWN (entry_base e + entry_length e) 4096
      in lo < hi \<and> n \<le> hi - lo)"

lemma find_bitmap_place_found:
  "find_bitmap_place n es \<noteq> 0 \<longleftrightarrow> (\<exists>e \<in> set es. holds_bitmap n e)"
proof (induction es)
  case (Cons e es)
  then show ?case
    by (auto simp: Let_def holds_bitmap_def split: if_splits)
qed simp

lemma pmm_init_bitmap_metadata_cases:
  "if \<exists>e \<in> set es. holds_bitmap (bitmap_bytes es) e
   then \<exists>t. pmm_init_bitmap_metadata es s = Inr t
   else \<exists>m. pmm_init_bitmap_metadata es s = Inl (Panic m)"
  unfolding find_bitmap_place_found [symmetric]
  by (simp add: pmm_init_bitmap_metadata_def pmm_allocate_bitmap_placeholder_def bitmap_bytes_def
      Let_def)

lemma pmm_calculate_kernel_bounds_cases:
  assumes "hhdm_response b = Some off" and "kernel_address_response b = Some ka"
  shows "if \<exists>e \<in> set es. entry_type e = LIMINE_MEMMAP_EXECUTABLE_AND_MODULES \<and>
               entry_base e \<le> physical_base ka \<and> physical_base ka < entry_base e + entry_length e
         then \<exists>t. pmm_calculate_kernel_bounds b es s = Inr t
         else \<exists>m. pmm_calculate_kernel_bounds b es s = Inl (Panic m)"
  using find_kernel_size_spec [of "physical_base ka" es] assms
  by (auto simp: pmm_calculate_kernel_bounds_def Let_def)

lemma pmm_init_outcome:
  "if \<exists>es ka off. memmap_response b = Some es \<and> kernel_address_response b = Some ka \<and>
        hhdm_response b = Some off \<and> physical_base ka \<noteq> 0 \<and>
        (\<exists>e \<in> set es. entry_type e = LIMINE_MEMMAP_EXECUTABLE_AND_MODULES \<and>
           entry_base e \<le> physical_base ka \<and> physical_base ka < entry_base e + entry_length e) \<and>
        (\<exists>e \<in> set es. holds_bitmap (bitmap_bytes es) e)
   then \<exists>t. pmm_init b s = Inr t
   else \<exists>m. pmm_init b s = Inl (Panic m)"
proof (cases "pmm_validate_bootloader_requests b")
  case (Inl p)
  then show ?thesis
    by (auto simp: pmm_init_def pmm_validate_bootloader_requests_def
        split: if_splits option.splits)
next
  case (Inr u)
  then obtain es ka off where
    r: "memmap_response b = Some es" "kernel_address_response b = Some ka"
    "hhdm_response b = Some off" "physical_base ka \<noteq> 0"
    by (auto simp: pmm_validate_bootloader_requests_def split: if_splits option.splits)
  show ?thesis
  proof (cases "pmm_calculate_kernel_bounds b es s")
    case bounds: (Inr s1)
    show ?thesis
      using pmm_calculate_kernel_bounds_cases [OF r(3,2), of es s] Inr bounds r
        pmm_init_bitmap_metadata_cases [of es s1]
      by (auto simp: pmm_init_def Let_def split: if_splits)
  qed (use pmm_calculate_kernel_bounds_cases [OF r(3,2), of es s] Inr r in
      \<open>auto simp: pmm_init_def split: if_splits\<close>)
qed

text \<open>
  C16. Initialisation succeeds exactly when the bootloader answered the three requests it reads,
  memory map, kernel address and direct map, with a load address other than 0, some executable
  region contains that address and some usable region has room for the bitmap; in every other case
  it panics.
\<close>

theorem pmm_init_succeeds_iff:
  "if \<exists>es ka off. memmap_response b = Some es \<and> kernel_address_response b = Some ka \<and>
        hhdm_response b = Some off \<and> physical_base ka \<noteq> 0 \<and>
        (\<exists>e \<in> set es. entry_type e = LIMINE_MEMMAP_EXECUTABLE_AND_MODULES \<and>
           entry_base e \<le> physical_base ka \<and> physical_base ka < entry_base e + entry_length e) \<and>
        (\<exists>e \<in> set es. holds_bitmap (bitmap_bytes es) e)
   then \<exists>t. pmm_init b s = Inr t
   else \<exists>m. pmm_init b s = Inl (Panic m)"
  by (rule pmm_init_outcome)

section \<open>Reclaiming the bootloader's memory\<close>

lemma pmm_reclaim_region_spec:
  assumes "fits e"
  shows "mem_only s (pmm_reclaim_region e s) \<and>
    (\<forall>x < pmm_total_pages s. used (pmm_reclaim_region e s) x \<longleftrightarrow> used s x \<and>
       \<not> (entry_type e = LIMINE_MEMMAP_BOOTLOADER_RECLAIMABLE \<and>
          x \<in> touched_pages (unat (entry_base e)) (unat (entry_base e) + unat (entry_length e))))"
proof (cases "entry_type e = LIMINE_MEMMAP_BOOTLOADER_RECLAIMABLE")
  case True
  define p where "p = ALIGN_DOWN (entry_base e) 4096 div 4096"
  define q where "q = ALIGN_UP (entry_base e + entry_length e) 4096 div 4096"
  define q' where "q' = (if q > pmm_total_pages s then pmm_total_pages s else q)"
  have "unat (entry_base e + entry_length e) + 4095 < 2 ^ 64"
    using assms fits_sum [OF assms] by (simp add: fits_def)
  then have uq: "unat q = (unat (entry_base e) + unat (entry_length e) + 4095) div 4096"
    unfolding q_def unat_div by (subst unat_ALIGN_UP_4096) (simp_all add: fits_sum [OF assms])
  have up: "unat p = unat (entry_base e) div 4096"
    unfolding p_def unat_div align_simps by simp
  have run: "pmm_reclaim_region e s = for_range p q' (\<lambda>page s. bitmap_clear_page s page) s"
    using True by (simp add: pmm_reclaim_region_def Let_def p_def q_def q'_def)
  have "x < pmm_total_pages s \<Longrightarrow> x < q' \<longleftrightarrow> x < q" for x
    by (auto simp: q'_def)
  then show ?thesis
    using clear_range [of s p q'] True
    by (auto simp: run touched_pages_def word_le_nat_alt word_less_nat_alt up uq)
qed (simp add: pmm_reclaim_region_def)

lemma pmm_reclaim_regions_spec:
  assumes "\<forall>e \<in> set es. fits e"
  shows "mem_only s (pmm_reclaim_regions es s) \<and>
    (\<forall>x < pmm_total_pages s. used (pmm_reclaim_regions es s) x \<longleftrightarrow> used s x \<and>
       \<not> (\<exists>e \<in> set es. entry_type e = LIMINE_MEMMAP_BOOTLOADER_RECLAIMABLE \<and>
          x \<in> touched_pages (unat (entry_base e)) (unat (entry_base e) + unat (entry_length e))))"
  using assms
proof (induction es arbitrary: s)
  case (Cons e es)
  let ?s = "pmm_reclaim_region e s"
  have a: "mem_only s ?s" "pmm_total_pages ?s = pmm_total_pages s"
    using pmm_reclaim_region_spec [of e s] Cons.prems by (auto intro: mem_only_fields)
  then show ?case
    using pmm_reclaim_region_spec [of e s] Cons.IH [of ?s] Cons.prems
      mem_only_trans [OF a(1), of "pmm_reclaim_regions es ?s"] by auto
qed simp

text \<open>
  C17. Once the kernel runs on its own page tables, reclaiming frees exactly the pages that the
  bootloader's regions touch, below the highest page; while the bootloader's tables are still
  loaded it refuses with a panic.
\<close>

theorem pmm_reclaim_frees_bootloader_pages:
  assumes "physical_memory_initialized s" and "memmap_response b = Some es"
    and "\<forall>e \<in> set es. fits e"
  shows "if cr3 s = pmm_bootloader_cr3 s
         then \<exists>m. pmm_reclaim_bootloader_memory b s = Inl (Panic m)
         else \<exists>t. pmm_reclaim_bootloader_memory b s = Inr t \<and> pmm_last_free_index t = 0 \<and>
           free_pages t = free_pages s \<union> {p. p < pmm_total_pages s \<and>
             (\<exists>e \<in> set es. entry_type e = LIMINE_MEMMAP_BOOTLOADER_RECLAIMABLE \<and>
                p \<in> touched_pages (unat (entry_base e))
                     (unat (entry_base e) + unat (entry_length e)))}"
proof (cases "cr3 s = pmm_bootloader_cr3 s")
  case False
  let ?t = "pmm_reclaim_regions es s"
  have run: "pmm_reclaim_bootloader_memory b s = Inr (?t\<lparr>pmm_last_free_index := 0\<rparr>)"
    using False assms by (simp add: pmm_reclaim_bootloader_memory_def get_current_cr3_def Let_def)
  have "used (?t\<lparr>pmm_last_free_index := 0\<rparr>) x = used ?t x" for x
    by (rule used_mem_cong) simp_all
  then show ?thesis
    using False run pmm_reclaim_regions_spec [OF assms(3), of s]
      mem_only_fields(3) [of s ?t] by (auto simp: free_pages_def)
qed (use assms in \<open>simp add: pmm_reclaim_bootloader_memory_def get_current_cr3_def\<close>)

section \<open>Instances\<close>

text \<open>A memory map with a usable region, the kernel image and a bootloader region.\<close>

definition sample_memmap :: "limine_memmap_entry list" where
  "sample_memmap =
     [\<lparr>entry_base = 0x10000, entry_length = 0x20000, entry_type = LIMINE_MEMMAP_USABLE\<rparr>,
      \<lparr>entry_base = 0x100000, entry_length = 0x4000,
       entry_type = LIMINE_MEMMAP_EXECUTABLE_AND_MODULES\<rparr>,
      \<lparr>entry_base = 0x20000, entry_length = 0x3000,
       entry_type = LIMINE_MEMMAP_BOOTLOADER_RECLAIMABLE\<rparr>]"

definition sample_boot :: boot_info where
  "sample_boot = \<lparr>memmap_response = Some sample_memmap,
     kernel_address_response = Some \<lparr>physical_base = 0x100000, virtual_base = 0xFFFFFFFF80000000\<rparr>,
     hhdm_response = Some 0xFFFF800000000000, framebuffer_response = Some [],
     rsdp_response = None\<rparr>"

lemma sample_memmap_fits: "\<forall>e \<in> set sample_memmap. fits e"
  by (simp add: sample_memmap_def fits_def)

lemma sample_boot_memmap: "memmap_response sample_boot = Some sample_memmap"
  by (simp add: sample_boot_def)

lemma sample_bitmap_bytes: "bitmap_bytes sample_memmap = 41"
  by code_simp

lemma sample_boot_inits: "\<exists>t. pmm_init sample_boot s = Inr t"
proof -
  have "\<exists>e \<in> set sample_memmap. holds_bitmap (bitmap_bytes sample_memmap) e"
    unfolding sample_bitmap_bytes by code_simp
  moreover have "\<exists>e \<in> set sample_memmap. entry_type e = LIMINE_MEMMAP_EXECUTABLE_AND_MODULES \<and>
      entry_base e \<le> 0x100000 \<and> 0x100000 < entry_base e + entry_length e"
    by (simp add: sample_memmap_def memmap_types)
  ultimately show ?thesis
    using pmm_init_outcome [of sample_boot s] by (simp add: sample_boot_def)
qed

theorem pmm_init_free_pages_witness:
  "\<exists>t. pmm_init sample_boot sample_pmm = Inr t \<and> pmm_sized t \<and>
     free_pages t = usable_pages sample_memmap
       - touched_pages (unat (kernel_start_phys t)) (unat (kernel_end_phys t))
       - touched_pages (unat (V2P t (pmm_bitmap t)))
           (unat (V2P t (pmm_bitmap t)) + unat (pmm_bitmap_size t))"
proof -
  obtain t where t: "pmm_init sample_boot sample_pmm = Inr t"
    using sample_boot_inits by blast
  then show ?thesis
    using pmm_init_free_pages [OF t sample_boot_memmap sample_memmap_fits] by blast
qed

theorem pmm_reclaim_frees_bootloader_pages_witness:
  "\<exists>t. pmm_reclaim_bootloader_memory sample_boot sample_pmm = Inr t \<and>
     pmm_last_free_index t = 0 \<and>
     free_pages t = free_pages sample_pmm \<union> {p. p < pmm_total_pages sample_pmm \<and>
       (\<exists>e \<in> set sample_memmap. entry_type e = LIMINE_MEMMAP_BOOTLOADER_RECLAIMABLE \<and>
          p \<in> touched_pages (unat (entry_base e)) (unat (entry_base e) + unat (entry_length e)))}"
proof -
  have "cr3 sample_pmm \<noteq> pmm_bootloader_cr3 sample_pmm"
    by simp
  with pmm_reclaim_frees_bootloader_pages [of sample_pmm sample_boot sample_memmap,
      OF _ sample_boot_memmap sample_memmap_fits]
  show ?thesis
    by (simp only: if_False sample_pmm_fields)
qed

end
