(* ===== verification/Vmm.thy ===== *)
theory Vmm
  imports Pmm_Init
begin

text \<open>
  Virtual memory: \<^verbatim>\<open>kernel/memory/vmm.c\<close> with the macros of \<^verbatim>\<open>kernel/memory/vmm.h\<close>. The
  page tables live in the same byte memory as everything else; this theory has the code, and
  \<^verbatim>\<open>Vmm_Spec\<close> says what the processor's table walk makes of what it writes.
\<close>

section \<open>Constants\<close>

definition PAGE_SIZE :: u64 where "PAGE_SIZE = 4096"
definition PAGE_FRAME_MASK :: u64 where "PAGE_FRAME_MASK = NOT 0xFFF"
definition VMM_FLAG_PRESENT :: u64 where "VMM_FLAG_PRESENT = 1"
definition VMM_FLAG_WRITABLE :: u64 where "VMM_FLAG_WRITABLE = 2"
definition VMM_FLAG_USER :: u64 where "VMM_FLAG_USER = 4"
definition VMM_FLAG_CACHE_DISABLE :: u64 where "VMM_FLAG_CACHE_DISABLE = 0x10"
definition VMM_FLAG_PS :: u64 where "VMM_FLAG_PS = 0x80"
definition VMM_FLAG_NO_EXECUTE :: u64 where "VMM_FLAG_NO_EXECUTE = 0x8000000000000000"
definition LARGE_PAGE_SIZE :: u64 where "LARGE_PAGE_SIZE = 0x200000"
definition IA32_EFER_NXE :: u64 where "IA32_EFER_NXE = 0x800"

lemmas vmm_flags = VMM_FLAG_PRESENT_def VMM_FLAG_WRITABLE_def VMM_FLAG_USER_def
  VMM_FLAG_CACHE_DISABLE_def VMM_FLAG_PS_def VMM_FLAG_NO_EXECUTE_def

definition PML4_INDEX :: "u64 \<Rightarrow> u64" where "PML4_INDEX virt_addr = drop_bit 39 virt_addr AND 0x1FF"
definition PDPT_INDEX :: "u64 \<Rightarrow> u64" where "PDPT_INDEX virt_addr = drop_bit 30 virt_addr AND 0x1FF"
definition PD_INDEX :: "u64 \<Rightarrow> u64" where "PD_INDEX virt_addr = drop_bit 21 virt_addr AND 0x1FF"
definition PT_INDEX :: "u64 \<Rightarrow> u64" where "PT_INDEX virt_addr = drop_bit 12 virt_addr AND 0x1FF"

text \<open>A \<^verbatim>\<open>page_table_t\<close> is an array of 512 words at a virtual address.\<close>

definition get_entry :: "'a machine_scheme \<Rightarrow> u64 \<Rightarrow> u64 \<Rightarrow> u64" where
  "get_entry s table index = rd64 (mem s) (table + 8 * index)"

definition set_entry :: "'a machine_scheme \<Rightarrow> u64 \<Rightarrow> u64 \<Rightarrow> u64 \<Rightarrow> 'a machine_scheme" where
  "set_entry s table index v = s\<lparr>mem := wr64 (mem s) (table + 8 * index) v\<rparr>"

section \<open>Mapping a page\<close>

text \<open>
  The block \<^verbatim>\<open>Get or create\<close>, written out three times in \<^verbatim>\<open>vmm_map_page\<close> and twice in
  \<^verbatim>\<open>vmm_map_range\<close>, which differ in the flags of the new link. \<open>None\<close> is \<^verbatim>\<open>return false\<close>.
\<close>

definition get_or_create_table ::
  "'a pmm_scheme \<Rightarrow> u64 \<Rightarrow> u64 \<Rightarrow> u64 \<Rightarrow> (u64 option \<times> 'a pmm_scheme) outcome" where
  "get_or_create_table s table index link_flags =
     (if get_entry s table index AND VMM_FLAG_PRESENT \<noteq> 0 then
        Inr (Some (P2V s (get_entry s table index AND PAGE_FRAME_MASK)), s)
      else
        bind_ok (pmm_alloc_page s) (\<lambda>(new_phys, s).
          if new_phys = 0 then Inr (None, s) else
          let new = P2V s new_phys;
              s = s\<lparr>mem := memset (mem s) new 0 PAGE_SIZE\<rparr>;
              s = set_entry s table index (new_phys OR link_flags)
          in Inr (Some new, s)))"

definition vmm_map_page ::
  "'a pmm_scheme \<Rightarrow> u64 \<Rightarrow> u64 \<Rightarrow> u64 \<Rightarrow> u64 \<Rightarrow> (bool \<times> 'a pmm_scheme) outcome" where
  "vmm_map_page s pml4 virt_addr phys_addr flags =
     (let pml4_index = PML4_INDEX virt_addr;
          pdpt_index = PDPT_INDEX virt_addr;
          pd_index = PD_INDEX virt_addr;
          pt_index = PT_INDEX virt_addr;
          link = VMM_FLAG_PRESENT OR VMM_FLAG_WRITABLE OR VMM_FLAG_USER
      in bind_ok (get_or_create_table s pml4 pml4_index link) (\<lambda>(r, s).
         case r of None \<Rightarrow> Inr (False, s) | Some pdpt \<Rightarrow>
         bind_ok (get_or_create_table s pdpt pdpt_index link) (\<lambda>(r, s).
         case r of None \<Rightarrow> Inr (False, s) | Some pd \<Rightarrow>
         bind_ok (get_or_create_table s pd pd_index link) (\<lambda>(r, s).
         case r of None \<Rightarrow> Inr (False, s) | Some pt \<Rightarrow>
           let s = set_entry s pt pt_index
                     ((phys_addr AND PAGE_FRAME_MASK) OR flags OR VMM_FLAG_PRESENT);
               s = (if V2P s pml4 = get_current_cr3 s then flush_tlb s virt_addr else s)
           in Inr (True, s)))))"

definition vmm_unmap_page :: "'a pmm_scheme \<Rightarrow> u64 \<Rightarrow> u64 \<Rightarrow> bool \<times> 'a pmm_scheme" where
  "vmm_unmap_page s pml4 virt_addr =
     (let pml4_index = PML4_INDEX virt_addr;
          pdpt_index = PDPT_INDEX virt_addr;
          pd_index = PD_INDEX virt_addr;
          pt_index = PT_INDEX virt_addr
      in if get_entry s pml4 pml4_index AND VMM_FLAG_PRESENT = 0 then (False, s) else
      let pdpt = P2V s (get_entry s pml4 pml4_index AND PAGE_FRAME_MASK)
      in if get_entry s pdpt pdpt_index AND VMM_FLAG_PRESENT = 0 then (False, s) else
      let pd = P2V s (get_entry s pdpt pdpt_index AND PAGE_FRAME_MASK)
      in if get_entry s pd pd_index AND VMM_FLAG_PRESENT = 0 then (False, s) else
      let pt = P2V s (get_entry s pd pd_index AND PAGE_FRAME_MASK)
      in if get_entry s pt pt_index AND VMM_FLAG_PRESENT = 0 then (False, s) else
      let s = set_entry s pt pt_index 0;
          s = (if V2P s pml4 = get_current_cr3 s then flush_tlb s virt_addr else s)
      in (True, s))"

section \<open>Mapping a range\<close>

text \<open>The 2 MiB branch of the loop in \<^verbatim>\<open>vmm_map_range\<close>.\<close>

definition vmm_map_large ::
  "'a pmm_scheme \<Rightarrow> u64 \<Rightarrow> u64 \<Rightarrow> u64 \<Rightarrow> u64 \<Rightarrow> u64 \<Rightarrow> (bool \<times> 'a pmm_scheme) outcome" where
  "vmm_map_large s pml4 virt phys flags table_flags =
     (let pml4_index = PML4_INDEX virt;
          pdpt_index = PDPT_INDEX virt;
          pd_index = PD_INDEX virt
      in bind_ok (get_or_create_table s pml4 pml4_index table_flags) (\<lambda>(r, s).
         case r of None \<Rightarrow> Inr (False, s) | Some pdpt \<Rightarrow>
         bind_ok (get_or_create_table s pdpt pdpt_index table_flags) (\<lambda>(r, s).
         case r of None \<Rightarrow> Inr (False, s) | Some pd \<Rightarrow>
           Inr (True, set_entry s pd pd_index
             ((phys AND PAGE_FRAME_MASK) OR flags OR VMM_FLAG_PRESENT OR VMM_FLAG_PS)))))"

text \<open>
  The loop itself. \<^verbatim>\<open>virt\<close> may wrap around when the end of the range is not a multiple of
  the page size, and then the loop does not end; not returning is the value \<open>None\<close>.
\<close>

partial_function (option) vmm_map_loop ::
  "u64 \<Rightarrow> u64 \<Rightarrow> u64 \<Rightarrow> u64 \<Rightarrow> u64 \<Rightarrow> u64 \<Rightarrow> 'a pmm_scheme \<Rightarrow> (bool \<times> 'a pmm_scheme) outcome option" where
  "vmm_map_loop pml4 virt_end flags table_flags virt phys s =
     (if virt < virt_end then
        if virt mod LARGE_PAGE_SIZE = 0 \<and> phys mod LARGE_PAGE_SIZE = 0 \<and>
           virt_end - virt \<ge> LARGE_PAGE_SIZE then
          (case vmm_map_large s pml4 virt phys flags table_flags of
             Inl p \<Rightarrow> Some (Inl p)
           | Inr (ok, s') \<Rightarrow>
               if \<not> ok then Some (Inr (False, s'))
               else vmm_map_loop pml4 virt_end flags table_flags
                      (virt + LARGE_PAGE_SIZE) (phys + LARGE_PAGE_SIZE) s')
        else
          (case vmm_map_page s pml4 virt phys flags of
             Inl p \<Rightarrow> Some (Inl p)
           | Inr (ok, s') \<Rightarrow>
               if \<not> ok then Some (Inr (False, s'))
               else vmm_map_loop pml4 virt_end flags table_flags
                      (virt + PAGE_SIZE) (phys + PAGE_SIZE) s')
      else Some (Inr (True, s)))"

definition vmm_map_range ::
  "'a pmm_scheme \<Rightarrow> u64 \<Rightarrow> u64 \<Rightarrow> u64 \<Rightarrow> u64 \<Rightarrow> u64 \<Rightarrow> (bool \<times> 'a pmm_scheme) outcome option" where
  "vmm_map_range s pml4 virt_start phys_start len flags =
     (let virt_end = virt_start + len;
          table_flags = VMM_FLAG_PRESENT OR VMM_FLAG_WRITABLE;
          table_flags = (if flags AND VMM_FLAG_USER \<noteq> 0 then table_flags OR VMM_FLAG_USER
                         else table_flags)
      in vmm_map_loop pml4 virt_end flags table_flags virt_start phys_start s)"

section \<open>The kernel's address space\<close>

text \<open>
  \<open>or_panic\<close> is \<^verbatim>\<open>if (!vmm_map_range(...)) kernel_panic(...)\<close>, and \<open>and_then\<close> the sequence of
  two calls that may fail to return.
\<close>

definition or_panic :: "string \<Rightarrow> (bool \<times> 's) outcome option \<Rightarrow> 's outcome option" where
  "or_panic msg r =
     (case r of None \<Rightarrow> None | Some (Inl p) \<Rightarrow> Some (Inl p)
      | Some (Inr (ok, s)) \<Rightarrow> Some (if ok then Inr s else Inl (Panic msg)))"

definition and_then :: "'s outcome option \<Rightarrow> ('s \<Rightarrow> 't outcome option) \<Rightarrow> 't outcome option" where
  "and_then r f =
     (case r of None \<Rightarrow> None | Some (Inl p) \<Rightarrow> Some (Inl p) | Some (Inr s) \<Rightarrow> f s)"

fun vmm_map_hhdm_entries ::
  "u64 \<Rightarrow> limine_memmap_entry list \<Rightarrow> 'a pmm_scheme \<Rightarrow> 'a pmm_scheme outcome option" where
  "vmm_map_hhdm_entries kernel_pml4 [] s = Some (Inr s)"
| "vmm_map_hhdm_entries kernel_pml4 (entry # entries) s =
     (let phys_start = entry_base entry AND PAGE_FRAME_MASK;
          phys_end = (entry_base entry + entry_length entry + 0xFFF) AND PAGE_FRAME_MASK;
          len = phys_end - phys_start;
          virt_start = P2V s phys_start
      in and_then
           (or_panic ''vmm_map_hhdm: failed to map HHDM range''
             (vmm_map_range s kernel_pml4 virt_start phys_start len
               (VMM_FLAG_PRESENT OR VMM_FLAG_WRITABLE)))
           (vmm_map_hhdm_entries kernel_pml4 entries))"

definition vmm_map_hhdm ::
  "boot_info \<Rightarrow> u64 \<Rightarrow> 'a pmm_scheme \<Rightarrow> 'a pmm_scheme outcome option" where
  "vmm_map_hhdm b kernel_pml4 s =
     (case memmap_response b of
        None \<Rightarrow> Some (Inl (Panic ''Limine memory map not available''))
      | Some memmap \<Rightarrow> vmm_map_hhdm_entries kernel_pml4 memmap s)"

definition vmm_map_section ::
  "boot_info \<Rightarrow> u64 \<Rightarrow> u64 \<Rightarrow> u64 \<Rightarrow> u64 \<Rightarrow> 'a pmm_scheme \<Rightarrow> 'a pmm_scheme outcome option" where
  "vmm_map_section b pml4 section_start section_end flags s =
     (case kernel_address_response b of
        None \<Rightarrow> Some (Inl (Panic ''Limine kernel address not available''))
      | Some exec_addr \<Rightarrow>
          let virt_start = section_start AND PAGE_FRAME_MASK;
              virt_end = (section_end + 0xFFF) AND PAGE_FRAME_MASK;
              len = virt_end - virt_start;
              phys_start = physical_base exec_addr + (virt_start - virtual_base exec_addr)
          in or_panic ''vmm_map_section: failed to map kernel section''
               (vmm_map_range s pml4 virt_start phys_start len flags))"

text \<open>The symbols of the linker script, which place the sections of the kernel image.\<close>

record linker_symbols =
  requests_start :: u64
  requests_end :: u64
  text_start :: u64
  text_end :: u64
  rodata_start :: u64
  rodata_end :: u64
  data_start :: u64
  data_end :: u64

definition vmm_map_kernel ::
  "boot_info \<Rightarrow> linker_symbols \<Rightarrow> u64 \<Rightarrow> 'a pmm_scheme \<Rightarrow> 'a pmm_scheme outcome option" where
  "vmm_map_kernel b l pml4 s =
     and_then (vmm_map_section b pml4 (requests_start l) (requests_end l)
                 (VMM_FLAG_PRESENT OR VMM_FLAG_NO_EXECUTE) s) (\<lambda>s.
     and_then (vmm_map_section b pml4 (text_start l) (text_end l) VMM_FLAG_PRESENT s) (\<lambda>s.
     and_then (vmm_map_section b pml4 (rodata_start l) (rodata_end l)
                 (VMM_FLAG_PRESENT OR VMM_FLAG_NO_EXECUTE) s) (\<lambda>s.
     vmm_map_section b pml4 (data_start l) (data_end l)
       (VMM_FLAG_PRESENT OR VMM_FLAG_WRITABLE OR VMM_FLAG_NO_EXECUTE) s)))"

text \<open>The first element of the framebuffer array is read without a check of the response.\<close>

definition vmm_map_framebuffer ::
  "boot_info \<Rightarrow> u64 \<Rightarrow> 'a pmm_scheme \<Rightarrow> 'a pmm_scheme outcome option" where
  "vmm_map_framebuffer b kernel_pml4 s =
     (case framebuffer_response b of
        None \<Rightarrow> Some (Inl Bad_access)
      | Some [] \<Rightarrow> Some (Inl Bad_access)
      | Some (None # _) \<Rightarrow> Some (Inr s)
      | Some (Some fb # _) \<Rightarrow>
          let fb_virt = fb_address fb;
              fb_size = fb_pitch fb * fb_height fb;
              fb_phys = V2P s fb_virt;
              virt_start = fb_virt AND PAGE_FRAME_MASK;
              virt_end = (fb_virt + fb_size + 0xFFF) AND PAGE_FRAME_MASK;
              phys_start = fb_phys AND PAGE_FRAME_MASK;
              len = virt_end - virt_start
          in or_panic ''vmm_map_framebuffer: failed to map framebuffer''
               (vmm_map_range s kernel_pml4 virt_start phys_start len
                 (VMM_FLAG_PRESENT OR VMM_FLAG_WRITABLE)))"

text \<open>\<^verbatim>\<open>rdmsr\<close> and \<^verbatim>\<open>wrmsr\<close> move the register in two halves.\<close>

definition enable_nxe :: "'a machine_scheme \<Rightarrow> 'a machine_scheme" where
  "enable_nxe s =
     (let lo = ucast (efer s) :: u32;
          hi = ucast (drop_bit 32 (efer s)) :: u32;
          e = push_bit 32 (ucast hi :: u64) OR ucast lo;
          e = e OR IA32_EFER_NXE;
          lo = ucast e :: u32;
          hi = ucast (drop_bit 32 e) :: u32
      in s\<lparr>efer := push_bit 32 (ucast hi) OR ucast lo\<rparr>)"

definition vmm_init ::
  "boot_info \<Rightarrow> linker_symbols \<Rightarrow> 'a pmm_scheme \<Rightarrow> (bool \<times> 'a pmm_scheme) outcome option" where
  "vmm_init b l s =
     (let s = enable_nxe s in
      case pmm_alloc_page s of
        Inl p \<Rightarrow> Some (Inl p)
      | Inr (kernel_pml4_phys, s) \<Rightarrow>
          if kernel_pml4_phys = 0 then Some (Inr (False, s)) else
          let kernel_pml4 = P2V s kernel_pml4_phys;
              s = s\<lparr>mem := memset (mem s) kernel_pml4 0 PAGE_SIZE\<rparr>
          in and_then (vmm_map_hhdm b kernel_pml4 s) (\<lambda>s.
             and_then (vmm_map_kernel b l kernel_pml4 s) (\<lambda>s.
             and_then (vmm_map_framebuffer b kernel_pml4 s) (\<lambda>s.
             Some (Inr (True, write_cr3 s kernel_pml4_phys))))))"

end
