(* ===== verification/Vmm_Spec.thy ===== *)
theory Vmm_Spec
  imports Vmm
begin

text \<open>
  What the page tables mean: the processor's four-level walk over the entries in memory, the
  invariant that the kernel's tables form a tree of allocated frames that stay clear of the
  page bitmap, and the proof that mapping and unmapping change the translation of the
  addressed pages and of no other.
\<close>

section \<open>Entries in memory\<close>

text \<open>Frames are numbered; \<open>pte s f i\<close> is entry \<open>i\<close> of the table in frame \<open>f\<close>.\<close>

definition table_virt :: "'a pmm_scheme \<Rightarrow> u64 \<Rightarrow> u64" where
  "table_virt s f = P2V s (f * 4096)"

definition pte :: "'a pmm_scheme \<Rightarrow> u64 \<Rightarrow> u64 \<Rightarrow> u64" where
  "pte s f i = get_entry s (table_virt s f) i"

definition frame_at :: "'a pmm_scheme \<Rightarrow> u64 \<Rightarrow> u64" where
  "frame_at s a = (a - hhdm_offset s) div 4096"

definition bitmap_frames :: "'a pmm_scheme \<Rightarrow> u64 set" where
  "bitmap_frames s = {frame_at s (pmm_bitmap s + k) | k. k < pmm_bitmap_size s}"

lemma cell_offset:
  fixes f i j :: u64
  assumes "unat f < 2 ^ 40" and "i < 512" and "j < 8"
  shows "unat (f * 4096 + 8 * i + j) = 4096 * unat f + 8 * unat i + unat j"
proof -
  have b: "unat i < 512" "unat j < 8"
    using assms by (simp_all add: word_less_nat_alt)
  have "unat (f * 4096) = 4096 * unat f" "unat (8 * i) = 8 * unat i"
    using assms(1) b by (simp_all add: unat_word_ariths)
  then show ?thesis
    using assms(1) b by (simp add: unat_word_ariths)
qed

lemma cell_virt: "table_virt s f + 8 * i + j = hhdm_offset s + (f * 4096 + 8 * i + j)"
  by (simp add: table_virt_def P2V_def)

lemma frame_at_cell:
  assumes "unat f < 2 ^ 40" and "i < 512" and "j < 8"
  shows "frame_at s (table_virt s f + 8 * i + j) = f"
proof -
  have "unat ((f * 4096 + 8 * i + j) div 4096) = unat f"
    using assms unfolding unat_div cell_offset [OF assms] by (simp add: word_less_nat_alt)
  then show ?thesis
    unfolding cell_virt frame_at_def by (simp add: word_unat_eq_iff)
qed

lemma digits512:
  fixes f g i k :: nat
  assumes "i < 512" "k < 512" and "512 * f + i = 512 * g + k"
  shows "f = g \<and> i = k"
proof -
  have "(512 * f + i) div 512 = f" "(512 * g + k) div 512 = g"
    using assms(1,2) by simp_all
  then have "f = g"
    using assms(3) by simp
  then show ?thesis
    using assms(3) by simp
qed

lemma eight_apart:
  fixes a b :: u64
  assumes "unat a = 8 * x" "unat b = 8 * y" and "x \<noteq> y" "x < 2 ^ 50" "y < 2 ^ 50"
  shows "8 \<le> a - b"
proof -
  have "unat (a - b) = (if 8 * y \<le> 8 * x then 8 * x - 8 * y else 8 * x + 2 ^ 64 - 8 * y)"
    by (simp add: unat_sub_if' assms(1,2) del: mult_le_cancel1 nat_mult_le_cancel_disj mult_le_cancel_left_pos)
  then have "8 \<le> unat (a - b)"
    using assms(3-5) by (cases "y < x") (simp_all split: if_splits)
  then show ?thesis
    by (simp add: word_le_nat_alt)
qed

lemma cells_apart:
  assumes "unat f < 2 ^ 40" "unat g < 2 ^ 40" "i < 512" "k < 512" and ne: "\<not> (g = f \<and> k = i)"
  shows "apart8 (table_virt s f + 8 * i) (table_virt s g + 8 * k)"
proof -
  define a where "a = f * 4096 + 8 * i"
  define b where "b = g * 4096 + 8 * k"
  have a: "unat a = 8 * (512 * unat f + unat i)" and b: "unat b = 8 * (512 * unat g + unat k)"
    using cell_offset [of f i 0] cell_offset [of g k 0] assms by (simp_all add: a_def b_def)
  have ik: "unat i < 512" "unat k < 512"
    using assms by (simp_all add: word_less_nat_alt)
  have "512 * unat f + unat i \<noteq> 512 * unat g + unat k"
  proof
    assume e: "512 * unat f + unat i = 512 * unat g + unat k"
    from digits512 [OF ik e] have "f = g \<and> i = k"
      by (simp only: word_unat_eq_iff)
    then show False
      using ne by blast
  qed
  moreover have "512 * unat f + unat i < 2 ^ 50" "512 * unat g + unat k < 2 ^ 50"
    using assms(1,2) ik by simp_all
  ultimately have "8 \<le> a - b \<and> 8 \<le> b - a"
    using eight_apart [OF a b] eight_apart [OF b a] by simp
  moreover have "table_virt s f + 8 * i - (table_virt s g + 8 * k) = a - b"
    "table_virt s g + 8 * k - (table_virt s f + 8 * i) = b - a"
    by (simp_all add: table_virt_def P2V_def a_def b_def)
  ultimately show ?thesis
    by (simp add: apart8_def)
qed

lemma table_virt_upd [simp]:
  "table_virt (s\<lparr>mem := m\<rparr>) f = table_virt s f"
  "table_virt (s\<lparr>pmm_last_free_index := n\<rparr>) f = table_virt s f"
  "table_virt (s\<lparr>tlb_flushes := l\<rparr>) f = table_virt s f"
  "table_virt (bitmap_set_page s p) f = table_virt s f"
  "table_virt (set_entry s a i v) f = table_virt s f"
  by (simp_all add: table_virt_def P2V_def set_entry_def)

lemma pte_other_upd [simp]:
  "pte (s\<lparr>pmm_last_free_index := n\<rparr>) f i = pte s f i"
  "pte (s\<lparr>tlb_flushes := l\<rparr>) f i = pte s f i"
  by (simp_all add: pte_def get_entry_def)

lemma pte_set:
  assumes "unat f < 2 ^ 40" "unat g < 2 ^ 40" "i < 512" "k < 512"
  shows "pte (set_entry s (table_virt s f) i v) g k = (if g = f \<and> k = i then v else pte s g k)"
proof (cases "g = f \<and> k = i")
  case False
  then show ?thesis
    using cells_apart [OF assms False, of s] by (simp only: if_False) (simp add: pte_def get_entry_def set_entry_def)
qed (simp add: pte_def get_entry_def set_entry_def)

lemma rd64_zero: "rd64 (\<lambda>_. 0) a = 0"
  by (simp add: rd64_def)

lemma pte_clear:
  assumes "unat f < 2 ^ 40" "unat g < 2 ^ 40" "k < 512"
  shows "pte (s\<lparr>mem := memset (mem s) (table_virt s f) 0 4096\<rparr>) g k =
           (if g = f then 0 else pte s g k)"
proof -
  have out: "(table_virt s g + 8 * k + j - table_virt s f < 4096) \<longleftrightarrow> g = f" if "j < 8" for j
  proof -
    define x where "x = g * 4096 + 8 * k + j"
    have ux: "unat x = 4096 * unat g + (8 * unat k + unat j)" and r: "8 * unat k + unat j < 4096"
      using cell_offset [OF assms(2,3) that] assms(3) that
      by (simp_all add: x_def word_less_nat_alt)
    have uf: "unat (f * 4096) = 4096 * unat f"
      using assms(1) by (simp add: unat_word_ariths)
    have "unat (x - f * 4096) < 4096 \<longleftrightarrow> unat g = unat f"
      unfolding unat_sub_if' ux uf using r assms(1,2) by auto
    then show ?thesis
      unfolding cell_virt x_def [symmetric]
      by (simp add: table_virt_def P2V_def word_less_nat_alt word_unat_eq_iff)
  qed
  show ?thesis
  proof (cases "g = f")
    case True
    have "rd64 (memset (mem s) (table_virt s f) 0 4096) (table_virt s g + 8 * k) = rd64 (\<lambda>_. 0) 0"
      by (rule rd64_cong) (use out True in \<open>simp add: memset_eq\<close>)
    then show ?thesis
      using True by (simp add: pte_def get_entry_def rd64_zero)
  next
    case False
    have "rd64 (memset (mem s) (table_virt s f) 0 4096) (table_virt s g + 8 * k) =
        rd64 (mem s) (table_virt s g + 8 * k)"
      by (rule rd64_cong) (use out False in \<open>simp add: memset_eq\<close>)
    then show ?thesis
      using False by (simp add: pte_def get_entry_def)
  qed
qed

lemma pte_bitmap_set:
  assumes "unat g < 2 ^ 40" "k < 512" and "frame_at s (pmm_bitmap s + p div 8) \<noteq> g"
  shows "pte (bitmap_set_page s p) g k = pte s g k"
proof -
  have "table_virt s g + 8 * k + j \<noteq> pmm_bitmap s + p div 8" if "j < 8" for j
    using frame_at_cell [OF assms(1,2) that, of s] assms(3) by auto
  then have "rd64 (mem (bitmap_set_page s p)) (table_virt s g + 8 * k) =
      rd64 (mem s) (table_virt s g + 8 * k)"
    by (intro rd64_cong) (simp add: bitmap_set_page_def Let_def)
  then show ?thesis
    by (simp add: pte_def get_entry_def)
qed

text \<open>Writing to a frame outside the bitmap does not change which pages are in use.\<close>

lemma bitmap_byte_frame:
  assumes "pmm_sized s" and "x < pmm_total_pages s"
  shows "frame_at s (pmm_bitmap s + x div 8) \<in> bitmap_frames s"
proof -
  have "unat x div 8 < unat (pmm_bitmap_size s)"
    using assms by (auto simp: pmm_sized_def word_less_nat_alt)
  then have "x div 8 < pmm_bitmap_size s"
    by (simp add: word_less_nat_alt unat_div)
  then show ?thesis
    by (auto simp: bitmap_frames_def)
qed

lemma used_set_entry:
  assumes "pmm_sized s" "x < pmm_total_pages s" and "f \<notin> bitmap_frames s" "unat f < 2 ^ 40" "i < 512"
  shows "used (set_entry s (table_virt s f) i v) x = used s x"
proof -
  have "\<not> pmm_bitmap s + x div 8 - (table_virt s f + 8 * i) < 8"
  proof
    assume lt: "pmm_bitmap s + x div 8 - (table_virt s f + 8 * i) < 8"
    have "frame_at s (pmm_bitmap s + x div 8) = f"
      using frame_at_cell [OF assms(4,5) lt, of s] by simp
    then show False
      using bitmap_byte_frame [OF assms(1,2)] assms(3) by simp
  qed
  then show ?thesis
    by (simp add: used_def set_entry_def wr64_outside)
qed

lemma frame_at_table:
  assumes "unat f < 2 ^ 40" and "a - table_virt s f < 4096"
  shows "frame_at s a = f"
proof -
  let ?d = "a - table_virt s f"
  have "unat (f * 4096) = 4096 * unat f"
    using assms(1) by (simp add: unat_word_ariths)
  then have "unat (f * 4096 + ?d) = 4096 * unat f + unat ?d"
    using assms by (subst unat_add_no_overflow) (simp_all add: word_less_nat_alt)
  then have "unat ((f * 4096 + ?d) div 4096) = unat f"
    using assms(2) unfolding unat_div by (simp add: word_less_nat_alt)
  moreover have "f * 4096 + ?d = a - hhdm_offset s"
    by (simp add: table_virt_def P2V_def)
  ultimately show ?thesis
    by (simp only: frame_at_def word_unat_eq_iff)
qed

lemma used_clear_frame:
  assumes "pmm_sized s" "x < pmm_total_pages s" and "f \<notin> bitmap_frames s" "unat f < 2 ^ 40"
  shows "used (s\<lparr>mem := memset (mem s) (table_virt s f) 0 4096\<rparr>) x = used s x"
proof -
  have "\<not> pmm_bitmap s + x div 8 - table_virt s f < 4096"
    using frame_at_table [OF assms(4), of "pmm_bitmap s + x div 8" s] bitmap_byte_frame [OF assms(1,2)] assms(3)
    by auto
  then show ?thesis
    by (simp add: used_def memset_eq)
qed

section \<open>The processor's table walk\<close>

text \<open>
  An entry links to the next table when it is present and not a large page; the frame number
  is in its bits 12 to 51. \<open>walk\<close> collects the entries the processor reads, from the root
  down, and \<open>interpret\<close> makes a translation of them: the last entry says where the page is,
  and rights are granted only if every entry grants them.
\<close>

definition entry_present :: "u64 \<Rightarrow> bool" where "entry_present e \<longleftrightarrow> bit e 0"
definition entry_large :: "u64 \<Rightarrow> bool" where "entry_large e \<longleftrightarrow> bit e 7"
definition is_link :: "u64 \<Rightarrow> bool" where "is_link e \<longleftrightarrow> entry_present e \<and> \<not> entry_large e"
definition entry_frame :: "u64 \<Rightarrow> u64" where "entry_frame e = drop_bit 12 e AND mask 40"

fun walk :: "'a pmm_scheme \<Rightarrow> u64 \<Rightarrow> u64 list \<Rightarrow> u64 list" where
  "walk s f [] = []"
| "walk s f (i # is) =
     pte s f i # (if is_link (pte s f i) then walk s (entry_frame (pte s f i)) is else [])"

fun table_at :: "'a pmm_scheme \<Rightarrow> u64 \<Rightarrow> u64 list \<Rightarrow> u64 option" where
  "table_at s f [] = Some f"
| "table_at s f (i # is) =
     (if is_link (pte s f i) then table_at s (entry_frame (pte s f i)) is else None)"

record translation =
  tr_phys :: u64
  tr_large :: bool
  tr_writable :: bool
  tr_user :: bool
  tr_noexec :: bool

definition interpret_walk :: "u64 list \<Rightarrow> u64 \<Rightarrow> translation option" where
  "interpret_walk es v =
     (let e = last es; n = length es;
          page = (\<lambda>a large. Some \<lparr>tr_phys = a, tr_large = large,
            tr_writable = (\<forall>x \<in> set es. bit x 1), tr_user = (\<forall>x \<in> set es. bit x 2),
            tr_noexec = (\<exists>x \<in> set es. bit x 63)\<rparr>)
      in if \<not> entry_present e then None
         else if n = 4 then page (e AND 0x000FFFFFFFFFF000) False
         else if n = 3 \<and> entry_large e then page ((e AND 0x000FFFFFFFE00000) + (v AND 0x1FF000)) True
         else if n = 2 \<and> entry_large e then page ((e AND 0x000FFFFFC0000000) + (v AND 0x3FFFF000)) True
         else None)"

definition path :: "u64 \<Rightarrow> u64 list" where
  "path v = [PML4_INDEX v, PDPT_INDEX v, PD_INDEX v, PT_INDEX v]"

definition translate :: "'a pmm_scheme \<Rightarrow> u64 \<Rightarrow> u64 \<Rightarrow> translation option" where
  "translate s root v = interpret_walk (walk s root (path v)) v"

lemma index_less:
  "PML4_INDEX v < 512" "PDPT_INDEX v < 512" "PD_INDEX v < 512" "PT_INDEX v < 512"
proof -
  have "(x :: u64) AND 0x1FF < 512" for x
  proof -
    have "(0x1FF :: u64) = mask 9"
      by (simp add: mask_eq_exp_minus_1)
    then have "unat (x AND 0x1FF) < 512"
      using unat_and_mask [of x 9] by simp
    then show ?thesis
      by (simp add: word_less_nat_alt)
  qed
  then show "PML4_INDEX v < 512" "PDPT_INDEX v < 512" "PD_INDEX v < 512" "PT_INDEX v < 512"
    by (simp_all add: PML4_INDEX_def PDPT_INDEX_def PD_INDEX_def PT_INDEX_def)
qed

definition indices :: "u64 list \<Rightarrow> bool" where
  "indices p \<longleftrightarrow> (\<forall>i \<in> set p. i < 512)"

lemma indices_simps [simp]:
  "indices []" "indices (i # p) \<longleftrightarrow> i < 512 \<and> indices p"
  "indices (p @ q) \<longleftrightarrow> indices p \<and> indices q"
  by (auto simp: indices_def)

lemma path_indices [simp]: "indices (path v)" "length (path v) = 4"
  by (simp_all add: path_def index_less)

lemma table_at_append:
  "table_at s f (p @ q) = (case table_at s f p of None \<Rightarrow> None | Some g \<Rightarrow> table_at s g q)"
  by (induction p arbitrary: f) auto

lemma table_at_snoc:
  "table_at s f (p @ [i]) = (case table_at s f p of None \<Rightarrow> None
     | Some g \<Rightarrow> if is_link (pte s g i) then Some (entry_frame (pte s g i)) else None)"
  by (simp add: table_at_append split: option.split)

lemma walk_append:
  assumes "table_at s f p = Some g"
  shows "\<exists>es. walk s f (p @ q) = es @ walk s g q \<and> length es = length p \<and> (\<forall>e \<in> set es. is_link e)"
  using assms
proof (induction p arbitrary: f)
  case (Cons i p)
  then have l: "is_link (pte s f i)" "table_at s (entry_frame (pte s f i)) p = Some g"
    by (simp_all split: if_splits)
  obtain es where "walk s (entry_frame (pte s f i)) (p @ q) = es @ walk s g q"
    "length es = length p" "\<forall>e \<in> set es. is_link e"
    using Cons.IH [OF l(2)] by blast
  then show ?case
    using l(1) by (intro exI [of _ "pte s f i # es"]) simp
qed simp

text \<open>Two states that agree on the entries along a path agree on the walk.\<close>

lemma walk_cong:
  assumes "\<And>r j u h. q = r @ j # u \<Longrightarrow> table_at s f r = Some h \<Longrightarrow> pte t h j = pte s h j"
  shows "walk t f q = walk s f q \<and> table_at t f q = table_at s f q"
  using assms
proof (induction q arbitrary: f)
  case (Cons i q)
  have e: "pte t f i = pte s f i"
    using Cons.prems [of "[]" i q f] by simp
  show ?case
  proof (cases "is_link (pte s f i)")
    case True
    have "walk t (entry_frame (pte s f i)) q = walk s (entry_frame (pte s f i)) q \<and>
        table_at t (entry_frame (pte s f i)) q = table_at s (entry_frame (pte s f i)) q"
    proof (rule Cons.IH)
      fix r j u h
      assume "q = r @ j # u" "table_at s (entry_frame (pte s f i)) r = Some h"
      then show "pte t h j = pte s h j"
        using Cons.prems [of "i # r" j u h] True by simp
    qed
    then show ?thesis
      using e True by simp
  qed (use e in simp)
qed simp

text \<open>
  Whether the tables that already lie on the way to a page let user code through: every link among
  the upper three entries grants it. Where an upper entry is absent, a new table is still to come.
\<close>

fun user_links :: "'a pmm_scheme \<Rightarrow> u64 \<Rightarrow> u64 list \<Rightarrow> bool" where
  "user_links s f [] \<longleftrightarrow> True"
| "user_links s f (i # is) \<longleftrightarrow>
     (is_link (pte s f i) \<longrightarrow> bit (pte s f i) 2 \<and> user_links s (entry_frame (pte s f i)) is)"

definition user_path :: "'a pmm_scheme \<Rightarrow> u64 \<Rightarrow> u64 \<Rightarrow> bool" where
  "user_path s root v \<longleftrightarrow> user_links s root [PML4_INDEX v, PDPT_INDEX v, PD_INDEX v]"

definition user_access :: "'a pmm_scheme \<Rightarrow> u64 \<Rightarrow> u64 \<Rightarrow> bool" where
  "user_access s root v \<longleftrightarrow>
     (case translate s root v of None \<Rightarrow> False | Some tr \<Rightarrow> tr_user tr)"

lemma user_links_append:
  assumes "table_at s f p = Some g"
  shows "user_links s f (p @ q) \<longleftrightarrow> user_links s f p \<and> user_links s g q"
  using assms by (induction p arbitrary: f) (auto split: if_splits)

lemma user_links_cong:
  assumes "\<And>r j u h. q = r @ j # u \<Longrightarrow> table_at s f r = Some h \<Longrightarrow> pte t h j = pte s h j"
  shows "user_links t f q = user_links s f q"
  using assms
proof (induction q arbitrary: f)
  case (Cons i q)
  have e: "pte t f i = pte s f i"
    using Cons.prems [of "[]" i q f] by simp
  show ?case
  proof (cases "is_link (pte s f i)")
    case True
    have "user_links t (entry_frame (pte s f i)) q = user_links s (entry_frame (pte s f i)) q"
    proof (rule Cons.IH)
      fix r j u h
      assume "q = r @ j # u" "table_at s (entry_frame (pte s f i)) r = Some h"
      then show "pte t h j = pte s h j"
        using Cons.prems [of "i # r" j u h] True by simp
    qed
    then show ?thesis
      using e by simp
  qed (use e in simp)
qed simp

lemma walk_user:
  assumes "table_at s f p = Some g" and "user_links s f p"
  shows "\<exists>es. walk s f (p @ q) = es @ walk s g q \<and> length es = length p \<and> (\<forall>e \<in> set es. bit e 2)"
  using assms
proof (induction p arbitrary: f)
  case (Cons i p)
  then have l: "is_link (pte s f i)" "table_at s (entry_frame (pte s f i)) p = Some g"
    "user_links s (entry_frame (pte s f i)) p" "bit (pte s f i) 2"
    by (simp_all split: if_splits)
  obtain es where "walk s (entry_frame (pte s f i)) (p @ q) = es @ walk s g q"
    "length es = length p" "\<forall>e \<in> set es. bit e 2"
    using Cons.IH [OF l(2,3)] by blast
  then show ?case
    using l(1,4) by (intro exI [of _ "pte s f i # es"]) simp
qed simp

text \<open>A last entry that grants user access gives it, if all the tables before it do.\<close>

lemma user_access_entry:
  assumes "table_at s root p = Some f" and "user_links s root p" and v: "path v = p @ i # u"
    and e: "entry_present (pte s f i)" "bit (pte s f i) 2"
    and n: "u = [] \<or> length p = 2 \<and> entry_large (pte s f i)"
  shows "user_access s root v"
proof -
  obtain es where es: "walk s root (p @ i # u) = es @ walk s f (i # u)" "length es = length p"
    "\<forall>e \<in> set es. bit e 2"
    using walk_user [OF assms(1,2)] by blast
  have w: "walk s f (i # u) = [pte s f i]"
    using n by (auto simp: is_link_def)
  have len: "length p + 1 + length u = 4"
    using path_indices(2) [of v] by (simp only: v length_append list.size)
  show ?thesis
    using n
  proof
    assume "u = []"
    then have "length es = 3"
      using len es(2) by simp
    then show ?thesis
      using es(1,3) e w by (auto simp: user_access_def translate_def v interpret_walk_def Let_def)
  next
    assume "length p = 2 \<and> entry_large (pte s f i)"
    then show ?thesis
      using es e w by (auto simp: user_access_def translate_def v interpret_walk_def Let_def)
  qed
qed

section \<open>The invariant\<close>

text \<open>
  Entries have the form the kernel writes: a link is a frame number with the flags present and
  writable, with or without user; a present entry of a page directory may also be a large
  page; entries of the last level are arbitrary.
\<close>

definition links_to :: "u64 \<Rightarrow> u64 \<Rightarrow> bool" where
  "links_to e g \<longleftrightarrow> unat g < 2 ^ 40 \<and> (e = g * 4096 OR 3 \<or> e = g * 4096 OR 7)"

definition entry_ok :: "nat \<Rightarrow> u64 \<Rightarrow> bool" where
  "entry_ok n e \<longleftrightarrow>
     (entry_present e \<longrightarrow> n = 3 \<or> n = 2 \<and> entry_large e \<or> (\<exists>g. links_to e g))"

definition in_tree :: "'a pmm_scheme \<Rightarrow> u64 \<Rightarrow> u64 list \<Rightarrow> u64 \<Rightarrow> bool" where
  "in_tree s root p f \<longleftrightarrow> indices p \<and> length p \<le> 3 \<and> table_at s root p = Some f"

text \<open>
  Physical memory ends below \<open>2 ^ 52\<close>; page 0 and the frames of the bitmap are in use (the
  boot protocol never marks page 0 as usable); every table is a frame in use outside the
  bitmap, is linked from one place only, and has well-formed entries.
\<close>

definition memory_ok :: "'a pmm_scheme \<Rightarrow> bool" where
  "memory_ok s \<longleftrightarrow> physical_memory_initialized s \<and> pmm_sized s \<and>
     unat (pmm_total_pages s) \<le> 2 ^ 40 \<and> used s 0 \<and> 0 < pmm_total_pages s \<and>
     (\<forall>f \<in> bitmap_frames s. f < pmm_total_pages s \<and> used s f)"

definition tables_ok :: "'a pmm_scheme \<Rightarrow> u64 \<Rightarrow> bool" where
  "tables_ok s root \<longleftrightarrow> memory_ok s \<and>
     (\<forall>p f. in_tree s root p f \<longrightarrow>
        f < pmm_total_pages s \<and> used s f \<and> f \<notin> bitmap_frames s \<and>
        (\<forall>i < 512. entry_ok (length p) (pte s f i))) \<and>
     (\<forall>p q f. in_tree s root p f \<and> in_tree s root q f \<longrightarrow> p = q)"

lemma frame_bits:
  fixes g :: u64
  assumes "unat g < 2 ^ 40" and "bit g k"
  shows "k < 40"
proof -
  have "unat (take_bit 40 g) = unat g"
    using assms(1) by (simp add: unsigned_take_bit_eq take_bit_nat_eq_self)
  then have "take_bit 40 g = g"
    by (simp only: word_unat_eq_iff)
  then show ?thesis
    using assms(2) by (metis bit_take_bit_iff)
qed

lemma bit_link:
  assumes "unat g < 2 ^ 40" and "c = 3 \<or> c = 7"
  shows "bit (g * 4096 OR c) n \<longleftrightarrow> (12 \<le> n \<and> n < 52 \<and> bit g (n - 12)) \<or> bit (c :: u64) n"
proof -
  have "bit g (n - 12) \<Longrightarrow> n < 52"
    using frame_bits [OF assms(1), of "n - 12"] by simp
  moreover have "g * 4096 = push_bit 12 g"
    by (simp add: push_bit_eq_mult)
  ultimately show ?thesis
    using assms(2) by (auto simp: bit_simps)
qed

lemma bits_3_7:
  "bit (3 :: u64) n \<longleftrightarrow> n < 2" "bit (7 :: u64) n \<longleftrightarrow> n < 3"
  using bit_mask_iff [where m = 2 and 'a = "64 word", of n]
    bit_mask_iff [where m = 3 and 'a = "64 word", of n]
  by (auto simp: mask_eq_exp_minus_1)

lemma links_to_facts:
  assumes "links_to e g"
  shows "is_link e" "entry_present e" "\<not> entry_large e" "bit e 1" "\<not> bit e 63"
    and "entry_frame e = g" and "e AND PAGE_FRAME_MASK = g * 4096"
proof -
  obtain c :: u64 where e: "e = g * 4096 OR c" and c: "c = 3 \<or> c = 7" and g: "unat g < 2 ^ 40"
    using assms by (auto simp: links_to_def)
  note b = bit_link [OF g c, folded e]
  show "entry_present e" "\<not> entry_large e" "bit e 1" "\<not> bit e 63"
    using c by (auto simp: entry_present_def entry_large_def b bits_3_7)
  then show "is_link e"
    by (simp add: is_link_def)
  have high: "bit g k \<Longrightarrow> k < 40" for k
    using g by (rule frame_bits)
  have low: "\<not> bit c k" if "3 \<le> k" for k
    using c that bits_3_7 [of k] by auto
  have shifted: "bit e (12 + k) \<longleftrightarrow> bit g k" for k
    using high [of k] low [of "12 + k"] by (auto simp: b)
  show "entry_frame e = g"
    by (rule bit_eqI) (use high in \<open>auto simp: entry_frame_def bit_simps shifted\<close>)
  have m: "PAGE_FRAME_MASK = NOT (mask 12)"
    by (simp add: PAGE_FRAME_MASK_def mask_eq_exp_minus_1)
  have "g * 4096 = push_bit 12 g"
    by (simp add: push_bit_eq_mult)
  then show "e AND PAGE_FRAME_MASK = g * 4096"
    unfolding m
    by (intro bit_eqI) (use high [of "n - 12" for n] low in \<open>fastforce simp: bit_simps b\<close>)
qed

section \<open>Changing one entry\<close>

text \<open>
  \<open>entry_changed s t root p f i v G\<close>: \<open>t\<close> is \<open>s\<close> with entry \<open>i\<close> of the table \<open>f\<close> at path
  \<open>p\<close> set to \<open>v\<close>; the frames \<open>G\<close>, free before, are now in use and zero, and the new entry
  can only link to one of them.
\<close>

definition entry_changed ::
  "'a pmm_scheme \<Rightarrow> 'a pmm_scheme \<Rightarrow> u64 \<Rightarrow> u64 list \<Rightarrow> u64 \<Rightarrow> u64 \<Rightarrow> u64 \<Rightarrow> u64 set \<Rightarrow> bool" where
  "entry_changed s t root p f i v G \<longleftrightarrow>
     in_tree s root p f \<and> i < 512 \<and> entry_ok (length p) v \<and>
     (length p < 3 \<longrightarrow> is_link v \<longrightarrow> entry_frame v \<in> G) \<and>
     (\<forall>g \<in> G. g < pmm_total_pages s \<and> \<not> used s g) \<and> (\<forall>g \<in> G. \<forall>h \<in> G. g = h) \<and>
     physical_memory_initialized t = physical_memory_initialized s \<and>
     pmm_sized t = pmm_sized s \<and> pmm_total_pages t = pmm_total_pages s \<and>
     bitmap_frames t = bitmap_frames s \<and>
     (\<forall>x < pmm_total_pages s. used t x \<longleftrightarrow> used s x \<or> x \<in> G) \<and>
     (\<forall>g k. unat g < 2 ^ 40 \<longrightarrow> g \<notin> bitmap_frames s \<longrightarrow> k < 512 \<longrightarrow>
        pte t g k = (if g = f \<and> k = i then v else if g \<in> G then 0 else pte s g k))"

lemma in_tree_facts:
  assumes "tables_ok s root" and "in_tree s root p f"
  shows "f < pmm_total_pages s" "used s f" "f \<notin> bitmap_frames s" "unat f < 2 ^ 40"
    and "i < 512 \<Longrightarrow> entry_ok (length p) (pte s f i)"
    and "in_tree s root q f \<Longrightarrow> q = p"
proof -
  show "f < pmm_total_pages s" "used s f" "f \<notin> bitmap_frames s"
    "i < 512 \<Longrightarrow> entry_ok (length p) (pte s f i)" "in_tree s root q f \<Longrightarrow> q = p"
    using assms unfolding tables_ok_def by blast+
  moreover have "unat (pmm_total_pages s) \<le> 2 ^ 40"
    using assms(1) by (simp add: tables_ok_def memory_ok_def)
  ultimately show "unat f < 2 ^ 40"
    by (simp add: word_less_nat_alt)
qed

lemma fresh:
  assumes ok: "tables_ok s root" and ch: "entry_changed s t root p f i v G"
    and as: "g \<in> G"
  shows "unat g < 2 ^ 40" "g \<notin> bitmap_frames s" "\<not> used s g" "g < pmm_total_pages s" "g \<noteq> f"
proof -
  show 1: "\<not> used s g" "g < pmm_total_pages s"
    using ch as by (auto simp: entry_changed_def)
  have "memory_ok s"
    using ok by (simp add: tables_ok_def)
  then show "unat g < 2 ^ 40" "g \<notin> bitmap_frames s"
    using 1 by (auto simp: memory_ok_def word_less_nat_alt)
  show "g \<noteq> f"
    using 1(1) in_tree_facts(2) [OF ok, of p f] ch by (auto simp: entry_changed_def)
qed

lemma pte_changed:
  assumes ok: "tables_ok s root" and ch: "entry_changed s t root p f i v G"
    and as: "unat g < 2 ^ 40" "g \<notin> bitmap_frames s" "k < 512"
  shows "pte t g k = (if g = f \<and> k = i then v else if g \<in> G then 0 else pte s g k)"
  using ch as by (simp add: entry_changed_def)

lemma pte_old:
  assumes ok: "tables_ok s root" and ch: "entry_changed s t root p f i v G"
    and as: "in_tree s root r h" "k < 512" "\<not> (r = p \<and> k = i)"
  shows "pte t h k = pte s h k"
proof -
  note fresh = fresh [OF ok ch] and pte_changed = pte_changed [OF ok ch]
  have "h \<notin> G"
    using fresh(3) [of h] in_tree_facts(2) [OF ok as(1)] by blast
  moreover have "\<not> (h = f \<and> k = i)"
    using as in_tree_facts(6) [OF ok, of p f r] ch by (auto simp: entry_changed_def)
  ultimately show ?thesis
    using pte_changed [of h k] in_tree_facts(3,4) [OF ok as(1)] as(2) by auto
qed

lemma walk_elsewhere:
  assumes ok: "tables_ok s root" and ch: "entry_changed s t root p f i v G"
    and as: "indices q" "length q \<le> 4" "\<not> (\<exists>u. q = p @ i # u)"
  shows "walk t root q = walk s root q \<and> table_at t root q = table_at s root q"
proof (rule walk_cong)
  note pte_old = pte_old [OF ok ch]
  fix r j u h
  assume q: "q = r @ j # u" and "table_at s root r = Some h"
  then have "in_tree s root r h" "j < 512" "\<not> (r = p \<and> j = i)"
    using as by (auto simp: in_tree_def)
  then show "pte t h j = pte s h j"
    by (rule pte_old)
qed

lemma at_path:
  assumes ok: "tables_ok s root" and ch: "entry_changed s t root p f i v G"
  shows "table_at t root p = Some f" "pte t f i = v" "indices p" "length p \<le> 3"
proof -
  note pte_changed = pte_changed [OF ok ch] and walk_elsewhere = walk_elsewhere [OF ok ch]
  have tree: "in_tree s root p f" and i: "i < 512"
    using ch by (simp_all add: entry_changed_def)
  then show "indices p" "length p \<le> 3"
    by (simp_all add: in_tree_def)
  show "table_at t root p = Some f"
    using walk_elsewhere [of p] tree by (auto simp: in_tree_def)
  show "pte t f i = v"
    using pte_changed in_tree_facts [OF ok tree] i by simp
qed

lemma zero_not_link: "\<not> is_link 0" "\<not> entry_present 0" "entry_ok n 0"
  by (simp_all add: is_link_def entry_present_def entry_ok_def)

lemma table_through:
  assumes ok: "tables_ok s root" and ch: "entry_changed s t root p f i v G"
    and as: "indices (p @ i # u)" "length (p @ i # u) \<le> 3" "table_at t root (p @ i # u) = Some h"
  shows "u = [] \<and> h \<in> G"
proof -
  note fresh = fresh [OF ok ch] and pte_changed = pte_changed [OF ok ch] and at_path = at_path [OF ok ch]
  have len: "length p < 3"
    using as(2) by simp
  have l: "is_link v" and h: "table_at t (entry_frame v) u = Some h"
    using as(3) at_path by (simp_all add: table_at_append split: if_splits)
  then have g: "entry_frame v \<in> G"
    using ch len by (simp add: entry_changed_def)
  show ?thesis
  proof (cases u)
    case (Cons j u')
    then have "pte t (entry_frame v) j = 0"
      using pte_changed [of "entry_frame v" j] fresh [OF g] g as(1) by simp
    then show ?thesis
      using h Cons zero_not_link by simp
  qed (use h g in simp)
qed

lemma tree_changed:
  assumes ok: "tables_ok s root" and ch: "entry_changed s t root p f i v G"
    and as: "in_tree t root q h"
  shows "in_tree s root q h \<and> h \<notin> G \<or> h \<in> G \<and> q = p @ [i] \<and> length p < 3"
proof (cases "\<exists>u. q = p @ i # u")
  note fresh = fresh [OF ok ch] and walk_elsewhere = walk_elsewhere [OF ok ch] and table_through = table_through [OF ok ch]
  case True
  then show ?thesis
    using as table_through by (auto simp: in_tree_def)
next
  case False
  then have "in_tree s root q h"
    using walk_elsewhere [OF ok ch, of q] as by (auto simp: in_tree_def)
  then show ?thesis
    using in_tree_facts(2) [OF ok] fresh(3) [OF ok ch] by blast
qed

lemma tables_ok_changed:
  assumes ok: "tables_ok s root" and ch: "entry_changed s t root p f i v G"
  shows "tables_ok t root"
proof -
  note fresh = fresh [OF ok ch] and pte_changed = pte_changed [OF ok ch] and pte_old = pte_old [OF ok ch] and at_path = at_path [OF ok ch] and tree_changed = tree_changed [OF ok ch]
  have used: "used t x \<longleftrightarrow> used s x \<or> x \<in> G" if "x < pmm_total_pages s" for x
    using ch that by (simp add: entry_changed_def)
  have fields: "pmm_total_pages t = pmm_total_pages s" "bitmap_frames t = bitmap_frames s"
    using ch by (simp_all add: entry_changed_def)
  have "memory_ok s"
    using ok by (simp add: tables_ok_def)
  then have mem: "memory_ok t"
    using ch used by (auto simp: memory_ok_def entry_changed_def)
  have entries: "entry_ok (length q) (pte t h k)" if "in_tree t root q h" "k < 512" for q h k
    using tree_changed [OF that(1)]
  proof (elim disjE conjE)
    assume old: "in_tree s root q h"
    show ?thesis
    proof (cases "q = p \<and> k = i")
      case True
      then have "h = f"
        using old at_path ch by (auto simp: in_tree_def entry_changed_def)
      then show ?thesis
        using True at_path(2) ch by (simp add: entry_changed_def)
    next
      case False
      then show ?thesis
        using pte_old [OF old that(2)] in_tree_facts(5) [OF ok old that(2)] by simp
    qed
  next
    assume "h \<in> G"
    then have "pte t h k = 0"
      using pte_changed [of h k] fresh that(2) by simp
    then show ?thesis
      by (simp add: zero_not_link)
  qed
  have frames: "h < pmm_total_pages t \<and> used t h \<and> h \<notin> bitmap_frames t"
    if "in_tree t root q h" for q h
    using tree_changed [OF that]
  proof (elim disjE conjE)
    assume "in_tree s root q h"
    then show ?thesis
      using in_tree_facts(1-3) [OF ok] used fields by simp
  next
    assume "h \<in> G"
    then show ?thesis
      using fresh used fields by simp
  qed
  have "q = q'" if "in_tree t root q h" "in_tree t root q' h" for q q' h
    using tree_changed [OF that(1)] tree_changed [OF that(2)] in_tree_facts(6) [OF ok] by blast
  then show ?thesis
    unfolding tables_ok_def using mem entries frames by blast
qed

text \<open>Addresses whose path avoids the entry keep their translation.\<close>

lemma translate_elsewhere:
  assumes ok: "tables_ok s root" and ch: "entry_changed s t root p f i v G"
    and as: "\<not> (\<exists>u. path w = p @ i # u)"
  shows "translate t root w = translate s root w"
  using walk_elsewhere [OF ok ch, of "path w"] as by (simp add: translate_def)

text \<open>Linking a fresh table where nothing was present changes no translation.\<close>

lemma translate_new_link:
  assumes ok: "tables_ok s root" and ch: "entry_changed s t root p f i v G"
    and as: "is_link v" "length p < 3" "\<not> entry_present (pte s f i)"
  shows "translate t root w = translate s root w"
proof (cases "\<exists>u. path w = p @ i # u")
  note fresh = fresh [OF ok ch] and pte_changed = pte_changed [OF ok ch] and at_path = at_path [OF ok ch]
  case True
  then obtain u where w: "path w = p @ i # u"
    by blast
  have "length p + 1 + length u = 4"
    using path_indices(2) [of w] by (simp only: w length_append list.size)
  then obtain j u' where u: "u = j # u'"
    using as(2) by (cases u) auto
  have j: "j < 512"
    using path_indices(1) [of w] by (simp add: w u)
  have s0: "table_at s root p = Some f"
    using ch by (simp add: entry_changed_def in_tree_def)
  obtain es where "walk s root (p @ i # u) = es @ walk s f (i # u)"
    using walk_append [OF s0] by blast
  then have "last (walk s root (path w)) = pte s f i"
    using as(3) by (simp add: w is_link_def)
  then have 1: "translate s root w = None"
    using as(3) by (simp add: translate_def interpret_walk_def)
  have g: "entry_frame v \<in> G"
    using ch as by (simp add: entry_changed_def)
  have z: "pte t (entry_frame v) j = 0"
    using pte_changed [of "entry_frame v" j] fresh [OF g] g j by simp
  obtain es' where "walk t root (p @ i # u) = es' @ walk t f (i # u)"
    using walk_append [OF at_path(1)] by blast
  then have "last (walk t root (path w)) = 0"
    using as(1) z zero_not_link at_path(2) by (simp add: w u)
  then have "translate t root w = None"
    by (simp add: translate_def interpret_walk_def zero_not_link)
  then show ?thesis
    using 1 by simp
qed (rule translate_elsewhere [OF ok ch])

text \<open>
  Writing an entry that is no link, or that grants user access, takes the user access of no path
  away.
\<close>

lemma user_links_elsewhere:
  assumes ok: "tables_ok s root" and ch: "entry_changed s t root p f i v G"
    and as: "indices q" "length q \<le> 4" "\<not> (\<exists>u. q = p @ i # u)"
  shows "user_links t root q = user_links s root q"
proof (rule user_links_cong)
  fix r j u h
  assume q: "q = r @ j # u" and "table_at s root r = Some h"
  then have "in_tree s root r h" "j < 512" "\<not> (r = p \<and> j = i)"
    using as by (auto simp: in_tree_def)
  then show "pte t h j = pte s h j"
    by (rule pte_old [OF ok ch])
qed

lemma user_path_changed:
  assumes ok: "tables_ok s root" and ch: "entry_changed s t root p f i v G"
    and link: "length p < 3 \<Longrightarrow> is_link v \<Longrightarrow> bit v 2" and w: "user_path s root w"
  shows "user_path t root w"
proof (cases "\<exists>u. [PML4_INDEX w, PDPT_INDEX w, PD_INDEX w] = p @ i # u")
  case True
  then obtain u where u: "[PML4_INDEX w, PDPT_INDEX w, PD_INDEX w] = p @ i # u"
    by blast
  have len: "length p + 1 + length u = 3"
    using arg_cong [OF u, of length] by simp
  have ind: "indices (p @ i # u)"
    unfolding u [symmetric] by (simp add: index_less)
  have s0: "table_at s root p = Some f"
    using ch by (simp add: entry_changed_def in_tree_def)
  have "user_links s root p"
    using w user_links_append [OF s0] by (simp add: user_path_def u)
  moreover have "\<not> (\<exists>u. p = p @ i # u)"
    by simp
  ultimately have "user_links t root p"
    using user_links_elsewhere [OF ok ch, of p] ind len by simp
  moreover have "user_links t f (i # u)"
  proof (cases "is_link v")
    case True
    have g: "entry_frame v \<in> G"
      using ch len True by (simp add: entry_changed_def)
    have "user_links t (entry_frame v) u"
    proof (cases u)
      case (Cons j u')
      then have "pte t (entry_frame v) j = 0"
        using pte_changed [OF ok ch, of "entry_frame v" j] fresh [OF ok ch g] g ind by simp
      then show ?thesis
        by (simp add: Cons zero_not_link)
    qed simp
    then show ?thesis
      using True link len at_path(2) [OF ok ch] by simp
  qed (simp add: at_path(2) [OF ok ch])
  ultimately show ?thesis
    using user_links_append [OF at_path(1) [OF ok ch]] by (simp only: user_path_def u)
next
  case False
  then show ?thesis
    using user_links_elsewhere [OF ok ch _ _ False] w by (simp add: user_path_def index_less)
qed

section \<open>Getting or creating a table\<close>

text \<open>What a call keeps: the mapping offset and the root register.\<close>

definition keeps :: "'a pmm_scheme \<Rightarrow> 'a pmm_scheme \<Rightarrow> bool" where
  "keeps s t \<longleftrightarrow> hhdm_offset t = hhdm_offset s \<and> cr3 t = cr3 s \<and> pmm_bitmap t = pmm_bitmap s"

lemma keeps_simps [simp]:
  "keeps s s" "keeps s (set_entry t a i v) = keeps s t" "keeps s (t\<lparr>mem := m\<rparr>) = keeps s t"
  "keeps s (t\<lparr>pmm_last_free_index := n\<rparr>) = keeps s t" "keeps s (t\<lparr>tlb_flushes := l\<rparr>) = keeps s t"
  "keeps s (bitmap_set_page t p) = keeps s t"
  by (simp_all add: keeps_def set_entry_def)

lemma keeps_trans: "keeps s t \<Longrightarrow> keeps t u \<Longrightarrow> keeps s u"
  by (simp add: keeps_def)

lemma keeps_table_virt: "keeps s t \<Longrightarrow> table_virt t f = table_virt s f"
  by (simp add: keeps_def table_virt_def P2V_def)

text \<open>
  What mapping writes to: the bitmap, tables that were there and frames that were free. Pages in use
  stay in use, and a frame becomes a table only if it was free.
\<close>

definition table_frames :: "'a pmm_scheme \<Rightarrow> u64 \<Rightarrow> u64 set" where
  "table_frames s root = {f. \<exists>p. in_tree s root p f}"

definition grows :: "'a pmm_scheme \<Rightarrow> 'a pmm_scheme \<Rightarrow> u64 \<Rightarrow> bool" where
  "grows s t root \<longleftrightarrow>
     hhdm_offset t = hhdm_offset s \<and> pmm_total_pages t = pmm_total_pages s \<and> bitmap_frames t = bitmap_frames s \<and>
     (\<forall>x < pmm_total_pages s. used s x \<longrightarrow> used t x) \<and>
     (\<forall>f \<in> table_frames t root. f \<in> table_frames s root \<or> f < pmm_total_pages s \<and> \<not> used s f) \<and>
     (\<forall>a. mem t a \<noteq> mem s a \<longrightarrow> frame_at s a \<in> bitmap_frames s \<union> table_frames s root \<or>
        frame_at s a < pmm_total_pages s \<and> \<not> used s (frame_at s a))"

lemma grows_refl [simp]: "grows s s root"
  by (simp add: grows_def)

lemma grows_trans:
  assumes "tables_ok t root" and "grows s t root" and "grows t u root"
  shows "grows s u root"
proof -
  have f: "frame_at t = frame_at s"
    using assms(2) by (simp add: grows_def frame_at_def fun_eq_iff)
  have tables: "f < pmm_total_pages s \<and> used t f" if "f \<in> table_frames t root" for f
    using that in_tree_facts(1,2) [OF assms(1)] assms(2) by (auto simp: table_frames_def grows_def)
  have "frame_at s a \<in> bitmap_frames s \<union> table_frames s root \<or>
      frame_at s a < pmm_total_pages s \<and> \<not> used s (frame_at s a)" if "mem u a \<noteq> mem s a" for a
  proof (cases "mem t a = mem s a")
    case True
    then have "mem u a \<noteq> mem t a"
      using that by simp
    then have "frame_at s a \<in> bitmap_frames s \<union> table_frames t root \<or>
        frame_at s a < pmm_total_pages s \<and> \<not> used t (frame_at s a)"
      using assms(2,3) unfolding grows_def f by metis
    then show ?thesis
      using assms(2) tables unfolding grows_def by blast
  qed (use assms(2) in \<open>simp add: grows_def\<close>)
  moreover have "f \<in> table_frames s root \<or> f < pmm_total_pages s \<and> \<not> used s f" if "f \<in> table_frames u root" for f
    using that assms(2,3) unfolding grows_def by metis
  moreover have "used u x" if "x < pmm_total_pages s" "used s x" for x
    using that assms(2,3) by (simp add: grows_def)
  ultimately show ?thesis
    using assms(2,3) unfolding grows_def by simp
qed

lemma grows_changed:
  assumes ok: "tables_ok s root" and ch: "entry_changed s t root p f i v G" and "keeps s t"
    and "\<And>a. mem t a \<noteq> mem s a \<Longrightarrow> frame_at s a \<in> insert f (bitmap_frames s \<union> G)"
  shows "grows s t root"
proof -
  have new: "\<forall>g \<in> G. g < pmm_total_pages s \<and> \<not> used s g" and f: "f \<in> table_frames s root"
    and same: "pmm_total_pages t = pmm_total_pages s" "bitmap_frames t = bitmap_frames s"
      "\<forall>x < pmm_total_pages s. used t x \<longleftrightarrow> used s x \<or> x \<in> G"
    using ch unfolding entry_changed_def table_frames_def by blast+
  have "h \<in> table_frames s root \<or> h \<in> G" if "h \<in> table_frames t root" for h
    using that tree_changed [OF ok ch] unfolding table_frames_def by blast
  then have "\<forall>h \<in> table_frames t root. h \<in> table_frames s root \<or> h < pmm_total_pages s \<and> \<not> used s h"
    using new by blast
  moreover have "frame_at s a \<in> bitmap_frames s \<union> table_frames s root \<or>
      frame_at s a < pmm_total_pages s \<and> \<not> used s (frame_at s a)" if "mem t a \<noteq> mem s a" for a
    using assms(4) [OF that] f new by blast
  ultimately show ?thesis
    using assms(3) same by (simp add: grows_def keeps_def)
qed

lemma grows_flush: "grows s (t\<lparr>tlb_flushes := l\<rparr>) root = grows s t root"
proof -
  have "used (t\<lparr>tlb_flushes := l\<rparr>) x = used t x" for x
    by (rule used_mem_cong) simp_all
  moreover have "bitmap_frames (t\<lparr>tlb_flushes := l\<rparr>) = bitmap_frames t"
    by (simp add: bitmap_frames_def frame_at_def)
  moreover have "table_at (t\<lparr>tlb_flushes := l\<rparr>) root q = table_at t root q" for q
    using walk_cong [of q t root "t\<lparr>tlb_flushes := l\<rparr>"] by simp
  ultimately show ?thesis
    by (simp add: grows_def table_frames_def in_tree_def)
qed

lemma set_entry_mem:
  assumes "unat f < 2 ^ 40" and "i < 512" and "mem (set_entry s (table_virt s f) i v) a \<noteq> mem s a"
  shows "frame_at s a = f"
proof -
  have "a - (table_virt s f + 8 * i) < 8"
    using assms(3) wr64_outside [of a "table_virt s f + 8 * i" "mem s" v] by (auto simp: set_entry_def)
  then show ?thesis
    using frame_at_cell [OF assms(1,2), of "a - (table_virt s f + 8 * i)" s] by simp
qed

lemma present_iff: "e AND VMM_FLAG_PRESENT \<noteq> 0 \<longleftrightarrow> entry_present e"
  by (simp add: VMM_FLAG_PRESENT_def entry_present_def and_one_eq bit_0 odd_iff_mod_2_eq_one)

lemma pmm_alloc_page_fresh:
  assumes "memory_ok s"
  shows "(\<exists>g. pmm_alloc_page s =
            Inr (g * 4096, (bitmap_set_page s g)\<lparr>pmm_last_free_index := g div 64\<rparr>) \<and>
            g < pmm_total_pages s \<and> \<not> used s g \<and> g \<noteq> 0 \<and> g * 4096 \<noteq> 0) \<or>
         pmm_alloc_page s = Inr (0, s) \<and> free_pages s = {}"
proof -
  obtain r where r: "pmm_alloc_page s = Inr r"
    "page_taken s r \<or> r = (NULL, s) \<and> (\<forall>p < pmm_total_pages s. used s p)"
    using pmm_alloc_page_cases [of s] assms by (auto simp: memory_ok_def)
  show ?thesis
  proof (cases "page_taken s r")
    case True
    then obtain g where g: "g < pmm_total_pages s" "\<not> used s g"
      "r = (g * 4096, (bitmap_set_page s g)\<lparr>pmm_last_free_index := g div 64\<rparr>)"
      by (auto simp: page_taken_def)
    then have "g \<noteq> 0" "unat g < 2 ^ 40"
      using assms by (auto simp: memory_ok_def word_less_nat_alt)
    then show ?thesis
      using g r page_addr(3) [of g] by auto
  next
    case False
    then show ?thesis
      using r by (auto simp: NULL_def free_pages_def)
  qed
qed

lemma set_entry_changed:
  assumes ok: "tables_ok s root" and tree: "in_tree s root p f" and i: "i < 512"
    and v: "entry_ok (length p) v" "length p < 3 \<Longrightarrow> \<not> is_link v"
  shows "entry_changed s (set_entry s (table_virt s f) i v) root p f i v {}"
proof -
  note f = in_tree_facts [OF ok tree]
  have sized: "pmm_sized s"
    using ok by (simp add: tables_ok_def memory_ok_def)
  define t where "t = set_entry s (table_virt s f) i v"
  have sz: "bitmap_frames t = bitmap_frames s" "pmm_sized t = pmm_sized s"
    "pmm_total_pages t = pmm_total_pages s"
    "physical_memory_initialized t = physical_memory_initialized s"
    by (simp_all add: t_def bitmap_frames_def frame_at_def set_entry_def pmm_sized_def)
  have used: "\<forall>x < pmm_total_pages s. used t x \<longleftrightarrow> used s x \<or> x \<in> {}"
    using used_set_entry [OF sized _ f(3,4) i] by (simp add: t_def)
  have entries: "\<forall>g k. unat g < 2 ^ 40 \<longrightarrow> g \<notin> bitmap_frames s \<longrightarrow> k < 512 \<longrightarrow>
      pte t g k = (if g = f \<and> k = i then v else if g \<in> {} then 0 else pte s g k)"
    using pte_set [OF f(4) _ i, where s = s] by (simp add: t_def)
  show ?thesis
    unfolding t_def [symmetric] entry_changed_def
    using tree i v sz used entries by blast
qed

lemma set_entry_grows:
  assumes ok: "tables_ok s root" and tree: "in_tree s root p f" and i: "i < 512"
    and v: "entry_ok (length p) v" "length p < 3 \<Longrightarrow> \<not> is_link v"
  shows "grows s (set_entry s (table_virt s f) i v) root"
  by (rule grows_changed [OF ok set_entry_changed [OF assms]])
    (use set_entry_mem [OF in_tree_facts(4) [OF ok tree] i] in auto)

lemma free_pages_changed:
  "entry_changed s t root p f i v {} \<Longrightarrow> free_pages t = free_pages s"
  by (auto simp: entry_changed_def free_pages_def)

lemma link_ok:
  assumes "unat g < 2 ^ 40" and "c = 3 \<or> c = 7"
  shows "links_to (g * 4096 OR c) g" "entry_ok n (g * 4096 OR c)"
  using assms by (auto simp: links_to_def entry_ok_def)

lemma new_table_changed:
  assumes ok: "tables_ok s root" and tree: "in_tree s root p f" "length p < 3" and i: "i < 512"
    and g: "g < pmm_total_pages s" "\<not> used s g" and c: "c = 3 \<or> c = 7"
    and s1: "s1 = (bitmap_set_page s g)\<lparr>pmm_last_free_index := n\<rparr>"
    and s2: "s2 = s1\<lparr>mem := memset (mem s1) (table_virt s g) 0 4096\<rparr>"
    and t: "t = set_entry s2 (table_virt s f) i (g * 4096 OR c)"
  shows "entry_changed s t root p f i (g * 4096 OR c) {g}" and "keeps s t"
    and "free_pages t = free_pages s - {g}" and "grows s t root"
proof -
  have mem: "memory_ok s"
    using ok by (simp add: tables_ok_def)
  then have sized: "pmm_sized s" and gf: "unat g < 2 ^ 40" "g \<notin> bitmap_frames s"
    using g by (auto simp: memory_ok_def word_less_nat_alt)
  note f = in_tree_facts [OF ok tree(1)]
  have sz: "pmm_sized s1 = pmm_sized s" "pmm_sized s2 = pmm_sized s" "pmm_sized t = pmm_sized s"
    "bitmap_frames s1 = bitmap_frames s" "bitmap_frames s2 = bitmap_frames s"
    "bitmap_frames t = bitmap_frames s" "pmm_total_pages s1 = pmm_total_pages s"
    "pmm_total_pages s2 = pmm_total_pages s" "pmm_total_pages t = pmm_total_pages s"
    "physical_memory_initialized t = physical_memory_initialized s"
    and tv: "table_virt s1 = table_virt s" "table_virt s2 = table_virt s"
    by (auto simp: t s2 s1 set_entry_def bitmap_frames_def frame_at_def pmm_sized_def
        table_virt_def P2V_def)
  have used: "used t x \<longleftrightarrow> used s x \<or> x = g" if "x < pmm_total_pages s" for x
  proof -
    have "used t x = used s2 x"
      using used_set_entry [of s2 x f i] sized that f(3,4) i by (simp add: t sz tv)
    also have "\<dots> = used s1 x"
      using used_clear_frame [of s1 x g] sized that gf by (simp add: s2 sz tv)
    also have "\<dots> = (used s x \<or> x = g)"
      using used_mem_cong [of s1 "bitmap_set_page s g" x] by (auto simp: s1)
    finally show ?thesis .
  qed
  have entries: "pte t h k =
      (if h = f \<and> k = i then g * 4096 OR c else if h \<in> {g} then 0 else pte s h k)"
    if h: "unat h < 2 ^ 40" "h \<notin> bitmap_frames s" "k < 512" for h k
  proof -
    have "pte t h k = (if h = f \<and> k = i then g * 4096 OR c else pte s2 h k)"
      using pte_set [of f h i k s2] f(4) h i by (simp add: t tv)
    moreover have "pte s2 h k = (if h = g then 0 else pte s1 h k)"
      using pte_clear [of g h k s1] gf h by (simp add: s2 tv)
    moreover have "frame_at s (pmm_bitmap s + g div 8) \<noteq> h"
      using bitmap_byte_frame [OF sized g(1)] h(2) by auto
    then have "pte s1 h k = pte s h k"
      using pte_bitmap_set [of h k s g] h by (simp add: s1)
    ultimately show ?thesis
      by (simp only: singleton_iff split: if_split)
  qed
  have "entry_ok (length p) (g * 4096 OR c)" "entry_frame (g * 4096 OR c) = g"
    using link_ok [OF gf(1) c] links_to_facts(6) by blast+
  then show ch: "entry_changed s t root p f i (g * 4096 OR c) {g}"
    unfolding entry_changed_def using tree(1) i g sz used entries by simp
  show kp: "keeps s t"
    by (simp add: t s2 s1)
  have fr: "frame_at s1 = frame_at s" "frame_at s2 = frame_at s"
    by (simp_all add: s2 s1 frame_at_def fun_eq_iff)
  have "frame_at s a \<in> insert f (bitmap_frames s \<union> {g})" if "mem t a \<noteq> mem s a" for a
  proof (cases "mem t a = mem s2 a")
    case same: True
    show ?thesis
    proof (cases "mem s2 a = mem s1 a")
      case True
      then have "a = pmm_bitmap s + g div 8"
        using that same by (simp add: s1 bitmap_set_page_def Let_def split: if_splits)
      then show ?thesis
        using bitmap_byte_frame [OF sized g(1)] by simp
    next
      case False
      then have "a - table_virt s g < 4096"
        by (simp add: s2 memset_eq split: if_splits)
      then show ?thesis
        using frame_at_table [OF gf(1), of a s] by simp
    qed
  next
    case False
    then have "mem (set_entry s2 (table_virt s2 f) i (g * 4096 OR c)) a \<noteq> mem s2 a"
      by (simp add: t tv)
    from set_entry_mem [OF f(4) i this] show ?thesis
      by (simp add: fr)
  qed
  then show "grows s t root"
    by (rule grows_changed [OF ok ch kp])
  show "free_pages t = free_pages s - {g}"
    using used by (auto simp: free_pages_def sz)
qed

lemma get_or_create_spec:
  assumes ok: "tables_ok s root" and tree: "in_tree s root p f" "length p < 3" and i: "i < 512"
    and small: "\<not> (entry_present (pte s f i) \<and> entry_large (pte s f i))"
    and c: "c = 3 \<or> c = 7"
  shows "\<exists>r t. get_or_create_table s (table_virt s f) i c = Inr (r, t) \<and>
           tables_ok t root \<and> keeps s t \<and> tlb_flushes t = tlb_flushes s \<and> grows s t root \<and>
           (\<forall>w. translate t root w = translate s root w) \<and>
           (c = 7 \<longrightarrow> (\<forall>w. user_path s root w \<longrightarrow> user_path t root w)) \<and>
           card (free_pages s) \<le> card (free_pages t) + 1 \<and>
           (case r of None \<Rightarrow> free_pages s = {}
            | Some a \<Rightarrow> \<exists>g. a = table_virt t g \<and> in_tree t root (p @ [i]) g)"
proof (cases "entry_present (pte s f i)")
  case True
  then obtain g where g: "links_to (pte s f i) g"
    using in_tree_facts(5) [OF ok tree(1) i] tree(2) small by (auto simp: entry_ok_def)
  have "in_tree s root (p @ [i]) g"
    using tree i links_to_facts [OF g] by (simp add: in_tree_def table_at_snoc)
  moreover have "get_or_create_table s (table_virt s f) i c = Inr (Some (table_virt s g), s)"
    using True links_to_facts(7) [OF g]
    by (simp add: get_or_create_table_def present_iff pte_def [symmetric])
      (simp add: table_virt_def pte_def)
  ultimately show ?thesis
    using ok by auto
next
  case absent: False
  have mem: "memory_ok s"
    using ok by (simp add: tables_ok_def)
  show ?thesis
    using pmm_alloc_page_fresh [OF mem]
  proof (elim disjE exE conjE)
    fix g
    assume alloc: "pmm_alloc_page s =
        Inr (g * 4096, (bitmap_set_page s g)\<lparr>pmm_last_free_index := g div 64\<rparr>)"
      and g: "g < pmm_total_pages s" "\<not> used s g" and ne: "g * 4096 \<noteq> 0"
    define s1 where "s1 = (bitmap_set_page s g)\<lparr>pmm_last_free_index := g div 64\<rparr>"
    define s2 where "s2 = s1\<lparr>mem := memset (mem s1) (table_virt s g) 0 4096\<rparr>"
    define t where "t = set_entry s2 (table_virt s f) i (g * 4096 OR c)"
    note new = new_table_changed [OF ok tree i g c s1_def s2_def t_def]
    have gb: "unat g < 2 ^ 40"
      using mem g(1) by (auto simp: memory_ok_def word_less_nat_alt)
    note l = links_to_facts [OF link_ok(1) [OF gb c]]
    have "P2V s1 (g * 4096) = table_virt s g"
      by (simp add: s1_def table_virt_def P2V_def)
    then have run: "get_or_create_table s (table_virt s f) i c = Inr (Some (table_virt s g), t)"
      using absent alloc ne
      by (simp add: get_or_create_table_def present_iff pte_def [symmetric] PAGE_SIZE_def Let_def
          s1_def [symmetric] s2_def [symmetric] t_def)
    have at: "in_tree t root (p @ [i]) g"
      using at_path [OF ok new(1)] tree i l by (simp add: in_tree_def table_at_snoc)
    have "translate t root w = translate s root w" for w
      by (rule translate_new_link [OF ok new(1) l(1) tree(2) absent])
    moreover have "card (free_pages s) \<le> card (free_pages t) + 1"
      unfolding new(3) using card_Diff1_le [of "free_pages s" g]
      by (metis add.commute card.infinite card_Diff_singleton_if diff_le_self finite le_add2
          le_diff_conv order_refl)
    moreover have "tlb_flushes t = tlb_flushes s"
      by (simp add: t_def s2_def s1_def set_entry_def bitmap_set_page_def Let_def)
    moreover have "c = 7 \<longrightarrow> (\<forall>w. user_path s root w \<longrightarrow> user_path t root w)"
      using user_path_changed [OF ok new(1)] bit_link [OF gb c, of 2] bits_3_7 by simp
    ultimately show ?thesis
      using run at new(2,4) tables_ok_changed [OF ok new(1)] keeps_table_virt [OF new(2)]
      by (intro exI [of _ "Some (table_virt s g)"] exI [of _ t]) auto
  next
    assume "pmm_alloc_page s = Inr (0, s)" "free_pages s = {}"
    then show ?thesis
      using absent ok by (simp add: get_or_create_table_def present_iff pte_def [symmetric])
  qed
qed

section \<open>Mapping one page\<close>

definition large_mapped :: "'a pmm_scheme \<Rightarrow> u64 \<Rightarrow> u64 \<Rightarrow> bool" where
  "large_mapped s root v = (case translate s root v of None \<Rightarrow> False | Some tr \<Rightarrow> tr_large tr)"

lemma in_tree_root: "tables_ok s root \<Longrightarrow> in_tree s root [] root"
  by (simp add: in_tree_def)

lemma walk_links:
  assumes ok: "tables_ok s root" and "in_tree s root p f"
  shows "\<exists>es. walk s root (p @ q) = es @ walk s f q \<and> length es = length p \<and>
           (\<forall>e \<in> set es. \<exists>g. links_to e g)"
  using assms(2)
proof (induction p arbitrary: f q rule: rev_induct)
  case (snoc i p)
  then obtain h where h: "in_tree s root p h" "i < 512" "is_link (pte s h i)" "length p < 3"
    "entry_frame (pte s h i) = f"
    by (auto simp: in_tree_def table_at_snoc split: option.splits if_splits)
  have "\<exists>g. links_to (pte s h i) g"
    using in_tree_facts(5) [OF ok h(1,2)] h by (auto simp: entry_ok_def is_link_def)
  moreover obtain es where "walk s root (p @ i # q) = es @ walk s h (i # q)"
    "length es = length p" "\<forall>e \<in> set es. \<exists>g. links_to e g"
    using snoc.IH [OF h(1), of "i # q"] by blast
  ultimately show ?case
    using h by (intro exI [of _ "es @ [pte s h i]"]) auto
qed (simp add: in_tree_def)

lemma not_large_entry:
  assumes ok: "tables_ok s root" and tree: "in_tree s root p f" and v: "path v = p @ i # u"
    and small: "\<not> large_mapped s root v" and len: "length p < 3"
  shows "\<not> (entry_present (pte s f i) \<and> entry_large (pte s f i))"
proof
  assume e: "entry_present (pte s f i) \<and> entry_large (pte s f i)"
  have i: "i < 512"
    using path_indices(1) [of v] v by simp
  have n: "length p = 2"
    using in_tree_facts(5) [OF ok tree i] e len links_to_facts by (auto simp: entry_ok_def)
  obtain es where es: "walk s root (p @ i # u) = es @ walk s f (i # u)" "length es = length p"
    using walk_links [OF ok tree] by blast
  have "walk s f (i # u) = [pte s f i]"
    using e by (simp add: is_link_def)
  then have "large_mapped s root v"
    using es e n by (simp add: large_mapped_def translate_def v interpret_walk_def Let_def)
  then show False
    using small by simp
qed

text \<open>The translation that a last-level entry gives, under links the kernel wrote.\<close>

lemma translate_leaf:
  assumes ok: "tables_ok s root" and tree: "in_tree s root p f" and v: "path v = p @ [i]"
  shows "if entry_present (pte s f i)
         then \<exists>u. translate s root v = Some \<lparr>tr_phys = pte s f i AND 0x000FFFFFFFFFF000,
                tr_large = False, tr_writable = bit (pte s f i) 1, tr_user = u,
                tr_noexec = bit (pte s f i) 63\<rparr> \<and> (u \<longrightarrow> bit (pte s f i) 2)
         else translate s root v = None"
proof -
  obtain es where es: "walk s root (p @ [i]) = es @ walk s f [i]" "length es = length p"
    "\<forall>e \<in> set es. \<exists>g. links_to e g"
    using walk_links [OF ok tree] by blast
  have "length p + 1 = 4"
    using path_indices(2) [of v] by (simp only: v length_append list.size)
  then have "length es = 3"
    using es by simp
  moreover have "\<forall>e \<in> set es. bit e 1 \<and> \<not> bit e 63"
    using es(3) links_to_facts(4,5) by blast
  ultimately show ?thesis
    using es(1) by (auto simp: translate_def v interpret_walk_def Let_def)
qed

lemma leaf_phys:
  fixes a flags :: u64
  assumes "flags AND 0x000FFFFFFFFFF000 = 0" and "unat a < 2 ^ 52"
  shows "((a AND PAGE_FRAME_MASK) OR flags OR VMM_FLAG_PRESENT) AND 0x000FFFFFFFFFF000 =
           a AND PAGE_FRAME_MASK"
proof -
  have m: "(0x000FFFFFFFFFF000 :: u64) = mask 52 AND NOT (mask 12)"
    by (simp add: mask_eq_exp_minus_1)
  have "unat (take_bit 52 a) = unat a"
    using assms(2) by (simp add: unsigned_take_bit_eq take_bit_nat_eq_self)
  then have "take_bit 52 a = a"
    by (simp only: word_unat_eq_iff)
  then have a: "bit a k \<Longrightarrow> k < 52" for k
    by (metis bit_take_bit_iff)
  have fk: "bit (flags AND (mask 52 AND NOT (mask 12))) k = False" for k
    using assms(1) unfolding m by simp
  have f: "bit flags k \<Longrightarrow> k < 12 \<or> 52 \<le> k" for k
    using fk [of k] bit_imp_le_length [of flags k] by (auto simp: bit_simps not_less)
  have p: "PAGE_FRAME_MASK = NOT (mask 12)" "VMM_FLAG_PRESENT = mask 1"
    by (simp_all add: PAGE_FRAME_MASK_def VMM_FLAG_PRESENT_def mask_eq_exp_minus_1)
  show ?thesis
    unfolding m p by (rule bit_eqI) (use a f in \<open>fastforce simp: bit_simps\<close>)
qed

text \<open>The part that \<^verbatim>\<open>vmm_map_page\<close> and the 2 MiB branch share: a descent by one level.\<close>

definition descended ::
  "u64 \<Rightarrow> 'a pmm_scheme \<Rightarrow> 'a pmm_scheme \<Rightarrow> u64 \<Rightarrow> bool" where
  "descended c s t root \<longleftrightarrow> tables_ok t root \<and> keeps s t \<and> tlb_flushes t = tlb_flushes s \<and>
     grows s t root \<and> (\<forall>w. translate t root w = translate s root w) \<and>
     (c = 7 \<longrightarrow> (\<forall>w. user_path s root w \<longrightarrow> user_path t root w))"

lemma descended_trans: "descended c s t root \<Longrightarrow> descended c t u root \<Longrightarrow> descended c s u root"
  using keeps_trans grows_trans [of t root s u] by (auto simp: descended_def)

lemma descended_large: "descended c s t root \<Longrightarrow> large_mapped t root v = large_mapped s root v"
  by (simp add: descended_def large_mapped_def)

lemma descend:
  assumes ok: "tables_ok s root" and tree: "in_tree s root p f" "length p < 3"
    and v: "path v = p @ i # u" and small: "\<not> large_mapped s root v" and c: "c = 3 \<or> c = 7"
  shows "\<exists>r t. get_or_create_table s (table_virt s f) i c = Inr (r, t) \<and> descended c s t root \<and>
           card (free_pages s) \<le> card (free_pages t) + 1 \<and>
           (case r of None \<Rightarrow> free_pages s = {}
            | Some a \<Rightarrow> \<exists>g. a = table_virt t g \<and> in_tree t root (p @ [i]) g)"
proof -
  have "i < 512"
    using path_indices(1) [of v] v by simp
  then show ?thesis
    using get_or_create_spec [OF ok tree _ not_large_entry [OF ok tree(1) v small tree(2)] c]
    unfolding descended_def by blast
qed

lemma link_flags:
  "VMM_FLAG_PRESENT OR VMM_FLAG_WRITABLE OR VMM_FLAG_USER = 7"
  "VMM_FLAG_PRESENT OR VMM_FLAG_WRITABLE = 3" "(3 :: u64) OR VMM_FLAG_USER = 7"
  by (simp_all add: vmm_flags)

lemma get_tables:
  assumes ok: "tables_ok s root" and small: "\<not> large_mapped s root v"
  shows "\<exists>t. descended 7 s t root \<and>
    card (free_pages s) < 3 \<and> vmm_map_page s (table_virt s root) v a flags = Inr (False, t)
    \<or> (\<exists>f. descended 7 s t root \<and> card (free_pages s) \<le> card (free_pages t) + 3 \<and> in_tree t root [PML4_INDEX v, PDPT_INDEX v, PD_INDEX v] f \<and>
        vmm_map_page s (table_virt s root) v a flags = Inr (True,
          let s = set_entry t (table_virt t f) (PT_INDEX v)
                    ((a AND PAGE_FRAME_MASK) OR flags OR VMM_FLAG_PRESENT)
          in if V2P s (table_virt s root) = get_current_cr3 s then flush_tlb s v else s))"
proof -
  have c: "(7 :: u64) = 3 \<or> (7 :: u64) = 7"
    by simp
  obtain r1 s1 where 1: "get_or_create_table s (table_virt s root) (PML4_INDEX v) 7 = Inr (r1, s1)"
    "descended 7 s s1 root" "card (free_pages s) \<le> card (free_pages s1) + 1"
    "case r1 of None \<Rightarrow> free_pages s = {}
       | Some a \<Rightarrow> \<exists>g. a = table_virt s1 g \<and> in_tree s1 root [PML4_INDEX v] g"
    using descend [OF ok in_tree_root [OF ok] _ _ small c, of "PML4_INDEX v", unfolded append.simps]
    by (auto simp: path_def)
  show ?thesis
  proof (cases r1)
    case None
    then show ?thesis
      using 1 by (intro exI [of _ s1]) (simp add: vmm_map_page_def Let_def link_flags)
  next
    case (Some a1)
    then obtain f1 where f1: "a1 = table_virt s1 f1" "in_tree s1 root [PML4_INDEX v] f1"
      using 1(4) by auto
    have ok1: "tables_ok s1 root" and small1: "\<not> large_mapped s1 root v"
      using 1(2) small descended_large [OF 1(2)] by (auto simp: descended_def)
    obtain r2 s2 where 2: "get_or_create_table s1 a1 (PDPT_INDEX v) 7 = Inr (r2, s2)"
      "descended 7 s1 s2 root" "card (free_pages s1) \<le> card (free_pages s2) + 1"
      "case r2 of None \<Rightarrow> free_pages s1 = {}
         | Some a \<Rightarrow> \<exists>g. a = table_virt s2 g \<and> in_tree s2 root [PML4_INDEX v, PDPT_INDEX v] g"
      using descend [OF ok1 f1(2) _ _ small1 c, of "PDPT_INDEX v", unfolded append.simps]
      by (auto simp: path_def f1(1))
    have d2: "descended 7 s s2 root"
      using 1(2) 2(2) descended_trans by blast
    show ?thesis
    proof (cases r2)
      case None
      then show ?thesis
        using 1 2 Some d2
        by (intro exI [of _ s2]) (simp add: vmm_map_page_def Let_def link_flags)
    next
      case Some2: (Some a2)
      then obtain f2 where f2: "a2 = table_virt s2 f2"
        "in_tree s2 root [PML4_INDEX v, PDPT_INDEX v] f2"
        using 2(4) by auto
      have ok2: "tables_ok s2 root" and small2: "\<not> large_mapped s2 root v"
        using d2 small descended_large [OF d2] by (auto simp: descended_def)
      obtain r3 s3 where 3: "get_or_create_table s2 a2 (PD_INDEX v) 7 = Inr (r3, s3)"
        "descended 7 s2 s3 root" "card (free_pages s2) \<le> card (free_pages s3) + 1" "case r3 of None \<Rightarrow> free_pages s2 = {}
           | Some a \<Rightarrow> \<exists>g. a = table_virt s3 g \<and>
               in_tree s3 root [PML4_INDEX v, PDPT_INDEX v, PD_INDEX v] g"
        using descend [OF ok2 f2(2) _ _ small2 c, of "PD_INDEX v", unfolded append.simps]
        by (auto simp: path_def f2(1))
      have d3: "descended 7 s s3 root"
        using d2 3(2) descended_trans by blast
      have tv3: "table_virt s root = table_virt s3 root"
        using d3 keeps_table_virt [of s s3] by (simp add: descended_def)
      show ?thesis
      proof (cases r3)
        case None
        then show ?thesis
          using 1 2 3 Some Some2 d3
          by (intro exI [of _ s3]) (simp add: vmm_map_page_def Let_def link_flags)
      next
        case Some3: (Some a3)
        then obtain f3 where f3: "a3 = table_virt s3 f3"
          "in_tree s3 root [PML4_INDEX v, PDPT_INDEX v, PD_INDEX v] f3"
          using 3(4) by auto
        then show ?thesis
          using 1 2 3 Some Some2 Some3 d3 tv3
          by (intro exI [of _ s3])
            (auto simp: vmm_map_page_def Let_def link_flags intro!: exI [of _ f3])
      qed
    qed
  qed
qed

lemma V2P_table_virt: "V2P s (table_virt s root) = root * 4096"
  by (simp add: V2P_def table_virt_def P2V_def)

lemma walk_flush: "walk (s\<lparr>tlb_flushes := l\<rparr>) f q = walk s f q"
  "table_at (s\<lparr>tlb_flushes := l\<rparr>) f q = table_at s f q"
  using walk_cong [of q s f "s\<lparr>tlb_flushes := l\<rparr>"] by simp_all

lemma user_path_flush: "user_path (s\<lparr>tlb_flushes := l\<rparr>) root v = user_path s root v"
  unfolding user_path_def by (rule user_links_cong) simp

lemma translate_flush: "translate (s\<lparr>tlb_flushes := l\<rparr>) root v = translate s root v"
  by (simp add: translate_def walk_flush)

lemma tables_ok_flush: "tables_ok (s\<lparr>tlb_flushes := l\<rparr>) root = tables_ok s root"
proof -
  have "used (s\<lparr>tlb_flushes := l\<rparr>) x = used s x" for x
    by (rule used_mem_cong) simp_all
  moreover have "bitmap_frames (s\<lparr>tlb_flushes := l\<rparr>) = bitmap_frames s"
    by (simp add: bitmap_frames_def frame_at_def)
  ultimately show ?thesis
    by (simp add: tables_ok_def memory_ok_def in_tree_def walk_flush pmm_sized_def)
qed

lemma vmm_map_page_spec:
  fixes s :: "'a pmm_scheme"
  assumes ok: "tables_ok s root" and small: "\<not> large_mapped s root v"
    and flags: "flags AND 0x000FFFFFFFFFF000 = 0" and a: "unat a < 2 ^ 52"
  shows "\<exists>success (t :: 'a pmm_scheme). vmm_map_page s (table_virt s root) v a flags = Inr (success, t) \<and>
    tables_ok t root \<and> keeps s t \<and> grows s t root \<and>
    (\<forall>w. path w \<noteq> path v \<longrightarrow> translate t root w = translate s root w) \<and>
    (\<forall>w. user_path s root w \<longrightarrow> user_path t root w) \<and>
    (if success then
       tlb_flushes t = tlb_flushes s @ (if root * 4096 = cr3 s then [v] else []) \<and>
       card (free_pages s) \<le> card (free_pages t) + 3 \<and>
       (\<exists>u. translate t root v = Some \<lparr>tr_phys = a AND PAGE_FRAME_MASK, tr_large = False,
          tr_writable = bit flags 1, tr_user = u, tr_noexec = bit flags 63\<rparr> \<and>
          (u \<longrightarrow> bit flags 2) \<and> (bit flags 2 \<and> user_path s root v \<longrightarrow> u))
     else card (free_pages s) < 3 \<and> translate t root v = translate s root v)"
  using get_tables [OF ok small, of a flags]
proof (elim exE disjE conjE)
  fix t
  assume "descended 7 s t root" "card (free_pages s) < 3"
    "vmm_map_page s (table_virt s root) v a flags = Inr (False, t)"
  then show ?thesis
    by (intro exI [of _ False] exI [of _ t]) (auto simp: descended_def)
next
  fix t :: "'a pmm_scheme" and f
  let ?p = "[PML4_INDEX v, PDPT_INDEX v, PD_INDEX v]" and ?i = "PT_INDEX v"
  let ?e = "(a AND PAGE_FRAME_MASK) OR flags OR VMM_FLAG_PRESENT"
  define t1 where "t1 = set_entry t (table_virt t f) ?i ?e"
  assume d: "descended 7 s t root" and cd: "card (free_pages s) \<le> card (free_pages t) + 3"
    and tree: "in_tree t root ?p f"
    and run: "vmm_map_page s (table_virt s root) v a flags = Inr (True,
          let s = set_entry t (table_virt t f) (PT_INDEX v) ?e
          in if V2P s (table_virt s root) = get_current_cr3 s then flush_tlb s v else s)"
  have okt: "tables_ok t root"
    using d by (simp add: descended_def)
  have ch: "entry_changed t t1 root ?p f ?i ?e {}"
    unfolding t1_def by (rule set_entry_changed [OF okt tree]) (simp_all add: index_less entry_ok_def)
  have ok1: "tables_ok t1 root"
    by (rule tables_ok_changed [OF okt ch])
  have path: "path v = ?p @ [?i]"
    by (simp add: path_def)
  have tree1: "in_tree t1 root ?p f" and e: "pte t1 f ?i = ?e"
    using at_path [OF okt ch] by (simp_all add: in_tree_def)
  have bits: "entry_present ?e" "bit ?e 1 = bit flags 1" "bit ?e 2 = bit flags 2"
    "bit ?e 63 = bit flags 63"
  proof -
    have m: "PAGE_FRAME_MASK = NOT (mask 12)" "VMM_FLAG_PRESENT = mask 1"
      by (simp_all add: PAGE_FRAME_MASK_def VMM_FLAG_PRESENT_def mask_eq_exp_minus_1)
    have "unat (take_bit 52 a) = unat a"
      using a by (simp add: unsigned_take_bit_eq take_bit_nat_eq_self)
    then have t: "take_bit 52 a = a"
      by (simp only: word_unat_eq_iff)
    have "\<not> bit (take_bit 52 a) 63"
      by (simp add: bit_take_bit_iff)
    then have "\<not> bit a 63"
      by (simp only: t not_False_eq_True)
    then show "entry_present ?e" "bit ?e 1 = bit flags 1" "bit ?e 2 = bit flags 2"
      "bit ?e 63 = bit flags 63"
      unfolding m entry_present_def by (simp_all add: bit_simps)
  qed
  have user: "user_path t1 root w" if "user_path s root w" for w
    using user_path_changed [OF okt ch] d that by (simp add: descended_def)
  have granted: "user_access t1 root v" if "bit flags 2" "user_path s root v"
    using user_access_entry [of t1 root ?p f v ?i "[]"] tree1 user [OF that(2)] that(1) bits path e
    by (simp add: user_path_def in_tree_def)
  have tr: "\<exists>u. translate t1 root v = Some \<lparr>tr_phys = a AND PAGE_FRAME_MASK, tr_large = False,
      tr_writable = bit flags 1, tr_user = u, tr_noexec = bit flags 63\<rparr> \<and> (u \<longrightarrow> bit flags 2) \<and>
      (bit flags 2 \<and> user_path s root v \<longrightarrow> u)"
    using translate_leaf [OF ok1 tree1 path] bits leaf_phys [OF flags a] granted
    by (auto simp: e user_access_def)
  have other: "translate t1 root w = translate s root w" if "path w \<noteq> path v" for w
  proof -
    have "\<not> (\<exists>u. path w = ?p @ ?i # u)"
      using that by (auto simp: path_def)
    then have "translate t1 root w = translate t root w"
      by (rule translate_elsewhere [OF okt ch])
    then show ?thesis
      using d by (simp add: descended_def)
  qed
  have vr: "V2P t1 (table_virt t1 root) = root * 4096" and cr: "get_current_cr3 t1 = cr3 s"
    using d by (simp_all add: t1_def V2P_def table_virt_def P2V_def descended_def keeps_def
        set_entry_def get_current_cr3_def)
  define l where "l = tlb_flushes s @ (if root * 4096 = cr3 s then [v] else [])"
  have "(if V2P t1 (table_virt t1 root) = get_current_cr3 t1 then flush_tlb t1 v else t1) =
      t1\<lparr>tlb_flushes := l\<rparr>"
    using d unfolding vr cr by (simp add: l_def flush_tlb_def t1_def set_entry_def descended_def)
  then have "vmm_map_page s (table_virt s root) v a flags = Inr (True, t1\<lparr>tlb_flushes := l\<rparr>)"
    using run unfolding Let_def t1_def [symmetric] by (simp only:)
  moreover have "keeps s t1"
    using d by (simp add: t1_def descended_def)
  moreover have "grows t t1 root"
    unfolding t1_def by (rule set_entry_grows [OF okt tree]) (simp_all add: index_less entry_ok_def)
  then have "grows s t1 root"
    using d grows_trans [OF okt] by (simp add: descended_def)
  moreover have "free_pages (t1\<lparr>tlb_flushes := l\<rparr>) = free_pages t"
    using free_pages_changed [OF ch] by (simp add: free_pages_def used_def)
  ultimately show ?thesis
    using tr other ok1 cd user
    by (intro exI [of _ True] exI [of _ "t1\<lparr>tlb_flushes := l\<rparr>"])
      (simp add: translate_flush tables_ok_flush user_path_flush grows_flush l_def)
qed

text \<open>
  C2. Mapping a page that is not covered by a large page: on success the processor translates
  the address to the requested frame with the requested rights (user access never if it was not
  requested, and if it was, unless a table that was there before denies it) and every other page keeps its translation; on failure, which needs
  fewer than three free pages, no translation changes. The tables stay a tree of their own
  frames, and the TLB entry is flushed when the tables are the active ones.
\<close>

theorem vmm_map_page_correct:
  fixes s :: "'a pmm_scheme"
  assumes ok: "tables_ok s root" and small: "\<not> large_mapped s root v"
    and flags: "flags AND 0x000FFFFFFFFFF000 = 0" and a: "unat a < 2 ^ 52"
  shows "\<exists>success (t :: 'a pmm_scheme). vmm_map_page s (table_virt s root) v a flags = Inr (success, t) \<and>
    tables_ok t root \<and> keeps s t \<and>
    (\<forall>w. path w \<noteq> path v \<longrightarrow> translate t root w = translate s root w) \<and>
    (if success then
       tlb_flushes t = tlb_flushes s @ (if root * 4096 = cr3 s then [v] else []) \<and>
       card (free_pages s) \<le> card (free_pages t) + 3 \<and>
       (\<exists>u. translate t root v = Some \<lparr>tr_phys = a AND PAGE_FRAME_MASK, tr_large = False,
          tr_writable = bit flags 1, tr_user = u, tr_noexec = bit flags 63\<rparr> \<and>
          (u \<longrightarrow> bit flags 2) \<and> (bit flags 2 \<and> user_path s root v \<longrightarrow> u))
     else card (free_pages s) < 3 \<and> translate t root v = translate s root v)"
  using vmm_map_page_spec [OF assms] by blast

section \<open>Removing a mapping\<close>

text \<open>
  The descent of \<^verbatim>\<open>vmm_unmap_page\<close>: an absent entry ends it, a present one leads to the
  next table.
\<close>

lemma follow_link:
  assumes ok: "tables_ok s root" and tree: "in_tree s root p f" and v: "path v = p @ i # u"
    and small: "\<not> large_mapped s root v" and len: "length p < 3"
  shows "if entry_present (pte s f i)
         then \<exists>g. in_tree s root (p @ [i]) g \<and>
           P2V s (pte s f i AND PAGE_FRAME_MASK) = table_virt s g
         else translate s root v = None"
proof (cases "entry_present (pte s f i)")
  case True
  have i: "i < 512"
    using path_indices(1) [of v] v by simp
  then obtain g where g: "links_to (pte s f i) g"
    using in_tree_facts(5) [OF ok tree i] True not_large_entry [OF ok tree v small len] len
    by (auto simp: entry_ok_def)
  then have "in_tree s root (p @ [i]) g"
    using tree i len links_to_facts [OF g] by (simp add: in_tree_def table_at_snoc)
  then show ?thesis
    using True links_to_facts(7) [OF g] by (auto simp: table_virt_def)
next
  case False
  obtain es where "walk s root (p @ i # u) = es @ walk s f (i # u)"
    using walk_links [OF ok tree] by blast
  then have "last (walk s root (path v)) = pte s f i"
    using False by (simp add: v is_link_def)
  then show ?thesis
    using False by (simp add: translate_def interpret_walk_def)
qed

lemma absent_iff: "e AND VMM_FLAG_PRESENT = 0 \<longleftrightarrow> \<not> entry_present e"
  using present_iff [of e] by blast

lemma unmap_cases:
  assumes ok: "tables_ok s root" and small: "\<not> large_mapped s root v"
  shows "translate s root v = None \<and> vmm_unmap_page s (table_virt s root) v = (False, s) \<or>
    (\<exists>f. in_tree s root [PML4_INDEX v, PDPT_INDEX v, PD_INDEX v] f \<and>
       entry_present (pte s f (PT_INDEX v)) \<and>
       vmm_unmap_page s (table_virt s root) v = (True,
         let t = set_entry s (table_virt s f) (PT_INDEX v) 0
         in if V2P t (table_virt s root) = get_current_cr3 t then flush_tlb t v else t))"
proof -
  note defs = vmm_unmap_page_def Let_def absent_iff pte_def [symmetric]
  have p: "path v = [] @ PML4_INDEX v # [PDPT_INDEX v, PD_INDEX v, PT_INDEX v]"
    "path v = [PML4_INDEX v] @ PDPT_INDEX v # [PD_INDEX v, PT_INDEX v]"
    "path v = [PML4_INDEX v, PDPT_INDEX v] @ PD_INDEX v # [PT_INDEX v]"
    "path v = [PML4_INDEX v, PDPT_INDEX v, PD_INDEX v] @ [PT_INDEX v]"
    by (simp_all add: path_def)
  note 0 = follow_link [OF ok in_tree_root [OF ok] p(1) small, unfolded append.simps]
  show ?thesis
  proof (cases "entry_present (pte s root (PML4_INDEX v))")
    case True
    then obtain f1 where f1: "in_tree s root [PML4_INDEX v] f1"
      "P2V s (pte s root (PML4_INDEX v) AND PAGE_FRAME_MASK) = table_virt s f1"
      using 0 by auto
    note 1 = follow_link [OF ok f1(1) p(2) small, unfolded append.simps]
    show ?thesis
    proof (cases "entry_present (pte s f1 (PDPT_INDEX v))")
      case True1: True
      then obtain f2 where f2: "in_tree s root [PML4_INDEX v, PDPT_INDEX v] f2"
        "P2V s (pte s f1 (PDPT_INDEX v) AND PAGE_FRAME_MASK) = table_virt s f2"
        using 1 by auto
      note 2 = follow_link [OF ok f2(1) p(3) small, unfolded append.simps]
      show ?thesis
      proof (cases "entry_present (pte s f2 (PD_INDEX v))")
        case True2: True
        then obtain f3 where f3: "in_tree s root [PML4_INDEX v, PDPT_INDEX v, PD_INDEX v] f3"
          "P2V s (pte s f2 (PD_INDEX v) AND PAGE_FRAME_MASK) = table_virt s f3"
          using 2 by auto
        show ?thesis
          using True True1 True2 f1 f2 f3 translate_leaf [OF ok f3(1) p(4)]
          by (auto simp: defs split: if_splits)
      qed (use 2 True True1 f1 f2 in \<open>simp add: defs\<close>)
    qed (use 1 True f1 in \<open>simp add: defs\<close>)
  qed (use 0 in \<open>simp add: defs\<close>)
qed

text \<open>
  C8. Unmapping succeeds exactly for a mapped page; afterwards the page has no translation,
  every other page keeps its own, and no frame was freed or taken. The TLB entry of a page that
  was mapped is flushed when the tables are the active ones, and nothing else is.
\<close>

theorem vmm_unmap_page_correct:
  assumes ok: "tables_ok s root" and small: "\<not> large_mapped s root v"
  shows "\<exists>success t. vmm_unmap_page s (table_virt s root) v = (success, t) \<and>
    tables_ok t root \<and> keeps s t \<and> (success \<longleftrightarrow> translate s root v \<noteq> None) \<and>
    translate t root v = None \<and> free_pages t = free_pages s \<and>
    tlb_flushes t = tlb_flushes s @ (if success \<and> root * 4096 = cr3 s then [v] else []) \<and>
    (\<forall>w. path w \<noteq> path v \<longrightarrow> translate t root w = translate s root w)"
  using unmap_cases [OF ok small]
proof (elim disjE exE conjE)
  assume "translate s root v = None" "vmm_unmap_page s (table_virt s root) v = (False, s)"
  then show ?thesis
    using ok by (intro exI [of _ False] exI [of _ s]) simp
next
  fix f
  let ?p = "[PML4_INDEX v, PDPT_INDEX v, PD_INDEX v]" and ?i = "PT_INDEX v"
  define t where "t = set_entry s (table_virt s f) ?i 0"
  define l where "l = tlb_flushes s @ (if root * 4096 = cr3 s then [v] else [])"
  assume tree: "in_tree s root ?p f" and present: "entry_present (pte s f ?i)"
    and run: "vmm_unmap_page s (table_virt s root) v = (True,
         let t = set_entry s (table_virt s f) ?i 0
         in if V2P t (table_virt s root) = get_current_cr3 t then flush_tlb t v else t)"
  have path: "path v = ?p @ [?i]"
    by (simp add: path_def)
  have ch: "entry_changed s t root ?p f ?i 0 {}"
    unfolding t_def
    by (rule set_entry_changed [OF ok tree]) (simp_all add: index_less zero_not_link)
  have okt: "tables_ok t root"
    by (rule tables_ok_changed [OF ok ch])
  have treet: "in_tree t root ?p f" and e: "pte t f ?i = 0"
    using at_path [OF ok ch] by (simp_all add: in_tree_def)
  have none: "translate t root v = None"
    using translate_leaf [OF okt treet path] by (simp add: e zero_not_link)
  have some: "translate s root v \<noteq> None"
    using translate_leaf [OF ok tree path] present by auto
  have other: "translate t root w = translate s root w" if "path w \<noteq> path v" for w
    by (rule translate_elsewhere [OF ok ch]) (use that in \<open>auto simp: path_def\<close>)
  have eq: "(if V2P t (table_virt s root) = get_current_cr3 t then flush_tlb t v else t) =
      t\<lparr>tlb_flushes := l\<rparr>"
    by (simp add: l_def flush_tlb_def t_def set_entry_def V2P_def table_virt_def P2V_def
        get_current_cr3_def)
  have "vmm_unmap_page s (table_virt s root) v = (True, t\<lparr>tlb_flushes := l\<rparr>)"
    using run unfolding Let_def t_def [symmetric] eq .
  moreover have "keeps s t"
    by (simp add: t_def)
  moreover have "free_pages (t\<lparr>tlb_flushes := l\<rparr>) = free_pages s"
    using free_pages_changed [OF ch] by (simp add: free_pages_def used_def)
  ultimately show ?thesis
    using some none other okt
    by (intro exI [of _ True] exI [of _ "t\<lparr>tlb_flushes := l\<rparr>"])
      (simp add: translate_flush tables_ok_flush l_def)
qed

section \<open>Large pages in the way\<close>

text \<open>
  Neither operation looks at the large-page bit, so under a large page both take the page
  itself for a table.
\<close>

lemma large_mapped_tables:
  assumes ok: "tables_ok s root" and large: "large_mapped s root v"
  shows "\<exists>f1 f2. in_tree s root [PML4_INDEX v] f1 \<and> in_tree s root [PML4_INDEX v, PDPT_INDEX v] f2 \<and>
    links_to (pte s root (PML4_INDEX v)) f1 \<and> links_to (pte s f1 (PDPT_INDEX v)) f2 \<and>
    entry_present (pte s f2 (PD_INDEX v)) \<and> entry_large (pte s f2 (PD_INDEX v)) \<and>
    last (walk s root (path v)) = pte s f2 (PD_INDEX v)"
proof -
  let ?e0 = "pte s root (PML4_INDEX v)"
  have large': "\<exists>tr. interpret_walk (walk s root (path v)) v = Some tr \<and> tr_large tr"
    using large by (auto simp: large_mapped_def translate_def split: option.splits)
  note r = in_tree_root [OF ok]
  have l0: "is_link ?e0"
    using large' by (auto simp: path_def interpret_walk_def Let_def is_link_def split: if_splits)
  then obtain f1 where f1: "links_to ?e0 f1"
    using in_tree_facts(5) [OF ok r index_less(1) [of v]]
    by (auto simp: entry_ok_def is_link_def)
  then have t1: "in_tree s root [PML4_INDEX v] f1"
    using links_to_facts [OF f1] by (simp add: in_tree_def index_less)
  let ?e1 = "pte s f1 (PDPT_INDEX v)"
  have e1: "entry_present ?e1"
    using large' links_to_facts [OF f1]
    by (auto simp: path_def interpret_walk_def Let_def is_link_def split: if_splits)
  then obtain f2 where f2: "links_to ?e1 f2"
    using in_tree_facts(5) [OF ok t1 index_less(2) [of v]] by (auto simp: entry_ok_def)
  then have t2: "in_tree s root [PML4_INDEX v, PDPT_INDEX v] f2"
    using links_to_facts [OF f1] links_to_facts [OF f2] by (simp add: in_tree_def index_less)
  let ?e2 = "pte s f2 (PD_INDEX v)"
  have e2: "entry_present ?e2 \<and> entry_large ?e2"
    using large' links_to_facts [OF f1] links_to_facts [OF f2]
    by (auto simp: path_def interpret_walk_def Let_def is_link_def split: if_splits)
  then have "last (walk s root (path v)) = ?e2"
    using links_to_facts [OF f1] links_to_facts [OF f2] by (simp add: path_def is_link_def)
  then show ?thesis
    using t1 t2 f1 f2 e2 by blast
qed

text \<open>
  Mapping a page under a large page reports success, but the page table entry is written
  into the memory of the large page: the eight bytes at the page table index within the frame
  that the large page maps.
\<close>

theorem vmm_map_page_overwrites_large_page:
  assumes "tables_ok s root" and "large_mapped s root v"
  shows "\<exists>t. vmm_map_page s (table_virt s root) v a flags = Inr (True, t) \<and>
    mem t = wr64 (mem s)
      (P2V s (last (walk s root (path v)) AND PAGE_FRAME_MASK) + 8 * PT_INDEX v)
      ((a AND PAGE_FRAME_MASK) OR flags OR VMM_FLAG_PRESENT)"
proof -
  obtain f1 f2 where f: "links_to (pte s root (PML4_INDEX v)) f1"
    "links_to (pte s f1 (PDPT_INDEX v)) f2" "entry_present (pte s f2 (PD_INDEX v))"
    and l: "last (walk s root (path v)) = pte s f2 (PD_INDEX v)"
    using large_mapped_tables [OF assms] by blast
  have got: "get_or_create_table s (table_virt s h) i c =
      Inr (Some (P2V s (pte s h i AND PAGE_FRAME_MASK)), s)" if "entry_present (pte s h i)" for h i c
    using that by (simp add: get_or_create_table_def present_iff pte_def)
  have next_tables: "P2V s (pte s root (PML4_INDEX v) AND PAGE_FRAME_MASK) = table_virt s f1"
    "P2V s (pte s f1 (PDPT_INDEX v) AND PAGE_FRAME_MASK) = table_virt s f2"
    using links_to_facts(7) f(1,2) by (simp_all add: table_virt_def)
  show ?thesis
    using got [of root "PML4_INDEX v"] got [of f1 "PDPT_INDEX v"] got [OF f(3)]
      links_to_facts(2) f(1,2)
    by (simp add: vmm_map_page_def Let_def next_tables l set_entry_def flush_tlb_def)
qed

section \<open>Mapping a range\<close>

text \<open>The path of an address is its page number, in the 36 bits that are translated.\<close>

definition page_no :: "u64 \<Rightarrow> nat" where
  "page_no v = unat v div 4096 mod 2 ^ 36"

lemma unat_index:
  "unat (PML4_INDEX v) = unat v div 2 ^ 39 mod 512" "unat (PDPT_INDEX v) = unat v div 2 ^ 30 mod 512"
  "unat (PD_INDEX v) = unat v div 2 ^ 21 mod 512" "unat (PT_INDEX v) = unat v div 2 ^ 12 mod 512"
proof -
  have "unat (drop_bit k v AND 0x1FF) = unat v div 2 ^ k mod 512" for k
  proof -
    have "(0x1FF :: u64) = mask 9"
      by (simp add: mask_eq_exp_minus_1)
    then show ?thesis
      using unat_and_mask [of "drop_bit k v" 9]
      by (simp only: unat_drop_bit_eq drop_bit_eq_div [of k "unat v"]) simp
  qed
  then show "unat (PML4_INDEX v) = unat v div 2 ^ 39 mod 512"
    "unat (PDPT_INDEX v) = unat v div 2 ^ 30 mod 512"
    "unat (PD_INDEX v) = unat v div 2 ^ 21 mod 512" "unat (PT_INDEX v) = unat v div 2 ^ 12 mod 512"
    unfolding PML4_INDEX_def PDPT_INDEX_def PD_INDEX_def PT_INDEX_def by blast+
qed

lemma radix512:
  fixes x y :: nat
  shows "x mod (512 * m) = y mod (512 * m) \<longleftrightarrow> x mod 512 = y mod 512 \<and> x div 512 mod m = y div 512 mod m"
proof -
  have "z mod (512 * m) = 512 * (z div 512 mod m) + z mod 512" for z :: nat
    by (rule mod_mult2_eq)
  moreover have "z mod 512 < 512" for z :: nat
    by simp
  ultimately show ?thesis
    by (metis digits512)
qed

lemma directory_path_iff:
  "PML4_INDEX w = PML4_INDEX v \<and> PDPT_INDEX w = PDPT_INDEX v \<and> PD_INDEX w = PD_INDEX v \<longleftrightarrow>
     page_no w div 512 = page_no v div 512"
proof -
  have d: "page_no x div 512 = unat x div 2 ^ 21 mod 2 ^ 27" for x
  proof -
    have "page_no x div 512 = unat x div 4096 mod (512 * 2 ^ 27) div 512"
      by (simp add: page_no_def)
    also have "\<dots> = unat x div 4096 div 512 mod 2 ^ 27"
      by (simp only: mod_mult2_eq)
    finally show ?thesis
      by (simp add: div_mult2_eq [symmetric])
  qed
  define X where "X = unat w div 2 ^ 21"
  define Y where "Y = unat v div 2 ^ 21"
  have i: "PD_INDEX w = PD_INDEX v \<longleftrightarrow> X mod 512 = Y mod 512"
    "PDPT_INDEX w = PDPT_INDEX v \<longleftrightarrow> X div 512 mod 512 = Y div 512 mod 512"
    "PML4_INDEX w = PML4_INDEX v \<longleftrightarrow> X div 512 div 512 mod 512 = Y div 512 div 512 mod 512"
    by (simp_all add: word_unat_eq_iff unat_index X_def Y_def div_mult2_eq [symmetric])
  have "X mod 2 ^ 27 = Y mod 2 ^ 27 \<longleftrightarrow> X mod 512 = Y mod 512 \<and>
      X div 512 mod 512 = Y div 512 mod 512 \<and>
      X div 512 div 512 mod 512 = Y div 512 div 512 mod 512"
    using radix512 [of X "512 * 512" Y] radix512 [of "X div 512" 512 "Y div 512"] by simp
  then show ?thesis
    unfolding i d X_def [symmetric] Y_def [symmetric] by blast
qed

lemma path_eq_iff: "path w = path v \<longleftrightarrow> page_no w = page_no v"
proof -
  have m: "PT_INDEX w = PT_INDEX v \<longleftrightarrow> page_no w mod 512 = page_no v mod 512"
  proof -
    have "page_no x mod 512 = unat x div 4096 mod 512" for x
      unfolding page_no_def by (rule mod_mod_cancel) simp
    then show ?thesis
      by (simp add: word_unat_eq_iff unat_index)
  qed
  have "path w = path v \<longleftrightarrow> (PML4_INDEX w = PML4_INDEX v \<and> PDPT_INDEX w = PDPT_INDEX v \<and>
      PD_INDEX w = PD_INDEX v) \<and> PT_INDEX w = PT_INDEX v"
    by (auto simp: path_def)
  also have "\<dots> \<longleftrightarrow> page_no w div 512 = page_no v div 512 \<and> page_no w mod 512 = page_no v mod 512"
    unfolding directory_path_iff m ..
  also have "\<dots> \<longleftrightarrow> page_no w = page_no v"
    by (metis div_mult_mod_eq)
  finally show ?thesis .
qed

definition page_at :: "u64 \<Rightarrow> nat \<Rightarrow> u64" where
  "page_at v k = v + of_nat (4096 * k)"

definition pages_from :: "u64 \<Rightarrow> nat \<Rightarrow> nat set" where
  "pages_from v n = {page_no (page_at v k) | k. k < n}"

definition mapped_as :: "'a pmm_scheme \<Rightarrow> u64 \<Rightarrow> u64 \<Rightarrow> u64 \<Rightarrow> u64 \<Rightarrow> bool" where
  "mapped_as t root w a flags \<longleftrightarrow>
     (\<exists>l u. translate t root w = Some \<lparr>tr_phys = a, tr_large = l, tr_writable = bit flags 1,
        tr_user = u, tr_noexec = bit flags 63\<rparr> \<and> (u \<longrightarrow> bit flags 2))"

lemma page_at_0 [simp]: "page_at v 0 = v"
  by (simp add: page_at_def)

lemma page_at_add: "page_at (page_at v m) k = page_at v (m + k)"
  by (simp add: page_at_def algebra_simps)

lemma unat_page_at:
  assumes "unat v + 4096 * k < 2 ^ 64"
  shows "unat (page_at v k) = unat v + 4096 * k"
proof -
  have "unat (of_nat (4096 * k) :: u64) = 4096 * k"
    unfolding unat_of_nat using assms by simp
  then show ?thesis
    using assms unfolding page_at_def by (subst unat_add_no_overflow) simp_all
qed

lemma page_no_page_at:
  assumes "unat v + 4096 * k < 2 ^ 64"
  shows "page_no (page_at v k) = (unat v div 4096 + k) mod 2 ^ 36"
  unfolding page_no_def unat_page_at [OF assms] by (simp add: add.commute)

lemma mod_window_inj:
  fixes x j k m :: nat
  assumes "(x + j) mod m = (x + k) mod m" and "j < m" "k < m"
  shows "j = k"
proof -
  have le: "j = k" if "(x + j) mod m = (x + k) mod m" "k < m" "j \<le> k" for j k
  proof -
    have "m dvd k - j"
      using mod_eq_dvd_iff_nat [of "x + j" "x + k" m] that by simp
    then have "k - j = 0"
      using that(2) dvd_imp_le [of m "k - j"] by linarith
    then show ?thesis
      using that(3) by simp
  qed
  show ?thesis
    using le [of j k] le [of k j] assms by linarith
qed

lemma pages_from_append:
  "pages_from v (m + n) = pages_from v m \<union> pages_from (page_at v m) n"
proof -
  have "k < m + n \<Longrightarrow> k < m \<or> (\<exists>j < n. k = m + j)" for k
    by presburger
  then show ?thesis
    by (fastforce simp: pages_from_def page_at_add)
qed

text \<open>What mapping \<open>n\<close> pages promises, and that two such steps compose.\<close>

definition maps_range ::
  "'a pmm_scheme \<Rightarrow> 'a pmm_scheme \<Rightarrow> u64 \<Rightarrow> u64 \<Rightarrow> u64 \<Rightarrow> nat \<Rightarrow> u64 \<Rightarrow> bool \<Rightarrow> bool" where
  "maps_range s t root v a n flags success \<longleftrightarrow> tables_ok t root \<and> keeps s t \<and> grows s t root \<and>
     (\<forall>w. page_no w \<notin> pages_from v n \<longrightarrow> translate t root w = translate s root w) \<and>
     (success \<longrightarrow> (\<forall>k < n. mapped_as t root (page_at v k) (page_at a k) flags)) \<and>
     (bit flags 2 \<longrightarrow> (\<forall>w. page_no w \<notin> pages_from v n \<longrightarrow> user_path s root w \<longrightarrow> user_path t root w)) \<and>
     (success \<and> bit flags 2 \<longrightarrow>
        (\<forall>k < n. user_path s root (page_at v k) \<longrightarrow> user_access t root (page_at v k)))"

text \<open>Pages of one range are different.\<close>

lemma page_no_inj:
  assumes "unat v + 4096 * n < 2 ^ 64" and "n \<le> 2 ^ 36" and "j < n" "k < n"
    and "page_no (page_at v j) = page_no (page_at v k)"
  shows "j = k"
proof -
  have "unat v + 4096 * j < 2 ^ 64" "unat v + 4096 * k < 2 ^ 64"
    using assms(1,3,4) by simp_all
  from page_no_page_at [OF this(1)] page_no_page_at [OF this(2)]
  have "(unat v div 4096 + j) mod 2 ^ 36 = (unat v div 4096 + k) mod 2 ^ 36"
    using assms(5) by (simp only:)
  then show ?thesis
    by (rule mod_window_inj) (use assms(2-4) in linarith)+
qed

lemma maps_range_append:
  assumes "maps_range s t root v a m flags True"
    and "maps_range t u root (page_at v m) (page_at a m) n flags success"
    and "unat v + 4096 * (m + n) < 2 ^ 64" and "m + n \<le> 2 ^ 36"
  shows "maps_range s u root v a (m + n) flags success"
proof -
  have "page_no (page_at v k) \<notin> pages_from (page_at v m) n" if k: "k < m" for k
  proof
    assume "page_no (page_at v k) \<in> pages_from (page_at v m) n"
    then obtain j where "j < n" "page_no (page_at v k) = page_no (page_at v (m + j))"
      unfolding pages_from_def page_at_add by blast
    then show False
      using page_no_inj [OF assms(3,4), of k "m + j"] k by simp
  qed
  then have first: "translate u root (page_at v k) = translate t root (page_at v k)" if "k < m" for k
    using assms(2) that by (simp add: maps_range_def)
  have mapped: "mapped_as u root (page_at v k) (page_at a k) flags" if "k < m + n" success for k
  proof (cases "k < m")
    case True
    then show ?thesis
      using assms(1) first by (simp add: maps_range_def mapped_as_def)
  next
    case False
    then have "k = m + (k - m)" "k - m < n"
      using that(1) by simp_all
    then obtain j where "k = m + j" "j < n"
      by blast
    then show ?thesis
      using assms(2) that(2) by (auto simp: maps_range_def page_at_add)
  qed
  have later: "page_no (page_at v (m + j)) \<notin> pages_from v m" if j: "j < n" for j
  proof
    assume "page_no (page_at v (m + j)) \<in> pages_from v m"
    then obtain k where "k < m" "page_no (page_at v (m + j)) = page_no (page_at v k)"
      unfolding pages_from_def by blast
    then show False
      using page_no_inj [OF assms(3,4), of k "m + j"] j by simp
  qed
  have user: "user_access u root (page_at v k)"
    if "k < m + n" success "bit flags 2" "user_path s root (page_at v k)" for k
  proof (cases "k < m")
    case True
    then show ?thesis
      using assms(1) first that by (simp add: maps_range_def user_access_def)
  next
    case False
    then have k: "k = m + (k - m)" "k - m < n"
      using that(1) by simp_all
    then have "user_path t root (page_at v k)"
      using assms(1) later [OF k(2)] that(3,4) by (simp add: maps_range_def)
    then show ?thesis
      using assms(2) that(2,3) k by (metis maps_range_def page_at_add)
  qed
  have "user_path u root w" if "bit flags 2" "page_no w \<notin> pages_from v (m + n)" "user_path s root w" for w
    using assms(1,2) that by (simp add: maps_range_def pages_from_append)
  moreover have "translate u root w = translate s root w" if "page_no w \<notin> pages_from v (m + n)" for w
    using assms(1,2) that by (simp add: maps_range_def pages_from_append)
  moreover have "tables_ok u root" "keeps s u" "grows s u root"
    using assms(1,2) keeps_trans [of s t u] grows_trans [of t root s u] by (simp_all add: maps_range_def)
  ultimately show ?thesis
    unfolding maps_range_def using mapped user by blast
qed

lemma maps_range_page:
  assumes "tables_ok t root" "keeps s t" "grows s t root"
    and "\<And>w. path w \<noteq> path v \<Longrightarrow> translate t root w = translate s root w"
    and "success \<Longrightarrow> mapped_as t root v a flags"
    and "\<And>w. user_path s root w \<Longrightarrow> user_path t root w"
    and "success \<Longrightarrow> bit flags 2 \<Longrightarrow> user_path s root v \<Longrightarrow> user_access t root v"
  shows "maps_range s t root v a 1 flags success"
proof -
  have "pages_from v 1 = {page_no v}"
    by (auto simp: pages_from_def)
  then show ?thesis
    using assms by (auto simp: maps_range_def path_eq_iff)
qed

text \<open>A failed step that changed nothing covers any range.\<close>

lemma maps_range_failed:
  assumes "maps_range s t root v a m flags False" and "m \<le> n"
  shows "maps_range s t root v a n flags False"
proof -
  have "pages_from v m \<subseteq> pages_from v n"
    using assms(2) by (auto simp: pages_from_def)
  then show ?thesis
    using assms(1) by (auto simp: maps_range_def)
qed

section \<open>The two kinds of step\<close>

lemma page_step:
  assumes ok: "tables_ok s root" and small: "\<not> large_mapped s root v"
    and flags: "flags AND 0x000FFFFFFFFFF000 = 0" and a: "unat a < 2 ^ 52" "unat a mod 4096 = 0"
  shows "\<exists>success t. vmm_map_page s (table_virt s root) v a flags = Inr (success, t) \<and>
    maps_range s t root v a 1 flags success \<and>
    (if success then card (free_pages s) \<le> card (free_pages t) + 3 else card (free_pages s) < 3)"
proof -
  have frame: "a AND PAGE_FRAME_MASK = a"
  proof -
    have m: "PAGE_FRAME_MASK = NOT (mask 12)"
      by (simp add: PAGE_FRAME_MASK_def mask_eq_exp_minus_1)
    have "unat (a AND NOT (mask 12)) = unat a"
      unfolding unat_and_not_mask using a(2) div_mult_mod_eq [of "unat a" 4096] by simp
    then show ?thesis
      unfolding m by (simp only: word_unat_eq_iff)
  qed
  obtain success t where run: "vmm_map_page s (table_virt s root) v a flags = Inr (success, t)"
    and t: "tables_ok t root" "keeps s t" "grows s t root"
      "\<forall>w. path w \<noteq> path v \<longrightarrow> translate t root w = translate s root w"
      "\<forall>w. user_path s root w \<longrightarrow> user_path t root w"
      "if success then
         tlb_flushes t = tlb_flushes s @ (if root * 4096 = cr3 s then [v] else []) \<and>
         card (free_pages s) \<le> card (free_pages t) + 3 \<and>
         (\<exists>u. translate t root v = Some \<lparr>tr_phys = a, tr_large = False,
            tr_writable = bit flags 1, tr_user = u, tr_noexec = bit flags 63\<rparr> \<and>
            (u \<longrightarrow> bit flags 2) \<and> (bit flags 2 \<and> user_path s root v \<longrightarrow> u))
       else card (free_pages s) < 3 \<and> translate t root v = translate s root v"
    using vmm_map_page_spec [OF ok small flags a(1)] unfolding frame by blast
  have "maps_range s t root v a 1 flags success"
    by (rule maps_range_page) (use t in \<open>auto simp: mapped_as_def user_access_def\<close>)
  then show ?thesis
    using run t(6) by (intro exI [of _ success] exI [of _ t]) auto
qed

lemma large_phys:
  fixes a flags :: u64
  assumes "flags AND 0x000FFFFFFFFFF000 = 0" and "unat a < 2 ^ 52" and "unat a mod 2 ^ 21 = 0"
  shows "((a AND PAGE_FRAME_MASK) OR flags OR VMM_FLAG_PRESENT OR VMM_FLAG_PS)
           AND 0x000FFFFFFFE00000 = a"
proof -
  let ?e = "(a AND PAGE_FRAME_MASK) OR flags OR VMM_FLAG_PRESENT OR VMM_FLAG_PS"
  have m: "(0x000FFFFFFFE00000 :: u64) = 0x000FFFFFFFFFF000 AND NOT (mask 21)"
    by (simp add: mask_eq_exp_minus_1)
  have ps: "VMM_FLAG_PS AND 0x000FFFFFFFFFF000 = 0"
    by (simp add: VMM_FLAG_PS_def)
  have f: "(flags OR VMM_FLAG_PS) AND 0x000FFFFFFFFFF000 = 0"
    using assms(1) ps by (simp add: and.commute bit.conj_disj_distrib2)
  have "?e = (a AND PAGE_FRAME_MASK) OR (flags OR VMM_FLAG_PS) OR VMM_FLAG_PRESENT"
    by (simp add: or.assoc or.commute or.left_commute)
  then have "?e AND 0x000FFFFFFFFFF000 = a AND PAGE_FRAME_MASK"
    using leaf_phys [OF f assms(2)] by simp
  then have "?e AND 0x000FFFFFFFE00000 = a AND PAGE_FRAME_MASK AND NOT (mask 21)"
    unfolding m by (simp only: and.assoc [symmetric])
  also have "\<dots> = a AND NOT (mask 21)"
  proof -
    have p: "PAGE_FRAME_MASK = NOT (mask 12)"
      by (simp add: PAGE_FRAME_MASK_def mask_eq_exp_minus_1)
    show ?thesis
      unfolding p by (rule bit_eqI) (auto simp: bit_simps)
  qed
  also have "\<dots> = a"
  proof -
    have "unat (a AND NOT (mask 21)) = unat a"
      unfolding unat_and_not_mask using assms(3) div_mult_mod_eq [of "unat a" "2 ^ 21"] by simp
    then show ?thesis
      by (simp only: word_unat_eq_iff)
  qed
  finally show ?thesis .
qed

lemma get_directory:
  assumes ok: "tables_ok s root" and small: "\<not> large_mapped s root v" and c: "c = 3 \<or> c = 7"
  shows "\<exists>t. descended c s t root \<and>
    card (free_pages s) < 3 \<and> vmm_map_large s (table_virt s root) v a flags c = Inr (False, t)
    \<or> (\<exists>f. descended c s t root \<and> card (free_pages s) \<le> card (free_pages t) + 3 \<and>
        in_tree t root [PML4_INDEX v, PDPT_INDEX v] f \<and>
        vmm_map_large s (table_virt s root) v a flags c = Inr (True,
          set_entry t (table_virt t f) (PD_INDEX v)
            ((a AND PAGE_FRAME_MASK) OR flags OR VMM_FLAG_PRESENT OR VMM_FLAG_PS)))"
proof -
  obtain r1 s1 where 1: "get_or_create_table s (table_virt s root) (PML4_INDEX v) c = Inr (r1, s1)"
    "descended c s s1 root" "card (free_pages s) \<le> card (free_pages s1) + 1"
    "case r1 of None \<Rightarrow> free_pages s = {}
       | Some a \<Rightarrow> \<exists>g. a = table_virt s1 g \<and> in_tree s1 root [PML4_INDEX v] g"
    using descend [OF ok in_tree_root [OF ok] _ _ small c, of "PML4_INDEX v", unfolded append.simps]
    by (auto simp: path_def)
  show ?thesis
  proof (cases r1)
    case None
    then show ?thesis
      using 1 by (intro exI [of _ s1]) (simp add: vmm_map_large_def Let_def)
  next
    case (Some a1)
    then obtain f1 where f1: "a1 = table_virt s1 f1" "in_tree s1 root [PML4_INDEX v] f1"
      using 1(4) by auto
    have ok1: "tables_ok s1 root" and small1: "\<not> large_mapped s1 root v"
      using 1(2) small descended_large [OF 1(2)] by (auto simp: descended_def)
    obtain r2 s2 where 2: "get_or_create_table s1 a1 (PDPT_INDEX v) c = Inr (r2, s2)"
      "descended c s1 s2 root" "card (free_pages s1) \<le> card (free_pages s2) + 1"
      "case r2 of None \<Rightarrow> free_pages s1 = {}
         | Some a \<Rightarrow> \<exists>g. a = table_virt s2 g \<and> in_tree s2 root [PML4_INDEX v, PDPT_INDEX v] g"
      using descend [OF ok1 f1(2) _ _ small1 c, of "PDPT_INDEX v", unfolded append.simps]
      by (auto simp: path_def f1(1))
    have d2: "descended c s s2 root"
      using 1(2) 2(2) descended_trans by blast
    show ?thesis
    proof (cases r2)
      case None
      then show ?thesis
        using 1 2 Some d2 by (intro exI [of _ s2]) (simp add: vmm_map_large_def Let_def)
    next
      case Some2: (Some a2)
      then obtain f2 where f2: "a2 = table_virt s2 f2"
        "in_tree s2 root [PML4_INDEX v, PDPT_INDEX v] f2"
        using 2(4) by auto
      then show ?thesis
        using 1 2 Some Some2 d2
        by (intro exI [of _ s2]) (auto simp: vmm_map_large_def Let_def intro!: exI [of _ f2])
    qed
  qed
qed

lemma translate_directory:
  assumes ok: "tables_ok s root" and tree: "in_tree s root p f" "length p = 2"
    and v: "path v = p @ i # u" and e: "entry_present (pte s f i)" "entry_large (pte s f i)"
  shows "\<exists>us. translate s root v = Some \<lparr>tr_phys = (pte s f i AND 0x000FFFFFFFE00000) + (v AND 0x1FF000),
            tr_large = True, tr_writable = bit (pte s f i) 1, tr_user = us,
            tr_noexec = bit (pte s f i) 63\<rparr> \<and> (us \<longrightarrow> bit (pte s f i) 2)"
proof -
  obtain es where es: "walk s root (p @ i # u) = es @ walk s f (i # u)" "length es = length p"
    "\<forall>e \<in> set es. \<exists>g. links_to e g"
    using walk_links [OF ok tree(1)] by blast
  have "walk s f (i # u) = [pte s f i]"
    using e by (simp add: is_link_def)
  moreover have "\<forall>e \<in> set es. bit e 1 \<and> \<not> bit e 63"
    using es(3) links_to_facts(4,5) by blast
  ultimately show ?thesis
    using es(1,2) e tree(2) by (auto simp: translate_def v interpret_walk_def Let_def)
qed

lemma directory_entry_bits:
  assumes "unat a < 2 ^ 52"
  shows "entry_present ((a AND PAGE_FRAME_MASK) OR flags OR VMM_FLAG_PRESENT OR VMM_FLAG_PS)"
    and "entry_large ((a AND PAGE_FRAME_MASK) OR flags OR VMM_FLAG_PRESENT OR VMM_FLAG_PS)"
    and "k \<in> {1, 2, 63} \<Longrightarrow>
      bit ((a AND PAGE_FRAME_MASK) OR flags OR VMM_FLAG_PRESENT OR VMM_FLAG_PS) k = bit flags k"
proof -
  have m: "PAGE_FRAME_MASK = NOT (mask 12)" "VMM_FLAG_PRESENT = mask 1" "VMM_FLAG_PS = push_bit 7 1"
    by (simp_all add: PAGE_FRAME_MASK_def VMM_FLAG_PRESENT_def VMM_FLAG_PS_def mask_eq_exp_minus_1)
  have "unat (take_bit 52 a) = unat a"
    using assms by (simp add: unsigned_take_bit_eq take_bit_nat_eq_self)
  then have t: "take_bit 52 a = a"
    by (simp only: word_unat_eq_iff)
  have "\<not> bit (take_bit 52 a) 63"
    by (simp add: bit_take_bit_iff)
  then have "\<not> bit a 63"
    by (simp only: t not_False_eq_True)
  then show "entry_present ((a AND PAGE_FRAME_MASK) OR flags OR VMM_FLAG_PRESENT OR VMM_FLAG_PS)"
    "entry_large ((a AND PAGE_FRAME_MASK) OR flags OR VMM_FLAG_PRESENT OR VMM_FLAG_PS)"
    "k \<in> {1, 2, 63} \<Longrightarrow>
      bit ((a AND PAGE_FRAME_MASK) OR flags OR VMM_FLAG_PRESENT OR VMM_FLAG_PS) k = bit flags k"
    unfolding m entry_present_def entry_large_def by (auto simp: bit_simps)
qed

lemma large_offset:
  assumes "unat v mod 2 ^ 21 = 0" and "k < 512" and "unat v + 4096 * k < 2 ^ 64"
  shows "page_at v k AND 0x1FF000 = of_nat (4096 * k)"
    and "page_no (page_at v k) div 512 = page_no v div 512"
proof -
  define q where "q = unat v div 2 ^ 21"
  have v: "unat v = 512 * 4096 * q"
    using assms(1) div_mult_mod_eq [of "unat v" "2 ^ 21"] by (simp add: q_def)
  have u: "unat (page_at v k) = 4096 * (512 * q + k)"
    unfolding unat_page_at [OF assms(3)] v by simp
  have m: "(0x1FF000 :: u64) = mask 21 AND NOT (mask 12)"
    by (simp add: mask_eq_exp_minus_1)
  have "unat (page_at v k AND mask 21) = 4096 * k"
    unfolding unat_and_mask u using assms(2) mult_mod_right [of 4096 "512 * q + k" 512] by simp
  then have "unat ((page_at v k AND mask 21) AND NOT (mask 12)) = 4096 * k"
    unfolding unat_and_not_mask by simp
  then have "unat (page_at v k AND 0x1FF000) = unat (of_nat (4096 * k) :: u64)"
    unfolding m and.assoc [symmetric] unat_of_nat using assms(2) by simp
  then show "page_at v k AND 0x1FF000 = of_nat (4096 * k)"
    by (simp only: word_unat_eq_iff)
  have "page_no (page_at v k) = (512 * q + k) mod (512 * 2 ^ 27)"
    unfolding page_no_def u by simp
  also have "\<dots> div 512 = (512 * q + k) div 512 mod 2 ^ 27"
    by (simp only: mod_mult2_eq)
  also have "(512 * q + k) div 512 = q"
    using assms(2) by simp
  finally have 1: "page_no (page_at v k) div 512 = q mod 2 ^ 27" .
  have "page_no v = (512 * q) mod (512 * 2 ^ 27)"
    unfolding page_no_def v by simp
  also have "\<dots> div 512 = q mod 2 ^ 27"
    by (simp only: mod_mult2_eq) simp
  finally show "page_no (page_at v k) div 512 = page_no v div 512"
    using 1 by simp
qed

lemma directory_pages:
  assumes "unat v mod 2 ^ 21 = 0" and "page_no w div 512 = page_no v div 512"
    and "unat v + 2 ^ 21 < 2 ^ 64"
  shows "page_no w \<in> pages_from v 512"
proof -
  define q where "q = unat v div 2 ^ 21"
  define k where "k = page_no w mod 512"
  have v: "unat v = 512 * 4096 * q"
    using assms(1) div_mult_mod_eq [of "unat v" "2 ^ 21"] by (simp add: q_def)
  have k: "k < 512"
    by (simp add: k_def)
  then have k: "k < 512" "unat v + 4096 * k < 2 ^ 64"
    using assms(3) by simp_all
  have "page_no (page_at v k) mod 512 = (512 * q + k) mod 512"
  proof -
    have "page_no (page_at v k) = (512 * q + k) mod 2 ^ 36"
      unfolding page_no_def unat_page_at [OF k(2)] v by simp
    then show ?thesis
      by (simp only: mod_mod_cancel [of 512 "2 ^ 36"]) (simp add: mod_mod_cancel)
  qed
  also have "\<dots> = k"
    using k by simp
  finally have "page_no (page_at v k) = page_no w"
    using large_offset(2) [OF assms(1) k] assms(2) by (metis k_def div_mult_mod_eq)
  then show ?thesis
    using k(1) by (auto simp: pages_from_def) metis
qed

lemma large_step:
  assumes ok: "tables_ok s root" and small: "\<not> large_mapped s root v"
    and flags: "flags AND 0x000FFFFFFFFFF000 = 0" and a: "unat a < 2 ^ 52" "unat a mod 2 ^ 21 = 0"
    and v: "unat v mod 2 ^ 21 = 0" "unat v + 2 ^ 21 < 2 ^ 64" and c: "c = 3 \<or> c = 7" "bit flags 2 \<longrightarrow> c = 7"
  shows "\<exists>success t. vmm_map_large s (table_virt s root) v a flags c = Inr (success, t) \<and>
    maps_range s t root v a 512 flags success \<and>
    (success \<longrightarrow> (\<forall>k < 512. large_mapped t root (page_at v k))) \<and>
    (if success then card (free_pages s) \<le> card (free_pages t) + 3 else card (free_pages s) < 3)"
proof -
  obtain t where d: "descended c s t root" and
    r: "card (free_pages s) < 3 \<and> vmm_map_large s (table_virt s root) v a flags c = Inr (False, t)
      \<or> (\<exists>f. card (free_pages s) \<le> card (free_pages t) + 3 \<and>
        in_tree t root [PML4_INDEX v, PDPT_INDEX v] f \<and>
        vmm_map_large s (table_virt s root) v a flags c = Inr (True,
          set_entry t (table_virt t f) (PD_INDEX v)
            ((a AND PAGE_FRAME_MASK) OR flags OR VMM_FLAG_PRESENT OR VMM_FLAG_PS)))"
    using get_directory [OF ok small c(1), of a flags] by blast
  from r show ?thesis
  proof (elim disjE exE conjE)
    assume "card (free_pages s) < 3" "vmm_map_large s (table_virt s root) v a flags c = Inr (False, t)"
    then show ?thesis
      using d c(2) by (intro exI [of _ False] exI [of _ t]) (auto simp: descended_def maps_range_def)
  next
    fix f
    let ?p = "[PML4_INDEX v, PDPT_INDEX v]" and ?i = "PD_INDEX v"
    let ?e = "(a AND PAGE_FRAME_MASK) OR flags OR VMM_FLAG_PRESENT OR VMM_FLAG_PS"
    define t1 where "t1 = set_entry t (table_virt t f) ?i ?e"
    assume card: "card (free_pages s) \<le> card (free_pages t) + 3" and tree: "in_tree t root ?p f"
      and run: "vmm_map_large s (table_virt s root) v a flags c =
        Inr (True, set_entry t (table_virt t f) ?i ?e)"
    note bits = directory_entry_bits [OF a(1), where flags = flags]
    have okt: "tables_ok t root"
      using d by (simp add: descended_def)
    have ch: "entry_changed t t1 root ?p f ?i ?e {}"
      unfolding t1_def
      by (rule set_entry_changed [OF okt tree])
        (simp_all only: index_less entry_ok_def is_link_def bits, simp_all)
    have ok1: "tables_ok t1 root"
      by (rule tables_ok_changed [OF okt ch])
    have tree1: "in_tree t1 root ?p f" and e: "pte t1 f ?i = ?e"
      using at_path [OF okt ch] by (simp_all add: in_tree_def)
    have other: "translate t1 root w = translate s root w"
      if "page_no w \<notin> pages_from v 512" for w
    proof -
      have "page_no w div 512 \<noteq> page_no v div 512"
        using directory_pages [OF v(1) _ v(2)] that by blast
      then have "\<not> (\<exists>u. path w = ?p @ ?i # u)"
        using directory_path_iff [of w v] by (auto simp: path_def)
      then have "translate t1 root w = translate t root w"
        by (rule translate_elsewhere [OF okt ch])
      then show ?thesis
        using d by (simp add: descended_def)
    qed
    have mapped: "mapped_as t1 root (page_at v k) (page_at a k) flags \<and>
        large_mapped t1 root (page_at v k)" if k: "k < 512" for k
    proof -
      have "unat v + 4096 * k < 2 ^ 64"
        using k v(2) by simp
      note lo = large_offset [OF v(1) k this]
      have path: "path (page_at v k) = ?p @ ?i # [PT_INDEX (page_at v k)]"
        using lo(2) directory_path_iff [of "page_at v k" v] by (simp add: path_def)
      have "(?e AND 0x000FFFFFFFE00000) + (page_at v k AND 0x1FF000) = page_at a k"
        unfolding lo(1) large_phys [OF flags a] by (simp add: page_at_def)
      moreover have "entry_present (pte t1 f ?i)" "entry_large (pte t1 f ?i)"
        unfolding e using bits by blast+
      ultimately show ?thesis
        using translate_directory [OF ok1 tree1 _ path] bits(3)
        unfolding mapped_as_def large_mapped_def e by auto
    qed
    have user: "user_path t1 root w" if "bit flags 2" "user_path s root w" for w
      using user_path_changed [OF okt ch] d that c(2) bits by (simp add: descended_def is_link_def)
    have granted: "user_access t1 root (page_at v k)"
      if k: "k < 512" and u: "bit flags 2" "user_path s root (page_at v k)" for k
    proof -
      have "unat v + 4096 * k < 2 ^ 64"
        using k v(2) by simp
      note lo = large_offset(2) [OF v(1) k this]
      have path: "path (page_at v k) = ?p @ ?i # [PT_INDEX (page_at v k)]"
        and same: "[PML4_INDEX (page_at v k), PDPT_INDEX (page_at v k), PD_INDEX (page_at v k)] = ?p @ [?i]"
        using lo directory_path_iff [of "page_at v k" v] by (simp_all add: path_def)
      have at: "table_at t1 root ?p = Some f"
        using tree1 by (simp add: in_tree_def)
      then have "user_links t1 root ?p"
        using user [OF u] user_links_append [OF at, of "[?i]"] unfolding user_path_def same by blast
      then show ?thesis
        by (rule user_access_entry [OF at _ path]) (use bits u(1) in \<open>simp_all only: e, simp_all\<close>)
    qed
    have "keeps s t1"
      using d by (simp add: t1_def descended_def)
    moreover have "grows t t1 root"
      unfolding t1_def by (rule set_entry_grows [OF okt tree])
        (simp_all only: index_less entry_ok_def is_link_def bits, simp_all)
    then have "grows s t1 root"
      using d grows_trans [OF okt] by (simp add: descended_def)
    ultimately have "maps_range s t1 root v a 512 flags True"
      using ok1 other mapped user granted by (simp add: maps_range_def)
    moreover have "free_pages t1 = free_pages t"
      using free_pages_changed [OF ch] .
    ultimately show ?thesis
      using run card mapped by (intro exI [of _ True] exI [of _ t1]) (simp add: t1_def)
  qed
qed

section \<open>The loop\<close>

lemma unat_mod_eq_0: "(x :: u64) mod 0x200000 = 0 \<longleftrightarrow> unat x mod 2 ^ 21 = 0"
  by (simp add: word_unat_eq_iff unat_mod)

lemma large_page_at: "x + LARGE_PAGE_SIZE = page_at x 512"
  by (simp add: page_at_def LARGE_PAGE_SIZE_def)

lemma small_page_at: "x + PAGE_SIZE = page_at x (Suc 0)"
  by (simp add: page_at_def PAGE_SIZE_def)

lemma vmm_map_loop_large:
  assumes "v < v_end"
    and "v mod LARGE_PAGE_SIZE = 0 \<and> a mod LARGE_PAGE_SIZE = 0 \<and> v_end - v \<ge> LARGE_PAGE_SIZE"
  shows "vmm_map_loop pml4 v_end flags c v a s =
    (case vmm_map_large s pml4 v a flags c of Inl p \<Rightarrow> Some (Inl p)
     | Inr (success, s') \<Rightarrow> if \<not> success then Some (Inr (False, s'))
         else vmm_map_loop pml4 v_end flags c (page_at v 512) (page_at a 512) s')"
  using assms unfolding large_page_at [symmetric]
  by (subst vmm_map_loop.simps) (simp only: if_True simp_thms)

lemma vmm_map_loop_small:
  assumes "v < v_end"
    and "\<not> (v mod LARGE_PAGE_SIZE = 0 \<and> a mod LARGE_PAGE_SIZE = 0 \<and> v_end - v \<ge> LARGE_PAGE_SIZE)"
  shows "vmm_map_loop pml4 v_end flags c v a s =
    (case vmm_map_page s pml4 v a flags of Inl p \<Rightarrow> Some (Inl p)
     | Inr (success, s') \<Rightarrow> if \<not> success then Some (Inr (False, s'))
         else vmm_map_loop pml4 v_end flags c (page_at v 1) (page_at a 1) s')"
  using assms unfolding One_nat_def small_page_at [symmetric]
  by (subst vmm_map_loop.simps) (simp only: if_True if_False simp_thms)

lemma maps_range_stays_small:
  assumes "maps_range s t root v a m flags True" and "m + k < n" and "n \<le> 2 ^ 36"
    and "unat v + 4096 * n < 2 ^ 64" and "\<not> large_mapped s root (page_at v (m + k))"
  shows "\<not> large_mapped t root (page_at (page_at v m) k)"
proof -
  have "page_no (page_at v (m + k)) \<notin> pages_from v m"
  proof
    assume "page_no (page_at v (m + k)) \<in> pages_from v m"
    then obtain j where j: "j < m" "page_no (page_at v (m + k)) = page_no (page_at v j)"
      unfolding pages_from_def by blast
    then show False
      using page_no_inj [OF assms(4,3), of "m + k" j] assms(2) by simp
  qed
  then have "translate t root (page_at v (m + k)) = translate s root (page_at v (m + k))"
    using assms(1) by (simp add: maps_range_def)
  then show ?thesis
    using assms(5) by (simp add: page_at_add large_mapped_def)
qed

text \<open>
  The number of turns for \<open>n\<close> pages from \<open>v\<close> at \<open>a\<close>: a turn maps a large page where both addresses
  are aligned and enough is left. Every turn needs at most three new tables.
\<close>

fun map_turns :: "nat \<Rightarrow> nat \<Rightarrow> nat \<Rightarrow> nat" where
  "map_turns v a n =
     (if n = 0 then 0
      else if v mod 2 ^ 21 = 0 \<and> a mod 2 ^ 21 = 0 \<and> 512 \<le> n
      then Suc (map_turns (v + 4096 * 512) (a + 4096 * 512) (n - 512))
      else Suc (map_turns (v + 4096) (a + 4096) (n - 1)))"

declare map_turns.simps [simp del]

lemma map_turns_le: "map_turns v a n \<le> n"
proof (induction v a n rule: map_turns.induct)
  case (1 v a n)
  then show ?case
    by (subst map_turns.simps) auto
qed

text \<open>What a loop of \<open>k\<close> turns does to the number of free pages.\<close>

definition takes :: "'a pmm_scheme \<Rightarrow> 'a pmm_scheme \<Rightarrow> nat \<Rightarrow> bool \<Rightarrow> bool" where
  "takes s t k success \<longleftrightarrow> (3 * k \<le> card (free_pages s) \<longrightarrow> success) \<and>
     (success \<longrightarrow> card (free_pages s) \<le> card (free_pages t) + 3 * k)"

text \<open>One turn of the loop that maps \<open>m\<close> pages, and the rest of the loop, given by \<open>rest\<close>.\<close>

lemma vmm_map_loop_continue:
  assumes m: "m \<le> n" "n \<le> 2 ^ 36" "unat v + 4096 * n < 2 ^ 64"
    and small: "\<And>k. k < n \<Longrightarrow> \<not> large_mapped s root (page_at v k)"
    and step: "r = Inr (success, t)" "maps_range s t root v a m flags success"
      "if success then card (free_pages s) \<le> card (free_pages t) + 3 else card (free_pages s) < 3"
    and m0: "0 < m"
    and unfold: "vmm_map_loop (table_virt s root) v_end flags c v a s =
      (case r of Inl p \<Rightarrow> Some (Inl p)
       | Inr (success, s') \<Rightarrow> if \<not> success then Some (Inr (False, s'))
           else vmm_map_loop (table_virt s root) v_end flags c (page_at v m) (page_at a m) s')"
    and rest: "tables_ok t root \<Longrightarrow>
      (\<And>k. k < n - m \<Longrightarrow> \<not> large_mapped t root (page_at (page_at v m) k)) \<Longrightarrow>
      \<exists>success' t'. vmm_map_loop (table_virt t root) v_end flags c (page_at v m) (page_at a m) t =
          Some (Inr (success', t')) \<and>
        maps_range t t' root (page_at v m) (page_at a m) (n - m) flags success' \<and> takes t t' turns success'"
  shows "\<exists>success t.
    vmm_map_loop (table_virt s root) v_end flags c v a s = Some (Inr (success, t)) \<and>
    maps_range s t root v a n flags success \<and> takes s t (Suc turns) success"
proof (cases success)
  case False
  then show ?thesis
    using step unfold m m0 maps_range_failed [of s t root v a m flags n]
    by (intro exI [of _ False] exI [of _ t]) (simp add: takes_def)
next
  case True
  have ok: "tables_ok t root" and keep: "keeps s t"
    using step(2) by (simp_all add: maps_range_def)
  obtain success' t' where IH:
    "vmm_map_loop (table_virt t root) v_end flags c (page_at v m) (page_at a m) t =
       Some (Inr (success', t'))"
    "maps_range t t' root (page_at v m) (page_at a m) (n - m) flags success'"
    "takes t t' turns success'"
  proof -
    have "maps_range s t root v a m flags True"
      using step(2) True by simp
    from maps_range_stays_small [OF this _ m(2,3)] small
    have "\<not> large_mapped t root (page_at (page_at v m) k)" if "k < n - m" for k
      using that by simp
    then show ?thesis
      using rest [OF ok] that by blast
  qed
  have "maps_range s t' root v a (m + (n - m)) flags success'"
    by (rule maps_range_append [OF _ IH(2)]) (use step(2) True m in simp_all)
  moreover have "table_virt t root = table_virt s root"
    using keeps_table_virt [OF keep] .
  ultimately show ?thesis
    using IH(1,3) step unfold True m m0
    by (intro exI [of _ success'] exI [of _ t']) (auto simp: takes_def)
qed

lemma vmm_map_loop_spec:
  assumes "tables_ok s root" and "flags AND 0x000FFFFFFFFFF000 = 0" and "(c = 3 \<or> c = 7) \<and> (bit flags 2 \<longrightarrow> c = 7)"
    and "unat v mod 4096 = 0" "unat a mod 4096 = 0"
    and "unat v + 4096 * n = unat v_end" and "unat a + 4096 * n \<le> 2 ^ 52" and "n \<le> 2 ^ 36"
    and "\<And>k. k < n \<Longrightarrow> \<not> large_mapped s root (page_at v k)"
  shows "\<exists>success t.
    vmm_map_loop (table_virt s root) v_end flags c v a s = Some (Inr (success, t)) \<and>
    maps_range s t root v a n flags success \<and> takes s t (map_turns (unat v) (unat a) n) success"
  using assms
proof (induction n arbitrary: s v a rule: less_induct)
  case (less n s v a)
  let ?pml4 = "table_virt s root"
  note prems = less.prems
  have v_bound: "unat v + 4096 * n < 2 ^ 64"
    using prems(6) unat64_bound [of v_end] by simp
  show ?case
  proof (cases "n = 0")
    case True
    then have "\<not> v < v_end"
      using prems(6) by (simp add: word_less_nat_alt)
    then show ?thesis
      using True prems(1)
      by (intro exI [of _ True] exI [of _ s])
        (simp add: vmm_map_loop.simps maps_range_def takes_def)
  next
    case False
    then have lt: "v < v_end"
      using prems(6) by (simp add: word_less_nat_alt)
    have small: "\<not> large_mapped s root v"
      using prems(9) [of 0] False by simp
    have a_bound: "unat a < 2 ^ 52"
      using prems(7) False by simp
    have continue: ?thesis
      if m: "0 < m" "m \<le> n" and step: "r = Inr (success, t)"
        "maps_range s t root v a m flags success"
        "if success then card (free_pages s) \<le> card (free_pages t) + 3 else card (free_pages s) < 3"
      and unfold: "vmm_map_loop ?pml4 v_end flags c v a s =
        (case r of Inl p \<Rightarrow> Some (Inl p)
         | Inr (success, s') \<Rightarrow> if \<not> success then Some (Inr (False, s'))
             else vmm_map_loop ?pml4 v_end flags c (page_at v m) (page_at a m) s')"
      and turns: "map_turns (unat v) (unat a) n =
        Suc (map_turns (unat v + 4096 * m) (unat a + 4096 * m) (n - m))"
      for m r success t
      unfolding turns
    proof (rule vmm_map_loop_continue [OF m(2) prems(8) v_bound prems(9) step m(1) unfold])
      assume t: "tables_ok t root" "\<And>k. k < n - m \<Longrightarrow> \<not> large_mapped t root (page_at (page_at v m) k)"
      have u: "unat (page_at v m) = unat v + 4096 * m" "unat (page_at a m) = unat a + 4096 * m"
        using m v_bound prems(7) by (simp_all add: unat_page_at)
      have "n - m < n" "n - m \<le> 2 ^ 36"
        "unat (page_at v m) mod 4096 = 0" "unat (page_at a m) mod 4096 = 0"
        "unat (page_at v m) + 4096 * (n - m) = unat v_end"
        "unat (page_at a m) + 4096 * (n - m) \<le> 2 ^ 52"
        unfolding u using m prems(4-8) by (simp_all add: diff_mult_distrib2)
      from less.IH [OF this(1) t(1) prems(2,3) this(3-6,2) t(2)]
      show "\<exists>success' t'. vmm_map_loop (table_virt t root) v_end flags c (page_at v m) (page_at a m) t =
          Some (Inr (success', t')) \<and>
        maps_range t t' root (page_at v m) (page_at a m) (n - m) flags success' \<and>
        takes t t' (map_turns (unat v + 4096 * m) (unat a + 4096 * m) (n - m)) success'"
        unfolding u .
    qed
    show ?thesis
    proof (cases "v mod LARGE_PAGE_SIZE = 0 \<and> a mod LARGE_PAGE_SIZE = 0 \<and> v_end - v \<ge> LARGE_PAGE_SIZE")
      case True
      have al: "unat v mod 2 ^ 21 = 0" "unat a mod 2 ^ 21 = 0"
        using True by (simp_all add: LARGE_PAGE_SIZE_def unat_mod_eq_0)
      have "unat (v_end - v) = 4096 * n"
        using lt prems(6) by (simp add: unat_sub word_le_nat_alt)
      then have n: "512 \<le> n"
        using True by (simp add: LARGE_PAGE_SIZE_def word_le_nat_alt)
      have "unat v + 2 ^ 21 < 2 ^ 64"
        using v_bound n by simp
      note st = large_step [OF prems(1) small prems(2) a_bound al(2,1) this conjunct1 [OF prems(3)] conjunct2 [OF prems(3)]]
      note turn = vmm_map_loop_large [OF lt True, of ?pml4 flags c s]
      have "map_turns (unat v) (unat a) n = Suc (map_turns (unat v + 4096 * 512) (unat a + 4096 * 512) (n - 512))"
        using al n False by (subst map_turns.simps) simp
      then show ?thesis
        using continue [of 512] n st turn by fastforce
    next
      case small_page: False
      note st = page_step [OF prems(1) small prems(2) a_bound prems(5)]
      note turn = vmm_map_loop_small [OF lt small_page, of ?pml4 flags c s]
      have "unat (v_end - v) = 4096 * n"
        using lt prems(6) by (simp add: unat_sub word_le_nat_alt)
      then have "\<not> (unat v mod 2 ^ 21 = 0 \<and> unat a mod 2 ^ 21 = 0 \<and> 512 \<le> n)"
        using small_page by (auto simp: LARGE_PAGE_SIZE_def unat_mod_eq_0 word_le_nat_alt)
      then have "map_turns (unat v) (unat a) n = Suc (map_turns (unat v + 4096 * 1) (unat a + 4096 * 1) (n - 1))"
        using False by (subst map_turns.simps) (simp only: if_False simp_thms mult_1_right)
      then show ?thesis
        using continue [of 1] False st turn by fastforce
    qed
  qed
qed

lemma vmm_map_range_spec:
  assumes "tables_ok s root" and "flags AND 0x000FFFFFFFFFF000 = 0"
    and "unat v mod 4096 = 0" "unat a mod 4096 = 0" and "unat len = 4096 * n"
    and "unat v + unat len < 2 ^ 64" and "unat a + unat len \<le> 2 ^ 52" and "n \<le> 2 ^ 36"
    and "\<forall>k < n. \<not> large_mapped s root (page_at v k)"
  shows "\<exists>success t. vmm_map_range s (table_virt s root) v a len flags = Some (Inr (success, t)) \<and>
    maps_range s t root v a n flags success \<and> takes s t (map_turns (unat v) (unat a) n) success"
proof -
  define c where "c = (if flags AND VMM_FLAG_USER \<noteq> 0 then (7 :: u64) else 3)"
  have "flags AND VMM_FLAG_USER \<noteq> 0 \<longleftrightarrow> bit flags 2"
    using and_exp_eq_0_iff_not_bit [of flags 2] by (simp add: vmm_flags)
  then have c: "(c = 3 \<or> c = 7) \<and> (bit flags 2 \<longrightarrow> c = 7)"
    by (simp add: c_def)
  have e: "unat v + 4096 * n = unat (v + len)"
    using assms(5,6) by (subst unat_add_no_overflow) simp_all
  have "vmm_map_range s (table_virt s root) v a len flags =
      vmm_map_loop (table_virt s root) (v + len) flags c v a s"
    by (simp add: vmm_map_range_def Let_def link_flags c_def)
  then show ?thesis
    using vmm_map_loop_spec [OF assms(1,2) c assms(3,4) e _ assms(8)] assms(5,7,9) by simp
qed

text \<open>
  C5. Mapping a page-aligned range of \<open>n\<close> pages returns; unless it reports failure, every page
  of the range is mapped to the corresponding frame with the requested rights, by large pages
  where they fit, and no other page changes its translation. User access is never granted if it
  was not requested, and if it was, to every page whose way through the tables that were there
  before allows it. With \<open>3 * n\<close> free pages the call does not fail.
\<close>

theorem vmm_map_range_correct:
  assumes "tables_ok s root" and "flags AND 0x000FFFFFFFFFF000 = 0"
    and "unat v mod 4096 = 0" "unat a mod 4096 = 0" and "unat len = 4096 * n"
    and "unat v + unat len < 2 ^ 64" and "unat a + unat len \<le> 2 ^ 52" and "n \<le> 2 ^ 36"
    and "\<forall>k < n. \<not> large_mapped s root (page_at v k)"
  shows "\<exists>success t. vmm_map_range s (table_virt s root) v a len flags = Some (Inr (success, t)) \<and>
    tables_ok t root \<and> keeps s t \<and> (3 * n \<le> card (free_pages s) \<longrightarrow> success) \<and>
    (success \<longrightarrow> (\<forall>k < n. mapped_as t root (page_at v k) (page_at a k) flags)) \<and>
    (success \<and> bit flags 2 \<longrightarrow>
       (\<forall>k < n. user_path s root (page_at v k) \<longrightarrow> user_access t root (page_at v k))) \<and>
    (\<forall>w. page_no w \<notin> pages_from v n \<longrightarrow> translate t root w = translate s root w)"
  using vmm_map_range_spec [OF assms] map_turns_le [of "unat v" "unat a" n]
  by (fastforce simp: maps_range_def takes_def)

section \<open>Instances\<close>

text \<open>A root table without a present entry is a tree of its own.\<close>

lemma tables_ok_empty:
  assumes "memory_ok s" and "root < pmm_total_pages s" "used s root" "root \<notin> bitmap_frames s"
    and "\<And>i. i < 512 \<Longrightarrow> pte s root i = 0"
  shows "tables_ok s root" and "\<not> large_mapped s root v"
proof -
  have root: "p = [] \<and> f = root" if "in_tree s root p f" for p f
  proof (cases p)
    case (Cons i q)
    then show ?thesis
      using that assms(5) [of i] zero_not_link by (simp add: in_tree_def)
  qed (use that in \<open>simp add: in_tree_def\<close>)
  show "tables_ok s root"
    unfolding tables_ok_def using assms root zero_not_link(3) by (metis)
  have "walk s root (path v) = [0]"
    using assms(5) [OF index_less(1)] zero_not_link by (simp add: path_def)
  then show "\<not> large_mapped s root v"
    by (simp add: large_mapped_def translate_def interpret_walk_def zero_not_link)
qed

lemma sample_bitmap_frames: "bitmap_frames sample_pmm = {1}"
proof -
  have "frame_at sample_pmm (0x1000 + k) = 1" if "k < 8" for k
  proof -
    have "unat k < 8"
      using that by (simp add: word_less_nat_alt)
    then have "unat (0x1000 + k) = 0x1000 + unat k"
      by (subst unat_add_no_overflow) simp_all
    with \<open>unat k < 8\<close> have "unat ((0x1000 + k) div 4096) = 1"
      unfolding unat_div by simp
    then show ?thesis
      by (simp add: frame_at_def word_unat_eq_iff)
  qed
  moreover have "frame_at sample_pmm 0x1000 = 1"
    by (simp add: frame_at_def)
  ultimately show ?thesis
    by (auto simp: bitmap_frames_def intro!: exI [of _ 0])
qed

lemma sample_pte:
  assumes "unat f < 2 ^ 40" "f \<noteq> 1" "i < 512"
  shows "pte sample_pmm f i = 0"
proof -
  have "frame_at sample_pmm 0x1000 = 1"
    by (simp add: frame_at_def)
  then have "table_virt sample_pmm f + 8 * i + j \<noteq> 0x1000" if "j < 8" for j
    using frame_at_cell [OF assms(1,3) that, of sample_pmm] assms(2) by metis
  then have "rd64 (mem sample_pmm) (table_virt sample_pmm f + 8 * i) = rd64 (\<lambda>_. 0) 0"
    by (intro rd64_cong) (simp add: sample_pmm_def)
  then show ?thesis
    by (simp add: pte_def get_entry_def rd64_zero)
qed

lemma sample_tables: "tables_ok sample_pmm 2" "\<not> large_mapped sample_pmm 2 v"
proof -
  have "memory_ok sample_pmm"
    by (simp add: memory_ok_def sample_bitmap_frames sample_used)
  then show "tables_ok sample_pmm 2" "\<not> large_mapped sample_pmm 2 v"
    using tables_ok_empty [of sample_pmm 2] sample_pte [of 2]
    by (simp_all add: sample_bitmap_frames sample_used)
qed

lemma sample_free_count: "card (free_pages sample_pmm) = 61"
proof -
  have "free_pages sample_pmm = of_nat ` {3..<64}"
  proof (intro set_eqI iffI)
    fix p
    assume "p \<in> free_pages sample_pmm"
    then have "unat p \<in> {3..<64}"
      by (simp add: sample_free word_le_nat_alt word_less_nat_alt)
    then show "p \<in> of_nat ` {3..<64}"
      by (intro image_eqI [of _ _ "unat p"]) simp_all
  next
    fix p :: u64
    assume "p \<in> of_nat ` {3..<64}"
    then obtain k where "p = of_nat k" "3 \<le> k" "k < 64"
      by auto
    then show "p \<in> free_pages sample_pmm"
      by (simp add: sample_free word_le_nat_alt word_less_nat_alt unat_of_nat)
  qed
  moreover have "inj_on (of_nat :: nat \<Rightarrow> u64) {3..<64}"
  proof (rule inj_onI)
    fix j k :: nat
    assume jk: "j \<in> {3..<64}" "k \<in> {3..<64}" and e: "(of_nat j :: u64) = of_nat k"
    have "unat (of_nat j :: u64) = j" "unat (of_nat k :: u64) = k"
      using jk by (simp_all add: unat_of_nat)
    with arg_cong [OF e, of unat] show "j = k"
      by (simp only:)
  qed
  ultimately show ?thesis
    by (simp add: card_image)
qed

theorem vmm_map_page_correct_witness:
  "\<exists>t u. vmm_map_page sample_pmm (table_virt sample_pmm 2) 0x400000 0x5000 3 = Inr (True, t) \<and>
     tables_ok t 2 \<and> tlb_flushes t = [0x400000] \<and>
     translate t 2 0x400000 = Some \<lparr>tr_phys = 0x5000, tr_large = False, tr_writable = True,
       tr_user = u, tr_noexec = False\<rparr>"
proof -
  have "(0x5000 :: u64) AND PAGE_FRAME_MASK = 0x5000"
    by (simp add: PAGE_FRAME_MASK_def)
  moreover have "tlb_flushes sample_pmm = []"
    by (simp add: sample_pmm_def)
  moreover have "bit (3 :: u64) 1" "\<not> bit (3 :: u64) 63"
    by (simp_all add: bits_3_7)
  ultimately show ?thesis
    using vmm_map_page_correct [of sample_pmm 2 "0x400000" 3 "0x5000", OF sample_tables] sample_free_count
    by (auto split: if_splits)
qed

theorem vmm_unmap_page_correct_witness:
  "\<exists>(s :: pmm) t. tables_ok s 2 \<and> translate s 2 0x400000 \<noteq> None \<and> cr3 s = 2 * 4096 \<and>
     vmm_unmap_page s (table_virt s 2) 0x400000 = (True, t) \<and> translate t 2 0x400000 = None \<and>
     tlb_flushes t = tlb_flushes s @ [0x400000]"
proof -
  obtain s u where s: "tables_ok s 2" "keeps sample_pmm s"
    "translate s 2 0x400000 = Some \<lparr>tr_phys = 0x5000 AND PAGE_FRAME_MASK, tr_large = False,
       tr_writable = bit (3 :: u64) 1, tr_user = u, tr_noexec = bit (3 :: u64) 63\<rparr>"
    using vmm_map_page_spec [of sample_pmm 2 "0x400000" 3 "0x5000", OF sample_tables] sample_free_count
    by (auto split: if_splits)
  have more: "cr3 s = 2 * 4096" "\<not> large_mapped s 2 0x400000"
    using s by (simp_all add: keeps_def large_mapped_def)
  then obtain t where "vmm_unmap_page s (table_virt s 2) 0x400000 = (True, t)"
    "translate t 2 0x400000 = None" "tlb_flushes t = tlb_flushes s @ [0x400000]"
    using vmm_unmap_page_correct [of s 2 "0x400000"] s(1,3) by auto
  then show ?thesis
    using s(1,3) more(1) by (intro exI [of _ s] exI [of _ t]) simp
qed

theorem vmm_map_page_overwrites_large_page_witness:
  "\<exists>s t. vmm_map_large sample_pmm (table_virt sample_pmm 2) 0x400000 0x400000 3 3 = Inr (True, s) \<and>
     vmm_map_page s (table_virt s 2) 0x401000 0x5000 3 = Inr (True, t) \<and>
     mem t = wr64 (mem s)
       (P2V s (last (walk s 2 (path 0x401000)) AND PAGE_FRAME_MASK) + 8 * PT_INDEX 0x401000)
       ((0x5000 AND PAGE_FRAME_MASK) OR 3 OR VMM_FLAG_PRESENT)"
proof -
  obtain s where s: "vmm_map_large sample_pmm (table_virt sample_pmm 2) 0x400000 0x400000 3 3 =
      Inr (True, s)" "tables_ok s 2" "large_mapped s 2 (page_at 0x400000 1)"
    using large_step [of sample_pmm 2 "0x400000" 3 "0x400000" 3, OF sample_tables] sample_free_count
    by (auto simp: maps_range_def split: if_splits)
  have "page_at 0x400000 1 = 0x401000"
    by (simp add: page_at_def)
  then show ?thesis
    using s vmm_map_page_overwrites_large_page [of s 2 "0x401000" "0x5000" 3] by auto
qed

theorem vmm_map_range_correct_witness:
  "\<exists>t. vmm_map_range sample_pmm (table_virt sample_pmm 2) 0x400000 0x8000 0x2000 7 =
       Some (Inr (True, t)) \<and> tables_ok t 2 \<and>
     (\<forall>k < 2. mapped_as t 2 (page_at 0x400000 k) (page_at 0x8000 k) 7) \<and>
     (\<forall>k < 2. user_access t 2 (page_at 0x400000 k))"
proof -
  have "user_path sample_pmm 2 w" for w
    using sample_pte [of 2] by (simp add: user_path_def zero_not_link index_less)
  then show ?thesis
    using vmm_map_range_correct [of sample_pmm 2 7 "0x400000" "0x8000" "0x2000" 2]
      sample_tables sample_free_count bits_3_7 by auto
qed

end
