(* ===== verification/Klist.thy ===== *)
theory Klist
  imports Prelude
begin

text \<open>
  The intrusive circular doubly linked list of \<^verbatim>\<open>klib/list.h\<close>. A \<^verbatim>\<open>struct list_head\<close> is a
  node at an address of a typed store; the operations are the header's sequences of
  pointer assignments, in their order. \<open>is_list h l xs\<close> relates the store to the list of
  nodes it represents, and the locale \<open>node_list\<close> is the interface that the keyboard
  driver, the heap, the timer and the scheduler use.
\<close>

section \<open>Nodes and operations\<close>

record list_head =
  nxt :: u64
  prv :: u64

type_synonym nodes = "u64 \<Rightarrow> list_head"

definition set_next :: "nodes \<Rightarrow> u64 \<Rightarrow> u64 \<Rightarrow> nodes" where
  "set_next h a v = h(a := (h a)\<lparr>nxt := v\<rparr>)"

definition set_prev :: "nodes \<Rightarrow> u64 \<Rightarrow> u64 \<Rightarrow> nodes" where
  "set_prev h a v = h(a := (h a)\<lparr>prv := v\<rparr>)"

definition INIT_LIST_HEAD :: "nodes \<Rightarrow> u64 \<Rightarrow> nodes" where
  "INIT_LIST_HEAD h l =
     (let h = set_next h l l
      in set_prev h l l)"

definition list_add_between :: "nodes \<Rightarrow> u64 \<Rightarrow> u64 \<Rightarrow> u64 \<Rightarrow> nodes" where
  "list_add_between h new_node p n =
     (let h = set_prev h n new_node;
          h = set_next h new_node n;
          h = set_prev h new_node p
      in set_next h p new_node)"

definition list_add :: "nodes \<Rightarrow> u64 \<Rightarrow> u64 \<Rightarrow> nodes" where
  "list_add h new_node head = list_add_between h new_node head (nxt (h head))"

definition list_add_tail :: "nodes \<Rightarrow> u64 \<Rightarrow> u64 \<Rightarrow> nodes" where
  "list_add_tail h new_node head = list_add_between h new_node (prv (h head)) head"

definition list_del_between :: "nodes \<Rightarrow> u64 \<Rightarrow> u64 \<Rightarrow> nodes" where
  "list_del_between h p n =
     (let h = set_prev h n p
      in set_next h p n)"

definition list_del :: "nodes \<Rightarrow> u64 \<Rightarrow> nodes" where
  "list_del h entry =
     (let h = list_del_between h (prv (h entry)) (nxt (h entry));
          h = set_next h entry NULL
      in set_prev h entry NULL)"

definition list_empty :: "nodes \<Rightarrow> u64 \<Rightarrow> bool" where
  "list_empty h head \<longleftrightarrow> nxt (h head) = head"

definition list_is_singular :: "nodes \<Rightarrow> u64 \<Rightarrow> bool" where
  "list_is_singular h head \<longleftrightarrow> \<not> list_empty h head \<and> nxt (h head) = prv (h head)"

lemma nxt_set [simp]:
  "nxt (set_next h a v b) = (if b = a then v else nxt (h b))"
  "nxt (set_prev h a v b) = nxt (h b)"
  "prv (set_next h a v b) = prv (h b)"
  "prv (set_prev h a v b) = (if b = a then v else prv (h b))"
  by (simp_all add: set_next_def set_prev_def)

section \<open>The list a store represents\<close>

fun seg :: "nodes \<Rightarrow> u64 list \<Rightarrow> bool" where
  "seg h (a # b # xs) = (nxt (h a) = b \<and> prv (h b) = a \<and> seg h (b # xs))"
| "seg h xs = True"

definition is_list :: "nodes \<Rightarrow> u64 \<Rightarrow> u64 list \<Rightarrow> bool" where
  "is_list h l xs \<longleftrightarrow> distinct (l # xs) \<and> seg h (l # xs @ [l])"

lemma seg_append: "seg h (xs @ a # ys) \<longleftrightarrow> seg h (xs @ [a]) \<and> seg h (a # ys)"
proof (induction xs)
  case (Cons x xs)
  then show ?case
    by (cases xs) auto
qed simp

lemma seg_cong:
  assumes "\<And>a. a \<in> set (butlast xs) \<Longrightarrow> nxt (h a) = nxt (h' a)"
    and "\<And>a. a \<in> set (tl xs) \<Longrightarrow> prv (h a) = prv (h' a)"
  shows "seg h xs = seg h' xs"
  using assms by (induction h xs rule: seg.induct) auto

lemma is_list_cong:
  assumes "\<And>a. a \<in> set (l # xs) \<Longrightarrow> h a = h' a"
  shows "is_list h l xs = is_list h' l xs"
proof -
  have "seg h (l # xs @ [l]) = seg h' (l # xs @ [l])"
    by (rule seg_cong) (use assms in \<open>auto dest: in_set_butlastD\<close>)
  then show ?thesis
    by (simp add: is_list_def)
qed

text \<open>Both directions of the ring around one position.\<close>

lemma is_list_split:
  "is_list h l (xs @ ys) \<longleftrightarrow>
     distinct (l # xs @ ys) \<and> seg h (l # xs) \<and>
     nxt (h (last (l # xs))) = hd (ys @ [l]) \<and> prv (h (hd (ys @ [l]))) = last (l # xs) \<and>
     seg h (ys @ [l])"
proof -
  obtain ps p where ps: "l # xs = ps @ [p]"
    by (metis list.distinct(1) rev_exhaust)
  obtain n ns where ns: "ys @ [l] = n # ns"
    by (cases ys) auto
  have "l # (xs @ ys) @ [l] = ps @ p # n # ns"
    using ps ns by (metis append.assoc append_Cons append_Nil)
  then have "seg h (l # (xs @ ys) @ [l]) \<longleftrightarrow>
      seg h (ps @ [p]) \<and> nxt (h p) = n \<and> prv (h n) = p \<and> seg h (n # ns)"
    using seg_append [of h ps p "n # ns"] by simp
  moreover have "last (l # xs) = p" "hd (ys @ [l]) = n"
    using ps ns by simp_all
  ultimately show ?thesis
    by (simp add: is_list_def ps [symmetric] ns [symmetric] conj_assoc)
qed

lemma INIT_LIST_HEAD_list: "is_list (INIT_LIST_HEAD h l) l []"
  by (simp add: is_list_def INIT_LIST_HEAD_def Let_def)

text \<open>A ring represents one list only.\<close>

lemma seg_unique:
  assumes "seg h (a # xs @ [l])" and "seg h (a # ys @ [l])" and "l \<notin> set xs" "l \<notin> set ys"
  shows "xs = ys"
  using assms
proof (induction xs arbitrary: a ys)
  case Nil
  then show ?case
    by (cases ys) auto
next
  case (Cons x xs)
  then obtain y zs where ys: "ys = y # zs"
    by (cases ys) auto
  then have "y = x"
    using Cons.prems by simp
  then show ?case
    using Cons.IH [of x zs] Cons.prems by (simp add: ys)
qed

lemma is_list_unique: "is_list h l xs \<Longrightarrow> is_list h l ys \<Longrightarrow> xs = ys"
  unfolding is_list_def by (auto intro: seg_unique)

lemma list_empty_iff: "is_list h l xs \<Longrightarrow> list_empty h l \<longleftrightarrow> xs = []"
  by (cases xs) (auto simp: is_list_def list_empty_def)

lemma is_list_first: "is_list h l xs \<Longrightarrow> nxt (h l) = hd (xs @ [l])"
  using is_list_split [of h l "[]" xs] by simp

lemma is_list_last: "is_list h l xs \<Longrightarrow> prv (h l) = last (l # xs)"
  using is_list_split [of h l xs "[]"] by simp

lemma is_list_next:
  "is_list h l (xs @ x # ys) \<Longrightarrow> nxt (h x) = hd (ys @ [l]) \<and> prv (h x) = last (l # xs)"
  using is_list_split [of h l "xs @ [x]" ys] is_list_split [of h l xs "x # ys"] by auto

lemma list_is_singular_iff: "is_list h l xs \<Longrightarrow> list_is_singular h l \<longleftrightarrow> (\<exists>x. xs = [x])"
proof -
  assume l: "is_list h l xs"
  have "hd (xs @ [l]) = last (l # xs) \<longleftrightarrow> (\<exists>x. xs = [x])" if "xs \<noteq> []"
  proof -
    obtain x xs' where xs: "xs = x # xs'"
      using \<open>xs \<noteq> []\<close> by (cases xs) auto
    have "distinct (x # xs')"
      using l xs by (simp add: is_list_def)
    then show ?thesis
      using xs by (cases xs' rule: rev_cases) auto
  qed
  then show ?thesis
    using l by (auto simp: list_is_singular_def list_empty_iff is_list_first is_list_last)
qed

section \<open>Insertion and removal\<close>

lemma last_notin_butlast: "distinct xs \<Longrightarrow> xs \<noteq> [] \<Longrightarrow> last xs \<notin> set (butlast xs)"
  by (metis append_butlast_last_id disjoint_iff distinct_append list.set_intros(1))

lemma hd_notin_tl: "distinct xs \<Longrightarrow> xs \<noteq> [] \<Longrightarrow> hd xs \<notin> set (tl xs)"
  by (cases xs) auto

lemma list_add_between_sel:
  assumes "new \<noteq> p" and "new \<noteq> n"
  shows "nxt (list_add_between h new p n a) = (if a = p then new else if a = new then n else nxt (h a))"
    and "prv (list_add_between h new p n a) = (if a = n then new else if a = new then p else prv (h a))"
  using assms by (auto simp: list_add_between_def Let_def)

lemma list_add_between_list:
  assumes l: "is_list h l (xs @ ys)" and new: "new \<notin> set (l # xs @ ys)"
  shows "is_list (list_add_between h new (last (l # xs)) (hd (ys @ [l]))) l (xs @ new # ys)"
proof -
  let ?p = "last (l # xs)" and ?n = "hd (ys @ [l])"
  let ?h = "list_add_between h new ?p ?n"
  have d: "distinct (l # xs @ ys)" and s1: "seg h (l # xs)" and s2: "seg h (ys @ [l])"
    using l by (auto simp: is_list_split)
  have p: "?p \<in> set (l # xs)" and n: "?n \<in> set (ys @ [l])"
    by (auto simp: hd_append)
  have ne: "new \<noteq> ?p" "new \<noteq> ?n"
    using new p n by auto
  note sel = list_add_between_sel [OF ne]
  have "seg ?h (l # xs) = seg h (l # xs)"
  proof (rule seg_cong)
    fix a assume "a \<in> set (butlast (l # xs))"
    then show "nxt (?h a) = nxt (h a)"
      unfolding sel using last_notin_butlast [of "l # xs"] d new in_set_butlastD [of a "l # xs"] by auto
  next
    fix a assume "a \<in> set (tl (l # xs))"
    then show "prv (?h a) = prv (h a)"
      unfolding sel using d new n by auto
  qed
  moreover have "seg ?h (ys @ [l]) = seg h (ys @ [l])"
  proof (rule seg_cong)
    fix a assume "a \<in> set (butlast (ys @ [l]))"
    then show "nxt (?h a) = nxt (h a)"
      unfolding sel using d new p by auto
  next
    fix a assume "a \<in> set (tl (ys @ [l]))"
    then show "prv (?h a) = prv (h a)"
      unfolding sel using d new hd_notin_tl [of "ys @ [l]"] list.set_sel(2) [of "ys @ [l]" a] by auto
  qed
  moreover have "nxt (?h ?p) = new" "prv (?h new) = ?p" "nxt (?h new) = ?n" "prv (?h ?n) = new"
    unfolding sel using ne by simp_all
  ultimately show ?thesis
    using d new s1 s2 by (cases ys) (auto simp: is_list_split)
qed

lemma list_add_list:
  assumes "is_list h l xs" and "new \<notin> set (l # xs)"
  shows "is_list (list_add h new l) l (new # xs)"
  using list_add_between_list [of h l "[]" xs new] assms
  by (simp add: list_add_def is_list_first)

lemma list_add_tail_list:
  assumes "is_list h l xs" and "new \<notin> set (l # xs)"
  shows "is_list (list_add_tail h new l) l (xs @ [new])"
  using list_add_between_list [of h l xs "[]" new] assms
  by (simp add: list_add_tail_def is_list_last)

lemma list_del_sel:
  assumes "e \<noteq> prv (h e)" and "e \<noteq> nxt (h e)"
  shows "nxt (list_del h e a) =
      (if a = e then NULL else if a = prv (h e) then nxt (h e) else nxt (h a))"
    and "prv (list_del h e a) =
      (if a = e then NULL else if a = nxt (h e) then prv (h e) else prv (h a))"
  using assms by (auto simp: list_del_def list_del_between_def Let_def)

lemma list_del_list:
  assumes l: "is_list h l (xs @ e # ys)"
  shows "is_list (list_del h e) l (xs @ ys)"
proof -
  let ?p = "last (l # xs)" and ?n = "hd (ys @ [l])"
  let ?h = "list_del h e"
  have d: "distinct (l # xs @ e # ys)" and s1: "seg h (l # xs)"
    using l by (auto simp: is_list_split)
  have s2: "seg h (ys @ [l])"
    using l is_list_split [of h l "xs @ [e]" ys] by simp
  have p: "?p \<in> set (l # xs)" and n: "?n \<in> set (ys @ [l])"
    by (auto simp: hd_append)
  have e: "nxt (h e) = ?n" "prv (h e) = ?p"
    using is_list_next [OF l] by simp_all
  have ne: "e \<noteq> ?p" "e \<noteq> ?n"
    using d p n by auto
  note sel = list_del_sel [of e h, unfolded e, OF ne]
  have "seg ?h (l # xs) = seg h (l # xs)"
  proof (rule seg_cong)
    fix a assume "a \<in> set (butlast (l # xs))"
    then show "nxt (?h a) = nxt (h a)"
      unfolding sel using last_notin_butlast [of "l # xs"] d in_set_butlastD [of a "l # xs"] by auto
  next
    fix a assume "a \<in> set (tl (l # xs))"
    then show "prv (?h a) = prv (h a)"
      unfolding sel using d n by auto
  qed
  moreover have "seg ?h (ys @ [l]) = seg h (ys @ [l])"
  proof (rule seg_cong)
    fix a assume "a \<in> set (butlast (ys @ [l]))"
    then show "nxt (?h a) = nxt (h a)"
      unfolding sel using d p by auto
  next
    fix a assume "a \<in> set (tl (ys @ [l]))"
    then show "prv (?h a) = prv (h a)"
      unfolding sel using d hd_notin_tl [of "ys @ [l]"] list.set_sel(2) [of "ys @ [l]" a] by auto
  qed
  moreover have "nxt (?h ?p) = ?n" "prv (?h ?n) = ?p"
    unfolding sel using ne by simp_all
  ultimately show ?thesis
    using d s1 s2 by (auto simp: is_list_split)
qed

section \<open>Frames\<close>

lemma list_add_between_frame: "a \<notin> {new, p, n} \<Longrightarrow> list_add_between h new p n a = h a"
  by (simp add: list_add_between_def set_next_def set_prev_def Let_def)

lemma list_del_frame: "a \<notin> {e, prv (h e), nxt (h e)} \<Longrightarrow> list_del h e a = h a"
  by (simp add: list_del_def list_del_between_def set_next_def set_prev_def Let_def)

lemma list_add_frame:
  assumes "is_list h l xs" and "a \<notin> set (new # l # xs)"
  shows "list_add h new l a = h a"
  unfolding list_add_def
  by (rule list_add_between_frame) (use assms in \<open>auto simp: is_list_first hd_append\<close>)

lemma list_add_tail_frame:
  assumes "is_list h l xs" and "a \<notin> set (new # l # xs)"
  shows "list_add_tail h new l a = h a"
  unfolding list_add_tail_def
  by (rule list_add_between_frame) (use assms in \<open>auto simp: is_list_last\<close>)

lemma list_del_list_frame:
  assumes "is_list h l (xs @ e # ys)" and "a \<notin> set (l # xs @ e # ys)"
  shows "list_del h e a = h a"
proof (rule list_del_frame)
  have "prv (h e) \<in> set (l # xs)" "nxt (h e) \<in> set (ys @ [l])"
    using is_list_next [OF assms(1)] by (auto simp: hd_append)
  then show "a \<notin> {e, prv (h e), nxt (h e)}"
    using assms(2) by auto
qed

section \<open>The interface\<close>

text \<open>
  What a client of the list relies on: the effect of each operation on the represented
  list, and that no operation on one list disturbs another that shares no node with it.
\<close>

locale node_list =
  fixes add_head :: "'h \<Rightarrow> 'n \<Rightarrow> 'n \<Rightarrow> 'h"
    and add_tail :: "'h \<Rightarrow> 'n \<Rightarrow> 'n \<Rightarrow> 'h"
    and del :: "'h \<Rightarrow> 'n \<Rightarrow> 'h"
    and is_empty :: "'h \<Rightarrow> 'n \<Rightarrow> bool"
    and first :: "'h \<Rightarrow> 'n \<Rightarrow> 'n"
    and rep :: "'h \<Rightarrow> 'n \<Rightarrow> 'n list \<Rightarrow> bool"
  assumes rep_add_head: "rep h l xs \<Longrightarrow> new \<notin> set (l # xs) \<Longrightarrow> rep (add_head h new l) l (new # xs)"
    and rep_add_tail: "rep h l xs \<Longrightarrow> new \<notin> set (l # xs) \<Longrightarrow> rep (add_tail h new l) l (xs @ [new])"
    and rep_del: "rep h l (xs @ e # ys) \<Longrightarrow> rep (del h e) l (xs @ ys)"
    and rep_distinct: "rep h l xs \<Longrightarrow> distinct (l # xs)"
    and is_empty_iff: "rep h l xs \<Longrightarrow> is_empty h l \<longleftrightarrow> xs = []"
    and first_eq: "rep h l (x # xs) \<Longrightarrow> first h l = x"
    and frame_add_head: "rep h l xs \<Longrightarrow> rep h k ys \<Longrightarrow> set (new # l # xs) \<inter> set (k # ys) = {} \<Longrightarrow>
          rep (add_head h new l) k ys"
    and frame_add_tail: "rep h l xs \<Longrightarrow> rep h k ys \<Longrightarrow> set (new # l # xs) \<inter> set (k # ys) = {} \<Longrightarrow>
          rep (add_tail h new l) k ys"
    and frame_del: "rep h l (xs @ e # ys) \<Longrightarrow> rep h k zs \<Longrightarrow>
          set (l # xs @ e # ys) \<inter> set (k # zs) = {} \<Longrightarrow> rep (del h e) k zs"
begin

text \<open>Taking the first node of one list and appending it to another.\<close>

lemma pop_first:
  assumes "rep h l (x # xs)"
  shows "rep (del h (first h l)) l xs"
  using rep_del [of h l "[]" x xs] first_eq [OF assms] assms by simp

lemma move_first:
  assumes l: "rep h l (x # xs)" and k: "rep h k ys"
    and disj: "set (l # x # xs) \<inter> set (k # ys) = {}"
  shows "rep (add_tail (del h (first h l)) (first h l) k) l xs"
    and "rep (add_tail (del h (first h l)) (first h l) k) k (ys @ [x])"
proof -
  have f: "first h l = x"
    using l by (rule first_eq)
  have l': "rep (del h x) l xs"
    using pop_first [OF l] by (simp add: f)
  have k': "rep (del h x) k ys"
    using frame_del [of h l "[]" x xs k ys] l k disj by simp
  have x: "x \<notin> set (l # xs)" "x \<notin> set (k # ys)"
    using rep_distinct [OF l] disj by auto
  show "rep (add_tail (del h (first h l)) (first h l) k) l xs"
    unfolding f by (rule frame_add_tail [OF k' l']) (use x disj in auto)
  show "rep (add_tail (del h (first h l)) (first h l) k) k (ys @ [x])"
    unfolding f by (rule rep_add_tail [OF k' x(2)])
qed

lemmas rep_intros = rep_add_head rep_add_tail rep_del

end

lemma other_list:
  assumes "is_list h k ys" and "\<And>a. a \<in> set (k # ys) \<Longrightarrow> h' a = h a"
  shows "is_list h' k ys"
  using assms is_list_cong [of k ys h' h] by simp

interpretation ll: node_list list_add list_add_tail list_del list_empty "\<lambda>h l. nxt (h l)" is_list
proof (unfold_locales, goal_cases)
  case (1 h l xs new)
  then show ?case by (rule list_add_list)
next
  case (2 h l xs new)
  then show ?case by (rule list_add_tail_list)
next
  case (3 h l xs e ys)
  then show ?case by (rule list_del_list)
next
  case (4 h l xs)
  then show ?case by (simp add: is_list_def)
next
  case (5 h l xs)
  then show ?case by (rule list_empty_iff)
next
  case (6 h l x xs)
  then show ?case by (simp add: is_list_first)
next
  case (7 h l xs k ys new)
  then show ?case
    by (intro other_list [OF 7(2)] list_add_frame [OF 7(1)]) auto
next
  case (8 h l xs k ys new)
  then show ?case
    by (intro other_list [OF 8(2)] list_add_tail_frame [OF 8(1)]) auto
next
  case (9 h l xs e ys k zs)
  then show ?case
    by (intro other_list [OF 9(2)] list_del_list_frame [OF 9(1)]) auto
qed

section \<open>Traversal\<close>

text \<open>
  \<^verbatim>\<open>list_for_each_entry\<close> with a body that leaves the loop at the first node satisfying a
  test. On a broken ring the traversal need not end; the outer option is \<open>None\<close> then.
\<close>

partial_function (option) list_find :: "nodes \<Rightarrow> u64 \<Rightarrow> (u64 \<Rightarrow> bool) \<Rightarrow> u64 \<Rightarrow> u64 option option" where
  "list_find h head P pos =
     (if pos = head then Some None
      else if P pos then Some (Some pos)
      else list_find h head P (nxt (h pos)))"

lemma list_find_from:
  assumes "is_list h l (xs @ ys)"
  shows "list_find h l P (hd (ys @ [l])) = Some (List.find P ys)"
  using assms
proof (induction ys arbitrary: xs)
  case Nil
  then show ?case
    by (simp add: list_find.simps)
next
  case (Cons y ys)
  have "y \<noteq> l"
    using Cons.prems by (auto simp: is_list_def)
  moreover have "nxt (h y) = hd (ys @ [l])"
    using is_list_next [OF Cons.prems] by simp
  moreover have "list_find h l P (hd (ys @ [l])) = Some (List.find P ys)"
    using Cons.IH [of "xs @ [y]"] Cons.prems by simp
  ultimately show ?case
    by (simp add: list_find.simps [of _ _ _ y])
qed

lemma list_find_list:
  assumes "is_list h l xs"
  shows "list_find h l P (nxt (h l)) = Some (List.find P xs)"
  using list_find_from [of h l "[]" xs P] assms by (simp add: is_list_first)

section \<open>Properties\<close>

text \<open>
  C38. Appending a node and taking the first one off is a first-in first-out queue: the
  ring loses its first node, gains the new one at the end, keeps every other node in order,
  and the removed node's links are cleared.
\<close>

theorem list_fifo:
  assumes "is_list h l (x # xs)" and "new \<notin> set (l # x # xs)"
  shows "is_list (list_del (list_add_tail h new l) (nxt (h l))) l (xs @ [new]) \<and>
         list_del (list_add_tail h new l) (nxt (h l)) x = \<lparr>nxt = NULL, prv = NULL\<rparr>"
proof -
  have t: "is_list (list_add_tail h new l) l (x # xs @ [new])"
    using ll.rep_add_tail [OF assms] by simp
  have f: "nxt (h l) = x"
    using assms(1) by (rule ll.first_eq)
  have "is_list (list_del (list_add_tail h new l) x) l (xs @ [new])"
    using ll.rep_del [of _ l "[]" x "xs @ [new]"] t by simp
  moreover have "nxt (list_del g x x) = NULL" "prv (list_del g x x) = NULL" for g
    by (simp_all add: list_del_def Let_def)
  ultimately show ?thesis
    by (simp add: f)
qed

text \<open>
  Removing the node that was just inserted, at either end, gives back a ring over the
  same nodes, and touches no node outside the ring and the inserted one.
\<close>

theorem list_add_del_roundtrip:
  assumes "is_list h l xs" and "new \<notin> set (l # xs)"
  shows "is_list (list_del (list_add h new l) new) l xs \<and>
         is_list (list_del (list_add_tail h new l) new) l xs \<and>
         (\<forall>a. a \<notin> set (new # l # xs) \<longrightarrow> list_del (list_add h new l) new a = h a)"
proof -
  have h: "is_list (list_add h new l) l ([] @ new # xs)"
    and t: "is_list (list_add_tail h new l) l (xs @ new # [])"
    using ll.rep_add_head [OF assms] ll.rep_add_tail [OF assms] by simp_all
  have "list_del (list_add h new l) new a = h a" if "a \<notin> set (new # l # xs)" for a
    using list_del_list_frame [OF h] list_add_frame [OF assms(1)] that by simp
  then show ?thesis
    using ll.rep_del [OF h] ll.rep_del [OF t] by simp
qed

section \<open>Instances\<close>

text \<open>A ring of one node, at address 2, anchored at address 1.\<close>

definition sample_nodes :: nodes where
  "sample_nodes = list_add_tail (INIT_LIST_HEAD (\<lambda>_. \<lparr>nxt = 0, prv = 0\<rparr>) 1) 2 1"

lemma sample_nodes_ring: "is_list sample_nodes 1 [2]"
  using ll.rep_add_tail [OF INIT_LIST_HEAD_list, of 2 1] by (simp add: sample_nodes_def)

theorem list_fifo_witness:
  "is_list (list_del (list_add_tail sample_nodes 3 1) (nxt (sample_nodes 1))) 1 ([] @ [3]) \<and>
   list_del (list_add_tail sample_nodes 3 1) (nxt (sample_nodes 1)) 2 = \<lparr>nxt = NULL, prv = NULL\<rparr>"
  by (rule list_fifo) (simp_all add: sample_nodes_ring)

theorem list_add_del_roundtrip_witness:
  "is_list (list_del (list_add sample_nodes 3 1) 3) 1 [2] \<and>
   is_list (list_del (list_add_tail sample_nodes 3 1) 3) 1 [2] \<and>
   list_del (list_add sample_nodes 3 1) 3 9 = sample_nodes 9"
  using list_add_del_roundtrip [OF sample_nodes_ring, of 3] by simp

end
