(* ===== verification/Heap.thy ===== *)
theory Heap
  imports Vmm_Spec Klist
begin

text \<open>
  The kernel heap of \<^verbatim>\<open>kernel/memory/heap.c\<close>: first fit over a ring of free blocks whose
  headers precede their data, growing by whole pages mapped after the heap's end. The
  invariant is that the blocks tile the heap, and that the ring holds exactly the free ones.
\<close>

section \<open>State\<close>

text \<open>
  The headers are typed stores over block addresses: \<open>blk_size\<close> and \<open>blk_free\<close> for the two
  scalars, \<open>elems\<close> for the list nodes, which lie 16 bytes into the header. \<open>heap_bytes\<close> is
  the data, by virtual address. \<open>free_list\<close> is the address of the ring's anchor.
\<close>

record heap = pmm +
  blk_size :: "u64 \<Rightarrow> u64"
  blk_free :: "u64 \<Rightarrow> bool"
  elems :: nodes
  heap_bytes :: mem
  free_list :: u64
  heap_current_virtual :: u64

definition HEADER_SIZE :: u64 where "HEADER_SIZE = 32"

text \<open>\<^verbatim>\<open>&block->elem\<close> and \<^verbatim>\<open>container_of\<close>.\<close>

definition elem_of :: "u64 \<Rightarrow> u64" where "elem_of block = block + 16"
definition block_of :: "u64 \<Rightarrow> u64" where "block_of elem = elem - 16"

definition round16 :: "u64 \<Rightarrow> u64" where "round16 sz = (sz + 15) AND NOT 15"

section \<open>Operations\<close>

definition heap_init :: "u64 \<Rightarrow> 'a heap_scheme \<Rightarrow> 'a heap_scheme" where
  "heap_init heap_start s =
     (let heap_start_vaddr = (heap_start + PAGE_SIZE - 1) AND PAGE_FRAME_MASK
      in s\<lparr>heap_current_virtual := heap_start_vaddr\<rparr>)"

text \<open>The loop of \<^verbatim>\<open>expand_heap\<close>; \<open>Inr\<close> in the loop is leaving the function.\<close>

definition expand_pages :: "u64 \<Rightarrow> u64 \<Rightarrow> 'a heap_scheme \<Rightarrow> 'a heap_scheme + (bool \<times> 'a heap_scheme) outcome" where
  "expand_pages pml4 pages_needed s =
     for_until 0 pages_needed (\<lambda>i s.
       case pmm_alloc_page s of
         Inl p \<Rightarrow> Inr (Inl p)
       | Inr (phys, s) \<Rightarrow>
           if phys = 0 then Inr (Inr (False, s)) else
           (case vmm_map_page s pml4 (heap_current_virtual s + i * PAGE_SIZE) phys
                   (VMM_FLAG_PRESENT OR VMM_FLAG_WRITABLE) of
              Inl p \<Rightarrow> Inr (Inl p)
            | Inr (ok, s) \<Rightarrow> if \<not> ok then Inr (Inr (False, s)) else Inl s)) s"

definition expand_heap :: "u64 \<Rightarrow> 'a heap_scheme \<Rightarrow> (bool \<times> 'a heap_scheme) outcome" where
  "expand_heap minimum_size s =
     (let total_needed = minimum_size + HEADER_SIZE;
          pages_needed = (total_needed + PAGE_SIZE - 1) div PAGE_SIZE;
          bytes_allocated = pages_needed * PAGE_SIZE;
          new_block = heap_current_virtual s;
          pml4 = P2V s (get_current_cr3 s)
      in case expand_pages pml4 pages_needed s of
           Inr r \<Rightarrow> r
         | Inl s \<Rightarrow>
             let s = s\<lparr>heap_current_virtual := heap_current_virtual s + bytes_allocated\<rparr>;
                 s = s\<lparr>blk_size := (blk_size s)(new_block := bytes_allocated - HEADER_SIZE)\<rparr>;
                 s = s\<lparr>blk_free := (blk_free s)(new_block := True)\<rparr>;
                 s = s\<lparr>elems := list_add_tail (elems s) (elem_of new_block) (free_list s)\<rparr>
             in Inr (True, s))"

text \<open>
  The body of the loop in \<^verbatim>\<open>kmalloc\<close> for a block that is large enough, and the part of it
  that \<^verbatim>\<open>krealloc\<close> repeats: cutting a free block off the end.
\<close>

definition split_block :: "u64 \<Rightarrow> u64 \<Rightarrow> 'a heap_scheme \<Rightarrow> 'a heap_scheme" where
  "split_block block sz s =
     (let remainder = block + HEADER_SIZE + sz;
          s = s\<lparr>blk_size := (blk_size s)(remainder := blk_size s block - sz - HEADER_SIZE)\<rparr>;
          s = s\<lparr>blk_free := (blk_free s)(remainder := True)\<rparr>;
          s = s\<lparr>elems := list_add (elems s) (elem_of remainder) (free_list s)\<rparr>
      in s\<lparr>blk_size := (blk_size s)(block := sz)\<rparr>)"

definition take_block :: "u64 \<Rightarrow> u64 \<Rightarrow> 'a heap_scheme \<Rightarrow> u64 \<times> 'a heap_scheme" where
  "take_block cur sz s =
     (let s = s\<lparr>elems := list_del (elems s) (elem_of cur)\<rparr>;
          s = (if blk_size s cur \<ge> sz + HEADER_SIZE + 16 then split_block cur sz s else s);
          s = s\<lparr>blk_free := (blk_free s)(cur := False)\<rparr>
      in (cur + HEADER_SIZE, s))"

partial_function (option) kmalloc :: "u64 \<Rightarrow> 'a heap_scheme \<Rightarrow> (u64 \<times> 'a heap_scheme) outcome option" where
  "kmalloc sz s =
     (if sz = 0 then Some (Inr (NULL, s)) else
      case list_find (elems s) (free_list s) (\<lambda>e. blk_size s (block_of e) \<ge> round16 sz)
             (nxt (elems s (free_list s))) of
        None \<Rightarrow> None
      | Some (Some e) \<Rightarrow> Some (Inr (take_block (block_of e) (round16 sz) s))
      | Some None \<Rightarrow>
          (case expand_heap (round16 sz) s of
             Inl p \<Rightarrow> Some (Inl p)
           | Inr (ok, s') \<Rightarrow>
               if \<not> ok then Some (Inr (NULL, s')) else kmalloc (round16 sz) s'))"

definition kfree :: "u64 \<Rightarrow> 'a heap_scheme \<Rightarrow> 'a heap_scheme" where
  "kfree ptr s =
     (if ptr = NULL then s else
      let block = ptr - HEADER_SIZE in
      if blk_free s block then s else
      let s = s\<lparr>blk_free := (blk_free s)(block := True)\<rparr>
      in s\<lparr>elems := list_add (elems s) (elem_of block) (free_list s)\<rparr>)"

definition map_result :: "('a \<Rightarrow> 'b) \<Rightarrow> 'a outcome option \<Rightarrow> 'b outcome option" where
  "map_result f r =
     (case r of None \<Rightarrow> None | Some (Inl p) \<Rightarrow> Some (Inl p) | Some (Inr a) \<Rightarrow> Some (Inr (f a)))"

definition kcalloc :: "u64 \<Rightarrow> u64 \<Rightarrow> 'a heap_scheme \<Rightarrow> (u64 \<times> 'a heap_scheme) outcome option" where
  "kcalloc num sz s =
     (let total_size = num * sz
      in map_result (\<lambda>(ptr, s).
           (ptr, if ptr \<noteq> NULL
                 then s\<lparr>heap_bytes := memset (heap_bytes s) ptr 0 total_size\<rparr> else s))
         (kmalloc total_size s))"

definition krealloc ::
  "u64 \<Rightarrow> u64 \<Rightarrow> 'a heap_scheme \<Rightarrow> (u64 \<times> 'a heap_scheme) outcome option" where
  "krealloc ptr new_size s =
     (if ptr = NULL then kmalloc new_size s else
      if new_size = 0 then Some (Inr (NULL, kfree ptr s)) else
      let new_size = round16 new_size;
          block = ptr - HEADER_SIZE
      in if blk_size s block = new_size then Some (Inr (ptr, s)) else
         if blk_size s block > new_size then
           let s = (if blk_size s block - new_size \<ge> HEADER_SIZE + 16
                    then split_block block new_size s else s)
           in Some (Inr (ptr, s))
         else
           map_result (\<lambda>(new_ptr, s).
             (new_ptr, if new_ptr \<noteq> NULL
                then kfree ptr (s\<lparr>heap_bytes :=
                       memcpy (heap_bytes s) new_ptr ptr (blk_size s block)\<rparr>)
                else s))
           (kmalloc new_size s))"

section \<open>The blocks tile the heap\<close>

fun tile :: "(u64 \<Rightarrow> u64) \<Rightarrow> nat \<Rightarrow> u64 list \<Rightarrow> nat \<Rightarrow> bool" where
  "tile sz a [] e \<longleftrightarrow> a = e"
| "tile sz a (b # bs) e \<longleftrightarrow> unat b = a \<and> tile sz (a + 32 + unat (sz b)) bs e"

lemma tile_append:
  "tile sz a (xs @ ys) e \<longleftrightarrow> (\<exists>m. tile sz a xs m \<and> tile sz m ys e)"
  by (induction xs arbitrary: a) auto

lemma tile_le: "tile sz a bs e \<Longrightarrow> a \<le> e"
proof (induction bs arbitrary: a)
  case (Cons b bs)
  then have "a + 32 + unat (sz b) \<le> e"
    by simp
  then show ?case
    by simp
qed simp

lemma tile_cong:
  "(\<And>b. b \<in> set bs \<Longrightarrow> sz' b = sz b) \<Longrightarrow> tile sz' a bs e = tile sz a bs e"
  by (induction bs arbitrary: a) auto

lemma tile_in:
  assumes "tile sz a bs e" and "b \<in> set bs"
  shows "a \<le> unat b" and "unat b + 32 + unat (sz b) \<le> e"
proof -
  obtain xs ys where "bs = xs @ b # ys"
    using assms(2) by (meson split_list)
  then obtain m where m: "tile sz a xs m" "unat b = m" "tile sz (m + 32 + unat (sz b)) ys e"
    using assms(1) by (auto simp: tile_append)
  show "a \<le> unat b" "unat b + 32 + unat (sz b) \<le> e"
    using tile_le [OF m(1)] tile_le [OF m(3)] m(2) by simp_all
qed

text \<open>Two different blocks do not overlap, headers included.\<close>

lemma tile_apart:
  assumes "tile sz a bs e" and "b \<in> set bs" "c \<in> set bs" "b \<noteq> c"
  shows "unat b + 32 + unat (sz b) \<le> unat c \<or> unat c + 32 + unat (sz c) \<le> unat b"
  using assms
proof (induction bs arbitrary: a)
  case (Cons x bs)
  then show ?case
    using tile_in(1) [of sz "a + 32 + unat (sz x)" bs e b]
      tile_in(1) [of sz "a + 32 + unat (sz x)" bs e c] by auto
qed simp

section \<open>The invariant\<close>

text \<open>
  \<open>bs\<close> are the blocks in address order, \<open>fs\<close> the free ones in list order, \<open>D\<close> the blocks that
  an operation has taken off the list for the moment. The list's anchor lies below the heap.
\<close>

definition heap_wf :: "nat \<Rightarrow> 'a heap_scheme \<Rightarrow> u64 list \<Rightarrow> u64 list \<Rightarrow> u64 set \<Rightarrow> bool" where
  "heap_wf a s bs fs D \<longleftrightarrow>
     tile (blk_size s) a bs (unat (heap_current_virtual s)) \<and>
     a mod 16 = 0 \<and> (\<forall>b \<in> set bs. unat (blk_size s b) mod 16 = 0) \<and>
     is_list (elems s) (free_list s) (map elem_of fs) \<and>
     set fs = {b \<in> set bs. blk_free s b} - D \<and> unat (free_list s) < a"

abbreviation heap_ok :: "nat \<Rightarrow> 'a heap_scheme \<Rightarrow> u64 list \<Rightarrow> u64 list \<Rightarrow> bool" where
  "heap_ok a s bs fs \<equiv> heap_wf a s bs fs {}"

definition allocated :: "'a heap_scheme \<Rightarrow> u64 list \<Rightarrow> u64 set" where
  "allocated s bs = {b \<in> set bs. \<not> blk_free s b}"

lemma elem_of_inj [simp]: "elem_of b = elem_of c \<longleftrightarrow> b = c"
  by (simp add: elem_of_def)

lemma block_of_elem [simp]: "block_of (elem_of b) = b"
  by (simp add: block_of_def elem_of_def)

lemma heap_wf_bounds:
  assumes "heap_wf a s bs fs D" and "b \<in> set bs"
  shows "unat b + 32 + unat (blk_size s b) < 2 ^ 64" and "a \<le> unat b"
    and "unat (elem_of b) = unat b + 16" and "elem_of b \<noteq> free_list s"
    and "unat (b + HEADER_SIZE) = unat b + 32"
proof -
  have t: "tile (blk_size s) a bs (unat (heap_current_virtual s))" and l: "unat (free_list s) < a"
    using assms(1) by (simp_all add: heap_wf_def)
  show 1: "unat b + 32 + unat (blk_size s b) < 2 ^ 64" and 2: "a \<le> unat b"
    using tile_in [OF t assms(2)] unat64_bound [of "heap_current_virtual s"] by simp_all
  show 3: "unat (elem_of b) = unat b + 16"
    unfolding elem_of_def using 1 by (subst unat_add_no_overflow) simp_all
  show "elem_of b \<noteq> free_list s"
    using 2 3 l by auto
  show "unat (b + HEADER_SIZE) = unat b + 32"
    unfolding HEADER_SIZE_def using 1 by (subst unat_add_no_overflow) simp_all
qed

text \<open>Block addresses and data pointers are multiples of 16.\<close>

lemma tile_aligned:
  assumes "tile sz a bs e" and "a mod 16 = 0" and "\<forall>b \<in> set bs. unat (sz b) mod 16 = 0"
    and "b \<in> set bs"
  shows "unat b mod 16 = 0"
  using assms
proof (induction bs arbitrary: a)
  case (Cons x bs)
  have "(a + 32 + unat (sz x)) mod 16 = 0"
    using Cons.prems by (simp add: mod_add_eq [symmetric])
  then show ?case
    using Cons.IH [of "a + 32 + unat (sz x)"] Cons.prems by auto
qed simp

lemma heap_aligned:
  assumes "heap_wf a s bs fs D" and "b \<in> set bs"
  shows "unat (b + HEADER_SIZE) mod 16 = 0"
proof -
  have "unat b mod 16 = 0"
    using tile_aligned [of "blk_size s" a bs _ b] assms by (auto simp: heap_wf_def)
  then show ?thesis
    unfolding heap_wf_bounds(5) [OF assms] by presburger
qed

section \<open>Splitting and taking a block\<close>

lemma split_block_fields [simp]:
  "blk_size (split_block b n s) =
     (blk_size s)(b + HEADER_SIZE + n := blk_size s b - n - HEADER_SIZE, b := n)"
  "blk_free (split_block b n s) = (blk_free s)(b + HEADER_SIZE + n := True)"
  "elems (split_block b n s) = list_add (elems s) (elem_of (b + HEADER_SIZE + n)) (free_list s)"
  "free_list (split_block b n s) = free_list s"
  "heap_current_virtual (split_block b n s) = heap_current_virtual s"
  "heap_bytes (split_block b n s) = heap_bytes s"
  by (simp_all add: split_block_def Let_def)

lemma split_block_ok:
  assumes wf: "heap_wf a s bs fs {b}" and b: "b \<in> set bs"
    and n: "unat n mod 16 = 0" "unat n + 48 \<le> unat (blk_size s b)" and r: "r = b + HEADER_SIZE + n"
  shows "r \<notin> set bs" and "unat r = unat b + 32 + unat n" and "r \<noteq> b"
    and "\<exists>bs'. heap_wf a (split_block b n s) bs' (r # fs) {b} \<and> set bs' = insert r (set bs)"
proof -
  have t: "tile (blk_size s) a bs (unat (heap_current_virtual s))"
    using wf by (simp add: heap_wf_def)
  note bd = heap_wf_bounds [OF wf b]
  show ur: "unat r = unat b + 32 + unat n"
    unfolding r using bd(1,5) n(2) by (subst unat_add_no_overflow) simp_all
  then show ne: "r \<noteq> b"
    by auto
  show rn: "r \<notin> set bs"
    using tile_apart [OF t b _ ne [symmetric]] ur n(2) by auto
  have "unat (blk_size s b - n) = unat (blk_size s b) - unat n"
    using n(2) by (subst unat_sub) (simp_all add: word_le_nat_alt)
  then have rest: "unat (blk_size s b - n - HEADER_SIZE) = unat (blk_size s b) - unat n - 32"
    unfolding HEADER_SIZE_def using n(2) by (subst unat_sub) (simp_all add: word_le_nat_alt)
  have end_eq: "unat r + 32 + unat (blk_size s b - n - HEADER_SIZE) =
      unat b + 32 + unat (blk_size s b)"
    unfolding rest ur using n(2) by simp
  obtain xs ys where bs: "bs = xs @ b # ys"
    using b by (meson split_list)
  have dist: "b \<notin> set xs" "b \<notin> set ys"
  proof -
    obtain m where m: "tile (blk_size s) a xs m" "unat b = m"
      "tile (blk_size s) (m + 32 + unat (blk_size s b)) ys (unat (heap_current_virtual s))"
      using t by (auto simp: bs tile_append)
    show "b \<notin> set xs" "b \<notin> set ys"
      using tile_in [OF m(1), of b] tile_in [OF m(3), of b] m(2) by auto
  qed
  let ?t = "split_block b n s"
  let ?bs = "xs @ b # r # ys"
  have keep: "blk_size ?t c = blk_size s c" if "c \<in> set xs \<union> set ys" for c
    using that dist rn bs by (auto simp: r [symmetric])
  have keeps_tile: "tile (blk_size ?t) m xs k = tile (blk_size s) m xs k"
    "tile (blk_size ?t) m ys k = tile (blk_size s) m ys k" for m k
    by (rule tile_cong, use keep in blast)+
  then have "tile (blk_size ?t) a ?bs (unat (heap_current_virtual ?t))"
  proof -
    have "tile (blk_size s) a xs (unat b)" and
      "tile (blk_size s) (unat b + 32 + unat (blk_size s b)) ys (unat (heap_current_virtual s))"
      using t by (auto simp: bs tile_append)
    then show ?thesis
      unfolding end_eq [symmetric] using keeps_tile ur ne
      by (auto simp: bs tile_append r [symmetric])
  qed
  moreover have "\<forall>c \<in> set ?bs. unat (blk_size ?t c) mod 16 = 0"
  proof -
    have old: "\<forall>c \<in> set bs. unat (blk_size s c) mod 16 = 0"
      using wf by (simp add: heap_wf_def)
    have "(unat (blk_size s b) - unat n - 32) mod 16 = 0"
      using old b n by (auto simp: mod_eq_0_iff_dvd)
    then show ?thesis
      using old n rest bs ne by (auto simp: r [symmetric])
  qed
  moreover have "is_list (elems ?t) (free_list s) (map elem_of (r # fs))"
  proof -
    have "set fs \<subseteq> set bs"
      using wf by (auto simp: heap_wf_def)
    then have "r \<notin> set fs"
      using rn by blast
    moreover have "unat (elem_of r) = unat r + 16" "a \<le> unat r"
      using ur bd(1,2) n(2) unfolding elem_of_def by (subst unat_add_no_overflow, simp_all)
    then have "elem_of r \<noteq> free_list s"
      using wf by (auto simp: heap_wf_def)
    ultimately have "elem_of r \<notin> set (free_list s # map elem_of fs)"
      by auto
    moreover have "is_list (elems s) (free_list s) (map elem_of fs)"
      using wf by (simp add: heap_wf_def)
    ultimately show ?thesis
      using ll.rep_add_head by (simp add: r [symmetric])
  qed
  moreover have "set (r # fs) = {c \<in> set ?bs. blk_free ?t c} - {b}"
    using wf ne rn by (auto simp: heap_wf_def bs r [symmetric])
  ultimately have "heap_wf a ?t ?bs (r # fs) {b}"
    using wf by (simp add: heap_wf_def)
  then show "\<exists>bs'. heap_wf a ?t bs' (r # fs) {b} \<and> set bs' = insert r (set bs)"
    by (intro exI [of _ ?bs]) (auto simp: bs)
qed

lemma take_block_ok:
  assumes ok: "heap_ok a s bs fs" and b: "b \<in> set fs"
    and n: "unat n mod 16 = 0" "n \<le> blk_size s b"
  shows "\<exists>bs' fs' t. take_block b n s = (b + HEADER_SIZE, t) \<and> heap_ok a t bs' fs' \<and>
           b \<in> set bs' \<and> unat n \<le> unat (blk_size t b) \<and>
           allocated t bs' = insert b (allocated s bs) \<and>
           (\<forall>c \<in> allocated s bs. blk_size t c = blk_size s c) \<and>
           heap_bytes t = heap_bytes s \<and> heap_current_virtual t = heap_current_virtual s"
proof -
  obtain f1 f2 where fs: "fs = f1 @ b # f2"
    using b by (meson split_list)
  have bb: "b \<in> set bs" "blk_free s b"
    using ok b by (auto simp: heap_wf_def)
  have l: "is_list (elems s) (free_list s) (map elem_of f1 @ elem_of b # map elem_of f2)"
    using ok by (simp add: heap_wf_def fs)
  then have "distinct (map elem_of f1 @ elem_of b # map elem_of f2)"
    using ll.rep_distinct by fastforce
  then have nb: "b \<notin> set f1 \<union> set f2"
    by auto
  define s1 where "s1 = s\<lparr>elems := list_del (elems s) (elem_of b)\<rparr>"
  have wf1: "heap_wf a s1 bs (f1 @ f2) {b}"
    using ok nb ll.rep_del [OF l] by (auto simp: heap_wf_def s1_def fs)
  have sz: "blk_size s1 = blk_size s" "blk_free s1 = blk_free s"
    "heap_bytes s1 = heap_bytes s" "heap_current_virtual s1 = heap_current_virtual s"
    by (simp_all add: s1_def)
  define big where "big \<longleftrightarrow> blk_size s b \<ge> n + HEADER_SIZE + 16"
  define s2 where "s2 = (if big then split_block b n s1 else s1)"
  define t where "t = s2\<lparr>blk_free := (blk_free s2)(b := False)\<rparr>"
  have run: "take_block b n s = (b + HEADER_SIZE, t)"
    by (simp add: take_block_def Let_def s1_def [symmetric] sz big_def [symmetric]
        s2_def [symmetric] t_def)
  have close: "heap_ok a t bs' fs'" if "heap_wf a s2 bs' fs' {b}" for bs' fs'
    using that by (auto simp: heap_wf_def t_def)
  show ?thesis
  proof (cases big)
    case False
    then have s2: "s2 = s1"
      by (simp add: s2_def)
    have "allocated t bs = insert b (allocated s bs)"
      using bb by (auto simp: allocated_def t_def s2 sz)
    then show ?thesis
      using run close wf1 bb n(2)
      by (intro exI [of _ bs] exI [of _ "f1 @ f2"] exI [of _ t])
        (simp add: s2 t_def sz word_le_nat_alt)
  next
    case True
    define r where "r = b + HEADER_SIZE + n"
    have "unat (blk_size s b) < 2 ^ 64" "unat n \<le> unat (blk_size s b)"
      using n(2) unat64_bound [of "blk_size s b"] by (simp_all add: word_le_nat_alt)
    have bound: "unat b + 32 + unat (blk_size s b) < 2 ^ 64"
      using heap_wf_bounds(1) [OF ok bb(1)] .
    have "a mod 16 = 0" "unat (free_list s) < a"
      using ok by (simp_all add: heap_wf_def)
    then have "16 \<le> unat b"
      using heap_wf_bounds(2) [OF ok bb(1)] by presburger
    with bound have "unat (n + HEADER_SIZE + 16) = unat n + 48"
      using n(2) unfolding HEADER_SIZE_def add.assoc
      by (subst unat_add_no_overflow) (simp_all add: word_le_nat_alt)
    then have n48: "unat n + 48 \<le> unat (blk_size s1 b)"
      using True by (simp add: big_def word_le_nat_alt sz)
    note sp = split_block_ok [OF wf1 bb(1) n(1) n48 r_def]
    obtain bs' where bs': "heap_wf a (split_block b n s1) bs' (r # f1 @ f2) {b}"
      "set bs' = insert r (set bs)"
      using sp(4) by blast
    have s2: "s2 = split_block b n s1"
      using True by (simp add: s2_def)
    have "allocated t bs' = insert b (allocated s bs)"
      using bb bs'(2) sp(1,3) by (auto simp: allocated_def t_def s2 sz r_def [symmetric])
    moreover have "\<forall>c \<in> allocated s bs. blk_size t c = blk_size s c"
      using sp(1) bb by (auto simp: allocated_def t_def s2 sz r_def [symmetric])
    ultimately show ?thesis
      using run close [of bs' "r # f1 @ f2"] bs' bb
      by (intro exI [of _ bs'] exI [of _ "r # f1 @ f2"] exI [of _ t]) (simp add: s2 t_def sz)
  qed
qed

section \<open>Growing the heap\<close>

text \<open>The page allocators leave the heap's own state alone.\<close>

lemma more_heap:
  assumes "pmm.more t = pmm.more s"
  shows "blk_size t = blk_size s" "blk_free t = blk_free s" "elems t = elems s"
    "heap_bytes t = heap_bytes s" "free_list t = free_list s"
    "heap_current_virtual t = heap_current_virtual s"
  using assms by (cases s, cases t, simp)+

definition keeps_more :: "'a pmm_scheme \<Rightarrow> ('x \<times> 'a pmm_scheme) outcome \<Rightarrow> bool" where
  "keeps_more s r \<longleftrightarrow> (case r of Inl p \<Rightarrow> True | Inr (x, t) \<Rightarrow> pmm.more t = pmm.more s)"

lemma keeps_more_simps [simp]:
  "keeps_more s (Inl p)" "keeps_more s (Inr (x, t)) \<longleftrightarrow> pmm.more t = pmm.more s"
  by (simp_all add: keeps_more_def)

lemma keeps_more_bind:
  assumes "keeps_more s r" and "\<And>x t. pmm.more t = pmm.more s \<Longrightarrow> keeps_more t (f (x, t))"
  shows "keeps_more s (bind_ok r f)"
proof (cases r)
  case (Inr xt)
  obtain x t where "xt = (x, t)"
    by (cases xt)
  then show ?thesis
    using assms(1) assms(2) [of t x] Inr by (auto simp: keeps_more_def split: sum.splits)
qed (simp add: keeps_more_def)

lemma pmm_alloc_page_more: "keeps_more s (pmm_alloc_page s)"
proof -
  have scan: "case pmm_scan_words s lo hi of Inl u \<Rightarrow> True | Inr r \<Rightarrow> pmm.more (snd r) = pmm.more s"
    for lo hi
    unfolding pmm_scan_words_def
    by (rule for_until_result) (simp add: Let_def bitmap_set_page_def)
  have two: "case for_until 0 2 (\<lambda>pass u. pmm_scan_words s (lo pass) (hi pass)) () of
      Inl u \<Rightarrow> True | Inr r \<Rightarrow> pmm.more (snd r) = pmm.more s" for lo hi
    by (rule for_until_result) (use scan in \<open>simp split: sum.splits\<close>)
  let ?size64 = "pmm_bitmap_size s div 8"
  let ?first = "if pmm_last_free_index s \<ge> ?size64 then 0 else pmm_last_free_index s"
  show ?thesis
    using two [of "\<lambda>pass. if pass = 0 then ?first else 0"
        "\<lambda>pass. if pass = 0 then ?size64 else ?first"]
    by (auto simp: pmm_alloc_page_def Let_def keeps_more_def split: sum.splits if_splits)
qed

lemma get_or_create_table_more: "keeps_more s (get_or_create_table s table i c)"
  by (auto simp: get_or_create_table_def Let_def set_entry_def
      intro!: keeps_more_bind pmm_alloc_page_more)

lemma vmm_map_page_more: "keeps_more s (vmm_map_page s pml4 v a flags)"
  unfolding vmm_map_page_def Let_def
  by (auto simp: set_entry_def flush_tlb_def split: option.split
      intro!: keeps_more_bind get_or_create_table_more)

lemma expand_pages_more:
  "case expand_pages pml4 n s of Inl t \<Rightarrow> pmm.more t = pmm.more s | Inr r \<Rightarrow> keeps_more s r"
proof -
  show ?thesis
    unfolding expand_pages_def
  proof (rule for_until_inv [where I = "\<lambda>_ t. pmm.more t = pmm.more s"], goal_cases)
    case (3 j t)
    show ?case
    proof (cases "pmm_alloc_page t")
      case (Inr xu)
      obtain x u where xu: "xu = (x, u)"
        by (cases xu)
      let ?m = "vmm_map_page u pml4 (heap_current_virtual u + j * PAGE_SIZE) x
        (VMM_FLAG_PRESENT OR VMM_FLAG_WRITABLE)"
      have u: "pmm.more u = pmm.more s"
        using pmm_alloc_page_more [of t] Inr 3 by (simp add: xu)
      show ?thesis
      proof (cases ?m)
        case m: (Inr ow)
        obtain ok w where ow: "ow = (ok, w)"
          by (cases ow)
        have "pmm.more w = pmm.more s"
          using vmm_map_page_more [of u pml4 "heap_current_virtual u + j * PAGE_SIZE" x
              "VMM_FLAG_PRESENT OR VMM_FLAG_WRITABLE"] m u by (simp add: ow)
        then show ?thesis
          using Inr m u by (simp add: xu ow)
      qed (use Inr u in \<open>simp add: xu\<close>)
    qed simp
  qed auto
qed

text \<open>
  The size of an expansion: whole pages that hold the request and a header.
\<close>

lemma expansion_bytes:
  assumes "unat n + 32 + 4095 < 2 ^ 64" and "p = (n + HEADER_SIZE + PAGE_SIZE - 1) div PAGE_SIZE"
  shows "unat p = (unat n + 32 + 4095) div 4096" and "unat (p * PAGE_SIZE) = unat p * 4096"
    and "unat n + 32 \<le> unat p * 4096" and "unat p * 4096 \<le> unat n + 32 + 4095"
    and "unat (p * PAGE_SIZE - HEADER_SIZE) = unat p * 4096 - 32"
proof -
  have "n + HEADER_SIZE + PAGE_SIZE - 1 = n + 4127"
    by (simp add: HEADER_SIZE_def PAGE_SIZE_def)
  then have "p = (n + 4127) div 4096"
    using assms(2) by (simp only: PAGE_SIZE_def)
  moreover have "unat (n + 4127) = unat n + 4127"
    using assms(1) by (subst unat_add_no_overflow) simp_all
  ultimately show p: "unat p = (unat n + 32 + 4095) div 4096"
    by (simp add: unat_div)
  then have b: "unat p * 4096 < 2 ^ 64"
    using assms(1) by simp
  then show m: "unat (p * PAGE_SIZE) = unat p * 4096"
    by (simp add: unat_word_ariths PAGE_SIZE_def)
  define x where "x = unat n + 32 + 4095"
  have x: "x div 4096 * 4096 + x mod 4096 = x" "x mod 4096 < 4096"
    by simp_all
  then show 1: "unat n + 32 \<le> unat p * 4096"
    unfolding p x_def [symmetric] using x_def by linarith
  show "unat p * 4096 \<le> unat n + 32 + 4095"
    using x unfolding p x_def [symmetric] by linarith
  show "unat (p * PAGE_SIZE - HEADER_SIZE) = unat p * 4096 - 32"
    unfolding HEADER_SIZE_def using 1 m by (subst unat_sub) (simp_all add: word_le_nat_alt)
qed

lemma heap_wf_more:
  assumes "pmm.more t = pmm.more s"
  shows "heap_wf a t bs fs D = heap_wf a s bs fs D"
  by (simp add: heap_wf_def more_heap [OF assms])

lemma expand_heap_fails:
  assumes "expand_pages (P2V s (get_current_cr3 s)) p s = Inr (Inr (success, t))"
  shows "pmm.more t = pmm.more s" and "\<not> success"
proof -
  have "case expand_pages (P2V s (get_current_cr3 s)) p s of Inl t \<Rightarrow> True
    | Inr r \<Rightarrow> (case r of Inl p \<Rightarrow> True | Inr (ok, t) \<Rightarrow> \<not> ok)"
    unfolding expand_pages_def
    by (rule for_until_result) (auto split: sum.splits prod.splits)
  then show "\<not> success"
    by (simp add: assms)
  show "pmm.more t = pmm.more s"
    using expand_pages_more [of s "P2V s (get_current_cr3 s)" p] by (simp add: assms)
qed

text \<open>A new free block at the end of the heap keeps the invariant.\<close>

definition extend_heap :: "u64 \<Rightarrow> 'a heap_scheme \<Rightarrow> 'a heap_scheme" where
  "extend_heap k s =
     (let b = heap_current_virtual s
      in s\<lparr>heap_current_virtual := b + k, blk_size := (blk_size s)(b := k - HEADER_SIZE),
           blk_free := (blk_free s)(b := True),
           elems := list_add_tail (elems s) (elem_of b) (free_list s)\<rparr>)"

lemma extend_heap_ok:
  assumes ok: "heap_ok a s bs fs" and k: "32 < unat k" "unat k mod 16 = 0"
    and room: "unat (heap_current_virtual s) + unat k < 2 ^ 64"
  defines "b \<equiv> heap_current_virtual s"
  shows "heap_ok a (extend_heap k s) (bs @ [b]) (fs @ [b])" and "b \<notin> set bs"
proof -
  let ?t = "extend_heap k s"
  have t: "?t = s\<lparr>heap_current_virtual := b + k, blk_size := (blk_size s)(b := k - HEADER_SIZE),
      blk_free := (blk_free s)(b := True), elems := list_add_tail (elems s) (elem_of b) (free_list s)\<rparr>"
    by (simp add: extend_heap_def b_def Let_def)
  have tile: "tile (blk_size s) a bs (unat b)"
    using ok by (simp add: heap_wf_def b_def)
  then show nb: "b \<notin> set bs"
    using tile_in(2) [OF tile, of b] by auto
  have ub: "unat (b + k) = unat b + unat k" and uk: "unat (k - HEADER_SIZE) = unat k - 32"
    using room k(1) by (simp_all add: b_def HEADER_SIZE_def unat_add_no_overflow unat_sub word_le_nat_alt)
  have "tile (blk_size ?t) a bs m = tile (blk_size s) a bs m" for m
    by (rule tile_cong) (use nb in \<open>auto simp: t\<close>)
  then have "tile (blk_size ?t) a (bs @ [b]) (unat (heap_current_virtual ?t))"
    using tile ub uk k(1) by (simp add: tile_append t)
  moreover have "(unat k - 32) mod 16 = 0"
    using k by (simp add: mod_eq_0_iff_dvd dvd_diff_nat)
  then have "\<forall>c \<in> set (bs @ [b]). unat (blk_size ?t c) mod 16 = 0"
    using ok nb uk by (auto simp: heap_wf_def t)
  moreover have "is_list (elems ?t) (free_list ?t) (map elem_of (fs @ [b]))"
  proof -
    have "unat (elem_of b) = unat b + 16"
      unfolding elem_of_def using room k(1) by (subst unat_add_no_overflow) (simp_all add: b_def)
    then have "elem_of b \<notin> set (free_list s # map elem_of fs)"
      using nb tile_le [OF tile] ok by (auto simp: heap_wf_def)
    moreover have "is_list (elems s) (free_list s) (map elem_of fs)"
      using ok by (simp add: heap_wf_def)
    ultimately show ?thesis
      using ll.rep_add_tail by (simp add: t)
  qed
  moreover have "set (fs @ [b]) = {c \<in> set (bs @ [b]). blk_free ?t c} - {}"
    using ok nb by (auto simp: heap_wf_def t)
  ultimately show "heap_ok a ?t (bs @ [b]) (fs @ [b])"
    using ok by (simp add: heap_wf_def t)
qed

lemma expand_heap_ok:
  assumes ok: "heap_ok a s bs fs" and n: "unat n + 32 + 4095 < 2 ^ 64" "unat n mod 16 = 0"
    and room: "unat (heap_current_virtual s) + unat n + 32 + 4095 < 2 ^ 64"
    and run: "expand_heap n s = Inr (success, t)"
  shows "heap_bytes t = heap_bytes s"
    and "if success
         then heap_ok a t (bs @ [heap_current_virtual s]) (fs @ [heap_current_virtual s]) \<and>
           n \<le> blk_size t (heap_current_virtual s) \<and> heap_current_virtual s \<notin> set bs \<and>
           allocated t (bs @ [heap_current_virtual s]) = allocated s bs \<and>
           (\<forall>c \<in> set bs. blk_size t c = blk_size s c) \<and>
           unat (heap_current_virtual s) < unat (heap_current_virtual t)
         else pmm.more t = pmm.more s"
proof (atomize (full), goal_cases)
  case 1
  define p where "p = (n + HEADER_SIZE + PAGE_SIZE - 1) div PAGE_SIZE"
  note e = expansion_bytes [OF n(1) p_def]
  show ?case
  proof (cases "expand_pages (P2V s (get_current_cr3 s)) p s")
    case (Inr r)
    then have "r = Inr (success, t)"
      using run by (simp add: expand_heap_def Let_def p_def [symmetric])
    then show ?thesis
      using expand_heap_fails [OF Inr [unfolded \<open>r = _\<close>]] more_heap(4) by metis
  next
    case (Inl u)
    then have same: "pmm.more u = pmm.more s"
      using expand_pages_more [of s "P2V s (get_current_cr3 s)" p] by simp
    note f = more_heap [OF same]
    have t: "t = extend_heap (p * PAGE_SIZE) u" and success
      using run Inl by (simp_all add: expand_heap_def extend_heap_def Let_def p_def [symmetric] f)
    have u: "heap_ok a u bs fs" "32 < unat (p * PAGE_SIZE)" "unat (p * PAGE_SIZE) mod 16 = 0"
      "unat (heap_current_virtual u) + unat (p * PAGE_SIZE) < 2 ^ 64"
    proof -
      have "unat p \<noteq> 0"
        using e(3) by (metis add_is_0 le_zero_eq mult_0 zero_neq_numeral)
      then show "32 < unat (p * PAGE_SIZE)"
        unfolding e(2) by linarith
    qed (use ok e room in \<open>simp_all add: heap_wf_more [OF same] f mod_eq_0_iff_dvd\<close>)
    have "unat (heap_current_virtual u + p * PAGE_SIZE) = unat (heap_current_virtual u) + unat (p * PAGE_SIZE)"
      using u(4) by (intro unat_add_no_overflow) simp
    then show ?thesis
      using extend_heap_ok [OF u] \<open>success\<close> u(2) e
      by (auto simp: t extend_heap_def Let_def f allocated_def word_le_nat_alt)
  qed
qed

section \<open>Allocation and release\<close>

lemma round16_facts:
  assumes "unat n + 15 < 2 ^ 64"
  shows "unat (round16 n) = (unat n + 15) div 16 * 16" and "unat (round16 n) mod 16 = 0"
    and "unat n \<le> unat (round16 n)" and "unat (round16 n) \<le> unat n + 15"
    and "round16 (round16 n) = round16 n" and "n \<noteq> 0 \<Longrightarrow> round16 n \<noteq> 0"
proof -
  have m: "(15 :: u64) = mask 4"
    by (rule mask_numerals)
  have r: "unat (round16 k) = (unat k + 15) div 16 * 16" if "unat k + 15 < 2 ^ 64" for k
  proof -
    have "unat (k + 15) = unat k + 15"
      using that by (subst unat_add_no_overflow) simp_all
    then show ?thesis
      using unat_and_not_mask [of "k + 15" 4] by (simp add: round16_def m [symmetric])
  qed
  show u: "unat (round16 n) = (unat n + 15) div 16 * 16"
    by (rule r [OF assms])
  show "unat (round16 n) mod 16 = 0"
    unfolding u by simp
  define x where "x = unat n + 15"
  have x: "x div 16 * 16 + x mod 16 = x" "x mod 16 < 16"
    by simp_all
  show le: "unat n \<le> unat (round16 n)"
    using x unfolding u x_def [symmetric] using x_def by linarith
  show "unat (round16 n) \<le> unat n + 15"
    using x unfolding u x_def [symmetric] by linarith
  have "(x div 16 * 16 + 15) div 16 = x div 16"
    by simp
  moreover have "x div 16 < 2 ^ 60"
    using assms by (simp add: x_def)
  then have "x div 16 * 16 + 15 < 2 ^ 64"
    by simp
  ultimately have "unat (round16 (round16 n)) = unat (round16 n)"
    using r [of "round16 n"] x assms unfolding u x_def [symmetric] by simp
  then show "round16 (round16 n) = round16 n"
    by (simp only: word_unat_eq_iff)
  show "n \<noteq> 0 \<Longrightarrow> round16 n \<noteq> 0"
    using le by (metis le_zero_eq unat_0 unat_0_iff)
qed

lemma find_map: "List.find P (map f xs) = map_option f (List.find (P \<circ> f) xs)"
  by (induction xs) auto

lemma heap_search:
  assumes "heap_ok a s bs fs"
  shows "list_find (elems s) (free_list s) (\<lambda>e. blk_size s (block_of e) \<ge> m)
      (nxt (elems s (free_list s))) = Some (map_option elem_of (List.find (\<lambda>b. m \<le> blk_size s b) fs))"
proof -
  have "is_list (elems s) (free_list s) (map elem_of fs)"
    using assms by (simp add: heap_wf_def)
  then show ?thesis
    by (simp add: list_find_list find_map comp_def)
qed

lemma kmalloc_fit:
  assumes "heap_ok a s bs fs" and "n \<noteq> 0" and "List.find (\<lambda>b. round16 n \<le> blk_size s b) fs = Some b"
  shows "kmalloc n s = Some (Inr (take_block b (round16 n) s))"
  using assms heap_search [OF assms(1), of "round16 n"] by (simp add: kmalloc.simps [of n])

lemma kmalloc_nofit:
  assumes "heap_ok a s bs fs" and "n \<noteq> 0" and "List.find (\<lambda>b. round16 n \<le> blk_size s b) fs = None"
  shows "kmalloc n s = (case expand_heap (round16 n) s of
      Inl p \<Rightarrow> Some (Inl p)
    | Inr (ok, s') \<Rightarrow> if \<not> ok then Some (Inr (NULL, s')) else kmalloc (round16 n) s')"
  using assms heap_search [OF assms(1), of "round16 n"] by (simp add: kmalloc.simps [of n])

text \<open>What a successful allocation of \<open>n\<close> bytes is: a block that was not allocated before.\<close>

definition allocates ::
  "nat \<Rightarrow> 'a heap_scheme \<Rightarrow> u64 list \<Rightarrow> u64 \<Rightarrow> u64 \<Rightarrow> 'a heap_scheme \<Rightarrow> bool" where
  "allocates a s bs n ptr t \<longleftrightarrow>
     (\<exists>bs' fs' b. ptr = b + HEADER_SIZE \<and> heap_ok a t bs' fs' \<and> b \<notin> allocated s bs \<and>
        allocated t bs' = insert b (allocated s bs) \<and> unat n \<le> unat (blk_size t b) \<and>
        (\<forall>c \<in> allocated s bs. blk_size t c = blk_size s c))"

lemma take_block_allocates:
  assumes "heap_ok a s bs fs" "b \<in> set fs" and "unat n mod 16 = 0" "n \<le> blk_size s b"
  shows "\<exists>t. take_block b n s = (b + HEADER_SIZE, t) \<and> allocates a s bs n (b + HEADER_SIZE) t \<and>
    heap_bytes t = heap_bytes s"
proof -
  have "b \<notin> allocated s bs"
    using assms(1,2) by (auto simp: heap_wf_def allocated_def)
  then show ?thesis
    using take_block_ok [OF assms] unfolding allocates_def by blast
qed

lemma allocates_nonnull:
  assumes "allocates a s bs n ptr t"
  shows "ptr \<noteq> NULL"
proof -
  obtain bs' fs' b where b: "ptr = b + HEADER_SIZE" "heap_ok a t bs' fs'" "b \<in> set bs'"
    using assms by (auto simp: allocates_def allocated_def)
  show ?thesis
    using heap_wf_bounds(5) [OF b(2,3)] b(1) by (auto simp: NULL_def)
qed

lemma allocates_mono:
  assumes "allocates a s bs n ptr t" and "unat m \<le> unat n"
  shows "allocates a s bs m ptr t"
proof -
  obtain bs' fs' b where "ptr = b + HEADER_SIZE" "heap_ok a t bs' fs'" "b \<notin> allocated s bs"
    "allocated t bs' = insert b (allocated s bs)" "unat n \<le> unat (blk_size t b)"
    "\<forall>c \<in> allocated s bs. blk_size t c = blk_size s c"
    using assms(1) unfolding allocates_def by blast
  then show ?thesis
    using assms(2) unfolding allocates_def
    by (intro exI [of _ bs'] exI [of _ fs'] exI [of _ b]) simp
qed

lemma kmalloc_cases:
  assumes ok: "heap_ok a s bs fs" and n: "n \<noteq> 0"
    and room: "unat (heap_current_virtual s) + unat n + 4142 < 2 ^ 64"
  shows "\<exists>r. kmalloc n s = Some r \<and> (case r of Inl p \<Rightarrow> True
    | Inr (ptr, t) \<Rightarrow> heap_bytes t = heap_bytes s \<and>
        (ptr = NULL \<and> pmm.more t = pmm.more s \<or> allocates a s bs n ptr t))"
proof -
  let ?m = "round16 n"
  have r: "unat ?m mod 16 = 0" "unat n \<le> unat ?m" "unat ?m \<le> unat n + 15" "round16 ?m = ?m" "?m \<noteq> 0"
    using round16_facts [of n] room n by simp_all
  show ?thesis
  proof (cases "List.find (\<lambda>b. ?m \<le> blk_size s b) fs")
    case (Some b)
    then have "b \<in> set fs" "?m \<le> blk_size s b"
      by (auto simp: find_Some_iff)
    then obtain t where "take_block b ?m s = (b + HEADER_SIZE, t)"
      "allocates a s bs ?m (b + HEADER_SIZE) t" "heap_bytes t = heap_bytes s"
      using take_block_allocates [OF ok _ r(1)] by blast
    then show ?thesis
      using kmalloc_fit [OF ok n Some] allocates_mono r(2) by fastforce
  next
    case None
    show ?thesis
    proof (cases "expand_heap ?m s")
      case (Inl p)
      then show ?thesis
        using kmalloc_nofit [OF ok n None] by simp
    next
      case (Inr st)
      obtain success t where st: "st = (success, t)"
        by (cases st)
      have e1: "unat ?m + 32 + 4095 < 2 ^ 64"
        "unat (heap_current_virtual s) + unat ?m + 32 + 4095 < 2 ^ 64"
        using room r(3) by simp_all
      note e = expand_heap_ok [OF ok e1(1) r(1) e1(2) Inr [unfolded st]]
      let ?b = "heap_current_virtual s"
      show ?thesis
      proof (cases success)
        case False
        then show ?thesis
          using kmalloc_nofit [OF ok n None] Inr st e by simp
      next
        case True
        then have okt: "heap_ok a t (bs @ [?b]) (fs @ [?b])" and fit: "?m \<le> blk_size t ?b"
          and al: "allocated t (bs @ [?b]) = allocated s bs"
          and same: "\<forall>c \<in> set bs. blk_size t c = blk_size s c"
          using e by simp_all
        have "List.find (\<lambda>b. ?m \<le> blk_size t b) (fs @ [?b]) \<noteq> None"
          using fit by (simp add: find_None_iff) blast
        then obtain b where b: "List.find (\<lambda>b. ?m \<le> blk_size t b) (fs @ [?b]) = Some b"
          by blast
        then have b': "b \<in> set (fs @ [?b])" "?m \<le> blk_size t b"
          by (auto simp: find_Some_iff set_conv_nth simp del: set_append)
        obtain u where u: "take_block b ?m t = (b + HEADER_SIZE, u)"
          "allocates a t (bs @ [?b]) ?m (b + HEADER_SIZE) u" "heap_bytes u = heap_bytes t"
          using take_block_allocates [OF okt b'(1) r(1) b'(2)] by blast
        have "allocates a s bs ?m (b + HEADER_SIZE) u"
          using u(2) same unfolding allocates_def al by (auto simp: allocated_def)
        then have "allocates a s bs n (b + HEADER_SIZE) u"
          using allocates_mono r(2) by blast
        moreover have "kmalloc n s = Some (Inr (b + HEADER_SIZE, u))"
          using kmalloc_nofit [OF ok n None] Inr st True kmalloc_fit [OF okt r(5)] r(4) b u(1) by simp
        ultimately show ?thesis
          using u(3) e(1) by simp
      qed
    qed
  qed
qed

lemma expand_heap_frame:
  assumes "unat n + 32 + 4095 < 2 ^ 64"
    and "unat (heap_current_virtual s) + unat n + 32 + 4095 < 2 ^ 64"
    and "expand_heap n s = Inr (ok, t)"
  shows "heap.more t = heap.more s"
    and "unat (heap_current_virtual t) \<le> unat (heap_current_virtual s) + unat n + 32 + 4095"
proof -
  define p where "p = (n + HEADER_SIZE + PAGE_SIZE - 1) div PAGE_SIZE"
  note e = expansion_bytes [OF assms(1) p_def]
  have more: "heap.more u = heap.more s" if "pmm.more u = pmm.more s" for u :: "'a heap_scheme"
    using that by (cases u, cases s, simp)
  have u: "unat (heap_current_virtual s + p * PAGE_SIZE) = unat (heap_current_virtual s) + unat p * 4096"
    using assms(2) e by (subst unat_add_no_overflow) simp_all
  have "heap.more t = heap.more s \<and>
      unat (heap_current_virtual t) \<le> unat (heap_current_virtual s) + unat n + 32 + 4095"
  proof (cases "expand_pages (P2V s (get_current_cr3 s)) p s")
    case (Inl v)
    then have "pmm.more v = pmm.more s"
      using expand_pages_more [of s "P2V s (get_current_cr3 s)" p] by simp
    then show ?thesis
      using assms(3) Inl e u more [of v] more_heap(6) [of v s]
      by (auto simp: expand_heap_def Let_def p_def [symmetric])
  next
    case (Inr r)
    then have "pmm.more t = pmm.more s"
      using assms(3) expand_pages_more [of s "P2V s (get_current_cr3 s)" p]
      by (auto simp: expand_heap_def Let_def p_def [symmetric])
    then show ?thesis
      using more [of t] more_heap(6) [of t s] by simp
  qed
  then show "heap.more t = heap.more s"
    and "unat (heap_current_virtual t) \<le> unat (heap_current_virtual s) + unat n + 32 + 4095"
    by blast+
qed

text \<open>Allocation leaves everything outside the heap alone and bounds the growth of the heap.\<close>

lemma take_block_frame:
  "take_block b n s = (p, t) \<Longrightarrow> heap.more t = heap.more s"
  "take_block b n s = (p, t) \<Longrightarrow> heap_current_virtual t = heap_current_virtual s"
  by (auto simp: take_block_def split_block_def Let_def)

lemma kmalloc_frame:
  assumes ok: "heap_ok a s bs fs" and n: "n \<noteq> 0"
    and room: "unat (heap_current_virtual s) + unat n + 4142 < 2 ^ 64"
    and run: "kmalloc n s = Some (Inr (ptr, t))"
  shows "heap.more t = heap.more s"
    and "unat (heap_current_virtual t) \<le> unat (heap_current_virtual s) + unat n + 4142"
proof -
  let ?m = "round16 n"
  have r: "unat ?m mod 16 = 0" "unat n \<le> unat ?m" "unat ?m \<le> unat n + 15" "round16 ?m = ?m" "?m \<noteq> 0"
    using round16_facts [of n] room n by simp_all
  have "heap.more t = heap.more s \<and>
      unat (heap_current_virtual t) \<le> unat (heap_current_virtual s) + unat n + 4142"
  proof (cases "List.find (\<lambda>b. ?m \<le> blk_size s b) fs")
    case (Some b)
    then have "take_block b ?m s = (ptr, t)"
      using kmalloc_fit [OF ok n Some] run by simp
    then show ?thesis
      using take_block_frame [of b ?m s ptr t] by simp
  next
    case None
    obtain ok1 u where u: "expand_heap ?m s = Inr (ok1, u)"
      using kmalloc_nofit [OF ok n None] run by (cases "expand_heap ?m s") auto
    have e1: "unat ?m + 32 + 4095 < 2 ^ 64"
      "unat (heap_current_virtual s) + unat ?m + 32 + 4095 < 2 ^ 64"
      using room r(3) by simp_all
    note f = expand_heap_frame [OF e1 u] and e = expand_heap_ok [OF ok e1(1) r(1) e1(2) u]
    show ?thesis
    proof (cases ok1)
      case False
      then show ?thesis
        using kmalloc_nofit [OF ok n None] run u f r(3) by simp
    next
      case True
      let ?b = "heap_current_virtual s"
      have okt: "heap_ok a u (bs @ [?b]) (fs @ [?b])" and fit: "?m \<le> blk_size u ?b"
        using e True by simp_all
      have "List.find (\<lambda>b. ?m \<le> blk_size u b) (fs @ [?b]) \<noteq> None"
        using fit by (simp add: find_None_iff) blast
      then obtain b where b: "List.find (\<lambda>b. ?m \<le> blk_size u b) (fs @ [?b]) = Some b"
        by blast
      have "kmalloc ?m u = Some (Inr (take_block b ?m u))"
        using kmalloc_fit [OF okt r(5)] r(4) b by simp
      then have "take_block b ?m u = (ptr, t)"
        using kmalloc_nofit [OF ok n None] run u True by simp
      then show ?thesis
        using f r(3) take_block_frame [of b ?m u ptr t] by simp
    qed
  qed
  then show "heap.more t = heap.more s"
    and "unat (heap_current_virtual t) \<le> unat (heap_current_virtual s) + unat n + 4142"
    by blast+
qed

section \<open>Panics\<close>

text \<open>Once the page allocator is initialised, mapping a page does not panic.\<close>

definition no_panic :: "('x \<times> 'a pmm_scheme) outcome \<Rightarrow> bool" where
  "no_panic r \<longleftrightarrow> (\<exists>x t. r = Inr (x, t) \<and> physical_memory_initialized t)"

lemma no_panic_Inr [simp]: "no_panic (Inr (x, t)) \<longleftrightarrow> physical_memory_initialized t"
  by (simp add: no_panic_def)

lemma no_panic_bind:
  assumes "no_panic r" and "\<And>x t. physical_memory_initialized t \<Longrightarrow> no_panic (f (x, t))"
  shows "no_panic (bind_ok r f)"
  using assms by (auto simp: no_panic_def)

lemma pmm_alloc_page_no_panic:
  assumes "physical_memory_initialized s"
  shows "no_panic (pmm_alloc_page s)"
proof -
  have scan: "case pmm_scan_words s lo hi of Inl u \<Rightarrow> True | Inr r \<Rightarrow> physical_memory_initialized (snd r)"
    for lo hi
    unfolding pmm_scan_words_def
    by (rule for_until_result) (simp add: Let_def assms)
  have two: "case for_until 0 2 (\<lambda>pass u. pmm_scan_words s (lo pass) (hi pass)) () of
      Inl u \<Rightarrow> True | Inr r \<Rightarrow> physical_memory_initialized (snd r)" for lo hi
    by (rule for_until_result) (use scan in \<open>simp split: sum.splits\<close>)
  let ?size64 = "pmm_bitmap_size s div 8"
  let ?first = "if pmm_last_free_index s \<ge> ?size64 then 0 else pmm_last_free_index s"
  show ?thesis
    using two [of "\<lambda>pass. if pass = 0 then ?first else 0"
        "\<lambda>pass. if pass = 0 then ?size64 else ?first"] assms
    by (auto simp: pmm_alloc_page_def Let_def no_panic_def split: sum.splits if_splits)
qed

lemma get_or_create_table_no_panic:
  assumes "physical_memory_initialized s"
  shows "no_panic (get_or_create_table s table i c)"
  using assms by (auto simp: get_or_create_table_def Let_def set_entry_def
      intro!: no_panic_bind pmm_alloc_page_no_panic)

lemma vmm_map_page_no_panic:
  assumes "physical_memory_initialized s"
  shows "no_panic (vmm_map_page s pml4 v a flags)"
  unfolding vmm_map_page_def Let_def
  by (intro no_panic_bind get_or_create_table_no_panic assms)
    (auto simp: set_entry_def flush_tlb_def split: option.split
      intro!: no_panic_bind get_or_create_table_no_panic)

lemma expand_pages_no_panic:
  assumes "physical_memory_initialized s"
  shows "case expand_pages pml4 n s of Inl t \<Rightarrow> physical_memory_initialized t | Inr r \<Rightarrow> no_panic r"
  unfolding expand_pages_def
proof (rule for_until_inv [where I = "\<lambda>_ t. physical_memory_initialized t"], goal_cases)
  case (3 j t)
  obtain x u where xu: "pmm_alloc_page t = Inr (x, u)" "physical_memory_initialized u"
    using pmm_alloc_page_no_panic [OF 3(3)] by (auto simp: no_panic_def)
  obtain ok w where w: "vmm_map_page u pml4 (heap_current_virtual u + j * PAGE_SIZE) x
      (VMM_FLAG_PRESENT OR VMM_FLAG_WRITABLE) = Inr (ok, w)" "physical_memory_initialized w"
    using vmm_map_page_no_panic [OF xu(2)] by (metis (no_types) no_panic_def)
  show ?case
    using xu w by simp
qed (use assms in auto)

lemma expand_heap_no_panic:
  assumes "physical_memory_initialized s"
  shows "no_panic (expand_heap n s)"
  using expand_pages_no_panic [OF assms]
  by (auto simp: expand_heap_def Let_def split: sum.splits) (metis sum.case)+

lemma take_block_initialized [simp]:
  "physical_memory_initialized (snd (take_block b n s)) = physical_memory_initialized s"
  by (simp add: take_block_def split_block_def Let_def)

lemma kmalloc_no_panic:
  assumes "kmalloc n s = Some r" and "physical_memory_initialized s"
  shows "no_panic r"
  using assms
proof (induction rule: kmalloc.raw_induct [rotated, consumes 1, case_names step])
  case (step f n s r)
  consider (zero) "n = 0" | (found) e where "n \<noteq> 0" "list_find (elems s) (free_list s)
        (\<lambda>e. blk_size s (block_of e) \<ge> round16 n) (nxt (elems s (free_list s))) = Some (Some e)"
    | (grow) ok t where "n \<noteq> 0" "list_find (elems s) (free_list s)
        (\<lambda>e. blk_size s (block_of e) \<ge> round16 n) (nxt (elems s (free_list s))) = Some None"
        "expand_heap (round16 n) s = Inr (ok, t)" "physical_memory_initialized t"
    using step.hyps expand_heap_no_panic [OF step.prems, of "round16 n"]
    by (auto simp: no_panic_def split: if_splits option.splits)
  then show ?case
  proof cases
    case found
    then show ?thesis
      using step.hyps step.prems take_block_initialized [of "block_of e" "round16 n" s]
      by (cases "take_block (block_of e) (round16 n) s") (auto simp del: take_block_initialized)
  next
    case grow
    then show ?thesis
      using step.IH step.hyps step.prems by (auto split: if_splits)
  qed (use step in auto)
qed

lemma kmalloc_panics: "kmalloc n s = Some (Inl p) \<Longrightarrow> \<not> physical_memory_initialized s"
  using kmalloc_no_panic [of n s "Inl p"] by (auto simp: no_panic_def)

lemma krealloc_panics:
  "krealloc q n s = Some (Inl p) \<Longrightarrow> \<not> physical_memory_initialized s"
  by (auto simp: krealloc_def Let_def map_result_def dest: kmalloc_panics
      split: if_splits option.splits sum.splits)

lemma kcalloc_panics:
  "kcalloc num sz s = Some (Inl p) \<Longrightarrow> \<not> physical_memory_initialized s"
  by (auto simp: kcalloc_def Let_def map_result_def dest: kmalloc_panics
      split: option.splits sum.splits)

text \<open>A null result means that no free block was large enough.\<close>

lemma kmalloc_null:
  assumes ok: "heap_ok a s bs fs" and n: "n \<noteq> 0" and run: "kmalloc n s = Some (Inr (NULL, t))"
  shows "\<forall>b \<in> set fs. blk_size s b < round16 n"
proof (cases "List.find (\<lambda>b. round16 n \<le> blk_size s b) fs")
  case (Some b)
  then have b: "b \<in> set bs"
    using ok by (auto simp: find_Some_iff heap_wf_def dest: nth_mem)
  then have "b + HEADER_SIZE \<noteq> NULL"
    using heap_wf_bounds(5) [OF ok b] by (auto simp: NULL_def)
  then show ?thesis
    using kmalloc_fit [OF ok n Some] run by (simp add: take_block_def Let_def)
qed (auto simp: find_None_iff not_le)

lemma allocates_apart:
  assumes "allocates a s bs n ptr t"
  shows "unat ptr mod 16 = 0"
    and "c \<in> allocated s bs \<Longrightarrow>
      unat ptr + unat n \<le> unat c \<or> unat c + 32 + unat (blk_size s c) + 32 \<le> unat ptr"
proof -
  obtain bs' fs' b where b: "ptr = b + HEADER_SIZE" "heap_ok a t bs' fs'" "b \<notin> allocated s bs"
    "allocated t bs' = insert b (allocated s bs)" "unat n \<le> unat (blk_size t b)"
    "\<forall>c \<in> allocated s bs. blk_size t c = blk_size s c"
    using assms by (auto simp: allocates_def)
  have in_t: "b \<in> set bs'" "c \<in> allocated s bs \<Longrightarrow> c \<in> set bs'"
    using b(4) by (auto simp: allocated_def)
  show "unat ptr mod 16 = 0"
    using heap_aligned [OF b(2) in_t(1)] by (simp add: b(1))
  have up: "unat ptr = unat b + 32"
    using heap_wf_bounds(5) [OF b(2) in_t(1)] by (simp add: b(1))
  have tile: "tile (blk_size t) a bs' (unat (heap_current_virtual t))"
    using b(2) by (simp add: heap_wf_def)
  assume c: "c \<in> allocated s bs"
  then have "b \<noteq> c"
    using b(3) by blast
  then show "unat ptr + unat n \<le> unat c \<or> unat c + 32 + unat (blk_size s c) + 32 \<le> unat ptr"
    using tile_apart [OF tile in_t(1) in_t(2) [OF c]] c b(5,6) up by auto
qed

text \<open>
  C1. \<^verbatim>\<open>kmalloc\<close> returns. It panics only before the page allocator is set up. Otherwise it returns
  the null pointer and leaves the heap alone, which happens only when no free block is large
  enough, or a pointer, aligned to 16 bytes, to data of at least \<open>n\<close> bytes that overlap no header
  and no data of an allocated block; the blocks still tile the heap, the free list holds exactly
  the free ones, and the allocated blocks keep their sizes.
\<close>

theorem kmalloc_correct:
  assumes "heap_ok a s bs fs" and "n \<noteq> 0"
    and "unat (heap_current_virtual s) + unat n + 4142 < 2 ^ 64"
  shows "\<exists>r. kmalloc n s = Some r \<and> (case r of Inl p \<Rightarrow> \<not> physical_memory_initialized s
    | Inr (ptr, t) \<Rightarrow> heap_bytes t = heap_bytes s \<and>
        (if ptr = NULL then heap_ok a t bs fs \<and> allocated t bs = allocated s bs \<and>
           (\<forall>b \<in> set fs. blk_size s b < round16 n)
         else allocates a s bs n ptr t \<and> unat ptr mod 16 = 0 \<and>
           (\<forall>c \<in> allocated s bs. unat ptr + unat n \<le> unat c \<or>
              unat c + 32 + unat (blk_size s c) + 32 \<le> unat ptr)))"
proof -
  obtain r where r: "kmalloc n s = Some r" "case r of Inl p \<Rightarrow> True
    | Inr (ptr, t) \<Rightarrow> heap_bytes t = heap_bytes s \<and>
        (ptr = NULL \<and> pmm.more t = pmm.more s \<or> allocates a s bs n ptr t)"
    using kmalloc_cases [OF assms] by blast
  show ?thesis
  proof (cases r)
    case (Inr pt)
    obtain ptr t where pt: "pt = (ptr, t)"
      by (cases pt)
    from r(2) consider (null) "ptr = NULL" "pmm.more t = pmm.more s"
      | (block) "allocates a s bs n ptr t"
      by (auto simp: Inr pt)
    then show ?thesis
    proof cases
      case null
      then have "heap_ok a t bs fs" "allocated t bs = allocated s bs"
        using assms(1) by (simp_all add: heap_wf_more [OF null(2)] allocated_def more_heap [OF null(2)])
      moreover have "\<forall>b \<in> set fs. blk_size s b < round16 n"
        using kmalloc_null [OF assms(1,2)] r(1) null(1) by (simp add: Inr pt)
      ultimately show ?thesis
        using r null by (simp add: Inr pt)
    next
      case block
      then show ?thesis
        using r allocates_apart [OF block] allocates_nonnull [OF block] by (simp add: Inr pt)
    qed
  qed (use r kmalloc_panics in auto)
qed

lemma kfree_block:
  assumes "heap_ok a s bs fs" and "b \<in> set bs"
  shows "kfree NULL s = s \<and>
    (if blk_free s b then kfree (b + HEADER_SIZE) s = s
     else heap_ok a (kfree (b + HEADER_SIZE) s) bs (b # fs) \<and>
       allocated (kfree (b + HEADER_SIZE) s) bs = allocated s bs - {b} \<and>
       blk_size (kfree (b + HEADER_SIZE) s) = blk_size s \<and>
       heap_bytes (kfree (b + HEADER_SIZE) s) = heap_bytes s)"
proof -
  note bd = heap_wf_bounds [OF assms]
  have ne: "b + HEADER_SIZE \<noteq> NULL"
    using bd(5) by (auto simp: NULL_def)
  have run: "kfree (b + HEADER_SIZE) s = (if blk_free s b then s else
      s\<lparr>blk_free := (blk_free s)(b := True),
        elems := list_add (elems s) (elem_of b) (free_list s)\<rparr>)"
    using ne by (simp add: kfree_def Let_def)
  have ok: "heap_ok a (s\<lparr>blk_free := (blk_free s)(b := True),
      elems := list_add (elems s) (elem_of b) (free_list s)\<rparr>) bs (b # fs)" if "\<not> blk_free s b"
  proof -
    have "b \<notin> set fs"
      using assms(1) that by (auto simp: heap_wf_def)
    then have "elem_of b \<notin> set (free_list s # map elem_of fs)"
      using bd(4) by auto
    then have "is_list (list_add (elems s) (elem_of b) (free_list s)) (free_list s)
        (elem_of b # map elem_of fs)"
      using assms(1) ll.rep_add_head by (auto simp: heap_wf_def)
    then show ?thesis
      using assms by (auto simp: heap_wf_def)
  qed
  show ?thesis
    using ok unfolding run by (auto simp: allocated_def kfree_def)
qed

text \<open>
  C7. Freeing an allocated block puts it at the head of the free list and changes nothing else;
  freeing a block that is free already, or the null pointer, does nothing.
\<close>

theorem kfree_correct:
  assumes "heap_ok a s bs fs" and "b \<in> set bs"
  shows "kfree NULL s = s \<and>
    (if blk_free s b then kfree (b + HEADER_SIZE) s = s
     else heap_ok a (kfree (b + HEADER_SIZE) s) bs (b # fs) \<and>
       allocated (kfree (b + HEADER_SIZE) s) bs = allocated s bs - {b} \<and>
       blk_size (kfree (b + HEADER_SIZE) s) = blk_size s \<and>
       heap_bytes (kfree (b + HEADER_SIZE) s) = heap_bytes s)"
  using assms by (rule kfree_block)

section \<open>Resizing and zeroed allocation\<close>

lemma no_overlap_nat:
  assumes "unat d + unat n \<le> unat s \<or> unat s + unat n \<le> unat d"
    and "unat s + unat n \<le> 2 ^ 64" "unat d + unat n \<le> 2 ^ 64"
  shows "no_overlap d s n"
  using assms by (auto simp: no_overlap_def word_le_nat_alt unat_sub_if')

text \<open>The bytes of one block seen from another that does not overlap it.\<close>

lemma outside_block:
  fixes q p i n :: u64
  assumes "unat q + unat n \<le> unat p \<or> unat p + unat m \<le> unat q" and "i < m"
    and "unat p + unat m < 2 ^ 64" "unat q + unat n < 2 ^ 64"
  shows "\<not> p + i - q < n"
proof -
  have "unat i < unat m"
    using assms(2) by (simp add: word_less_nat_alt)
  then have u: "unat (p + i) = unat p + unat i"
    using assms(3) by (subst unat_add_no_overflow) simp_all
  show ?thesis
    using assms \<open>unat i < unat m\<close> by (auto simp: word_less_nat_alt unat_sub_if' u)
qed

lemma allocated_apart:
  assumes ok: "heap_ok a t bs fs" and b: "b \<in> set bs" and c: "c \<in> set bs" and ne: "b \<noteq> c"
  shows "unat (b + HEADER_SIZE) + unat (blk_size t b) \<le> unat (c + HEADER_SIZE) \<or>
         unat (c + HEADER_SIZE) + unat (blk_size t c) \<le> unat (b + HEADER_SIZE)"
    and "unat (b + HEADER_SIZE) + unat (blk_size t b) < 2 ^ 64"
proof -
  have t: "tile (blk_size t) a bs (unat (heap_current_virtual t))"
    using ok by (simp add: heap_wf_def)
  note u = heap_wf_bounds(5) [OF ok b] heap_wf_bounds(5) [OF ok c]
  show "unat (b + HEADER_SIZE) + unat (blk_size t b) \<le> unat (c + HEADER_SIZE) \<or>
      unat (c + HEADER_SIZE) + unat (blk_size t c) \<le> unat (b + HEADER_SIZE)"
    using tile_apart [OF t b c ne] unfolding u by linarith
  show "unat (b + HEADER_SIZE) + unat (blk_size t b) < 2 ^ 64"
    using heap_wf_bounds(1) [OF ok b] unfolding u by linarith
qed

text \<open>
  What resizing the block \<open>b\<close> to \<open>n\<close> bytes promises: a block \<open>c\<close>, possibly the same, takes its
  place, holds at least \<open>n\<close> bytes and starts with the old contents; the other allocated blocks
  keep their sizes and their data.
\<close>

definition resizes ::
  "nat \<Rightarrow> 'a heap_scheme \<Rightarrow> u64 list \<Rightarrow> u64 \<Rightarrow> u64 \<Rightarrow> u64 \<Rightarrow> 'a heap_scheme \<Rightarrow> bool" where
  "resizes a s bs b n q t \<longleftrightarrow>
     (\<exists>bs' fs' c. q = c + HEADER_SIZE \<and> heap_ok a t bs' fs' \<and>
        allocated t bs' = insert c (allocated s bs - {b}) \<and> unat n \<le> unat (blk_size t c) \<and>
        (\<forall>i < min n (blk_size s b). heap_bytes t (q + i) = heap_bytes s (b + HEADER_SIZE + i)) \<and>
        (\<forall>d \<in> allocated s bs - {b}. blk_size t d = blk_size s d \<and>
           (\<forall>i < blk_size s d. heap_bytes t (d + HEADER_SIZE + i) =
              heap_bytes s (d + HEADER_SIZE + i))))"

lemma krealloc_shrink:
  assumes ok: "heap_ok a s bs fs" and b: "b \<in> allocated s bs"
    and m: "unat m mod 16 = 0" "unat n \<le> unat m" "m < blk_size s b"
    and t: "t = (if blk_size s b - m \<ge> HEADER_SIZE + 16 then split_block b m s else s)"
  shows "resizes a s bs b n (b + HEADER_SIZE) t"
proof (cases "blk_size s b - m \<ge> HEADER_SIZE + 16")
  case False
  then show ?thesis
    unfolding resizes_def using ok b m t
    by (intro exI [of _ bs] exI [of _ fs] exI [of _ b]) (auto simp: word_less_nat_alt)
next
  case True
  have bb: "b \<in> set bs" "\<not> blk_free s b"
    using b by (simp_all add: allocated_def)
  have "unat (blk_size s b - m) = unat (blk_size s b) - unat m"
    using m(3) by (subst unat_sub) auto
  then have big: "unat m + 48 \<le> unat (blk_size s b)"
    using True by (simp add: HEADER_SIZE_def word_le_nat_alt)
  define r where "r = b + HEADER_SIZE + m"
  have wf: "heap_wf a s bs fs {b}"
    using ok bb by (auto simp: heap_wf_def)
  note sp = split_block_ok [OF wf bb(1) m(1) big r_def]
  obtain bs' where bs': "heap_wf a t bs' (r # fs) {b}" "set bs' = insert r (set bs)"
    using sp(4) True by (auto simp: t)
  have "heap_ok a t bs' (r # fs)"
    using bs'(1) bb True sp(3) by (auto simp: heap_wf_def t r_def [symmetric])
  moreover have "allocated t bs' = insert b (allocated s bs - {b})"
    using bs'(2) bb sp(1,3) True by (auto simp: allocated_def t r_def [symmetric])
  moreover have "\<forall>d \<in> allocated s bs - {b}. blk_size t d = blk_size s d"
    using sp(1) True by (auto simp: allocated_def t r_def [symmetric])
  ultimately show ?thesis
    unfolding resizes_def using m(2) True
    by (intro exI [of _ bs'] exI [of _ "r # fs"] exI [of _ b]) (auto simp: t)
qed

lemma krealloc_grow:
  assumes ok: "heap_ok a s bs fs" and b: "b \<in> allocated s bs"
    and alloc: "allocates a s bs m q u" and m: "unat n \<le> unat m" "blk_size s b < m"
    and hb: "heap_bytes u = heap_bytes s"
    and t: "t = kfree (b + HEADER_SIZE)
                 (u\<lparr>heap_bytes := memcpy (heap_bytes u) q (b + HEADER_SIZE) (blk_size u b)\<rparr>)"
  shows "resizes a s bs b n q t"
proof -
  obtain bs' fs' c where c: "q = c + HEADER_SIZE" "heap_ok a u bs' fs'" "c \<notin> allocated s bs"
    "allocated u bs' = insert c (allocated s bs)" "unat m \<le> unat (blk_size u c)"
    "\<forall>d \<in> allocated s bs. blk_size u d = blk_size s d"
    using alloc by (auto simp: allocates_def)
  have in_u: "c \<in> set bs'" "b \<in> set bs'" "\<not> blk_free u b" "\<And>d. d \<in> allocated s bs \<Longrightarrow> d \<in> set bs'"
    using c(4) b by (auto simp: allocated_def)
  have ne: "c \<noteq> d" if "d \<in> allocated s bs" for d
    using that c(3) by blast
  have sb: "blk_size u b = blk_size s b" "unat (blk_size s b) < unat (blk_size u c)"
    using c(5,6) b m(2) by (auto simp: word_less_nat_alt)
  note cb = allocated_apart [OF c(2) in_u(1,2) ne [OF b]]
  note bc = allocated_apart(2) [OF c(2) in_u(2,1) ne [OF b, symmetric]]
  have "no_overlap q (b + HEADER_SIZE) (blk_size u b)"
    by (rule no_overlap_nat) (use cb bc sb c(1) in auto)
  note copy = memcpy_eq [OF this]
  define v where "v = u\<lparr>heap_bytes := memcpy (heap_bytes u) q (b + HEADER_SIZE) (blk_size u b)\<rparr>"
  have okv: "heap_ok a v bs' fs'"
    using c(2) by (simp add: heap_wf_def v_def)
  have okt: "heap_ok a t bs' (b # fs')" "allocated t bs' = allocated v bs' - {b}"
    "blk_size t = blk_size v" "heap_bytes t = heap_bytes v"
    using kfree_block [OF okv in_u(2)] in_u(3) by (simp_all add: t v_def [symmetric])
      (simp_all add: v_def)
  have data: "heap_bytes t (d + HEADER_SIZE + i) = heap_bytes s (d + HEADER_SIZE + i)"
    if d: "d \<in> allocated s bs" "i < blk_size s d" for d i
  proof -
    note cd = allocated_apart [OF c(2) in_u(1) in_u(4) [OF d(1)] ne [OF d(1)]]
    note dc = allocated_apart(2) [OF c(2) in_u(4) [OF d(1)] in_u(1) ne [OF d(1), symmetric]]
    have "\<not> d + HEADER_SIZE + i - q < blk_size u b"
    proof (rule outside_block)
      show "i < blk_size s d"
        by (rule d(2))
      show "unat q + unat (blk_size u b) \<le> unat (d + HEADER_SIZE) \<or>
          unat (d + HEADER_SIZE) + unat (blk_size s d) \<le> unat q"
        using cd(1) c(1,6) d(1) sb by auto
      show "unat (d + HEADER_SIZE) + unat (blk_size s d) < 2 ^ 64"
        using dc c(6) d(1) by simp
      show "unat q + unat (blk_size u b) < 2 ^ 64"
        using cb(2) c(1) sb by simp
    qed
    then show ?thesis
      by (simp add: okt(4) v_def copy hb)
  qed
  have hbt: "heap_bytes t =
      (\<lambda>x. if x - q < blk_size u b then heap_bytes s (b + HEADER_SIZE + (x - q)) else heap_bytes s x)"
    unfolding okt(4) v_def by (simp add: copy hb)
  have copied: "heap_bytes t (q + i) = heap_bytes s (b + HEADER_SIZE + i)"
    if "i < blk_size s b" for i
    using that by (simp add: hbt sb)
  have "allocated t bs' = insert c (allocated s bs - {b})"
    using okt(2) c(4) ne [OF b] by (auto simp: allocated_def v_def)
  moreover have "blk_size t = blk_size u"
    by (simp add: okt(3) v_def)
  ultimately show ?thesis
    unfolding resizes_def using c(1,5,6) okt(1) m(1) data copied
    by (intro exI [of _ bs'] exI [of _ "b # fs'"] exI [of _ c]) auto
qed

lemma krealloc_more:
  assumes ok: "heap_ok a s bs fs" and b: "b \<in> allocated s bs" and n: "n \<noteq> 0"
    and r: "unat n \<le> unat (round16 n)" "unat (round16 n) \<le> unat n + 15" "round16 n \<noteq> 0"
    and p: "b + HEADER_SIZE \<noteq> NULL" and room: "unat (heap_current_virtual s) + unat n + 4157 < 2 ^ 64"
    and more: "blk_size s b < round16 n"
  shows "\<exists>r. krealloc (b + HEADER_SIZE) n s = Some r \<and> (case r of Inl p \<Rightarrow> \<not> physical_memory_initialized s
    | Inr (q, t) \<Rightarrow>
        if q = NULL then heap_ok a t bs fs \<and> allocated t bs = allocated s bs \<and>
          heap_bytes t = heap_bytes s
        else resizes a s bs b n q t)"
proof -
  let ?m = "round16 n" and ?p = "b + HEADER_SIZE"
  have "unat (heap_current_virtual s) + unat ?m + 4142 < 2 ^ 64"
    using room r(2) by simp
  then obtain x where x: "kmalloc ?m s = Some x" "case x of Inl p \<Rightarrow> True
    | Inr (ptr, t) \<Rightarrow> heap_bytes t = heap_bytes s \<and>
        (ptr = NULL \<and> pmm.more t = pmm.more s \<or> allocates a s bs ?m ptr t)"
    using kmalloc_cases [OF ok r(3)] by blast
  have run: "krealloc ?p n s = map_result (\<lambda>(q, u).
      (q, if q \<noteq> NULL then kfree ?p (u\<lparr>heap_bytes :=
             memcpy (heap_bytes u) q ?p (blk_size u b)\<rparr>) else u)) (kmalloc ?m s)"
    using more p n by (auto simp: krealloc_def Let_def)
  show ?thesis
  proof (cases x)
    case (Inr qu)
    obtain q u where qu: "qu = (q, u)"
      by (cases qu)
    from x(2) consider (null) "q = NULL" "pmm.more u = pmm.more s"
      | (block) "allocates a s bs ?m q u" "heap_bytes u = heap_bytes s"
      by (auto simp: Inr qu)
    then show ?thesis
    proof cases
      case null
      then show ?thesis
        using run x(1) ok
        by (simp add: Inr qu map_result_def heap_wf_more [OF null(2)] allocated_def
            more_heap [OF null(2)])
    next
      case block
      then show ?thesis
        using run x(1) allocates_nonnull [OF block(1)]
          krealloc_grow [OF ok b block(1) r(1) more block(2) refl]
        by (simp add: Inr qu map_result_def)
    qed
  qed (use run x(1) in \<open>auto simp: map_result_def dest: kmalloc_panics\<close>)
qed

text \<open>
  C6. \<^verbatim>\<open>krealloc\<close> on an allocated block returns, and it panics only before the page
  allocator is set up. A null
  result leaves the heap and the block as they were; any other result is a block of at least
  the new size that starts with the old contents, in place of the old block, and no other
  allocated block changes its size or its data.
\<close>

theorem krealloc_correct:
  assumes ok: "heap_ok a s bs fs" and b: "b \<in> allocated s bs" and n: "n \<noteq> 0"
    and room: "unat (heap_current_virtual s) + unat n + 4157 < 2 ^ 64"
  shows "\<exists>r. krealloc (b + HEADER_SIZE) n s = Some r \<and> (case r of Inl p \<Rightarrow> \<not> physical_memory_initialized s
    | Inr (q, t) \<Rightarrow>
        if q = NULL then heap_ok a t bs fs \<and> allocated t bs = allocated s bs \<and>
          heap_bytes t = heap_bytes s
        else resizes a s bs b n q t)"
proof -
  let ?m = "round16 n" and ?p = "b + HEADER_SIZE"
  have r: "unat ?m mod 16 = 0" "unat n \<le> unat ?m" "unat ?m \<le> unat n + 15" "?m \<noteq> 0"
    using round16_facts [of n] room n by simp_all
  have bb: "b \<in> set bs"
    using b by (simp add: allocated_def)
  have p: "?p \<noteq> NULL" "?p - HEADER_SIZE = b"
    using heap_wf_bounds(5) [OF ok bb] by (auto simp: NULL_def)
  consider (same) "blk_size s b = ?m" | (less) "?m < blk_size s b" | (more) "blk_size s b < ?m"
    by fastforce
  then show ?thesis
  proof cases
    case same
    then have "resizes a s bs b n ?p s"
      unfolding resizes_def using ok b r(2)
      by (intro exI [of _ bs] exI [of _ fs] exI [of _ b]) auto
    then show ?thesis
      using same p n by (simp add: krealloc_def Let_def)
  next
    case less
    then show ?thesis
      using krealloc_shrink [OF ok b r(1,2) less refl] p n
      by (auto simp: krealloc_def Let_def)
  next
    case more
    then show ?thesis
      using krealloc_more [OF ok b n r(2-4) p(1) room] by blast
  qed
qed

text \<open>
  \<^verbatim>\<open>kcalloc\<close> with a product that does not overflow panics only before the page allocator is
  set up; it returns the null pointer or a block whose first \<open>num * size\<close> bytes are zero, and no allocated block's data changes.
\<close>

theorem kcalloc_zeroes:
  assumes ok: "heap_ok a s bs fs" and n: "0 < unat num * unat sz"
    and room: "unat (heap_current_virtual s) + unat num * unat sz + 4142 < 2 ^ 64"
  shows "\<exists>r. kcalloc num sz s = Some r \<and> (case r of Inl p \<Rightarrow> \<not> physical_memory_initialized s
    | Inr (q, t) \<Rightarrow> q \<noteq> NULL \<longrightarrow> allocates a s bs (num * sz) q t \<and>
        (\<forall>i. unat i < unat num * unat sz \<longrightarrow> heap_bytes t (q + i) = 0) \<and>
        (\<forall>d \<in> allocated s bs. \<forall>i < blk_size s d. heap_bytes t (d + HEADER_SIZE + i) =
           heap_bytes s (d + HEADER_SIZE + i)))"
proof -
  have un: "unat (num * sz) = unat num * unat sz"
    using room by (simp add: unat_word_ariths)
  then have n0: "num * sz \<noteq> 0"
    using n by (metis less_irrefl_nat unat_0)
  obtain x where x: "kmalloc (num * sz) s = Some x" "case x of Inl p \<Rightarrow> True
    | Inr (ptr, t) \<Rightarrow> heap_bytes t = heap_bytes s \<and>
        (ptr = NULL \<and> pmm.more t = pmm.more s \<or> allocates a s bs (num * sz) ptr t)"
    using kmalloc_cases [OF ok n0] room un by auto
  show ?thesis
  proof (cases x)
    case (Inr qu)
    obtain q u where qu: "qu = (q, u)"
      by (cases qu)
    define t where "t = (if q \<noteq> NULL
      then u\<lparr>heap_bytes := memset (heap_bytes u) q 0 (num * sz)\<rparr> else u)"
    have run: "kcalloc num sz s = Some (Inr (q, t))"
      using x(1) by (simp add: kcalloc_def map_result_def Inr qu t_def Let_def)
    show ?thesis
    proof (cases "q = NULL")
      case False
      then have al: "allocates a s bs (num * sz) q u" and hb: "heap_bytes u = heap_bytes s"
        using x(2) by (auto simp: Inr qu)
      obtain bs' fs' c where c: "q = c + HEADER_SIZE" "heap_ok a u bs' fs'" "c \<notin> allocated s bs"
        "allocated u bs' = insert c (allocated s bs)" "unat (num * sz) \<le> unat (blk_size u c)"
        "\<forall>d \<in> allocated s bs. blk_size u d = blk_size s d"
        using al by (auto simp: allocates_def)
      have t: "heap_bytes t = (\<lambda>x. if x - q < num * sz then 0 else heap_bytes s x)"
      proof -
        have "ucast (0 :: u32) = (0 :: u8)"
          by simp
        then show ?thesis
          using False unfolding t_def by (simp only: memset_eq if_True if_False hb) simp
      qed
      have "heap_bytes t (d + HEADER_SIZE + i) = heap_bytes s (d + HEADER_SIZE + i)"
        if d: "d \<in> allocated s bs" "i < blk_size s d" for d i
      proof -
        have m: "c \<in> set bs'" "d \<in> set bs'" "c \<noteq> d"
          using c(3,4) d(1) by (auto simp: allocated_def)
        note cd = allocated_apart [OF c(2) m] and dc = allocated_apart(2) [OF c(2) m(2,1) m(3) [symmetric]]
        have "\<not> d + HEADER_SIZE + i - q < num * sz"
          by (rule outside_block [OF _ d(2)]) (use cd dc c d in auto)
        then show ?thesis
          by (simp add: t)
      qed
      moreover have "allocates a s bs (num * sz) q t"
        using al False by (simp add: t_def allocates_def heap_wf_def allocated_def)
      moreover have "heap_bytes t (q + i) = 0" if "unat i < unat num * unat sz" for i
        using that un by (simp add: t word_less_nat_alt)
      ultimately show ?thesis
        using run by simp
    qed (use run in simp)
  qed (use x(1) in \<open>auto simp: kcalloc_def map_result_def Let_def dest: kmalloc_panics\<close>)
qed

section \<open>Sizes that wrap\<close>

text \<open>
  The rounding of the size wraps: a request of more than \<open>2 ^ 64 - 16\<close> bytes is served
  from the first free block, with a block of no bytes at all.
\<close>

theorem kmalloc_size_wraps:
  assumes ok: "heap_ok a s bs (b # fs)" and n: "2 ^ 64 \<le> unat n + 15"
    and big: "48 \<le> blk_size s b"
  shows "\<exists>t. kmalloc n s = Some (Inr (b + HEADER_SIZE, t)) \<and> blk_size t b = 0 \<and> \<not> blk_free t b"
proof -
  have "unat (n + 15) < 16"
    using n unat64_bound [of n] by (simp add: unat_word_ariths mod_if) linarith
  then have "unat (n + 15) div 2 ^ 4 = 0"
    by simp
  then have r: "round16 n = 0"
    using unat_and_not_mask [of "n + 15" 4] unfolding round16_def mask_numerals(2)
    by (simp only: unat_0_iff mult_0)
  have n0: "n \<noteq> 0"
    using n by auto
  have "kmalloc n s = Some (Inr (take_block b 0 s))"
    using kmalloc_fit [OF ok n0, of b] by (simp add: r)
  moreover have "take_block b 0 s = (b + HEADER_SIZE, snd (take_block b 0 s))"
    by (simp add: take_block_def Let_def)
  moreover have "blk_size (snd (take_block b 0 s)) b = 0" "\<not> blk_free (snd (take_block b 0 s)) b"
    using big by (simp_all add: take_block_def Let_def HEADER_SIZE_def)
  ultimately show ?thesis
    by metis
qed

text \<open>The product of \<^verbatim>\<open>kcalloc\<close> wraps as well: more than \<open>2 ^ 64\<close> bytes are served as two.\<close>

lemma kcalloc_product_wraps: "kcalloc 0x8000000000000001 2 s = kcalloc 1 2 s"
proof -
  have "(0x8000000000000001 :: u64) * 2 = 1 * 2"
    by (simp only: word_unat_eq_iff) simp
  then show ?thesis
    unfolding kcalloc_def by (simp only:)
qed

section \<open>The interface\<close>

text \<open>
  What the clients of an allocator rely on. \<open>live s B\<close> says that the allocated blocks of the
  state are those of the map \<open>B\<close>, from their addresses to their sizes; \<open>room s\<close> is the part
  of the address space that is left to grow into.
\<close>

locale allocator =
  fixes alloc :: "u64 \<Rightarrow> 's \<Rightarrow> (u64 \<times> 's) outcome option"
    and release :: "u64 \<Rightarrow> 's \<Rightarrow> 's"
    and live :: "'s \<Rightarrow> (u64 \<Rightarrow> nat option) \<Rightarrow> bool"
    and room :: "'s \<Rightarrow> nat"
  assumes alloc: "live s B \<Longrightarrow> n \<noteq> 0 \<Longrightarrow> unat n + 4142 < room s \<Longrightarrow>
      \<exists>r. alloc n s = Some r \<and> (case r of Inl p \<Rightarrow> True | Inr (p, t) \<Rightarrow>
        room s \<le> room t + unat n + 4142 \<and>
        (if p = NULL then live t B
         else \<exists>k. unat n \<le> k \<and> p \<notin> dom B \<and> live t (B(p \<mapsto> k))))"
    and release: "live s B \<Longrightarrow> p \<in> dom B \<Longrightarrow> live (release p s) (B(p := None))"
    and apart: "live s B \<Longrightarrow> B p = Some k \<Longrightarrow> B q = Some l \<Longrightarrow> p \<noteq> q \<Longrightarrow>
      unat p + k \<le> unat q \<or> unat q + l \<le> unat p"
    and bounded: "live s B \<Longrightarrow> B p = Some k \<Longrightarrow> unat p + k < 2 ^ 64 \<and> p \<noteq> NULL"
begin

text \<open>
  Two allocations in a row, the first one undone when the second fails: either both blocks
  are live and do not overlap, or the live blocks are those of before.
\<close>

lemma alloc_pair:
  assumes "live s B" and "n \<noteq> 0" "m \<noteq> 0" and "unat n + unat m + 2 * 4142 < room s"
  shows "\<exists>r. alloc n s = Some r \<and> (case r of Inl e \<Rightarrow> True | Inr (p, s1) \<Rightarrow>
    if p = NULL then live s1 B
    else \<exists>r. alloc m s1 = Some r \<and> (case r of Inl e \<Rightarrow> True | Inr (q, s2) \<Rightarrow>
      if q = NULL then live (release p s2) B
      else \<exists>k l. unat n \<le> k \<and> unat m \<le> l \<and> p \<noteq> q \<and> p \<notin> dom B \<and> q \<notin> dom B \<and>
        live s2 (B(p \<mapsto> k, q \<mapsto> l)) \<and> (unat p + k \<le> unat q \<or> unat q + l \<le> unat p) \<and>
        unat p + k < 2 ^ 64 \<and> unat q + l < 2 ^ 64))"
proof -
  obtain r where r: "alloc n s = Some r" and cases: "case r of Inl e \<Rightarrow> True | Inr (p, t) \<Rightarrow>
        room s \<le> room t + unat n + 4142 \<and>
        (if p = NULL then live t B
         else \<exists>k. unat n \<le> k \<and> p \<notin> dom B \<and> live t (B(p \<mapsto> k)))"
    using alloc [OF assms(1,2)] assms(4) by auto
  show ?thesis
  proof (cases r)
    case (Inr ps)
    obtain p s1 where ps: "ps = (p, s1)"
      by (cases ps)
    show ?thesis
    proof (cases "p = NULL")
      case False
      then obtain k where k: "unat n \<le> k" "p \<notin> dom B" "live s1 (B(p \<mapsto> k))"
        and "room s \<le> room s1 + unat n + 4142"
        using cases Inr ps by auto
      then obtain r2 where r2: "alloc m s1 = Some r2" and cases2: "case r2 of Inl e \<Rightarrow> True | Inr (q, t) \<Rightarrow>
          (if q = NULL then live t (B(p \<mapsto> k))
           else \<exists>l. unat m \<le> l \<and> q \<notin> dom (B(p \<mapsto> k)) \<and> live t (B(p \<mapsto> k, q \<mapsto> l)))"
        using alloc [OF k(3) assms(3)] assms(4) by (fastforce split: sum.splits)
      have undo: "live (release p s2) B" if "live s2 (B(p \<mapsto> k))" for s2
      proof -
        have "(B(p \<mapsto> k))(p := None) = B"
          using k(2) by (auto simp: fun_eq_iff domIff)
        then show ?thesis
          using release [OF that, of p] by simp
      qed
      have both: "\<exists>k l. unat n \<le> k \<and> unat m \<le> l \<and> p \<noteq> q \<and> p \<notin> dom B \<and> q \<notin> dom B \<and>
          live s2 (B(p \<mapsto> k, q \<mapsto> l)) \<and> (unat p + k \<le> unat q \<or> unat q + l \<le> unat p) \<and>
          unat p + k < 2 ^ 64 \<and> unat q + l < 2 ^ 64"
        if l: "unat m \<le> l" "q \<notin> dom (B(p \<mapsto> k))" "live s2 (B(p \<mapsto> k, q \<mapsto> l))" for q s2 l
      proof -
        have "p \<noteq> q" "q \<notin> dom B"
          using l(2) by auto
        then show ?thesis
          using k l apart [OF l(3), of p k q l] bounded [OF l(3), of p k] bounded [OF l(3), of q l]
          by (intro exI [of _ k] exI [of _ l]) simp
      qed
      have "case r2 of Inl e \<Rightarrow> True | Inr (q, s2) \<Rightarrow>
        if q = NULL then live (release p s2) B
        else \<exists>k l. unat n \<le> k \<and> unat m \<le> l \<and> p \<noteq> q \<and> p \<notin> dom B \<and> q \<notin> dom B \<and>
          live s2 (B(p \<mapsto> k, q \<mapsto> l)) \<and> (unat p + k \<le> unat q \<or> unat q + l \<le> unat p) \<and>
          unat p + k < 2 ^ 64 \<and> unat q + l < 2 ^ 64"
      proof (cases r2)
        case (Inr qs)
        obtain q s2 where qs: "qs = (q, s2)"
          by (cases qs)
        show ?thesis
        proof (cases "q = NULL")
          case True
          then show ?thesis
            using cases2 undo by (simp add: Inr qs)
        next
          case False
          then obtain l where "unat m \<le> l" "q \<notin> dom (B(p \<mapsto> k))" "live s2 (B(p \<mapsto> k, q \<mapsto> l))"
            using cases2 by (auto simp: Inr qs)
          then show ?thesis
            unfolding Inr qs sum.case prod.case using False both by (simp only: if_False)
        qed
      qed simp
      then show ?thesis
        using r r2 Inr ps False by simp
    qed (use r cases Inr ps in simp)
  qed (use r in simp)
qed

end

text \<open>The heap as an allocator: a block's address is that of its data.\<close>

definition blocks :: "'a heap_scheme \<Rightarrow> u64 list \<Rightarrow> u64 \<Rightarrow> nat option" where
  "blocks s bs = (\<lambda>p. if p - HEADER_SIZE \<in> allocated s bs
     then Some (unat (blk_size s (p - HEADER_SIZE))) else None)"

definition heap_live :: "'a heap_scheme \<Rightarrow> (u64 \<Rightarrow> nat option) \<Rightarrow> bool" where
  "heap_live s B \<longleftrightarrow> (\<exists>a bs fs. heap_ok a s bs fs \<and> B = blocks s bs)"

definition heap_room :: "'a heap_scheme \<Rightarrow> nat" where
  "heap_room s = 2 ^ 64 - unat (heap_current_virtual s)"

lemma allocates_live:
  assumes "allocates a s bs n p t"
  shows "p \<notin> dom (blocks s bs)"
    and "\<exists>k. unat n \<le> k \<and> heap_live t ((blocks s bs)(p \<mapsto> k))"
proof -
  obtain bs' fs' b where b: "p = b + HEADER_SIZE" "heap_ok a t bs' fs'" "b \<notin> allocated s bs"
    "allocated t bs' = insert b (allocated s bs)" "unat n \<le> unat (blk_size t b)"
    "\<forall>c \<in> allocated s bs. blk_size t c = blk_size s c"
    using assms unfolding allocates_def by blast
  show "p \<notin> dom (blocks s bs)"
    using b(1,3) by (simp add: blocks_def domIff)
  have "blocks t bs' = (blocks s bs)(p \<mapsto> unat (blk_size t b))"
    using b by (auto simp: blocks_def fun_eq_iff)
  then show "\<exists>k. unat n \<le> k \<and> heap_live t ((blocks s bs)(p \<mapsto> k))"
    using b(2,5) unfolding heap_live_def by metis
qed

interpretation ha: allocator kmalloc kfree heap_live heap_room
proof (unfold_locales, goal_cases)
  case (1 s B n)
  then obtain a bs fs where ok: "heap_ok a s bs fs" and B: "B = blocks s bs"
    by (auto simp: heap_live_def)
  have room: "unat (heap_current_virtual s) + unat n + 4142 < 2 ^ 64"
    using 1(3) by (simp add: heap_room_def)
  obtain r where r: "kmalloc n s = Some r" "case r of Inl p \<Rightarrow> True
    | Inr (ptr, t) \<Rightarrow> heap_bytes t = heap_bytes s \<and>
        (ptr = NULL \<and> pmm.more t = pmm.more s \<or> allocates a s bs n ptr t)"
    using kmalloc_cases [OF ok 1(2) room] by blast
  show ?case
  proof (cases r)
    case (Inr pt)
    obtain p t where pt: "pt = (p, t)"
      by (cases pt)
    have "heap_room s \<le> heap_room t + unat n + 4142"
      using kmalloc_frame(2) [OF ok 1(2) room, of p t] r(1) Inr pt room
      by (simp add: heap_room_def)
    moreover have "heap_live t B" if same: "pmm.more t = pmm.more s"
    proof -
      have "blocks t bs = B"
        by (simp only: B blocks_def allocated_def more_heap [OF same])
      moreover have "heap_ok a t bs fs"
        using ok by (simp add: heap_wf_more [OF same])
      ultimately show ?thesis
        unfolding heap_live_def by blast
    qed
    ultimately show ?thesis
      using r allocates_live [of a s bs n p t] allocates_nonnull [of a s bs n p t]
      by (auto simp: Inr pt B)
  qed (use r in simp)
next
  case (2 s B p)
  then obtain a bs fs where ok: "heap_ok a s bs fs" and B: "B = blocks s bs"
    by (auto simp: heap_live_def)
  let ?b = "p - HEADER_SIZE"
  have b: "?b \<in> set bs" "\<not> blk_free s ?b"
    using 2(2) by (auto simp: B blocks_def allocated_def split: if_splits)
  then have f: "heap_ok a (kfree p s) bs (?b # fs)" "allocated (kfree p s) bs = allocated s bs - {?b}"
    "blk_size (kfree p s) = blk_size s"
    using kfree_block [OF ok b(1)] by simp_all
  have "blocks (kfree p s) bs = B(p := None)"
    using f(2,3) by (auto simp: blocks_def B fun_eq_iff)
  then show ?case
    using f(1) unfolding heap_live_def by metis
next
  case (3 s B p k q l)
  then obtain a bs fs where ok: "heap_ok a s bs fs" and B: "B = blocks s bs"
    by (auto simp: heap_live_def)
  have "p - HEADER_SIZE \<in> set bs" "q - HEADER_SIZE \<in> set bs" "p - HEADER_SIZE \<noteq> q - HEADER_SIZE"
    "k = unat (blk_size s (p - HEADER_SIZE))" "l = unat (blk_size s (q - HEADER_SIZE))"
    using 3(2-4) by (auto simp: B blocks_def allocated_def split: if_splits)
  then show ?case
    using allocated_apart(1) [OF ok, of "p - HEADER_SIZE" "q - HEADER_SIZE"] by simp
next
  case (4 s B p k)
  then obtain a bs fs where ok: "heap_ok a s bs fs" and B: "B = blocks s bs"
    by (auto simp: heap_live_def)
  have p: "p - HEADER_SIZE \<in> set bs" "k = unat (blk_size s (p - HEADER_SIZE))"
    using 4(2) by (auto simp: B blocks_def allocated_def split: if_splits)
  then have "unat p = unat (p - HEADER_SIZE) + 32"
    using heap_wf_bounds(5) [OF ok p(1)] by simp
  then show ?case
    using heap_wf_bounds(1) [OF ok p(1)] p(2) by (auto simp: NULL_def)
qed

section \<open>Instances\<close>

text \<open>A heap of one page holding one block, free in the first sample, allocated in the second.\<close>

definition empty_heap :: heap where
  "empty_heap = pmm.extend sample_pmm
     \<lparr>blk_size = (\<lambda>_. 0)(0x100000 := 4064), blk_free = (\<lambda>_. False),
      elems = INIT_LIST_HEAD (\<lambda>_. \<lparr>nxt = 0, prv = 0\<rparr>) 0x8000, heap_bytes = (\<lambda>_. 1),
      free_list = 0x8000, heap_current_virtual = 0x101000\<rparr>"

definition sample_heap :: heap where
  "sample_heap = kfree (0x100000 + HEADER_SIZE) empty_heap"

lemma empty_heap_fields [simp]:
  "blk_size empty_heap = (\<lambda>_. 0)(0x100000 := 4064)" "\<not> blk_free empty_heap b"
  "elems empty_heap = INIT_LIST_HEAD (\<lambda>_. \<lparr>nxt = 0, prv = 0\<rparr>) 0x8000"
  "free_list empty_heap = 0x8000" "heap_current_virtual empty_heap = 0x101000"
  by (simp_all add: empty_heap_def pmm.extend_def)

lemma empty_heap_ok: "heap_ok 0x100000 empty_heap [0x100000] []"
  by (simp add: heap_wf_def INIT_LIST_HEAD_list)

lemma empty_heap_allocated: "allocated empty_heap [0x100000] = {0x100000}"
  by (auto simp: allocated_def)

lemma sample_heap_ok:
  "heap_ok 0x100000 sample_heap [0x100000] [0x100000]" "blk_size sample_heap 0x100000 = 4064"
  "heap_current_virtual sample_heap = 0x101000"
  using kfree_block [OF empty_heap_ok, of "0x100000"]
  by (simp_all add: sample_heap_def kfree_def HEADER_SIZE_def NULL_def Let_def)

theorem kmalloc_correct_witness:
  "\<exists>r. kmalloc 100 sample_heap = Some r \<and> (case r of Inl p \<Rightarrow> \<not> physical_memory_initialized sample_heap
    | Inr (ptr, t) \<Rightarrow> heap_bytes t = heap_bytes sample_heap \<and>
        (if ptr = NULL then heap_ok 0x100000 t [0x100000] [0x100000] \<and>
           allocated t [0x100000] = allocated sample_heap [0x100000] \<and>
           (\<forall>b \<in> set [0x100000]. blk_size sample_heap b < round16 100)
         else allocates 0x100000 sample_heap [0x100000] 100 ptr t \<and> unat ptr mod 16 = 0 \<and>
           (\<forall>c \<in> allocated sample_heap [0x100000]. unat ptr + unat (100 :: u64) \<le> unat c \<or>
              unat c + 32 + unat (blk_size sample_heap c) + 32 \<le> unat ptr)))"
  by (rule kmalloc_correct [OF sample_heap_ok(1)]) (simp_all add: sample_heap_ok(3))

theorem kfree_correct_witness:
  "heap_ok 0x100000 (kfree (0x100000 + HEADER_SIZE) empty_heap) [0x100000] [0x100000] \<and>
   allocated (kfree (0x100000 + HEADER_SIZE) empty_heap) [0x100000] = {}"
  using kfree_correct [OF empty_heap_ok, of "0x100000"] empty_heap_allocated by simp

theorem krealloc_correct_witness:
  "\<exists>r. krealloc (0x100000 + HEADER_SIZE) 64 empty_heap = Some r \<and> (case r of Inl p \<Rightarrow> \<not> physical_memory_initialized empty_heap
    | Inr (q, t) \<Rightarrow>
        if q = NULL then heap_ok 0x100000 t [0x100000] [] \<and>
          allocated t [0x100000] = allocated empty_heap [0x100000] \<and>
          heap_bytes t = heap_bytes empty_heap
        else resizes 0x100000 empty_heap [0x100000] 0x100000 64 q t)"
  by (rule krealloc_correct [OF empty_heap_ok]) (simp_all add: empty_heap_allocated)

theorem kcalloc_zeroes_witness:
  "\<exists>r. kcalloc 5 20 sample_heap = Some r \<and> (case r of Inl p \<Rightarrow> \<not> physical_memory_initialized sample_heap
    | Inr (q, t) \<Rightarrow> q \<noteq> NULL \<longrightarrow>
        (\<forall>i. unat i < unat (5 :: u64) * unat (20 :: u64) \<longrightarrow> heap_bytes t (q + i) = 0))"
proof -
  obtain r where r: "kcalloc 5 20 sample_heap = Some r" "case r of Inl p \<Rightarrow> \<not> physical_memory_initialized sample_heap
    | Inr (q, t) \<Rightarrow> q \<noteq> NULL \<longrightarrow> allocates 0x100000 sample_heap [0x100000] (5 * 20) q t \<and>
        (\<forall>i. unat i < unat (5 :: u64) * unat (20 :: u64) \<longrightarrow> heap_bytes t (q + i) = 0) \<and>
        (\<forall>d \<in> allocated sample_heap [0x100000]. \<forall>i < blk_size sample_heap d.
           heap_bytes t (d + HEADER_SIZE + i) = heap_bytes sample_heap (d + HEADER_SIZE + i))"
    using kcalloc_zeroes [OF sample_heap_ok(1), of 5 20] by (auto simp: sample_heap_ok(3))
  then show ?thesis
    by (cases r) auto
qed

theorem kmalloc_size_wraps_witness:
  "\<exists>t. kmalloc 0xFFFFFFFFFFFFFFFF sample_heap = Some (Inr (0x100000 + HEADER_SIZE, t)) \<and>
     blk_size t 0x100000 = 0 \<and> \<not> blk_free t 0x100000"
  by (rule kmalloc_size_wraps [OF sample_heap_ok(1)]) (simp_all add: sample_heap_ok(2))

end
