(* ===== verification/Strings.thy ===== *)
theory Strings
  imports Mem "HOL-Library.Signed_Division"
begin

text \<open>
  C strings: \<^verbatim>\<open>klib/string.c\<close> and \<^verbatim>\<open>int_to_hex_string\<close> of \<^verbatim>\<open>klib/math.c\<close>. A string is the
  sequence of bytes at an address up to the first zero; a routine that looks for the end of
  a string may not return, which is the value \<open>None\<close>.
\<close>

section \<open>Strings in memory\<close>

fun cstr :: "mem \<Rightarrow> u64 \<Rightarrow> u8 list \<Rightarrow> bool" where
  "cstr m p [] \<longleftrightarrow> m p = 0"
| "cstr m p (x # xs) \<longleftrightarrow> x \<noteq> 0 \<and> m p = x \<and> cstr m (p + 1) xs"

text \<open>\<open>stores m p bs\<close> is memory after the bytes \<open>bs\<close> were written from address \<open>p\<close> on.\<close>

definition stores :: "mem \<Rightarrow> u64 \<Rightarrow> u8 list \<Rightarrow> mem" where
  "stores m p bs = (\<lambda>a. if unat (a - p) < length bs then bs ! unat (a - p) else m a)"

lemma stores_Nil [simp]: "stores m p [] = m"
  by (simp add: stores_def)

lemma stores_read:
  "unat i < length bs \<Longrightarrow> stores m p bs (p + i) = bs ! unat i"
  by (simp add: stores_def)

lemma offset_eq:
  fixes a p i :: u64
  shows "unat (a - p) = unat i \<longleftrightarrow> a = p + i"
proof -
  have "unat (a - p) = unat i \<longleftrightarrow> a - p = i"
    by (simp only: word_unat_eq_iff)
  then show ?thesis
    by (simp only: diff_eq_eq add.commute)
qed

lemma stores_write:
  assumes "unat i < length bs"
  shows "(stores m p bs)(p + i := x) = stores m p (bs[unat i := x])"
proof
  fix a
  show "((stores m p bs)(p + i := x)) a = stores m p (bs[unat i := x]) a"
    using assms offset_eq [of a p i] by (auto simp: stores_def nth_list_update)
qed

lemma stores_snoc:
  assumes "unat i = length bs"
  shows "(stores m p bs)(p + i := x) = stores m p (bs @ [x])"
proof
  fix a
  show "((stores m p bs)(p + i := x)) a = stores m p (bs @ [x]) a"
    using assms offset_eq [of a p i] by (auto simp: stores_def nth_append)
qed

lemma stores_Cons:
  assumes "length bs < 2 ^ 64"
  shows "stores m p (x # bs) = stores (m(p := x)) (p + 1) bs"
proof
  fix a
  have d: "a - (p + 1) = (a - p) - 1"
    by simp
  show "stores m p (x # bs) a = stores (m(p := x)) (p + 1) bs a"
  proof (cases "a = p")
    case True
    then have "unat (a - (p + 1)) = 2 ^ 64 - 1"
      unfolding d by (simp add: unsigned_minus_1_eq_mask mask_eq_exp_minus_1)
    then show ?thesis
      using assms True by (simp add: stores_def)
  next
    case False
    then have "unat (a - p) = Suc (unat (a - (p + 1)))"
      unfolding d by (subst unat_minus_one) (simp_all add: unat_eq_0 neq0_conv [symmetric] del: neq0_conv)
    then show ?thesis
      using False by (simp add: stores_def)
  qed
qed

lemma cstr_nth:
  assumes "cstr m p xs"
  shows "i < length xs \<Longrightarrow> m (p + of_nat i) = xs ! i"
    and "m (p + of_nat (length xs)) = 0"
    and "0 \<notin> set xs"
proof -
  show "i < length xs \<Longrightarrow> m (p + of_nat i) = xs ! i"
    using assms
  proof (induction xs arbitrary: p i)
    case (Cons x xs)
    then show ?case
    proof (cases i)
      case (Suc j)
      then have "m (p + 1 + of_nat j) = xs ! j"
        using Cons by simp
      then show ?thesis
        using Suc by (simp add: algebra_simps)
    qed simp
  qed simp
  show "m (p + of_nat (length xs)) = 0"
    using assms
    by (induction xs arbitrary: p) (auto simp: add.assoc [symmetric])
  show "0 \<notin> set xs"
    using assms by (induction xs arbitrary: p) auto
qed

text \<open>A string is shorter than the address space, because its end is in it.\<close>

lemma cstr_length:
  assumes "cstr m p xs"
  shows "length xs < 2 ^ 64"
proof (rule ccontr)
  assume "\<not> length xs < 2 ^ 64"
  then have l: "2 ^ 64 \<le> length xs"
    by simp
  let ?k = "unat (of_nat (length xs) :: u64)"
  have "?k < length xs"
    using l unat64_bound [of "of_nat (length xs)"] by linarith
  then have "m (p + of_nat ?k) = xs ! ?k" and "xs ! ?k \<in> set xs"
    using cstr_nth(1) [OF assms] nth_mem by blast+
  moreover have "(of_nat ?k :: u64) = of_nat (length xs)"
    by simp
  ultimately show False
    using cstr_nth(2,3) [OF assms] by metis
qed

lemma cstr_stores:
  assumes "length xs < 2 ^ 64" and "0 \<notin> set xs"
  shows "cstr (stores m p (xs @ [0])) p xs"
proof -
  have "cstr (stores m p (ys @ xs @ [0])) (p + of_nat (length ys)) xs"
    if "length (ys @ xs) < 2 ^ 64" "0 \<notin> set xs" for ys
    using that
  proof (induction xs arbitrary: ys)
    case Nil
    then have "unat (of_nat (length ys) :: u64) = length ys"
      by (simp add: unat_of_nat take_bit_nat_eq_self)
    then show ?case
      using stores_read [of "of_nat (length ys)" "ys @ [0]" m p] by simp
  next
    case (Cons x xs)
    then have "unat (of_nat (length ys) :: u64) = length ys"
      by (simp add: unat_of_nat take_bit_nat_eq_self)
    then have "stores m p (ys @ (x # xs) @ [0]) (p + of_nat (length ys)) = x"
      using stores_read [of "of_nat (length ys)" "ys @ (x # xs) @ [0]" m p] by (simp add: nth_append)
    moreover have "cstr (stores m p ((ys @ [x]) @ xs @ [0])) (p + of_nat (length (ys @ [x]))) xs"
      by (rule Cons.IH) (use Cons.prems in simp_all)
    ultimately show ?case
      using Cons.prems by (simp add: algebra_simps)
  qed
  from this [of "[]"] show ?thesis
    using assms by simp
qed

section \<open>Comparing and copying\<close>

partial_function (option) strcmp :: "mem \<Rightarrow> u64 \<Rightarrow> u64 \<Rightarrow> int option" where
  "strcmp m s1 s2 =
     (if m s1 \<noteq> 0 \<and> m s1 = m s2 then strcmp m (s1 + 1) (s2 + 1)
      else Some (uint (m s1) - uint (m s2)))"

partial_function (option) strcpy :: "mem \<Rightarrow> u64 \<Rightarrow> u64 \<Rightarrow> mem option" where
  "strcpy m dest src =
     (let c = m src; m = m(dest := c)
      in if c \<noteq> 0 then strcpy m (dest + 1) (src + 1) else Some m)"

text \<open>The two loops of \<^verbatim>\<open>strncpy\<close> share their counter.\<close>

function strncpy_copy :: "mem \<Rightarrow> u64 \<Rightarrow> u64 \<Rightarrow> u64 \<Rightarrow> u64 \<Rightarrow> mem \<times> u64" where
  "strncpy_copy m dest src n i =
     (if i < n \<and> m (src + i) \<noteq> 0
      then strncpy_copy (m(dest + i := m (src + i))) dest src n (i + 1)
      else (m, i))"
  by pat_completeness auto
termination
  by (relation "measure (\<lambda>(m, d, s, n, i). unat n - unat i)")
    (auto simp: unat_succ_less word_less_nat_alt)

declare strncpy_copy.simps [simp del]

definition strncpy :: "mem \<Rightarrow> u64 \<Rightarrow> u64 \<Rightarrow> u64 \<Rightarrow> mem" where
  "strncpy m dest src n =
     (case strncpy_copy m dest src n 0 of
        (m, i) \<Rightarrow> for_range i n (\<lambda>i m. m(dest + i := 0)) m)"

lemma uint_positive: "x \<noteq> 0 \<Longrightarrow> 0 < uint x"
  using word_gt_0 [of x] by (simp add: word_less_def)

text \<open>
  On two strings \<^verbatim>\<open>strcmp\<close> returns, and the sign of its result is the lexicographic order
  of the strings by unsigned bytes; it is 0 exactly for equal strings.
\<close>

theorem strcmp_correct:
  assumes "cstr m p xs" and "cstr m q ys"
  shows "\<exists>r. strcmp m p q = Some r \<and> (r = 0 \<longleftrightarrow> xs = ys) \<and>
           (r < 0 \<longleftrightarrow> (xs, ys) \<in> lexord {(a, b). a < b})"
  using assms
proof (induction xs arbitrary: p q ys)
  case Nil
  then show ?case
    by (cases ys) (auto simp: strcmp.simps [of m p q] uint_0_iff uint_positive)
next
  case (Cons x xs)
  show ?case
  proof (cases ys)
    case Nil
    then show ?thesis
      using Cons.prems by (auto simp: strcmp.simps [of m p q] uint_0_iff)
  next
    case (Cons y ys')
    show ?thesis
    proof (cases "x = y")
      case True
      then show ?thesis
        using Cons.IH [of "p + 1" "q + 1" ys'] Cons.prems Cons by (simp add: strcmp.simps [of m p q])
    next
      case False
      then show ?thesis
        using Cons.prems Cons
        by (auto simp: strcmp.simps [of m p q] word_less_def word_uint_eq_iff [of x y])
    qed
  qed
qed

text \<open>\<^verbatim>\<open>strcpy\<close> returns for a source whose end it does not overwrite on the way.\<close>

lemma strcpy_eq:
  assumes "cstr m src xs"
    and "\<And>i j. i \<le> length xs \<Longrightarrow> j \<le> length xs \<Longrightarrow> dest + of_nat i \<noteq> src + of_nat j"
  shows "strcpy m dest src = Some (stores m dest (xs @ [0]))"
  using assms
proof (induction xs arbitrary: m dest src)
  case Nil
  then show ?case
    using stores_snoc [of 0 "[]" m dest 0] by (simp add: strcpy.simps [of m])
next
  case (Cons x xs)
  let ?m = "m(dest := x)"
  have frame: "cstr ?m (src + 1) xs"
  proof -
    have "cstr ?m q ys" if "cstr m q ys" "\<And>j. j \<le> length ys \<Longrightarrow> dest \<noteq> q + of_nat j" for q ys
      using that
    proof (induction ys arbitrary: q)
      case Nil
      then show ?case
        using Nil.prems(2) [of 0] by simp
    next
      case (Cons y ys)
      have "dest \<noteq> (q + 1) + of_nat j" if "j \<le> length ys" for j
        using Cons.prems(2) [of "Suc j"] that by (simp add: add.assoc)
      then show ?case
        using Cons.IH [of "q + 1"] Cons.prems(1) Cons.prems(2) [of 0] by simp
    qed
    moreover have "dest \<noteq> (src + 1) + of_nat j" if "j \<le> length xs" for j
      using Cons.prems(2) [of 0 "Suc j"] that by (simp add: add.assoc)
    ultimately show ?thesis
      using Cons.prems(1) by simp
  qed
  have apart: "dest + 1 + of_nat i \<noteq> src + 1 + of_nat j"
    if "i \<le> length xs" "j \<le> length xs" for i j
    using Cons.prems(2) [of "Suc i" "Suc j"] that by (simp add: add.assoc)
  have "strcpy ?m (dest + 1) (src + 1) = Some (stores ?m (dest + 1) (xs @ [0]))"
    by (rule Cons.IH [OF frame apart])
  moreover have "stores ?m (dest + 1) (xs @ [0]) = stores m dest ((x # xs) @ [0])"
    using stores_Cons [of "xs @ [0]" m dest x] cstr_length [OF Cons.prems(1)] by simp
  ultimately show ?case
    using Cons.prems(1) by (simp add: strcpy.simps [of m])
qed

text \<open>
  \<^verbatim>\<open>strncpy\<close> fills exactly \<open>n\<close> bytes: the start of the string, padded with zeros. A source of
  \<open>n\<close> bytes or more is cut without a terminator.
\<close>

lemma strncpy_copy_eq:
  assumes "cstr m src xs" and "k \<le> min (length xs) (unat n)"
    and "\<And>i j. i < unat n \<Longrightarrow> j \<le> length xs \<Longrightarrow> dest + of_nat i \<noteq> src + of_nat j"
  shows "strncpy_copy (stores m dest (take k xs)) dest src n (of_nat k) =
         (stores m dest (take (unat n) xs), of_nat (min (length xs) (unat n)))"
  using assms(2)
proof (induction "min (length xs) (unat n) - k" arbitrary: k)
  case 0
  then have k: "k = min (length xs) (unat n)"
    by simp
  have kn: "unat (of_nat k :: u64) = k"
    using k unat64_bound [of n] by (simp add: unat_of_nat take_bit_nat_eq_self)
  have read: "stores m dest (take k xs) (src + of_nat k) = m (src + of_nat k)"
  proof (rule ccontr)
    assume "\<not> ?thesis"
    then have "unat (src + of_nat k - dest) < k"
      using k by (auto simp: stores_def split: if_splits)
    then show False
      using assms(3) [of "unat (src + of_nat k - dest)" k] k by simp
  qed
  have "\<not> (of_nat k < n \<and> m (src + of_nat k) \<noteq> 0)"
    using k kn cstr_nth(2) [OF assms(1)] by (cases "length xs < unat n") (auto simp: word_less_nat_alt)
  then have "strncpy_copy (stores m dest (take k xs)) dest src n (of_nat k) =
      (stores m dest (take k xs), of_nat k)"
    by (subst strncpy_copy.simps) (simp only: read if_False)
  moreover have "take k xs = take (unat n) xs"
    by (rule nth_equalityI) (use k in simp_all)
  ultimately show ?case
    using k by simp
next
  case (Suc d)
  have kl: "k < length xs" "k < unat n"
    using Suc.hyps(2) by simp_all
  have kn: "unat (of_nat k :: u64) = k"
    using kl unat64_bound [of n] by (simp add: unat_of_nat take_bit_nat_eq_self)
  have read: "stores m dest (take k xs) (src + of_nat k) = xs ! k"
  proof -
    have "\<not> unat (src + of_nat k - dest) < k"
      using assms(3) [of "unat (src + of_nat k - dest)" k] kl by auto
    then show ?thesis
      using kl cstr_nth(1) [OF assms(1)] by (simp add: stores_def)
  qed
  have nz: "xs ! k \<noteq> 0"
    using cstr_nth(3) [OF assms(1)] kl nth_mem by metis
  have less: "of_nat k < n"
    using kl kn by (simp add: word_less_nat_alt)
  have "(stores m dest (take k xs))(dest + of_nat k := xs ! k) = stores m dest (take (Suc k) xs)"
    using kl kn by (simp add: stores_snoc take_Suc_conv_app_nth)
  moreover have "strncpy_copy (stores m dest (take (Suc k) xs)) dest src n (of_nat (Suc k)) =
      (stores m dest (take (unat n) xs), of_nat (min (length xs) (unat n)))"
    by (rule Suc.hyps(1)) (use Suc.hyps(2) kl in linarith)+
  ultimately show ?case
    by (subst strncpy_copy.simps) (simp add: less read nz add.commute)
qed

lemma stores_zeros:
  assumes "unat i = length bs" and "i \<le> n"
  shows "for_range i n (\<lambda>i m. m(p + i := 0)) (stores m p bs) =
         stores m p (bs @ replicate (unat n - unat i) 0)"
proof -
  let ?I = "\<lambda>j t. i \<le> j \<and> t = stores m p (bs @ replicate (unat j - unat i) 0)"
  have "?I n (for_range i n (\<lambda>i m. m(p + i := 0)) (stores m p bs))"
  proof (rule for_range_inv [where I = ?I, OF assms(2)])
    show "?I i (stores m p bs)"
      by simp
    fix j t
    assume j: "i \<le> j" "j < n" and t: "?I j t"
    have l: "unat j = length (bs @ replicate (unat j - unat i) 0)"
      using assms(1) j by (simp add: word_le_nat_alt)
    have "unat (j + 1) - unat i = Suc (unat j - unat i)" "i \<le> j + 1"
      using j by (simp_all add: unat_succ_less word_le_nat_alt)
    then show "?I (j + 1) (t(p + j := 0))"
      using stores_snoc [OF l] t by (simp add: replicate_append_same)
  qed
  then show ?thesis
    by simp
qed

lemma strncpy_eq:
  assumes "cstr m src xs"
    and "\<And>i j. i < unat n \<Longrightarrow> j \<le> length xs \<Longrightarrow> dest + of_nat i \<noteq> src + of_nat j"
  shows "strncpy m dest src n = stores m dest (take (unat n) (xs @ replicate (unat n) 0))"
proof -
  let ?k = "min (length xs) (unat n)"
  have c: "strncpy_copy m dest src n 0 = (stores m dest (take (unat n) xs), of_nat ?k)"
    using strncpy_copy_eq [OF assms(1) _ assms(2), of 0] by simp
  have k: "unat (of_nat ?k :: u64) = ?k"
    using unat64_bound [of n] by (simp add: unat_of_nat take_bit_nat_eq_self)
  have "unat n - ?k = unat n - length xs"
    by simp
  then show ?thesis
    using k by (simp only: strncpy_def c prod.case)
      (subst stores_zeros, simp_all add: word_le_nat_alt min.commute)
qed

section \<open>Numbers as text\<close>

text \<open>
  The loop that writes the digits, least significant first. C's division truncates towards
  zero, so that the digit of a negative number is negated; the value stays within
  \<^verbatim>\<open>int64_t\<close>, also for its minimum.
\<close>

function decimal_digits :: "mem \<Rightarrow> u64 \<Rightarrow> u64 \<Rightarrow> int \<Rightarrow> mem \<times> u64" where
  "decimal_digits m str i n =
     (let digit = n smod 10;
          digit = (if digit < 0 then - digit else digit);
          m = m(str + i := word_of_int (digit + 48));
          i = i + 1;
          n = n sdiv 10
      in if n \<noteq> 0 then decimal_digits m str i n else (m, i))"
  by pat_completeness auto
termination
  by (relation "measure (\<lambda>(m, str, i, n). nat \<bar>n\<bar>)")
    (auto simp: signed_divide_int_def abs_mult sgn_if split: if_splits)

text \<open>The swapping loop, the same in \<^verbatim>\<open>int_to_string\<close> and in \<^verbatim>\<open>int_to_hex_string\<close>.\<close>

function swap_ends :: "mem \<Rightarrow> u64 \<Rightarrow> u64 \<Rightarrow> u64 \<Rightarrow> mem" where
  "swap_ends m str i j =
     (if i < j then
        let temp = m (str + i);
            m = m(str + i := m (str + j));
            m = m(str + j := temp)
        in swap_ends m str (i + 1) (j - 1)
      else m)"
  by pat_completeness auto
termination
  by (relation "measure (\<lambda>(m, str, i, j). unat j - unat i)")
    (auto simp: unat_succ_less word_less_nat_alt unat_sub_if')

definition int_to_string :: "mem \<Rightarrow> u64 \<Rightarrow> u64 \<Rightarrow> mem" where
  "int_to_string m n str =
     (if n = 0 then m(str := 48, str + 1 := 0) else
      let is_negative = sint n < 0;
          (m, i) = decimal_digits m str 0 (sint n);
          (m, i) = (if is_negative then (m(str + i := 45), i + 1) else (m, i));
          m = m(str + i := 0)
      in swap_ends m str 0 (i - 1))"

function hex_digits :: "mem \<Rightarrow> u64 \<Rightarrow> u64 \<Rightarrow> u64 \<Rightarrow> mem \<times> u64" where
  "hex_digits m buffer i value =
     (if value > 0 then
        hex_digits (m(buffer + i := (map (\<lambda>c. of_nat (of_char c)) ''0123456789ABCDEF'') ! unat (value mod 16)))
          buffer (i + 1) (value div 16)
      else (m, i))"
  by pat_completeness auto
termination
  by (relation "measure (\<lambda>(m, buffer, i, value). unat value)")
    (auto simp: word_less_nat_alt unat_div_distrib)

declare decimal_digits.simps [simp del] swap_ends.simps [simp del] hex_digits.simps [simp del]

definition int_to_hex_string :: "mem \<Rightarrow> u64 \<Rightarrow> u64 \<Rightarrow> mem" where
  "int_to_hex_string m value buffer =
     (if value = 0 then m(buffer := 48, buffer + 1 := 0) else
      let (m, i) = hex_digits m buffer 0 value;
          m = m(buffer + i := 0)
      in swap_ends m buffer 0 (i - 1))"

section \<open>What the numbers read as\<close>

function base_digits :: "nat \<Rightarrow> nat \<Rightarrow> nat list" where
  "base_digits b k = (if k < b \<or> b < 2 then [k] else k mod b # base_digits b (k div b))"
  by pat_completeness auto
termination
  by (relation "measure (\<lambda>(b, k). k)") auto

declare base_digits.simps [simp del]

fun base_value :: "nat \<Rightarrow> nat list \<Rightarrow> nat" where
  "base_value b [] = 0"
| "base_value b (d # ds) = d + b * base_value b ds"

definition digit_char :: "nat \<Rightarrow> u8" where
  "digit_char d = of_nat (if d < 10 then 48 + d else 55 + d)"

definition char_digit :: "u8 \<Rightarrow> nat" where
  "char_digit c = (if c < 58 then unat c - 48 else unat c - 55)"

definition decimal :: "int \<Rightarrow> u8 list" where
  "decimal z = (if z < 0 then [45] else []) @ map digit_char (rev (base_digits 10 (nat \<bar>z\<bar>)))"

definition hexadecimal :: "nat \<Rightarrow> u8 list" where
  "hexadecimal k = map digit_char (rev (base_digits 16 k))"

definition read_nat :: "nat \<Rightarrow> u8 list \<Rightarrow> nat" where
  "read_nat b cs = base_value b (map char_digit (rev cs))"

definition read_decimal :: "u8 list \<Rightarrow> int" where
  "read_decimal cs =
     (if cs \<noteq> [] \<and> hd cs = 45 then - int (read_nat 10 (tl cs)) else int (read_nat 10 cs))"

lemma base_value_digits [simp]: "base_value b (base_digits b k) = k"
  by (induction b k rule: base_digits.induct) (subst base_digits.simps, simp)

lemma base_digits_less: "2 \<le> b \<Longrightarrow> d \<in> set (base_digits b k) \<Longrightarrow> d < b"
  by (induction b k rule: base_digits.induct)
    (subst (asm) (2) base_digits.simps, auto split: if_splits)

lemma base_digits_nonempty [simp]: "base_digits b k \<noteq> []"
  by (subst base_digits.simps) simp

lemma base_digits_length:
  "k < b ^ Suc d \<Longrightarrow> length (base_digits b k) \<le> Suc d"
proof (induction d arbitrary: k)
  case 0
  then show ?case
    by (subst base_digits.simps) simp
next
  case (Suc d)
  have "k div b < b ^ Suc d"
    using Suc.prems by (simp add: less_mult_imp_div_less mult.commute)
  then have "length (base_digits b (k div b)) \<le> Suc d"
    by (rule Suc.IH)
  then show ?case
    by (subst base_digits.simps) simp
qed

lemma char_digit_char: "d < 16 \<Longrightarrow> char_digit (digit_char d) = d"
  by (auto simp: char_digit_def digit_char_def word_less_nat_alt unat_of_nat take_bit_nat_eq_self
      split: if_splits)

lemma read_nat_digits:
  assumes "2 \<le> b" and "b \<le> 16"
  shows "read_nat b (map digit_char (rev (base_digits b k))) = k"
proof -
  have "map char_digit (rev (map digit_char (rev (base_digits b k)))) = base_digits b k"
    unfolding rev_map rev_rev_ident map_map
    by (rule map_idI) (use assms base_digits_less in \<open>fastforce intro: char_digit_char\<close>)
  then show ?thesis
    by (simp add: read_nat_def)
qed

lemma digit_char_range: "d < 16 \<Longrightarrow> 48 \<le> digit_char d"
  by (auto simp: digit_char_def word_le_nat_alt unat_of_nat take_bit_nat_eq_self)

lemma digits_chars:
  assumes "2 \<le> b" and "b \<le> 16" and "c \<in> set (map digit_char (rev (base_digits b k)))"
  shows "48 \<le> c"
  using assms base_digits_less digit_char_range by fastforce

lemma read_decimal_decimal: "read_decimal (decimal z) = z"
proof (cases "z < 0")
  case True
  then show ?thesis
    by (simp add: read_decimal_def decimal_def read_nat_digits)
next
  case False
  let ?cs = "map digit_char (rev (base_digits 10 (nat \<bar>z\<bar>)))"
  have "hd ?cs \<in> set ?cs"
    by (rule hd_in_set) simp
  then have "hd ?cs \<noteq> 45"
    using digits_chars [of 10] by fastforce
  then show ?thesis
    using False read_nat_digits [of 10 "nat \<bar>z\<bar>"] by (simp add: read_decimal_def decimal_def)
qed

lemma decimal_length:
  assumes "- (2 ^ 63) \<le> z" and "z < 2 ^ 63"
  shows "length (decimal z) \<le> 20"
proof -
  have "nat \<bar>z\<bar> < 10 ^ Suc 18"
    using assms by simp
  then have "length (base_digits 10 (nat \<bar>z\<bar>)) \<le> Suc 18"
    by (rule base_digits_length)
  then show ?thesis
    by (cases "z < 0") (simp_all add: decimal_def)
qed

lemma hexadecimal_length:
  assumes "k < 2 ^ 64"
  shows "length (hexadecimal k) \<le> 16"
proof -
  have "k < 16 ^ Suc 15"
    using assms by simp
  then have "length (base_digits 16 k) \<le> Suc 15"
    by (rule base_digits_length)
  then show ?thesis
    by (simp add: hexadecimal_def)
qed

lemma no_terminator: "0 \<notin> set (decimal z)" "0 \<notin> set (hexadecimal k)"
  using digits_chars [of 10 0] digits_chars [of 16 0]
  by (auto simp: decimal_def hexadecimal_def)

section \<open>The conversions\<close>

lemma unat_succ_offset:
  fixes i :: u64
  assumes "unat i = l" and "l + 1 < 2 ^ 64"
  shows "unat (i + 1) = Suc l"
  using assms by (subst unat_add_no_overflow) simp_all

lemma sdiv_smod_10:
  "nat \<bar>n sdiv 10\<bar> = nat \<bar>n\<bar> div 10"
  "(if n smod 10 < 0 then - (n smod 10) else n smod 10) = int (nat \<bar>n\<bar> mod 10)"
proof -
  have "n sdiv 10 = (if n < 0 then - (- n div 10) else n div 10)"
    by (simp add: signed_divide_int_def sgn_if)
  moreover have "n smod 10 = (if n < 0 then - (- n mod 10) else n mod 10)"
    by (simp add: signed_modulo_int_def sgn_if)
  ultimately show "nat \<bar>n sdiv 10\<bar> = nat \<bar>n\<bar> div 10"
    "(if n smod 10 < 0 then - (n smod 10) else n smod 10) = int (nat \<bar>n\<bar> mod 10)"
    using pos_mod_sign [of 10 "- n"] pos_mod_sign [of 10 n]
    by (auto simp: zmod_int nat_div_distrib pos_imp_zdiv_nonneg_iff)
qed

lemma decimal_digits_eq:
  assumes "unat i = length bs" and "length bs + length (base_digits 10 (nat \<bar>n\<bar>)) < 2 ^ 64"
  shows "decimal_digits (stores m str bs) str i n =
         (stores m str (bs @ map digit_char (base_digits 10 (nat \<bar>n\<bar>))),
          i + of_nat (length (base_digits 10 (nat \<bar>n\<bar>))))"
  using assms
proof (induction "nat \<bar>n\<bar>" arbitrary: n i bs rule: less_induct)
  case less
  let ?d = "nat \<bar>n\<bar> mod 10"
  have abs: "nat \<bar>n sdiv 10\<bar> = nat \<bar>n\<bar> div 10" "(if n smod 10 < 0 then - (n smod 10) else n smod 10) = int ?d"
    by (rule sdiv_smod_10)+
  have c: "word_of_int (int ?d + 48) = digit_char ?d"
    by (simp add: digit_char_def)
  let ?m = "stores m str (bs @ [digit_char ?d])"
  have step: "decimal_digits (stores m str bs) str i n =
      (if n sdiv 10 \<noteq> 0 then decimal_digits ?m str (i + 1) (n sdiv 10) else (?m, i + 1))"
    by (subst decimal_digits.simps)
      (simp only: Let_def abs c stores_snoc [OF less.prems(1)])
  show ?case
  proof (cases "nat \<bar>n\<bar> < 10")
    case True
    then have "n sdiv 10 = 0"
      using abs(1) by (metis div_less nat_0_iff abs_le_zero_iff)
    then show ?thesis
      using True by (simp add: step base_digits.simps [of 10 "nat \<bar>n\<bar>"])
  next
    case False
    then have b: "base_digits 10 (nat \<bar>n\<bar>) = ?d # base_digits 10 (nat \<bar>n sdiv 10\<bar>)"
      by (subst base_digits.simps) (simp add: abs)
    have nz: "n sdiv 10 \<noteq> 0"
      using False abs(1) by auto
    have "unat (i + 1) = length (bs @ [digit_char ?d])"
      using less.prems by (subst unat_succ_offset) (simp_all add: b)
    then have "decimal_digits ?m str (i + 1) (n sdiv 10) =
      (stores m str ((bs @ [digit_char ?d]) @ map digit_char (base_digits 10 (nat \<bar>n sdiv 10\<bar>))),
       i + 1 + of_nat (length (base_digits 10 (nat \<bar>n sdiv 10\<bar>))))"
      by (intro less.hyps) (use False less.prems in \<open>simp_all add: abs b\<close>)
    then show ?thesis
      by (simp add: step nz b)
  qed
qed

lemma swap_ends_eq:
  assumes "as @ bs \<noteq> []" and "length (as @ bs @ cs) < 2 ^ 64"
  shows "swap_ends (stores m str (as @ bs @ cs)) str (of_nat (length as))
           (of_nat (length (as @ bs)) - 1) =
         stores m str (as @ rev bs @ cs)"
  using assms
proof (induction "length bs" arbitrary: as bs cs rule: less_induct)
  case less
  have len: "length as + length bs < 2 ^ 64" "0 < length as + length bs"
    using less.prems by (auto simp del: length_append simp add: length_append)
  have u: "unat (of_nat (length as) :: u64) = length as"
    "unat (of_nat (length (as @ bs)) - 1 :: u64) = length as + length bs - 1"
  proof -
    show "unat (of_nat (length as) :: u64) = length as"
      using len by (simp add: unat_of_nat take_bit_nat_eq_self)
    have "unat (of_nat (length (as @ bs)) :: u64) = length as + length bs"
      using len by (simp add: unat_of_nat take_bit_nat_eq_self del: of_nat_add)
    then show "unat (of_nat (length (as @ bs)) - 1 :: u64) = length as + length bs - 1"
      using len by (subst unat_minus_one) (auto simp del: length_append of_nat_add)
  qed
  show ?case
  proof (cases "length bs < 2")
    case True
    then have "rev bs = bs"
      by (cases bs rule: list.exhaust; cases "tl bs") auto
    moreover have "\<not> (of_nat (length as) :: u64) < of_nat (length (as @ bs)) - 1"
      using True len by (simp only: word_less_nat_alt u)
    ultimately show ?thesis
      by (subst swap_ends.simps) simp
  next
    case False
    then obtain x xs where x: "bs = x # xs" "xs \<noteq> []"
      by (cases bs) auto
    then obtain mid y where y: "xs = mid @ [y]"
      by (metis rev_exhaust)
    let ?i = "of_nat (length as) :: u64" and ?j = "of_nat (length (as @ bs)) - 1 :: u64"
    have bs: "bs = x # mid @ [y]"
      by (simp add: x y)
    let ?all = "as @ bs @ cs"
    have idx: "unat ?i = length as" "unat ?j = length as + length mid + 1"
      using u bs by simp_all
    have lt: "?i < ?j"
      by (simp only: word_less_nat_alt idx)
    have r: "stores m str ?all (str + ?i) = x" "stores m str ?all (str + ?j) = y"
      using idx by (simp_all add: stores_read bs nth_append)
    have w1: "(stores m str ?all)(str + ?i := y) = stores m str (as @ (y # mid @ [y]) @ cs)"
      using idx by (subst stores_write) (simp_all add: bs list_update_append)
    have w2: "(stores m str (as @ (y # mid @ [y]) @ cs))(str + ?j := x) =
        stores m str ((as @ [y]) @ mid @ ([x] @ cs))"
      using idx by (subst stores_write) (simp_all add: list_update_append)
    have step: "?i + 1 = of_nat (length (as @ [y]))" "?j - 1 = of_nat (length ((as @ [y]) @ mid)) - 1"
      by (simp_all add: bs algebra_simps)
    have "swap_ends (stores m str ?all) str ?i ?j =
        swap_ends (stores m str ((as @ [y]) @ mid @ ([x] @ cs))) str
          (of_nat (length (as @ [y]))) (of_nat (length ((as @ [y]) @ mid)) - 1)"
      using lt by (subst swap_ends.simps) (simp only: Let_def r w1 w2 step if_True)
    also have "\<dots> = stores m str ((as @ [y]) @ rev mid @ ([x] @ cs))"
      by (rule less.hyps) (use less.prems bs in simp_all)
    finally show ?thesis
      by (simp add: bs)
  qed
qed

lemma hex_char:
  assumes "d < 16"
  shows "map (\<lambda>c. of_nat (of_char c)) ''0123456789ABCDEF'' ! d = digit_char d"
proof -
  have "list_all (\<lambda>d. map (\<lambda>c. of_nat (of_char c)) ''0123456789ABCDEF'' ! d = digit_char d) [0..<16]"
    by code_simp
  then show ?thesis
    using assms by (simp add: list_all_iff)
qed

lemma hex_digits_eq:
  assumes "unat i = length bs" and "value \<noteq> 0"
    and "length bs + length (base_digits 16 (unat value)) < 2 ^ 64"
  shows "hex_digits (stores m str bs) str i value =
         (stores m str (bs @ map digit_char (base_digits 16 (unat value))),
          i + of_nat (length (base_digits 16 (unat value))))"
  using assms
proof (induction "unat value" arbitrary: "value" i bs rule: less_induct)
  case less
  let ?d = "unat value mod 16"
  have u: "unat (value div 16) = unat value div 16" "unat (value mod 16) = ?d"
    by (simp_all add: unat_div_distrib unat_mod_distrib)
  have c: "map (\<lambda>c. of_nat (of_char c)) ''0123456789ABCDEF'' ! ?d = digit_char ?d"
    by (rule hex_char) simp
  let ?m = "stores m str (bs @ [digit_char ?d])"
  have pos: "value > 0"
    using less.prems(2) by (simp add: word_greater_zero_iff)
  have step: "hex_digits (stores m str bs) str i value = hex_digits ?m str (i + 1) (value div 16)"
    using pos by (subst hex_digits.simps) (simp only: if_True u c stores_snoc [OF less.prems(1)])
  show ?case
  proof (cases "unat value < 16")
    case True
    then have "value div 16 = 0"
      using u(1) by (simp add: unat_eq_0 [symmetric] del: unat_eq_0)
    then show ?thesis
      using True by (simp add: step hex_digits.simps [of _ _ _ 0] base_digits.simps [of 16 "unat value"])
  next
    case False
    then have b: "base_digits 16 (unat value) = ?d # base_digits 16 (unat (value div 16))"
      by (subst base_digits.simps) (simp add: u)
    have nz: "value div 16 \<noteq> 0"
      using False u(1) by (auto simp: unat_eq_0 [symmetric] simp del: unat_eq_0)
    have "unat (i + 1) = length (bs @ [digit_char ?d])"
      using less.prems by (subst unat_succ_offset) (simp_all add: b)
    then have "hex_digits ?m str (i + 1) (value div 16) =
      (stores m str ((bs @ [digit_char ?d]) @ map digit_char (base_digits 16 (unat (value div 16)))),
       i + 1 + of_nat (length (base_digits 16 (unat (value div 16)))))"
      by (intro less.hyps) (use False less.prems nz in \<open>simp_all add: u b\<close>)
    then show ?thesis
      by (simp add: step b)
  qed
qed

text \<open>Terminating and turning round what the digit loops have written.\<close>

lemma finish_number:
  assumes "bs \<noteq> []" and "length bs + 1 < 2 ^ 64"
  shows "swap_ends ((stores m str bs)(str + of_nat (length bs) := 0)) str 0 (of_nat (length bs) - 1) =
         stores m str (rev bs @ [0])"
proof -
  have "unat (of_nat (length bs) :: u64) = length bs"
    using assms(2) by (simp add: unat_of_nat take_bit_nat_eq_self)
  then show ?thesis
    using swap_ends_eq [of "[]" bs "[0]" m str] assms by (simp add: stores_snoc)
qed

lemma store_zero_text: "m(str := 48, str + 1 := 0) = stores m str ([48] @ [0])"
  using stores_snoc [of 0 "[]" m str 48] stores_snoc [of 1 "[48]" m str 0] by simp

lemma int_to_string_eq: "int_to_string m n str = stores m str (decimal (sint n) @ [0])"
proof (cases "n = 0")
  case True
  then show ?thesis
    unfolding int_to_string_def
    by (simp add: store_zero_text decimal_def base_digits.simps [of 10 0] digit_char_def)
next
  case False
  let ?ds = "map digit_char (base_digits 10 (nat \<bar>sint n\<bar>))"
  have range: "- (2 ^ 63) \<le> sint n" "sint n < 2 ^ 63"
    using sint_greater_eq [of n] sint_less [of n] by simp_all
  have short: "length ?ds \<le> 20"
    using decimal_length [OF range] by (cases "sint n < 0") (simp_all add: decimal_def)
  have d: "decimal_digits m str 0 (sint n) = (stores m str ?ds, of_nat (length ?ds))"
    using decimal_digits_eq [of 0 "[]" "sint n" m str] short by simp
  show ?thesis
  proof (cases "sint n < 0")
    case True
    let ?bs = "?ds @ [45]"
    have s: "(stores m str ?ds)(str + of_nat (length ?ds) := 45) = stores m str ?bs"
      using short by (intro stores_snoc) (simp add: unat_of_nat take_bit_nat_eq_self)
    have l: "of_nat (length ?ds) + 1 = (of_nat (length ?bs) :: u64)"
      by simp
    have "int_to_string m n str =
        swap_ends ((stores m str ?bs)(str + of_nat (length ?bs) := 0)) str 0 (of_nat (length ?bs) - 1)"
      using False True by (simp only: int_to_string_def d Let_def prod.case s l if_True if_False simp_thms)
    also have "\<dots> = stores m str (rev ?bs @ [0])"
      by (rule finish_number) (use short in simp_all)
    finally show ?thesis
      using True by (simp add: decimal_def rev_map)
  next
    case False
    have "int_to_string m n str =
        swap_ends ((stores m str ?ds)(str + of_nat (length ?ds) := 0)) str 0 (of_nat (length ?ds) - 1)"
      using False \<open>n \<noteq> 0\<close> by (simp only: int_to_string_def d Let_def prod.case if_True if_False simp_thms)
    also have "\<dots> = stores m str (rev ?ds @ [0])"
      by (rule finish_number) (use short in simp_all)
    finally show ?thesis
      using False by (simp add: decimal_def rev_map)
  qed
qed

lemma int_to_hex_string_eq: "int_to_hex_string m v str = stores m str (hexadecimal (unat v) @ [0])"
proof (cases "v = 0")
  case True
  then show ?thesis
    unfolding int_to_hex_string_def
    by (simp add: store_zero_text hexadecimal_def base_digits.simps [of 16 0] digit_char_def)
next
  case False
  let ?ds = "map digit_char (base_digits 16 (unat v))"
  have short: "length ?ds \<le> 16"
    using hexadecimal_length [OF unat64_bound [of v]] by (simp add: hexadecimal_def)
  have "hex_digits m str 0 v = (stores m str ?ds, of_nat (length ?ds))"
    using hex_digits_eq [of 0 "[]" v m str] False short by simp
  then show ?thesis
    using False finish_number [of ?ds m str] short
    by (simp add: int_to_hex_string_def hexadecimal_def rev_map Let_def)
qed

lemma decimal_sint_length:
  fixes n :: u64
  shows "length (decimal (sint n)) \<le> 20"
  using sint_greater_eq [of n] sint_less [of n] by (intro decimal_length) simp_all

lemma int_to_string_digits: "cstr (int_to_string m n str) str (decimal (sint n))"
  using decimal_sint_length [of n] by (simp add: int_to_string_eq cstr_stores no_terminator)

lemma int_to_hex_string_digits: "cstr (int_to_hex_string m v str) str (hexadecimal (unat v))"
  using hexadecimal_length [OF unat64_bound [of v]]
  by (simp add: int_to_hex_string_eq cstr_stores no_terminator)

text \<open>
  C36. \<^verbatim>\<open>int_to_string\<close> writes the decimal text of the signed number and its terminator and
  nothing else, at most 21 bytes, also for the least \<^verbatim>\<open>int64_t\<close>, whose negation overflows;
  reading the text gives the number back.
\<close>

theorem int_to_string_correct:
  "int_to_string m n str = stores m str (decimal (sint n) @ [0]) \<and>
   cstr (int_to_string m n str) str (decimal (sint n)) \<and>
   length (decimal (sint n)) \<le> 20 \<and> read_decimal (decimal (sint n)) = sint n"
  using int_to_string_eq int_to_string_digits decimal_sint_length read_decimal_decimal by simp

text \<open>
  C37. \<^verbatim>\<open>int_to_hex_string\<close> writes the hexadecimal text of the unsigned number and its
  terminator and nothing else, at most 17 bytes; reading the text gives the number back.
\<close>

theorem int_to_hex_string_correct:
  "int_to_hex_string m v str = stores m str (hexadecimal (unat v) @ [0]) \<and>
   cstr (int_to_hex_string m v str) str (hexadecimal (unat v)) \<and>
   length (hexadecimal (unat v)) \<le> 16 \<and> read_nat 16 (hexadecimal (unat v)) = unat v"
proof -
  have "read_nat 16 (hexadecimal (unat v)) = unat v"
    unfolding hexadecimal_def by (rule read_nat_digits) simp_all
  then show ?thesis
    using int_to_hex_string_eq int_to_hex_string_digits hexadecimal_length [OF unat64_bound] by simp
qed

section \<open>Instances\<close>

text \<open>The strings \<open>ab\<close> at address 16 and \<open>b\<close> at address 32.\<close>

definition sample_strings :: mem where
  "sample_strings = stores (stores (\<lambda>_. 0) 16 [97, 98, 0]) 32 [98, 0]"

theorem strcmp_correct_witness:
  "\<exists>r. strcmp sample_strings 16 32 = Some r \<and> (r = 0 \<longleftrightarrow> [97, 98] = [98 :: u8]) \<and>
     (r < 0 \<longleftrightarrow> ([97, 98], [98 :: u8]) \<in> lexord {(a, b). a < b})"
  by (rule strcmp_correct) (simp_all add: sample_strings_def stores_def)

end
