(* ===== verification/Format.thy ===== *)
theory Format
  imports Strings
begin

text \<open>
  Formatted output into a buffer: \<^verbatim>\<open>kvsnprintf\<close> and \<^verbatim>\<open>consume_format_args\<close> of
  \<^verbatim>\<open>drivers/screen/screen.c\<close>. The variable arguments are the list of their 64-bit slots; taking
  an argument that was not passed is a \<open>Bad_access\<close>.
\<close>

section \<open>Definitions\<close>

definition ch :: "char \<Rightarrow> u8" where
  "ch c = of_nat (of_char c)"

type_synonym va_list = "u64 list"

definition va_arg :: "va_list \<Rightarrow> (u64 \<times> va_list) outcome" where
  "va_arg args = (case args of [] \<Rightarrow> Inl Bad_access | a # args \<Rightarrow> Inr (a, args))"

text \<open>The value of an argument of type \<^verbatim>\<open>int64_t\<close> or, sign-extended, of type \<^verbatim>\<open>int32_t\<close>.\<close>

definition signed_arg :: "bool \<Rightarrow> u64 \<Rightarrow> u64" where
  "signed_arg is_long a = (if is_long then a else scast (ucast a :: u32))"

text \<open>
  The loops that append a string to the buffer: one copies from memory, the other from a
  local array, which is a memory of its own because its address never leaves the function.
\<close>

function put_string :: "mem \<Rightarrow> u64 \<Rightarrow> u64 \<Rightarrow> u64 \<Rightarrow> u64 \<Rightarrow> mem \<times> u64" where
  "put_string m buf sz idx p =
     (if m p \<noteq> 0 \<and> idx < sz - 1 then put_string (m(buf + idx := m p)) buf sz (idx + 1) (p + 1)
      else (m, idx))"
  by pat_completeness auto
termination
  by (relation "measure (\<lambda>(m, buf, sz, idx, p). unat (sz - 1) - unat idx)")
    (auto simp: unat_succ_less word_less_nat_alt)

function put_local :: "mem \<Rightarrow> u64 \<Rightarrow> u64 \<Rightarrow> u64 \<Rightarrow> mem \<Rightarrow> u64 \<Rightarrow> mem \<times> u64" where
  "put_local m buf sz idx str j =
     (if str j \<noteq> 0 \<and> idx < sz - 1 then put_local (m(buf + idx := str j)) buf sz (idx + 1) str (j + 1)
      else (m, idx))"
  by pat_completeness auto
termination
  by (relation "measure (\<lambda>(m, buf, sz, idx, str, j). unat (sz - 1) - unat idx)")
    (auto simp: unat_succ_less word_less_nat_alt)

declare put_string.simps [simp del] put_local.simps [simp del]

definition is_flag :: "u8 \<Rightarrow> bool" where
  "is_flag c \<longleftrightarrow> c = ch CHR ''l'' \<or> c = ch CHR ''z'' \<or> c = ch CHR ''h''"

partial_function (option) skip_length :: "mem \<Rightarrow> u64 \<Rightarrow> u64 \<Rightarrow> bool \<Rightarrow> (u64 \<times> bool) option" where
  "skip_length m fmt i is_long =
     (if is_flag (m (fmt + i)) then
        skip_length m fmt (i + 1)
          (if m (fmt + i) = ch CHR ''l'' \<or> m (fmt + i) = ch CHR ''z'' then True else is_long)
      else Some (i, is_long))"

text \<open>
  The \<^verbatim>\<open>switch\<close> of \<^verbatim>\<open>kvsnprintf\<close>: the new memory, index into the buffer, index into the
  format and remaining arguments.
\<close>

definition format_directive ::
  "mem \<Rightarrow> u64 \<Rightarrow> u64 \<Rightarrow> u64 \<Rightarrow> u64 \<Rightarrow> bool \<Rightarrow> u64 \<Rightarrow> va_list \<Rightarrow> (mem \<times> u64 \<times> u64 \<times> va_list) outcome" where
  "format_directive m buf sz fmt i is_long idx args =
     (let c = m (fmt + i) in
      if c = ch CHR ''d'' \<or> c = ch CHR ''i'' \<or> c = ch CHR ''u'' then
        bind_ok (va_arg args) (\<lambda>(a, args).
          let num = signed_arg is_long a;
              str_buffer = int_to_string (\<lambda>_. 0) num 0;
              (m, idx) = put_local m buf sz idx str_buffer 0
          in Inr (m, idx, i, args))
      else if c = ch CHR ''x'' \<or> c = ch CHR ''p'' then
        bind_ok (va_arg args) (\<lambda>(num, args).
          let hex_buffer = int_to_hex_string (\<lambda>_. 0) num 0;
              (m, idx) = put_local m buf sz idx hex_buffer 0
          in Inr (m, idx, i, args))
      else if c = ch CHR ''s'' then
        bind_ok (va_arg args) (\<lambda>(str, args).
          let (m, idx) =
                (if str = NULL
                 then put_local m buf sz idx (stores (\<lambda>_. 0) 0 (map ch ''(null)'')) 0
                 else put_string m buf sz idx str)
          in Inr (m, idx, i, args))
      else if c = ch CHR ''c'' then
        bind_ok (va_arg args) (\<lambda>(a, args).
          Inr (m(buf + idx := ucast a), idx + 1, i, args))
      else if c = ch CHR ''%'' then
        Inr (m(buf + idx := ch CHR ''%''), idx + 1, i, args)
      else if c \<noteq> 0 then
        Inr (m(buf + idx := c), idx + 1, i, args)
      else
        Inr (m, idx, i - 1, args))"

partial_function (option) format_loop ::
  "u64 \<Rightarrow> u64 \<Rightarrow> u64 \<Rightarrow> mem \<Rightarrow> u64 \<Rightarrow> u64 \<Rightarrow> va_list \<Rightarrow> (mem \<times> u64 \<times> va_list) outcome option" where
  "format_loop buf sz fmt m idx i args =
     (if m (fmt + i) \<noteq> 0 \<and> idx < sz - 1 then
        if m (fmt + i) \<noteq> ch CHR ''%'' then
          format_loop buf sz fmt (m(buf + idx := m (fmt + i))) (idx + 1) (i + 1) args
        else
          (case skip_length m fmt (i + 1) False of
             None \<Rightarrow> None
           | Some (i, is_long) \<Rightarrow>
               (case format_directive m buf sz fmt i is_long idx args of
                  Inl e \<Rightarrow> Some (Inl e)
                | Inr (m, idx, i, args) \<Rightarrow> format_loop buf sz fmt m idx (i + 1) args))
      else Some (Inr (m, idx, args)))"

text \<open>The result of \<^verbatim>\<open>kvsnprintf\<close> is an \<^verbatim>\<open>int\<close>; a \<^verbatim>\<open>va_list\<close> is passed by reference.\<close>

definition kvsnprintf ::
  "mem \<Rightarrow> u64 \<Rightarrow> u64 \<Rightarrow> u64 \<Rightarrow> va_list \<Rightarrow> (mem \<times> u32 \<times> va_list) outcome option" where
  "kvsnprintf m buf sz fmt args =
     (case format_loop buf sz fmt m 0 0 args of
        None \<Rightarrow> None
      | Some (Inl e) \<Rightarrow> Some (Inl e)
      | Some (Inr (m, idx, args)) \<Rightarrow> Some (Inr (m(buf + idx := 0), ucast idx, args)))"

definition create_string_buf ::
  "mem \<Rightarrow> u64 \<Rightarrow> u64 \<Rightarrow> u64 \<Rightarrow> va_list \<Rightarrow> (mem \<times> u32) outcome option" where
  "create_string_buf m dest sz fmt args =
     (case kvsnprintf m dest sz fmt args of
        None \<Rightarrow> None
      | Some (Inl e) \<Rightarrow> Some (Inl e)
      | Some (Inr (m, len, args)) \<Rightarrow> Some (Inr (m, len)))"

definition takes_arg :: "u8 \<Rightarrow> bool" where
  "takes_arg c \<longleftrightarrow> c \<in> set (map ch ''diuxpsc'')"

partial_function (option) consume_loop ::
  "mem \<Rightarrow> u64 \<Rightarrow> u64 \<Rightarrow> va_list \<Rightarrow> va_list outcome option" where
  "consume_loop m fmt i args =
     (if m (fmt + i) \<noteq> 0 then
        if m (fmt + i) \<noteq> ch CHR ''%'' then consume_loop m fmt (i + 1) args
        else
          (case skip_length m fmt (i + 1) False of
             None \<Rightarrow> None
           | Some (i, is_long) \<Rightarrow>
               if takes_arg (m (fmt + i)) then
                 (case va_arg args of
                    Inl e \<Rightarrow> Some (Inl e)
                  | Inr (a, args) \<Rightarrow> consume_loop m fmt (i + 1) args)
               else consume_loop m fmt (i + 1) args)
      else Some (Inr args))"

definition consume_format_args :: "mem \<Rightarrow> u64 \<Rightarrow> va_list \<Rightarrow> va_list outcome option" where
  "consume_format_args m fmt args = consume_loop m fmt 0 args"

section \<open>What a format stands for\<close>

text \<open>
  The specification works on lists. An argument is the value of a slot or a string that the
  slot points to; \<open>None\<close> is a missing argument or one of the wrong kind.
\<close>

datatype arg = Slot u64 | Text "u8 list"

fun passes :: "mem \<Rightarrow> arg \<Rightarrow> u64 \<Rightarrow> bool" where
  "passes m (Slot v) w \<longleftrightarrow> w = v"
| "passes m (Text xs) p \<longleftrightarrow> p \<noteq> NULL \<and> cstr m p xs"

fun skip_flags :: "bool \<Rightarrow> u8 list \<Rightarrow> bool \<times> u8 list" where
  "skip_flags is_long [] = (is_long, [])"
| "skip_flags is_long (c # cs) =
     (if is_flag c then skip_flags (is_long \<or> c = ch CHR ''l'' \<or> c = ch CHR ''z'') cs
      else (is_long, c # cs))"

fun directive :: "bool \<Rightarrow> u8 \<Rightarrow> arg list \<Rightarrow> (u8 list \<times> arg list) option" where
  "directive is_long c args =
     (if \<not> takes_arg c then Some ([c], args) else
      case args of
        Slot v # args \<Rightarrow>
          if c \<in> set (map ch ''diu'') then Some (decimal (sint (signed_arg is_long v)), args)
          else if c \<in> set (map ch ''xp'') then Some (hexadecimal (unat v), args)
          else if c = ch CHR ''c'' then Some ([ucast v], args)
          else if v = NULL then Some (map ch ''(null)'', args)
          else None
      | Text xs # args \<Rightarrow> if c = ch CHR ''s'' then Some (xs, args) else None
      | [] \<Rightarrow> None)"

lemma skip_flags_length: "skip_flags l cs = (l', d # rest) \<Longrightarrow> length rest < length cs"
  by (induction l cs rule: skip_flags.induct) (auto split: if_splits)

function format_text :: "u8 list \<Rightarrow> arg list \<Rightarrow> (u8 list \<times> arg list) option" where
  "format_text [] args = Some ([], args)"
| "format_text (c # cs) args =
     (if c \<noteq> ch CHR ''%'' then
        (case format_text cs args of None \<Rightarrow> None | Some (out, args) \<Rightarrow> Some (c # out, args))
      else
        (case skip_flags False cs of
           (is_long, []) \<Rightarrow> Some ([], args)
         | (is_long, d # rest) \<Rightarrow>
             (case directive is_long d args of
                None \<Rightarrow> None
              | Some (out, args) \<Rightarrow>
                  (case format_text rest args of
                     None \<Rightarrow> None
                   | Some (out', args) \<Rightarrow> Some (out @ out', args)))))"
  by pat_completeness auto
termination
  by (relation "measure (\<lambda>(cs, args). length cs)")
    (auto dest: skip_flags_length [OF sym])

section \<open>The loop computes the text\<close>

text \<open>A string, with its end, outside the first \<open>n\<close> bytes of the buffer.\<close>

definition outside :: "u64 \<Rightarrow> nat \<Rightarrow> u64 \<Rightarrow> u8 list \<Rightarrow> bool" where
  "outside buf n p xs \<longleftrightarrow> (\<forall>k \<le> length xs. n \<le> unat (p + of_nat k - buf))"

definition arg_ok :: "mem \<Rightarrow> u64 \<Rightarrow> nat \<Rightarrow> arg \<Rightarrow> u64 \<Rightarrow> bool" where
  "arg_ok m buf n a w \<longleftrightarrow>
     passes m a w \<and> (case a of Text xs \<Rightarrow> outside buf n w xs | Slot v \<Rightarrow> True)"

abbreviation args_ok :: "mem \<Rightarrow> u64 \<Rightarrow> nat \<Rightarrow> arg list \<Rightarrow> va_list \<Rightarrow> bool" where
  "args_ok m buf n \<equiv> list_all2 (arg_ok m buf n)"

lemma outside_Cons:
  "outside buf n p (x # xs) \<longleftrightarrow> n \<le> unat (p - buf) \<and> outside buf n (p + 1) xs"
proof -
  have "(\<forall>k \<le> Suc (length xs). n \<le> unat (p + of_nat k - buf)) \<longleftrightarrow>
      n \<le> unat (p + of_nat 0 - buf) \<and> (\<forall>k \<le> length xs. n \<le> unat (p + of_nat (Suc k) - buf))"
    by (simp only: less_Suc_eq_le [symmetric] All_less_Suc2)
  then show ?thesis
    by (simp add: outside_def add.assoc)
qed

lemma outside_head: "outside buf n p xs \<Longrightarrow> n \<le> unat (p - buf)"
  by (auto simp: outside_def dest: spec [of _ 0])

lemma stores_outside:
  "length bs \<le> n \<Longrightarrow> n \<le> unat (p - buf) \<Longrightarrow> stores m buf bs p = m p"
  by (simp add: stores_def)

lemma cstr_outside:
  "cstr m p xs \<Longrightarrow> outside buf n p xs \<Longrightarrow> length bs \<le> n \<Longrightarrow> cstr (stores m buf bs) p xs"
proof (induction xs arbitrary: p)
  case Nil
  then show ?case
    using outside_head [of buf n p "[]"] by (simp add: stores_outside)
next
  case (Cons x xs)
  then show ?case
    by (simp add: outside_Cons stores_outside)
qed

text \<open>The index into the buffer is the number of bytes written.\<close>

lemma index_eq: "unat (idx :: u64) = length pre \<Longrightarrow> of_nat (length pre) = idx"
  by (metis of_nat_unat ucast_id)

lemma cstr_outside_iff:
  "outside buf n p xs \<Longrightarrow> length bs \<le> n \<Longrightarrow> cstr (stores m buf bs) p xs \<longleftrightarrow> cstr m p xs"
  by (induction xs arbitrary: p)
    (auto simp: outside_Cons stores_outside dest: outside_head)

lemma unat_of_nat_le: "k \<le> unat (w :: u64) \<Longrightarrow> unat (of_nat k :: u64) = k"
  using unat64_bound [of w] by (simp add: unat_of_nat take_bit_nat_eq_self)

lemma take_take_append: "take n (take n xs @ ys) = take n (xs @ ys)"
  by (simp add: min_def)

lemma put_local_eq:
  assumes "cstr str j xs" and "unat idx = length pre" and "length pre \<le> unat (sz - 1)"
  shows "put_local (stores m buf pre) buf sz idx str j =
         (stores m buf (take (unat (sz - 1)) (pre @ xs)),
          of_nat (length (take (unat (sz - 1)) (pre @ xs))))"
  using assms
proof (induction xs arbitrary: pre idx j)
  case Nil
  then show ?case
    by (subst put_local.simps) (simp add: index_eq [OF Nil.prems(2)])
next
  case (Cons x xs)
  show ?case
  proof (cases "length pre = unat (sz - 1)")
    case True
    then have "\<not> idx < sz - 1"
      using Cons.prems(2) by (simp only: word_less_nat_alt)
    moreover have "idx = sz - 1"
      using True Cons.prems(2) by (simp only: word_unat_eq_iff)
    ultimately show ?thesis
      using True by (subst put_local.simps) simp
  next
    case False
    then have less: "idx < sz - 1"
      using Cons.prems by (simp add: word_less_nat_alt)
    have "unat (idx + 1) = length (pre @ [x])"
      using unat_succ_less [OF less] Cons.prems(2) by simp
    moreover have "length (pre @ [x]) \<le> unat (sz - 1)"
      using False Cons.prems(3) by simp
    ultimately have "put_local (stores m buf (pre @ [x])) buf sz (idx + 1) str (j + 1) =
        (stores m buf (take (unat (sz - 1)) ((pre @ [x]) @ xs)),
         of_nat (length (take (unat (sz - 1)) ((pre @ [x]) @ xs))))"
      using Cons.prems(1) by (intro Cons.IH) simp_all
    then show ?thesis
      using Cons.prems less by (subst put_local.simps) (simp add: stores_snoc)
  qed
qed

lemma put_string_eq:
  assumes "cstr m p xs" and "unat idx = length pre" and "length pre \<le> unat (sz - 1)"
    and "outside buf n p xs" and "length (take (unat (sz - 1)) (pre @ xs)) \<le> n"
  shows "put_string (stores m buf pre) buf sz idx p =
         (stores m buf (take (unat (sz - 1)) (pre @ xs)),
          of_nat (length (take (unat (sz - 1)) (pre @ xs))))"
  using assms
proof (induction xs arbitrary: pre idx p)
  case Nil
  then have "stores m buf pre p = 0"
    using outside_head [OF Nil.prems(4)] by (simp add: stores_outside)
  then show ?case
    using Nil.prems by (subst put_string.simps) (simp add: index_eq [OF Nil.prems(2)])
next
  case (Cons x xs)
  have "length pre \<le> n"
    using Cons.prems(3,5) by simp
  then have read: "stores m buf pre p = x"
    using Cons.prems(1,4) by (simp add: stores_outside outside_Cons)
  show ?case
  proof (cases "length pre = unat (sz - 1)")
    case True
    then have "\<not> idx < sz - 1"
      using Cons.prems(2) by (simp only: word_less_nat_alt)
    moreover have "idx = sz - 1"
      using True Cons.prems(2) by (simp only: word_unat_eq_iff)
    ultimately show ?thesis
      using True by (subst put_string.simps) simp
  next
    case False
    then have less: "idx < sz - 1"
      using Cons.prems by (simp add: word_less_nat_alt)
    have "unat (idx + 1) = length (pre @ [x])"
      using unat_succ_less [OF less] Cons.prems(2) by simp
    moreover have "length (pre @ [x]) \<le> unat (sz - 1)"
      using False Cons.prems(3) by simp
    ultimately have "put_string (stores m buf (pre @ [x])) buf sz (idx + 1) (p + 1) =
        (stores m buf (take (unat (sz - 1)) ((pre @ [x]) @ xs)),
         of_nat (length (take (unat (sz - 1)) ((pre @ [x]) @ xs))))"
      using Cons.prems(1,4,5) by (intro Cons.IH) (simp_all add: outside_Cons)
    then show ?thesis
      using Cons.prems(1,2) less read by (subst put_string.simps) (simp add: stores_snoc)
  qed
qed

lemma zero_no_flag [simp]: "\<not> is_flag 0" "\<not> takes_arg 0"
  by (simp_all add: is_flag_def takes_arg_def ch_def)

lemma skip_length_eq:
  assumes "cstr m (fmt + i) cs" and "skip_flags l cs = (l', rest)"
  obtains i' where "skip_length m fmt i l = Some (i', l')" and "cstr m (fmt + i') rest"
    and "\<And>buf n. outside buf n (fmt + i) cs \<Longrightarrow> outside buf n (fmt + i') rest"
proof -
  have "\<exists>i'. skip_length m fmt i l = Some (i', l') \<and> cstr m (fmt + i') rest \<and>
      (\<forall>buf n. outside buf n (fmt + i) cs \<longrightarrow> outside buf n (fmt + i') rest)"
    using assms
  proof (induction l cs arbitrary: i rule: skip_flags.induct)
    case (1 l)
    then show ?case
      by (subst skip_length.simps) simp
  next
    case (2 l c cs)
    have c: "m (fmt + i) = c" "cstr m (fmt + (i + 1)) cs"
      using "2.prems"(1) by (simp_all add: add.assoc)
    show ?case
    proof (cases "is_flag c")
      case True
      let ?l = "if c = ch CHR ''l'' \<or> c = ch CHR ''z'' then True else l"
      have l: "?l = (l \<or> c = ch CHR ''l'' \<or> c = ch CHR ''z'')"
        by simp
      have "skip_flags ?l cs = (l', rest)"
        using "2.prems"(2) True by (simp only: l skip_flags.simps if_True)
      then have "\<exists>i'. skip_length m fmt (i + 1) ?l = Some (i', l') \<and> cstr m (fmt + i') rest \<and>
          (\<forall>buf n. outside buf n (fmt + (i + 1)) cs \<longrightarrow> outside buf n (fmt + i') rest)"
        using "2.IH" [OF True, folded l] c(2) by simp
      moreover have "skip_length m fmt i l = skip_length m fmt (i + 1) ?l"
        using True c(1) by (subst skip_length.simps) simp
      ultimately show ?thesis
        by (auto simp: outside_Cons add.assoc)
    next
      case False
      then show ?thesis
        using "2.prems" c(1) by (subst skip_length.simps) auto
    qed
  qed
  then show thesis
    using that by blast
qed

lemma format_directive_eq:
  assumes "directive l d as = Some (out, as')" and "args_ok m buf n as slots"
    and "stores m buf pre (fmt + i) = d" and "d \<noteq> 0"
    and "unat idx = length pre" and "length pre < unat (sz - 1)"
    and "length (take (unat (sz - 1)) (pre @ out)) \<le> n"
  obtains slots' where
    "format_directive (stores m buf pre) buf sz fmt i l idx slots =
       Inr (stores m buf (take (unat (sz - 1)) (pre @ out)),
            of_nat (length (take (unat (sz - 1)) (pre @ out))), i, slots')"
    and "args_ok m buf n as' slots'"
proof -
  have one: "(stores m buf pre)(buf + idx := x) = stores m buf (take (unat (sz - 1)) (pre @ [x]))"
    "idx + 1 = of_nat (length (take (unat (sz - 1)) (pre @ [x])))" for x
    using assms(5,6) by (simp_all add: stores_snoc assms(5) [symmetric])
  have null: "cstr (stores (\<lambda>_. 0) 0 (map ch ''(null)'')) 0 (map ch ''(null)'')"
    by (simp add: stores_def ch_def)
  have le: "length pre \<le> unat (sz - 1)"
    using assms(6) by simp
  note copy = put_local_eq [OF _ assms(5) le]
  note nums = int_to_string_digits int_to_hex_string_digits
  show thesis
  proof (cases "takes_arg d")
    case False
    then have "format_directive (stores m buf pre) buf sz fmt i l idx slots =
        Inr ((stores m buf pre)(buf + idx := d), idx + 1, i, slots)"
      using assms(3,4) by (auto simp: format_directive_def Let_def takes_arg_def)
    moreover have "out = [d]" "as' = as"
      using assms(1) False by simp_all
    ultimately show thesis
      using that [of slots] assms(2) one [of d] by (simp only:)
  next
    case True
    then obtain a as1 where as: "as = a # as1" and out: "directive l d (a # as1) = Some (out, as')"
      using assms(1) by (cases as) auto
    then obtain w ws where slots: "slots = w # ws" and w: "arg_ok m buf n a w" and ws: "args_ok m buf n as1 ws"
      using assms(2) by (auto simp: list_all2_Cons1)
    have fd: "format_directive (stores m buf pre) buf sz fmt i l idx slots =
        Inr (stores m buf (take (unat (sz - 1)) (pre @ out)),
            of_nat (length (take (unat (sz - 1)) (pre @ out))), i, ws) \<and> as' = as1"
    proof (cases a)
      case (Slot v)
      then have v: "w = v"
        using w by (simp add: arg_ok_def)
      consider "d \<in> set (map ch ''diu'')" | "d \<in> set (map ch ''xp'')" | "d = ch CHR ''c''" | "d = ch CHR ''s''"
        using True by (auto simp: takes_arg_def)
      then show ?thesis
      proof cases
        case 1
        then have "out = decimal (sint (signed_arg l v))" "as' = as1"
          using out True Slot by (auto split: if_splits)
        then show ?thesis
          using 1 assms(3) v copy [OF nums(1)]
          by (auto simp: format_directive_def Let_def slots va_arg_def)
      next
        case 2
        then have "out = hexadecimal (unat v)" "as' = as1"
          using out True Slot by (auto simp: ch_def split: if_splits)
        then show ?thesis
          using 2 assms(3) v copy [OF nums(2)]
          by (auto simp: format_directive_def Let_def slots va_arg_def ch_def)
      next
        case 3
        then have "out = [ucast v]" "as' = as1"
          using out True Slot by (auto simp: ch_def split: if_splits)
        then show ?thesis
          using 3 assms(3) v one [of "ucast v"]
          by (simp add: format_directive_def Let_def slots va_arg_def ch_def)
      next
        case 4
        then have "v = NULL" "out = map ch ''(null)''" "as' = as1"
          using out True Slot by (auto simp: ch_def split: if_splits)
        then show ?thesis
          using 4 assms(3) v copy [OF null]
          by (simp add: format_directive_def Let_def slots va_arg_def) (simp add: ch_def)
      qed
    next
      case (Text xs)
      then have d: "d = ch CHR ''s''" "out = xs" "as' = as1"
        using out True by (auto split: if_splits)
      have "w \<noteq> NULL" "cstr m w xs" "outside buf n w xs"
        using w Text by (simp_all add: arg_ok_def)
      then show ?thesis
        using d assms(3) put_string_eq [OF _ assms(5) le _ assms(7)]
        by (simp add: format_directive_def Let_def slots va_arg_def) (simp add: ch_def)
    qed
    then show thesis
      using that [of ws] ws by simp
  qed
qed

lemma format_loop_eq:
  assumes "format_text cs as = Some (out, as')" and "args_ok m buf n as slots"
    and "cstr m (fmt + i) cs" and "outside buf n (fmt + i) cs"
    and "unat idx = length pre" and "length pre \<le> unat (sz - 1)"
    and "length (take (unat (sz - 1)) (pre @ out)) \<le> n"
  shows "\<exists>slots'. format_loop buf sz fmt (stores m buf pre) idx i slots =
           Some (Inr (stores m buf (take (unat (sz - 1)) (pre @ out)),
                      of_nat (length (take (unat (sz - 1)) (pre @ out))), slots')) \<and>
           (length (pre @ out) < unat (sz - 1) \<longrightarrow> args_ok m buf n as' slots')"
  using assms
proof (induction cs as arbitrary: out as' slots i idx pre rule: format_text.induct)
  case (1 as)
  have "length pre \<le> n"
    using "1.prems"(6,7) by simp
  then have "stores m buf pre (fmt + i) = 0"
    using "1.prems"(3) outside_head [OF "1.prems"(4)] by (simp add: stores_outside)
  then show ?case
    using "1.prems" by (subst format_loop.simps) (simp add: index_eq)
next
  case (2 c cs as)
  have pre: "length pre \<le> n"
    using "2.prems"(6,7) by simp
  have c: "stores m buf pre (fmt + i) = c" "c \<noteq> 0" "cstr m (fmt + (i + 1)) cs"
    "outside buf n (fmt + (i + 1)) cs"
    using "2.prems"(3,4) pre by (simp_all add: stores_outside outside_Cons add.assoc)
  show ?case
  proof (cases "length pre = unat (sz - 1)")
    case True
    then have "\<not> idx < sz - 1"
      using "2.prems"(5) by (simp only: word_less_nat_alt)
    moreover have "idx = sz - 1"
      using True "2.prems"(5) by (simp only: word_unat_eq_iff)
    ultimately show ?thesis
      using True by (subst format_loop.simps) simp
  next
    case False
    then have less: "idx < sz - 1" "length pre < unat (sz - 1)"
      using "2.prems"(5,6) by (simp_all add: word_less_nat_alt)
    show ?thesis
    proof (cases "c = ch CHR ''%''")
      case False
      then obtain out1 where out: "format_text cs as = Some (out1, as')" "out = c # out1"
        using "2.prems"(1) by (auto split: option.splits)
      have "unat (idx + 1) = length (pre @ [c])"
        using unat_succ_less [OF less(1)] "2.prems"(5) by simp
      then have "\<exists>slots'. format_loop buf sz fmt (stores m buf (pre @ [c])) (idx + 1) (i + 1) slots =
           Some (Inr (stores m buf (take (unat (sz - 1)) ((pre @ [c]) @ out1)),
                      of_nat (length (take (unat (sz - 1)) ((pre @ [c]) @ out1))), slots')) \<and>
           (length ((pre @ [c]) @ out1) < unat (sz - 1) \<longrightarrow> args_ok m buf n as' slots')"
        using "2.prems"(2,7) c(3,4) less(2) out(2)
        by (intro "2.IH"(1) [OF False out(1)]) simp_all
      moreover have "format_loop buf sz fmt (stores m buf pre) idx i slots =
          format_loop buf sz fmt (stores m buf (pre @ [c])) (idx + 1) (i + 1) slots"
        using False c(1,2) less(1) "2.prems"(5) by (subst format_loop.simps) (simp add: stores_snoc)
      ultimately show ?thesis
        by (simp add: out(2))
    next
      case True
      obtain l rest where sk: "skip_flags False cs = (l, rest)"
        by fastforce
      have M: "cstr (stores m buf pre) (fmt + (i + 1)) cs"
        using cstr_outside [OF c(3,4) pre] .
      obtain i' where i': "skip_length (stores m buf pre) fmt (i + 1) False = Some (i', l)"
        "cstr (stores m buf pre) (fmt + i') rest" "outside buf n (fmt + i') rest"
        using skip_length_eq [OF M sk] c(4) by metis
      have step: "format_loop buf sz fmt (stores m buf pre) idx i slots =
          (case format_directive (stores m buf pre) buf sz fmt i' l idx slots of
             Inl e \<Rightarrow> Some (Inl e)
           | Inr (m, idx, i, args) \<Rightarrow> format_loop buf sz fmt m idx (i + 1) args)"
        using c(1,2) less(1) True i'(1) by (subst format_loop.simps) simp
      show ?thesis
      proof (cases rest)
        case Nil
        then have z: "stores m buf pre (fmt + i') = 0"
          using i'(2) by simp
        have "out = []" "as' = as"
          using "2.prems"(1) True sk Nil by simp_all
        moreover have "format_loop buf sz fmt (stores m buf pre) idx i' slots =
            Some (Inr (stores m buf pre, idx, slots))"
          using z by (subst format_loop.simps) simp
        moreover have "format_directive (stores m buf pre) buf sz fmt i' l idx slots =
            Inr (stores m buf pre, idx, i' - 1, slots)"
          using z by (simp add: format_directive_def ch_def Let_def)
        ultimately show ?thesis
          using "2.prems"(2) less(2) by (simp add: step index_eq [OF "2.prems"(5)])
      next
        case (Cons d rest')
        obtain o1 as1 o2 where o1: "directive l d as = Some (o1, as1)"
          and o2: "format_text rest' as1 = Some (o2, as')" and out: "out = o1 @ o2"
          using "2.prems"(1) True sk Cons by (auto split: option.splits)
        have d: "stores m buf pre (fmt + i') = d" "d \<noteq> 0"
          using i'(2) Cons by simp_all
        let ?pre = "take (unat (sz - 1)) (pre @ o1)"
        have len: "length ?pre \<le> n"
          using "2.prems"(7) by (simp add: out)
        obtain slots1 where s1: "format_directive (stores m buf pre) buf sz fmt i' l idx slots =
            Inr (stores m buf ?pre, of_nat (length ?pre), i', slots1)"
          and a1: "args_ok m buf n as1 slots1"
          using format_directive_eq [OF o1 "2.prems"(2) d "2.prems"(5) less(2) len] .
        have all: "take (unat (sz - 1)) (?pre @ o2) = take (unat (sz - 1)) (pre @ out)"
          by (simp only: take_take_append out append_assoc)
        have rest: "cstr m (fmt + (i' + 1)) rest'" "outside buf n (fmt + (i' + 1)) rest'"
          using i'(2,3) Cons cstr_outside_iff [OF i'(3) pre]
          by (simp_all add: outside_Cons add.assoc)
        have "length ?pre \<le> unat (sz - 1)"
          by simp
        moreover from this have "unat (of_nat (length ?pre) :: u64) = length ?pre"
          by (rule unat_of_nat_le)
        ultimately have "\<exists>slots'. format_loop buf sz fmt (stores m buf ?pre) (of_nat (length ?pre)) (i' + 1) slots1 =
           Some (Inr (stores m buf (take (unat (sz - 1)) (?pre @ o2)),
                      of_nat (length (take (unat (sz - 1)) (?pre @ o2))), slots')) \<and>
           (length (?pre @ o2) < unat (sz - 1) \<longrightarrow> args_ok m buf n as' slots')"
          using "2.prems"(7) rest a1
          by (intro "2.IH"(2) [OF _ sk [symmetric] Cons o1 refl o2 a1]) (simp_all only: all True simp_thms)
        then show ?thesis
          by (simp only: step s1 sum.case prod.case all) (auto simp: out)
      qed
    qed
  qed
qed

lemma kvsnprintf_eq:
  assumes "format_text cs as = Some (out, as')" and "args_ok m buf n as slots"
    and "cstr m fmt cs" and "outside buf n fmt cs"
    and "length (take (unat (sz - 1)) out) \<le> n"
  shows "\<exists>slots'. kvsnprintf m buf sz fmt slots =
           Some (Inr (stores m buf (take (unat (sz - 1)) out @ [0]),
                      of_nat (length (take (unat (sz - 1)) out)), slots')) \<and>
           (length out < unat (sz - 1) \<longrightarrow> args_ok m buf n as' slots')"
proof -
  obtain slots' where "format_loop buf sz fmt m 0 0 slots =
           Some (Inr (stores m buf (take (unat (sz - 1)) out),
                      of_nat (length (take (unat (sz - 1)) out)), slots'))"
    and "length out < unat (sz - 1) \<longrightarrow> args_ok m buf n as' slots'"
    using format_loop_eq [OF assms(1,2), of fmt 0 0 "[]" sz] assms(3,4,5) by auto
  moreover have "unat (of_nat (length (take (unat (sz - 1)) out)) :: u64) = length (take (unat (sz - 1)) out)"
    by (rule unat_of_nat_le [of _ "sz - 1"]) simp
  ultimately show ?thesis
    by (simp add: kvsnprintf_def stores_snoc del: length_take) (simp add: unsigned_of_nat)
qed

text \<open>
  C35. Formatting into a buffer of \<open>sz > 0\<close> bytes, with the format and the strings it refers
  to outside the buffer, returns the text that the format stands for, cut to \<open>sz - 1\<close> bytes,
  always terminated, and writes nothing behind it; the result is the number of bytes stored.
\<close>

theorem kvsnprintf_correct:
  assumes "sz \<noteq> 0" and "cstr m fmt cs" and "outside buf (unat sz) fmt cs"
    and "args_ok m buf (unat sz) as slots" and "format_text cs as = Some (out, as')"
  shows "\<exists>slots'. kvsnprintf m buf sz fmt slots =
           Some (Inr (stores m buf (take (unat sz - 1) out @ [0]),
                      of_nat (min (length out) (unat sz - 1)), slots'))"
proof -
  have u: "unat (sz - 1) = unat sz - 1"
    using assms(1) by (rule unat_minus_one)
  then have "length (take (unat (sz - 1)) out) \<le> unat sz"
    by simp
  then show ?thesis
    using kvsnprintf_eq [OF assms(5,4,2,3), of sz] by (auto simp only: u length_take)
qed

text \<open>
  A size of 0 is not an empty buffer: \<^verbatim>\<open>size - 1\<close> wraps, and \<^verbatim>\<open>kvsnprintf\<close> writes the
  whole text and its terminator.
\<close>

theorem kvsnprintf_size_zero:
  assumes "cstr m fmt cs" and "outside buf (length out) fmt cs"
    and "args_ok m buf (length out) as slots" and "format_text cs as = Some (out, as')"
    and "length out < 2 ^ 64"
  shows "\<exists>slots'. kvsnprintf m buf 0 fmt slots =
           Some (Inr (stores m buf (out @ [0]), of_nat (length out), slots'))"
proof -
  have "unat (0 - 1 :: u64) = 2 ^ 64 - 1"
    by (simp add: unsigned_minus_1_eq_mask mask_eq_exp_minus_1)
  then have "take (unat (0 - 1 :: u64)) out = out"
    using assms(5) by simp
  then show ?thesis
    using kvsnprintf_eq [OF assms(4,3,1,2), of 0] by auto
qed

section \<open>Skipping the arguments\<close>

text \<open>
  \<^verbatim>\<open>consume_format_args\<close> takes the arguments that formatting takes, if no directive is cut
  off by the end of the format.
\<close>

function complete :: "u8 list \<Rightarrow> bool" where
  "complete [] = True"
| "complete (c # cs) =
     (if c \<noteq> ch CHR ''%'' then complete cs else
      case skip_flags False cs of (is_long, []) \<Rightarrow> False | (is_long, d # rest) \<Rightarrow> complete rest)"
  by pat_completeness auto
termination
  by (relation "measure length") (auto dest: skip_flags_length [OF sym])

lemma directive_args:
  assumes "directive l d as = Some (out, as')" and "list_all2 P as slots"
  shows "if takes_arg d then \<exists>a s. as = a # as' \<and> slots = s # tl slots \<and> list_all2 P as' (tl slots)
         else as' = as"
  using assms by (cases as; cases slots) (auto split: arg.splits if_splits)

lemma consume_loop_eq:
  assumes "format_text cs as = Some (out, as')" and "list_all2 P as slots"
    and "cstr m (fmt + i) cs" and "complete cs"
  shows "\<exists>slots'. consume_loop m fmt i slots = Some (Inr slots') \<and> list_all2 P as' slots'"
  using assms
proof (induction cs as arbitrary: out as' slots i rule: format_text.induct)
  case (1 as)
  then show ?case
    by (subst consume_loop.simps) simp
next
  case (2 c cs as)
  have c: "m (fmt + i) = c" "c \<noteq> 0" "cstr m (fmt + (i + 1)) cs"
    using "2.prems"(3) by (simp_all add: add.assoc)
  show ?case
  proof (cases "c = ch CHR ''%''")
    case False
    then obtain out1 where "format_text cs as = Some (out1, as')"
      using "2.prems"(1) by (auto split: option.splits)
    then have "\<exists>slots'. consume_loop m fmt (i + 1) slots = Some (Inr slots') \<and> list_all2 P as' slots'"
      using "2.IH"(1) [OF False _ "2.prems"(2) c(3)] "2.prems"(4) False by simp
    then show ?thesis
      using False c by (subst consume_loop.simps) simp
  next
    case True
    obtain l d rest where sk: "skip_flags False cs = (l, d # rest)" and comp: "complete rest"
      using "2.prems"(4) True by (auto split: prod.splits list.splits)
    obtain o1 as1 o2 where o1: "directive l d as = Some (o1, as1)"
      and o2: "format_text rest as1 = Some (o2, as')"
      using "2.prems"(1) True sk by (auto split: option.splits)
    obtain i' where i': "skip_length m fmt (i + 1) False = Some (i', l)" "cstr m (fmt + i') (d # rest)"
      using skip_length_eq [OF c(3) sk] by metis
    have rest: "m (fmt + i') = d" "cstr m (fmt + (i' + 1)) rest"
      using i'(2) by (simp_all add: add.assoc)
    have IH: "\<exists>slots'. consume_loop m fmt (i' + 1) ws = Some (Inr slots') \<and> list_all2 P as' slots'"
      if "list_all2 P as1 ws" for ws
      by (rule "2.IH"(2) [OF _ sk [symmetric] refl o1 refl o2 that rest(2) comp]) (simp add: True)
    have step: "consume_loop m fmt i slots =
        (if takes_arg d then
           (case va_arg slots of
              Inl e \<Rightarrow> Some (Inl e) | Inr (a, args) \<Rightarrow> consume_loop m fmt (i' + 1) args)
         else consume_loop m fmt (i' + 1) slots)"
      using True c rest(1) i'(1) by (subst consume_loop.simps) simp
    show ?thesis
    proof (cases "takes_arg d")
      case True
      then obtain s ws where "slots = s # ws" "list_all2 P as1 ws"
        using directive_args [OF o1 "2.prems"(2)] by auto
      then show ?thesis
        using IH True by (simp add: step [unfolded \<open>slots = s # ws\<close>] va_arg_def)
    next
      case False
      then have "list_all2 P as1 slots"
        using directive_args [OF o1 "2.prems"(2)] "2.prems"(2) by simp
      then show ?thesis
        using IH False by (simp add: step)
    qed
  qed
qed

text \<open>
  At a format that ends in a percent sign the same loop steps over the terminator and reads
  on behind the string; \<^verbatim>\<open>kvsnprintf\<close> steps back instead.
\<close>

lemma consume_reads_past_end:
  assumes "cstr m fmt [ch CHR ''%'']"
  shows "consume_format_args m fmt args = consume_loop m fmt 2 args"
  using assms
  by (simp add: consume_format_args_def consume_loop.simps [of m fmt 0]
      skip_length.simps [of m fmt 1] ch_def)

text \<open>\<^verbatim>\<open>%u\<close> prints a 32-bit value from \<open>2 ^ 31\<close> on as a negative number.\<close>

lemma unsigned_prints_negative:
  "format_text (map ch ''%u'') [Slot 0xFFFFFFFF] = Some (map ch ''-1'', [])"
  by code_simp

section \<open>Instances\<close>

text \<open>The format \<open>a%d\<close> at address 0x1000; the buffer of the witnesses is at 0x2000.\<close>

definition sample_format :: mem where
  "sample_format = stores (\<lambda>_. 0) 0x1000 (map ch ''a%d'')"

lemma sample_format_text: "format_text (map ch ''a%d'') [Slot 42] = Some (map ch ''a42'', [])"
  by code_simp

lemma sample_format_cstr: "cstr sample_format 0x1000 (map ch ''a%d'')"
  by (simp add: sample_format_def stores_def ch_def)

lemma sample_format_outside: "n \<le> 16 \<Longrightarrow> outside 0x2000 n 0x1000 (map ch ''a%d'')"
  by (auto simp: outside_def le_Suc_eq)

theorem kvsnprintf_correct_witness:
  "\<exists>slots'. kvsnprintf sample_format 0x2000 3 0x1000 [42] =
     Some (Inr (stores sample_format 0x2000 (take (unat (3 :: u64) - 1) (map ch ''a42'') @ [0]),
                of_nat (min (length (map ch ''a42'')) (unat (3 :: u64) - 1)), slots'))"
  by (rule kvsnprintf_correct [OF _ sample_format_cstr _ _ sample_format_text])
    (use sample_format_outside in \<open>simp_all add: arg_ok_def\<close>)

theorem kvsnprintf_size_zero_witness:
  "\<exists>slots'. kvsnprintf sample_format 0x2000 0 0x1000 [42] =
     Some (Inr (stores sample_format 0x2000 (map ch ''a42'' @ [0]),
                of_nat (length (map ch ''a42'')), slots'))"
  by (rule kvsnprintf_size_zero [OF sample_format_cstr _ _ sample_format_text])
    (use sample_format_outside in \<open>simp_all add: arg_ok_def\<close>)

end
