(* ===== verification/Context.thy ===== *)
theory Context
  imports Mem
begin

text \<open>
  Switching stacks: \<^verbatim>\<open>asm/cpu_switch_context.asm\<close> and the frame that
  \<^verbatim>\<open>thread_setup_stack\<close> of \<^verbatim>\<open>kernel/thread/thread.c\<close> prepares for it. A context is what the
  System V calling convention preserves across a call, with the next instruction.
\<close>

section \<open>Registers and the stack\<close>

record regs =
  reg_rsp :: u64
  reg_rbp :: u64
  reg_rbx :: u64
  reg_r12 :: u64
  reg_r13 :: u64
  reg_r14 :: u64
  reg_r15 :: u64
  reg_rip :: u64

definition push64 :: "u64 \<Rightarrow> regs \<times> mem \<Rightarrow> regs \<times> mem" where
  "push64 v c =
     (case c of (r, m) \<Rightarrow>
        (r\<lparr>reg_rsp := reg_rsp r - 8\<rparr>, wr64 m (reg_rsp r - 8) v))"

definition pop64 :: "regs \<times> mem \<Rightarrow> u64 \<times> regs \<times> mem" where
  "pop64 c =
     (case c of (r, m) \<Rightarrow> (rd64 m (reg_rsp r), r\<lparr>reg_rsp := reg_rsp r + 8\<rparr>, m))"

text \<open>
  The value stored through \<^verbatim>\<open>old_rsp\<close> is returned; the return address is on the stack when
  the routine is entered.
\<close>

definition cpu_switch_context :: "u64 \<Rightarrow> regs \<times> mem \<Rightarrow> u64 \<times> regs \<times> mem" where
  "cpu_switch_context new_rsp c =
     (let c = push64 (reg_rbp (fst c)) c;
          c = push64 (reg_rbx (fst c)) c;
          c = push64 (reg_r12 (fst c)) c;
          c = push64 (reg_r13 (fst c)) c;
          c = push64 (reg_r14 (fst c)) c;
          c = push64 (reg_r15 (fst c)) c;
          old_rsp = reg_rsp (fst c);
          c = ((fst c)\<lparr>reg_rsp := new_rsp\<rparr>, snd c);
          (v, r, m) = pop64 c; c = (r\<lparr>reg_r15 := v\<rparr>, m);
          (v, r, m) = pop64 c; c = (r\<lparr>reg_r14 := v\<rparr>, m);
          (v, r, m) = pop64 c; c = (r\<lparr>reg_r13 := v\<rparr>, m);
          (v, r, m) = pop64 c; c = (r\<lparr>reg_r12 := v\<rparr>, m);
          (v, r, m) = pop64 c; c = (r\<lparr>reg_rbx := v\<rparr>, m);
          (v, r, m) = pop64 c; c = (r\<lparr>reg_rbp := v\<rparr>, m);
          (v, r, m) = pop64 c; c = (r\<lparr>reg_rip := v\<rparr>, m)
      in (old_rsp, c))"

text \<open>The first words on the stack of a new thread, of \<open>stack_size\<close> bytes from \<open>base\<close> on.\<close>

definition setup_frame :: "mem \<Rightarrow> u64 \<Rightarrow> u64 \<Rightarrow> u64 \<Rightarrow> u64 \<Rightarrow> u64 \<Rightarrow> u64 \<times> mem" where
  "setup_frame m base stack_size trampoline entry arg =
     (let stack = base + stack_size;
          stack = stack - 8; m = wr64 m stack trampoline;
          stack = stack - 8; m = wr64 m stack 0;
          stack = stack - 8; m = wr64 m stack 0;
          stack = stack - 8; m = wr64 m stack 0;
          stack = stack - 8; m = wr64 m stack 0;
          stack = stack - 8; m = wr64 m stack arg;
          stack = stack - 8; m = wr64 m stack entry
      in (stack, m))"

text \<open>What \<^verbatim>\<open>thread_trampoline\<close> passes to \<^verbatim>\<open>thread_entry_wrapper\<close>: the entry point and its argument.\<close>

definition thread_trampoline_args :: "regs \<Rightarrow> u64 \<times> u64" where
  "thread_trampoline_args r = (reg_r15 r, reg_r14 r)"

section \<open>Frames\<close>

text \<open>A saved context lies in the seven words from the saved stack pointer on.\<close>

definition frame_at :: "mem \<Rightarrow> u64 \<Rightarrow> regs \<Rightarrow> bool" where
  "frame_at m sp r \<longleftrightarrow>
     rd64 m sp = reg_r15 r \<and> rd64 m (sp + 8) = reg_r14 r \<and> rd64 m (sp + 16) = reg_r13 r \<and>
     rd64 m (sp + 24) = reg_r12 r \<and> rd64 m (sp + 32) = reg_rbx r \<and> rd64 m (sp + 40) = reg_rbp r \<and>
     rd64 m (sp + 48) = reg_rip r \<and> reg_rsp r = sp + 56"

definition saved_frame :: "regs \<times> mem \<Rightarrow> u64 \<times> mem" where
  "saved_frame c =
     (case c of (r, m) \<Rightarrow>
        let sp = reg_rsp r
        in (sp - 48, wr64 (wr64 (wr64 (wr64 (wr64 (wr64 m (sp - 8) (reg_rbp r)) (sp - 16) (reg_rbx r))
              (sp - 24) (reg_r12 r)) (sp - 32) (reg_r13 r)) (sp - 40) (reg_r14 r)) (sp - 48) (reg_r15 r)))"

lemma cpu_switch_context_eq:
  "cpu_switch_context new_rsp (r, m) =
     (let (sp, m') = saved_frame (r, m)
      in (sp, \<lparr>reg_rsp = new_rsp + 56, reg_rbp = rd64 m' (new_rsp + 40), reg_rbx = rd64 m' (new_rsp + 32),
               reg_r12 = rd64 m' (new_rsp + 24), reg_r13 = rd64 m' (new_rsp + 16),
               reg_r14 = rd64 m' (new_rsp + 8), reg_r15 = rd64 m' new_rsp,
               reg_rip = rd64 m' (new_rsp + 48)\<rparr>, m'))"
  by (simp add: cpu_switch_context_def saved_frame_def push64_def pop64_def Let_def algebra_simps)

lemma saved_frame_mem:
  assumes "saved_frame (r, m) = (sp, m')"
  shows "reg_rsp r = sp + 48"
    and "m' = wr64 (wr64 (wr64 (wr64 (wr64 (wr64 m (sp + 40) (reg_rbp r)) (sp + 32) (reg_rbx r))
              (sp + 24) (reg_r12 r)) (sp + 16) (reg_r13 r)) (sp + 8) (reg_r14 r)) (sp + 0) (reg_r15 r)"
  using assms by (auto simp: saved_frame_def Let_def)

lemma apart8_offsets:
  "apart8 (a + x) (a + y) \<longleftrightarrow> 8 \<le> x - y \<and> 8 \<le> y - x"
  "apart8 a (a + y) \<longleftrightarrow> 8 \<le> - y \<and> 8 \<le> y"
  "apart8 (a + x) a \<longleftrightarrow> 8 \<le> x \<and> 8 \<le> - x"
  by (simp_all add: apart8_def)

text \<open>Saving a context leaves a frame that holds it.\<close>

lemma saved_frame_at:
  assumes "saved_frame (r, m) = (sp, m')"
  shows "frame_at m' sp (r\<lparr>reg_rip := rd64 m (reg_rsp r), reg_rsp := reg_rsp r + 8\<rparr>)"
  using saved_frame_mem [OF assms] by (simp add: frame_at_def apart8_offsets)

text \<open>The frame of a new thread holds the context in which it starts.\<close>

lemma setup_frame_mem:
  assumes "setup_frame m base stack_size trampoline entry arg = (sp, m')"
  shows "base + stack_size = sp + 56"
    and "m' = wr64 (wr64 (wr64 (wr64 (wr64 (wr64 (wr64 m (sp + 48) trampoline) (sp + 40) 0)
              (sp + 32) 0) (sp + 24) 0) (sp + 16) 0) (sp + 8) arg) sp entry"
  using assms by (auto simp: setup_frame_def Let_def)

lemma setup_frame_at:
  assumes "setup_frame m base stack_size trampoline entry arg = (sp, m')"
  shows "frame_at m' sp \<lparr>reg_rsp = base + stack_size, reg_rbp = 0, reg_rbx = 0, reg_r12 = 0,
    reg_r13 = 0, reg_r14 = arg, reg_r15 = entry, reg_rip = trampoline\<rparr>"
    and "sp = base + stack_size - 56"
proof -
  show sp: "sp = base + stack_size - 56"
    using assms by (auto simp: setup_frame_def Let_def)
  show "frame_at m' sp \<lparr>reg_rsp = base + stack_size, reg_rbp = 0, reg_rbx = 0, reg_r12 = 0,
    reg_r13 = 0, reg_r14 = arg, reg_r15 = entry, reg_rip = trampoline\<rparr>"
    using setup_frame_mem [OF assms] by (simp add: frame_at_def apart8_offsets)
qed

text \<open>A frame is seven words; memory that agrees on its 56 bytes holds the same frame.\<close>

lemma frame_at_cong:
  assumes "frame_at m sp r" and "\<And>i. i < 56 \<Longrightarrow> m' (sp + i) = m (sp + i)"
  shows "frame_at m' sp r"
proof -
  have "rd64 m' (sp + k) = rd64 m (sp + k)" if "k \<le> 48" for k
  proof (rule rd64_cong)
    fix i :: u64
    assume "i < 8"
    then have "k + i < 56"
      using that by unat_arith
    then show "m' (sp + k + i) = m (sp + k + i)"
      using assms(2) [of "k + i"] by (simp add: add.assoc)
  qed
  from this [of 0] this [of 8] this [of 16] this [of 24] this [of 32] this [of 40] this [of 48]
  show ?thesis
    using assms(1) by (simp add: frame_at_def)
qed

lemma below_frame: "y < 8 \<Longrightarrow> k \<le> 40 \<Longrightarrow> y + k < (48 :: u64)"
  by (simp add: word_less_nat_alt word_le_nat_alt unat_word_ariths)

text \<open>Switching to a saved context gives exactly the context that was saved.\<close>

lemma switch_to_frame:
  assumes "frame_at m new_rsp r'" and "saved_frame (r, m) = (sp, m')"
    and "\<And>i. i < 56 \<Longrightarrow> \<not> new_rsp + i - sp < 48"
  shows "cpu_switch_context new_rsp (r, m) = (sp, r', m')"
proof -
  have "m' (new_rsp + i) = m (new_rsp + i)" if "i < 56" for i
  proof -
    have o: "\<not> new_rsp + i - (sp + k) < 8" if "k \<le> 40" for k
    proof
      assume "new_rsp + i - (sp + k) < 8"
      then have "(new_rsp + i - (sp + k)) + k < 48"
        using \<open>k \<le> 40\<close> by (rule below_frame)
      then show False
        using assms(3) [OF \<open>i < 56\<close>] by (simp add: algebra_simps)
    qed
    have w: "wr64 g (sp + k) v (new_rsp + i) = g (new_rsp + i)" if "k \<le> 40" for k v g
      by (rule wr64_outside [OF o [OF that]])
    have k: "(40 :: u64) \<le> 40" "(32 :: u64) \<le> 40" "(24 :: u64) \<le> 40" "(16 :: u64) \<le> 40"
      "(8 :: u64) \<le> 40" "(0 :: u64) \<le> 40"
      by simp_all
    show ?thesis
      by (simp only: saved_frame_mem(2) [OF assms(2)] w k)
  qed
  then have "frame_at m' new_rsp r'"
    by (rule frame_at_cong [OF assms(1)])
  then show ?thesis
    by (simp add: cpu_switch_context_eq assms(2) frame_at_def)
qed

text \<open>
  C13. Switching away from a context and, later, back to the stack pointer that was saved
  restores it exactly: the preserved registers, the stack pointer above the return address,
  and the return address as the next instruction. Between the two, memory may change
  everywhere but in the 56 bytes of the frame, which the stack of the switching context must
  not reach either.
\<close>

theorem context_switch_roundtrip:
  assumes "cpu_switch_context new_rsp (r, m) = (sp, r', m')"
    and "\<And>i. i < 56 \<Longrightarrow> n (sp + i) = m' (sp + i)"
    and "\<And>i. i < 56 \<Longrightarrow> \<not> sp + i - (reg_rsp q - 48) < 48"
  shows "fst (snd (cpu_switch_context sp (q, n))) =
         r\<lparr>reg_rip := rd64 m (reg_rsp r), reg_rsp := reg_rsp r + 8\<rparr>"
proof -
  have "saved_frame (r, m) = (sp, m')"
    using assms(1) by (auto simp: cpu_switch_context_eq split: prod.splits)
  then have "frame_at n sp (r\<lparr>reg_rip := rd64 m (reg_rsp r), reg_rsp := reg_rsp r + 8\<rparr>)"
    by (rule frame_at_cong [OF saved_frame_at]) (rule assms(2))
  moreover obtain n' where "saved_frame (q, n) = (reg_rsp q - 48, n')"
    by (simp add: saved_frame_def Let_def)
  ultimately show ?thesis
    using switch_to_frame [OF _ _ assms(3)] by simp
qed

section \<open>Instances\<close>

text \<open>Two stacks that end at 0x2000 and 0x4000, the second with a saved context.\<close>

definition sample_regs :: regs where
  "sample_regs = \<lparr>reg_rsp = 0x2000, reg_rbp = 1, reg_rbx = 2, reg_r12 = 3, reg_r13 = 4,
     reg_r14 = 5, reg_r15 = 6, reg_rip = 7\<rparr>"

theorem context_switch_roundtrip_witness:
  "fst (snd (cpu_switch_context (0x2000 - 48)
      (sample_regs\<lparr>reg_rsp := 0x4000\<rparr>, snd (snd (cpu_switch_context 0x3000 (sample_regs, \<lambda>_. 0)))))) =
   sample_regs\<lparr>reg_rip := rd64 (\<lambda>_. 0) 0x2000, reg_rsp := 0x2000 + 8\<rparr>"
proof -
  obtain r' m' where s: "cpu_switch_context 0x3000 (sample_regs, \<lambda>_. 0) = (0x2000 - 48, r', m')"
    by (simp add: cpu_switch_context_eq saved_frame_def sample_regs_def Let_def)
  have far: "\<not> (0x2000 - 48) + i - (0x4000 - 48) < (48 :: u64)" if "i < 56" for i
    using that by (auto simp: word_less_nat_alt word_le_nat_alt unat_sub_if')
  show ?thesis
    using context_switch_roundtrip [OF s, of m' "sample_regs\<lparr>reg_rsp := 0x4000\<rparr>"] far
    by (simp add: s) (simp add: sample_regs_def)
qed

end
