(* ===== verification/Thread.thy ===== *)
theory Thread
  imports Heap Strings Context
begin

text \<open>
  Threads and the scheduler: \<^verbatim>\<open>kernel/thread/thread.c\<close> and \<^verbatim>\<open>kernel/sched/sched.c\<close>. A
  thread lives in a heap block of 120 bytes; its scalar fields are a typed store over thread
  addresses, its two list nodes are in a store of nodes, and its name is in the heap's bytes,
  as the stacks are. The processor's registers are part of the state, because a context
  switch ends in the middle of \<^verbatim>\<open>schedule\<close>.
\<close>

section \<open>State\<close>

datatype thread_state =
    THREAD_STATE_NEW
  | THREAD_STATE_READY
  | THREAD_STATE_RUNNING
  | THREAD_STATE_BLOCKED
  | THREAD_STATE_TIMED_WAIT
  | THREAD_STATE_TERMINATED

record thread =
  rsp :: u64
  thread_id :: u64
  state :: thread_state
  time_slice :: u32
  kernel_stack_base :: u64
  kernel_stack_size :: u64
  entry :: u64
  arg :: u64

text \<open>
  \<open>trampoline\<close> is the address of \<^verbatim>\<open>thread_trampoline\<close>, \<open>switch_return\<close> the address of the
  instruction behind the call of \<^verbatim>\<open>cpu_switch_context\<close>, and \<open>tick_callback\<close> says whether
  \<^verbatim>\<open>sched_on_tick\<close> is registered with the timer.
\<close>

record kernel = heap +
  threads :: "u64 \<Rightarrow> thread"
  thread_nodes :: nodes
  ready_queue :: u64
  current_thread :: u64
  next_id :: u64
  cpu :: regs
  trampoline :: u64
  switch_return :: u64
  tick_callback :: bool

definition MAX_STACK_SIZE :: u64 where "MAX_STACK_SIZE = 0x2000"
definition DEFAULT_TIME_SLICE :: u32 where "DEFAULT_TIME_SLICE = 10"

definition sizeof_thread :: u64 where "sizeof_thread = 120"

text \<open>The members of \<^verbatim>\<open>thread_t\<close> that are addressed, and \<^verbatim>\<open>list_entry\<close>.\<close>

definition name_of :: "u64 \<Rightarrow> u64" where "name_of t = t + 16"
definition sched_node :: "u64 \<Rightarrow> u64" where "sched_node t = t + 88"
definition all_node :: "u64 \<Rightarrow> u64" where "all_node t = t + 104"
definition thread_of :: "u64 \<Rightarrow> u64" where "thread_of n = n - 88"

lemma thread_of_node [simp]: "thread_of (sched_node t) = t"
  by (simp add: thread_of_def sched_node_def)

lemma sched_node_inj [simp]: "sched_node t = sched_node u \<longleftrightarrow> t = u"
  by (simp add: sched_node_def)

definition update_thread :: "u64 \<Rightarrow> (thread \<Rightarrow> thread) \<Rightarrow> 'a kernel_scheme \<Rightarrow> 'a kernel_scheme" where
  "update_thread t f s = s\<lparr>threads := (threads s)(t := f (threads s t))\<rparr>"

section \<open>The scheduler\<close>

text \<open>\<^verbatim>\<open>call cpu_switch_context\<close>: the saved stack pointer goes to the old thread.\<close>

definition switch_threads :: "u64 \<Rightarrow> u64 \<Rightarrow> 'a kernel_scheme \<Rightarrow> 'a kernel_scheme" where
  "switch_threads old_thread next_thread s =
     (let new_rsp = rsp (threads s next_thread);
          (old_rsp, r, m) = cpu_switch_context new_rsp (push64 (switch_return s) (cpu s, heap_bytes s));
          s = update_thread old_thread (\<lambda>t. t\<lparr>rsp := old_rsp\<rparr>) s
      in s\<lparr>cpu := r, heap_bytes := m\<rparr>)"

definition schedule :: "'a kernel_scheme \<Rightarrow> 'a kernel_scheme outcome" where
  "schedule s =
     (if list_empty (thread_nodes s) (ready_queue s) then Inr s else
      let old_thread = current_thread s in
      if old_thread = NULL then Inl Bad_access else
      let (next_node, s) =
        (if state (threads s old_thread) = THREAD_STATE_TERMINATED then
           let next_node = nxt (thread_nodes s (sched_node old_thread));
               s = s\<lparr>thread_nodes := list_del (thread_nodes s) (sched_node old_thread)\<rparr>;
               next_node = (if next_node = ready_queue s
                            then nxt (thread_nodes s next_node) else next_node)
           in (Some next_node, s)
         else if list_is_singular (thread_nodes s) (ready_queue s) then (None, s)
         else
           let next_node = nxt (thread_nodes s (sched_node old_thread));
               next_node = (if next_node = ready_queue s
                            then nxt (thread_nodes s next_node) else next_node)
           in (Some next_node, s))
      in case next_node of
           None \<Rightarrow> Inr s
         | Some next_node \<Rightarrow>
             if next_node = ready_queue s then Inr s else
             let next_thread = thread_of next_node in
             if old_thread \<noteq> next_thread then
               let s = s\<lparr>current_thread := next_thread\<rparr>
               in Inr (switch_threads old_thread next_thread s)
             else Inr s)"

definition sched_on_tick :: "'a kernel_scheme \<Rightarrow> 'a kernel_scheme outcome" where
  "sched_on_tick s =
     (let cur = current_thread s in
      if cur = NULL then Inr s else
      let s = (if time_slice (threads s cur) > 0
               then update_thread cur (\<lambda>t. t\<lparr>time_slice := time_slice t - 1\<rparr>) s else s)
      in if time_slice (threads s cur) = 0 then
           schedule (update_thread cur (\<lambda>t. t\<lparr>time_slice := DEFAULT_TIME_SLICE\<rparr>) s)
         else Inr s)"

section \<open>Threads\<close>

definition new_thread_id :: "'a kernel_scheme \<Rightarrow> u64 \<times> 'a kernel_scheme" where
  "new_thread_id s = (next_id s, s\<lparr>next_id := next_id s + 1\<rparr>)"

definition thread_setup_stack :: "u64 \<Rightarrow> u64 \<Rightarrow> u64 \<Rightarrow> 'a kernel_scheme \<Rightarrow> 'a kernel_scheme" where
  "thread_setup_stack thread entry_point a s =
     (let (stack, m) = setup_frame (heap_bytes s) (kernel_stack_base (threads s thread))
                         MAX_STACK_SIZE (trampoline s) entry_point a
      in update_thread thread (\<lambda>t. t\<lparr>rsp := stack\<rparr>) (s\<lparr>heap_bytes := m\<rparr>))"

definition change_thread_state :: "u64 \<Rightarrow> thread_state \<Rightarrow> 'a kernel_scheme \<Rightarrow> 'a kernel_scheme" where
  "change_thread_state thread new_state s =
     (if thread = NULL then s else update_thread thread (\<lambda>t. t\<lparr>state := new_state\<rparr>) s)"

definition thread_terminate :: "u64 \<Rightarrow> 'a kernel_scheme \<Rightarrow> 'a kernel_scheme outcome" where
  "thread_terminate thread s =
     (if thread = NULL then Inr s else
      let s = change_thread_state thread THREAD_STATE_TERMINATED s
      in if thread = current_thread s then schedule s else Inr s)"

text \<open>The thread's own code is a parameter: a function of the entry point and its argument.\<close>

definition thread_entry_wrapper ::
  "(u64 \<Rightarrow> u64 \<Rightarrow> 'a kernel_scheme \<Rightarrow> 'a kernel_scheme outcome) \<Rightarrow> u64 \<Rightarrow> u64 \<Rightarrow>
   'a kernel_scheme \<Rightarrow> 'a kernel_scheme outcome" where
  "thread_entry_wrapper run entry_point a s =
     bind_ok (if entry_point \<noteq> NULL then run entry_point a s else Inr s)
       (\<lambda>s. thread_terminate (current_thread s) s)"

text \<open>The name is cut to 31 bytes; both list nodes start as empty rings.\<close>

definition thread_set_name :: "u64 \<Rightarrow> u64 \<Rightarrow> 'a kernel_scheme \<Rightarrow> 'a kernel_scheme" where
  "thread_set_name thread name s =
     (let m = strncpy (heap_bytes s) (name_of thread) name 31
      in s\<lparr>heap_bytes := m(name_of thread + 31 := 0)\<rparr>)"

definition thread_init_nodes :: "u64 \<Rightarrow> 'a kernel_scheme \<Rightarrow> 'a kernel_scheme" where
  "thread_init_nodes thread s =
     (let h = INIT_LIST_HEAD (thread_nodes s) (sched_node thread);
          h = INIT_LIST_HEAD h (all_node thread)
      in s\<lparr>thread_nodes := h\<rparr>)"

definition thread_fill :: "u64 \<Rightarrow> u64 \<Rightarrow> u64 \<Rightarrow> u64 \<Rightarrow> 'a kernel_scheme \<Rightarrow> 'a kernel_scheme" where
  "thread_fill new_thread name entry_point a s =
     (let s = update_thread new_thread (\<lambda>t. t\<lparr>entry := entry_point\<rparr>) s;
          s = update_thread new_thread (\<lambda>t. t\<lparr>arg := a\<rparr>) s;
          s = thread_setup_stack new_thread entry_point a s;
          s = update_thread new_thread (\<lambda>t. t\<lparr>kernel_stack_size := MAX_STACK_SIZE\<rparr>) s;
          (id, s) = new_thread_id s;
          s = update_thread new_thread (\<lambda>t. t\<lparr>thread_id := id\<rparr>) s;
          s = update_thread new_thread (\<lambda>t. t\<lparr>state := THREAD_STATE_NEW\<rparr>) s;
          s = thread_set_name new_thread name s
      in thread_init_nodes new_thread s)"

definition thread_create ::
  "u64 \<Rightarrow> u64 \<Rightarrow> u64 \<Rightarrow> 'a kernel_scheme \<Rightarrow> (u64 \<times> 'a kernel_scheme) outcome option" where
  "thread_create name entry_point a s =
     (if name = NULL \<or> entry_point = NULL then Some (Inr (NULL, s)) else
      and_then (kmalloc sizeof_thread s) (\<lambda>(new_thread, s).
        if new_thread = NULL then Some (Inr (NULL, s)) else
        and_then (kmalloc MAX_STACK_SIZE s) (\<lambda>(stack, s).
          let s = update_thread new_thread (\<lambda>t. t\<lparr>kernel_stack_base := stack\<rparr>) s in
          if kernel_stack_base (threads s new_thread) = NULL
          then Some (Inr (NULL, kfree new_thread s))
          else Some (Inr (new_thread, thread_fill new_thread name entry_point a s)))))"

definition thread_destroy :: "u64 \<Rightarrow> 'a kernel_scheme \<Rightarrow> 'a kernel_scheme" where
  "thread_destroy thread s =
     (if thread = NULL then s else
      let s = (if kernel_stack_base (threads s thread) \<noteq> NULL
               then kfree (kernel_stack_base (threads s thread)) s else s)
      in kfree thread s)"

definition thread_start :: "u64 \<Rightarrow> 'a kernel_scheme \<Rightarrow> 'a kernel_scheme" where
  "thread_start thread s =
     (if thread = NULL then s else
      let s = (if state (threads s thread) = THREAD_STATE_TERMINATED then
                 let s = thread_setup_stack thread (entry (threads s thread)) (arg (threads s thread)) s
                 in s\<lparr>thread_nodes := INIT_LIST_HEAD (thread_nodes s) (sched_node thread)\<rparr>
               else s);
          s = change_thread_state thread THREAD_STATE_READY s
      in if list_empty (thread_nodes s) (sched_node thread)
         then s\<lparr>thread_nodes := list_add_tail (thread_nodes s) (sched_node thread) (ready_queue s)\<rparr>
         else s)"

text \<open>\<^verbatim>\<open>sched_init\<close> does not test the result of \<^verbatim>\<open>kmalloc\<close>; \<open>name\<close> is the literal it copies.\<close>

definition sched_init :: "u64 \<Rightarrow> 'a kernel_scheme \<Rightarrow> 'a kernel_scheme outcome option" where
  "sched_init name s =
     and_then (kmalloc sizeof_thread s) (\<lambda>(main_thread, s).
       if main_thread = NULL then Some (Inl Bad_access) else
       let (id, s) = new_thread_id s;
           s = update_thread main_thread (\<lambda>t. t\<lparr>thread_id := id\<rparr>) s;
           s = update_thread main_thread (\<lambda>t. t\<lparr>state := THREAD_STATE_RUNNING\<rparr>) s;
           s = update_thread main_thread (\<lambda>t. t\<lparr>time_slice := DEFAULT_TIME_SLICE\<rparr>) s;
           s = update_thread main_thread (\<lambda>t. t\<lparr>kernel_stack_base := NULL\<rparr>) s;
           s = update_thread main_thread (\<lambda>t. t\<lparr>kernel_stack_size := 0\<rparr>) s;
           s = thread_set_name main_thread name s;
           s = thread_init_nodes main_thread s;
           s = s\<lparr>current_thread := main_thread\<rparr>;
           s = s\<lparr>thread_nodes := list_add_tail (thread_nodes s) (sched_node main_thread) (ready_queue s)\<rparr>
       in Some (Inr (s\<lparr>tick_callback := True\<rparr>)))"

section \<open>The queue\<close>

text \<open>
  \<open>q\<close> is the ready queue, in list order; the running thread stays in it. \<open>successor\<close> is round
  robin on the abstract queue.
\<close>

definition queue :: "'a kernel_scheme \<Rightarrow> u64 list \<Rightarrow> bool" where
  "queue s q \<longleftrightarrow> is_list (thread_nodes s) (ready_queue s) (map sched_node q)"

definition successor :: "u64 list \<Rightarrow> u64 \<Rightarrow> u64 list \<Rightarrow> u64" where
  "successor xs t ys = hd (ys @ xs @ [t])"

definition terminated :: "'a kernel_scheme \<Rightarrow> u64 \<Rightarrow> bool" where
  "terminated s t \<longleftrightarrow> state (threads s t) = THREAD_STATE_TERMINATED"

lemma successor_in: "successor xs t ys \<in> set (xs @ t # ys)"
  unfolding successor_def by (cases ys; cases xs) auto

lemma queue_distinct:
  assumes "queue s q"
  shows "distinct q" and "t \<in> set q \<Longrightarrow> sched_node t \<noteq> ready_queue s"
proof -
  have d: "distinct (map sched_node q)" "ready_queue s \<notin> set (map sched_node q)"
    using ll.rep_distinct [OF assms [unfolded queue_def]] by simp_all
  show "distinct q"
    using d(1) by (simp add: distinct_map)
  show "t \<in> set q \<Longrightarrow> sched_node t \<noteq> ready_queue s"
    using d(2) by (metis image_eqI set_map)
qed

lemma queue_same: "queue s q \<Longrightarrow> queue s r \<Longrightarrow> q = r"
  unfolding queue_def using is_list_unique inj_map_eq_map [of sched_node q r] by (simp add: inj_on_def)

lemma update_thread_simps [simp]:
  "threads (update_thread t f s) = (threads s)(t := f (threads s t))"
  "thread_nodes (update_thread t f s) = thread_nodes s"
  "ready_queue (update_thread t f s) = ready_queue s"
  "current_thread (update_thread t f s) = current_thread s"
  "next_id (update_thread t f s) = next_id s"
  "cpu (update_thread t f s) = cpu s"
  "trampoline (update_thread t f s) = trampoline s"
  "switch_return (update_thread t f s) = switch_return s"
  "heap_bytes (update_thread t f s) = heap_bytes s"
  by (simp_all add: update_thread_def)

lemma switch_threads_simps [simp]:
  "thread_nodes (switch_threads t u s) = thread_nodes s"
  "ready_queue (switch_threads t u s) = ready_queue s"
  "current_thread (switch_threads t u s) = current_thread s"
  "state (threads (switch_threads t u s) v) = state (threads s v)"
  "time_slice (threads (switch_threads t u s) v) = time_slice (threads s v)"
  by (simp_all add: switch_threads_def Let_def split: prod.split)

lemma switch_threads_context:
  "(rsp (threads (switch_threads t u s) t), cpu (switch_threads t u s), heap_bytes (switch_threads t u s)) =
   cpu_switch_context (rsp (threads s u)) (push64 (switch_return s) (cpu s, heap_bytes s))"
  by (simp add: switch_threads_def Let_def split: prod.split)

text \<open>Following one link from a node, and one more from the anchor.\<close>

lemma next_in_ring:
  assumes "is_list h l (map sched_node (xs @ t # ys))"
  shows "(if nxt (h (sched_node t)) = l then nxt (h (nxt (h (sched_node t)))) else nxt (h (sched_node t))) =
         sched_node (successor xs t ys)"
proof -
  have n: "nxt (h (sched_node t)) = hd (map sched_node ys @ [l])"
    using is_list_next [of h l "map sched_node xs" "sched_node t" "map sched_node ys"] assms by simp
  have f: "nxt (h l) = hd (map sched_node (xs @ t # ys) @ [l])"
    using is_list_first [OF assms] by simp
  have "l \<notin> set (map sched_node (xs @ t # ys))"
    using ll.rep_distinct [OF assms] by simp
  then show ?thesis
    unfolding successor_def using n f by (cases ys; cases xs) auto
qed

lemma schedule_running:
  assumes "queue s q" and "q = xs @ t # ys" and "current_thread s = t" and "t \<noteq> NULL"
    and "\<not> terminated s t"
  shows "schedule s = Inr (if successor xs t ys = t then s
    else switch_threads t (successor xs t ys) (s\<lparr>current_thread := successor xs t ys\<rparr>))"
proof -
  have r: "is_list (thread_nodes s) (ready_queue s) (map sched_node (xs @ t # ys))"
    using assms(1,2) by (simp add: queue_def)
  have d: "distinct (xs @ t # ys)" "sched_node (successor xs t ys) \<noteq> ready_queue s"
    using queue_distinct [OF assms(1)] assms(2) successor_in [of xs t ys] by auto
  have single: "list_is_singular (thread_nodes s) (ready_queue s) \<longleftrightarrow> xs = [] \<and> ys = []"
    using list_is_singular_iff [OF r] by (auto simp: Cons_eq_append_conv append_eq_Cons_conv)
  have ne: "\<not> list_empty (thread_nodes s) (ready_queue s)"
    using list_empty_iff [OF r] by simp
  show ?thesis
  proof (cases "xs = [] \<and> ys = []")
    case True
    then show ?thesis
      using single ne assms(3-5) by (simp add: schedule_def Let_def terminated_def successor_def)
  next
    case False
    then have other: "successor xs t ys \<noteq> t"
      using d(1) unfolding successor_def by (cases ys; cases xs) auto
    have ns: "\<not> list_is_singular (thread_nodes s) (ready_queue s)"
      using False single by simp
    have "schedule s = (let n = (if nxt (thread_nodes s (sched_node t)) = ready_queue s
          then nxt (thread_nodes s (nxt (thread_nodes s (sched_node t))))
          else nxt (thread_nodes s (sched_node t)))
        in if n = ready_queue s then Inr s
           else if t \<noteq> thread_of n
           then Inr (switch_threads t (thread_of n) (s\<lparr>current_thread := thread_of n\<rparr>))
           else Inr s)"
      using assms(4,5) unfolding schedule_def Let_def terminated_def assms(3)
      by (simp only: ns ne if_False prod.case option.case)
    then show ?thesis
      unfolding next_in_ring [OF r] using d(2) other by (simp add: Let_def)
  qed
qed

lemma schedule_terminated:
  assumes "queue s q" and "q = xs @ t # ys" and "current_thread s = t" and "t \<noteq> NULL"
    and "terminated s t"
  defines "u \<equiv> s\<lparr>thread_nodes := list_del (thread_nodes s) (sched_node t)\<rparr>"
  shows "schedule s = Inr (if successor xs t ys = t then u
      else switch_threads t (successor xs t ys) (u\<lparr>current_thread := successor xs t ys\<rparr>))"
    and "queue u (xs @ ys)"
proof -
  have r: "is_list (thread_nodes s) (ready_queue s) (map sched_node xs @ sched_node t # map sched_node ys)"
    using assms(1,2) by (simp add: queue_def)
  show q: "queue u (xs @ ys)"
    using ll.rep_del [OF r] by (simp add: queue_def u_def)
  have d: "distinct (xs @ t # ys)" "sched_node (successor xs t ys) \<noteq> ready_queue s"
    "\<And>v. v \<in> set (xs @ t # ys) \<Longrightarrow> sched_node v \<noteq> ready_queue s"
    using queue_distinct [OF assms(1)] assms(2) successor_in [of xs t ys] by auto
  have n: "nxt (thread_nodes s (sched_node t)) = hd (map sched_node ys @ [ready_queue s])"
    using is_list_next [OF r] by simp
  have f: "nxt (thread_nodes u (ready_queue s)) = hd (map sched_node (xs @ ys) @ [ready_queue s])"
    using is_list_first [OF q [unfolded queue_def]] by (simp add: u_def)
  have "\<not> list_empty (thread_nodes s) (ready_queue s)"
    using list_empty_iff [OF r] by simp
  then show "schedule s = Inr (if successor xs t ys = t then u
      else switch_threads t (successor xs t ys) (u\<lparr>current_thread := successor xs t ys\<rparr>))"
    using n f d assms(3-5)
    by (cases ys; cases xs) (auto simp: schedule_def Let_def terminated_def successor_def u_def)
qed

text \<open>
  C10. \<^verbatim>\<open>schedule\<close> is round robin: it hands the processor to the thread behind the current one,
  past the end of the queue to its first, by a context switch to what that thread saved last. A
  terminated current thread leaves the queue, every other keeps its place. Of all the threads only
  the current one changes, and of its structure only the saved stack pointer; nothing else in the
  state changes but the links of the queue, the current thread, the registers and the stacks. With
  nothing else to run the current thread goes on.
\<close>

theorem schedule_round_robin:
  assumes "queue s q" and "q = xs @ t # ys" and "current_thread s = t" and "t \<noteq> NULL"
  shows "\<exists>s'. schedule s = Inr s' \<and> current_thread s' = successor xs t ys \<and>
    queue s' (if terminated s t then xs @ ys else q) \<and>
    thread_nodes s' = (if terminated s t then list_del (thread_nodes s) (sched_node t) else thread_nodes s) \<and>
    threads s' = (threads s)(t := (threads s t)\<lparr>rsp := rsp (threads s' t)\<rparr>) \<and>
    (if successor xs t ys = t then rsp (threads s' t) = rsp (threads s t) \<and> cpu s' = cpu s \<and> heap_bytes s' = heap_bytes s
     else (rsp (threads s' t), cpu s', heap_bytes s') =
       cpu_switch_context (rsp (threads s (successor xs t ys)))
         (push64 (switch_return s) (cpu s, heap_bytes s))) \<and>
    s' = s\<lparr>thread_nodes := thread_nodes s', current_thread := current_thread s', threads := threads s',
           cpu := cpu s', heap_bytes := heap_bytes s'\<rparr>"
proof -
  let ?u = "if terminated s t then s\<lparr>thread_nodes := list_del (thread_nodes s) (sched_node t)\<rparr> else s"
  have run: "schedule s = Inr (if successor xs t ys = t then ?u
      else switch_threads t (successor xs t ys) (?u\<lparr>current_thread := successor xs t ys\<rparr>))"
    and q: "queue ?u (if terminated s t then xs @ ys else q)"
    using schedule_terminated [OF assms] schedule_running [OF assms] assms(1) by auto
  show ?thesis
  proof (cases "successor xs t ys = t")
    case True
    then show ?thesis
      using run q assms(3) by (auto simp: queue_def)
  next
    case False
    let ?v = "?u\<lparr>current_thread := successor xs t ys\<rparr>"
    let ?s' = "switch_threads t (successor xs t ys) ?v"
    have "?s' = s\<lparr>thread_nodes := thread_nodes ?s', current_thread := current_thread ?s',
        threads := threads ?s', cpu := cpu ?s', heap_bytes := heap_bytes ?s'\<rparr>"
      and "threads ?s' = (threads s)(t := (threads s t)\<lparr>rsp := rsp (threads ?s' t)\<rparr>)"
      by (simp_all add: switch_threads_def update_thread_def Let_def split: prod.split)
    moreover have "(rsp (threads ?s' t), cpu ?s', heap_bytes ?s') =
        cpu_switch_context (rsp (threads s (successor xs t ys)))
         (push64 (switch_return s) (cpu s, heap_bytes s))"
      using switch_threads_context [of t "successor xs t ys" ?v] by simp
    ultimately show ?thesis
      using run q False by (intro exI [of _ ?s']) (simp add: queue_def)
  qed
qed

text \<open>
  The thread that is switched to is not asked for its state: one that another thread has
  terminated while it waited in the queue is resumed and keeps the processor.
\<close>

theorem schedule_resumes_terminated:
  assumes "queue s q" and "q = xs @ t # ys" and "current_thread s = t" and "t \<noteq> NULL"
    and "\<not> terminated s t" and "successor xs t ys = u" and "u \<noteq> t" and "u \<noteq> NULL"
  shows "\<exists>s1 s2. thread_terminate u s = Inr s1 \<and> schedule s1 = Inr s2 \<and>
    current_thread s2 = u \<and> terminated s2 u"
proof -
  let ?s = "change_thread_state u THREAD_STATE_TERMINATED s"
  have "thread_terminate u s = Inr ?s"
    using assms(3,7,8) by (simp add: thread_terminate_def change_thread_state_def Let_def)
  moreover have "schedule ?s = Inr (switch_threads t u (?s\<lparr>current_thread := u\<rparr>))"
    using schedule_running [of ?s q xs t ys] assms
    by (simp add: queue_def terminated_def change_thread_state_def)
  ultimately show ?thesis
    using assms(8) by (simp add: terminated_def change_thread_state_def)
qed

section \<open>Ticks\<close>

text \<open>
  \<open>turn s q b\<close> collects what successive ticks keep: the queue, whose threads are all alive, and
  a bound \<open>b\<close> on their time slices. \<open>run_ticks\<close> is a sequence of timer interrupts.
\<close>

definition turn :: "'a kernel_scheme \<Rightarrow> u64 list \<Rightarrow> nat \<Rightarrow> bool" where
  "turn s q b \<longleftrightarrow> queue s q \<and> NULL \<notin> set q \<and> current_thread s \<in> set q \<and>
     (\<forall>t \<in> set q. \<not> terminated s t \<and> unat (time_slice (threads s t)) \<le> b) \<and> 10 \<le> b"

fun run_ticks :: "nat \<Rightarrow> 'a kernel_scheme \<Rightarrow> 'a kernel_scheme outcome" where
  "run_ticks 0 s = Inr s"
| "run_ticks (Suc n) s = bind_ok (sched_on_tick s) (run_ticks n)"

lemma run_ticks_add:
  "run_ticks n s = Inr t \<Longrightarrow> run_ticks (n + m) s = run_ticks m t"
  by (induction n arbitrary: s) (auto simp: bind_ok_eq_Inr)

lemma tick_counts:
  assumes "turn s q b" and "1 < time_slice (threads s (current_thread s))"
  shows "\<exists>s'. sched_on_tick s = Inr s' \<and> turn s' q b \<and> current_thread s' = current_thread s \<and>
    unat (time_slice (threads s' (current_thread s))) =
    unat (time_slice (threads s (current_thread s))) - 1"
proof -
  let ?t = "current_thread s"
  let ?s = "update_thread ?t (\<lambda>t. t\<lparr>time_slice := time_slice t - 1\<rparr>) s"
  have nz: "time_slice (threads s ?t) \<noteq> 0"
    using assms(2) by auto
  have u: "unat (time_slice (threads s ?t) - 1) = unat (time_slice (threads s ?t)) - 1"
    using nz by (rule unat_minus_one)
  have "?t \<noteq> NULL"
    using assms(1) by (auto simp: turn_def)
  moreover have "0 < time_slice (threads s ?t)" "time_slice (threads s ?t) - 1 \<noteq> 0"
    using assms(2) nz by (auto simp: word_greater_zero_iff)
  ultimately have "sched_on_tick s = Inr ?s"
    by (simp add: sched_on_tick_def Let_def)
  moreover have "turn ?s q b"
    using assms(1) u by (auto simp: turn_def queue_def terminated_def)
  ultimately show ?thesis
    using u by simp
qed

lemma tick_switches:
  assumes "turn s q b" and "time_slice (threads s (current_thread s)) \<le> 1"
    and "q = xs @ current_thread s # ys"
  shows "\<exists>s'. sched_on_tick s = Inr s' \<and> turn s' q b \<and>
    current_thread s' = successor xs (current_thread s) ys"
proof -
  let ?t = "current_thread s" and ?u = "successor xs (current_thread s) ys"
  define s1 where "s1 = (if time_slice (threads s ?t) > 0
    then update_thread ?t (\<lambda>t. t\<lparr>time_slice := time_slice t - 1\<rparr>) s else s)"
  define s2 where "s2 = update_thread ?t (\<lambda>t. t\<lparr>time_slice := DEFAULT_TIME_SLICE\<rparr>) s1"
  have t: "?t \<noteq> NULL"
    using assms(1) by (auto simp: turn_def)
  have "unat (time_slice (threads s ?t)) = unat (0 :: u32) \<or> unat (time_slice (threads s ?t)) = unat (1 :: u32)"
    using assms(2) by (auto simp: word_le_nat_alt le_Suc_eq)
  then have "time_slice (threads s ?t) = 0 \<or> time_slice (threads s ?t) = 1"
    by (simp only: word_unat_eq_iff)
  then have "time_slice (threads s1 ?t) = 0"
    by (auto simp: s1_def)
  then have run: "sched_on_tick s = schedule s2"
    using t by (simp add: sched_on_tick_def Let_def s1_def [symmetric] s2_def)
  have "turn s2 q b" "current_thread s2 = ?t"
    using assms(1) by (auto simp: turn_def queue_def terminated_def s1_def s2_def DEFAULT_TIME_SLICE_def)
  moreover from this have "schedule s2 =
      Inr (if ?u = ?t then s2 else switch_threads ?t ?u (s2\<lparr>current_thread := ?u\<rparr>))"
    using schedule_running [of s2 q xs ?t ys] assms(3) t by (auto simp: turn_def)
  ultimately show ?thesis
    unfolding run using successor_in [of xs ?t ys] assms(3)
    by (auto simp: turn_def queue_def terminated_def)
qed

text \<open>Within \<open>b\<close> ticks the processor goes to the next thread.\<close>

lemma turn_ends:
  assumes "turn s q b" and "q = xs @ current_thread s # ys"
  shows "\<exists>n s'. n \<le> b \<and> run_ticks n s = Inr s' \<and> turn s' q b \<and>
    current_thread s' = successor xs (current_thread s) ys"
proof -
  have "\<exists>n s'. n \<le> max 1 (unat (time_slice (threads s (current_thread s)))) \<and>
      run_ticks n s = Inr s' \<and> turn s' q b \<and> current_thread s' = successor xs (current_thread s) ys"
    using assms
  proof (induction "unat (time_slice (threads s (current_thread s)))" arbitrary: s rule: less_induct)
    case less
    let ?k = "unat (time_slice (threads s (current_thread s)))"
    show ?case
    proof (cases "time_slice (threads s (current_thread s)) \<le> 1")
      case True
      then obtain s' where "sched_on_tick s = Inr s'" "turn s' q b"
        "current_thread s' = successor xs (current_thread s) ys"
        using tick_switches [OF less.prems(1) True less.prems(2)] by blast
      then show ?thesis
        by (intro exI [of _ "Suc 0"] exI [of _ s']) simp
    next
      case False
      then have gt: "1 < time_slice (threads s (current_thread s))" "1 < ?k"
        unfolding not_le by (simp_all add: word_less_nat_alt)
      then obtain s1 where s1: "sched_on_tick s = Inr s1" "turn s1 q b"
        "current_thread s1 = current_thread s" "unat (time_slice (threads s1 (current_thread s))) = ?k - 1"
        using tick_counts [OF less.prems(1) gt(1)] by blast
      have "\<exists>n s'. n \<le> max 1 (unat (time_slice (threads s1 (current_thread s1)))) \<and>
          run_ticks n s1 = Inr s' \<and> turn s' q b \<and> current_thread s' = successor xs (current_thread s1) ys"
        by (rule less.hyps) (use s1 gt(2) less.prems(2) in simp_all)
      then obtain n s' where "n \<le> ?k - 1" "run_ticks n s1 = Inr s'" "turn s' q b"
        "current_thread s' = successor xs (current_thread s) ys"
        using s1(3,4) gt(2) by auto
      then show ?thesis
        using s1(1) gt(2) by (intro exI [of _ "Suc n"] exI [of _ s']) auto
    qed
  qed
  moreover have "max 1 (unat (time_slice (threads s (current_thread s)))) \<le> b"
    using assms(1) by (auto simp: turn_def)
  ultimately show ?thesis
    using le_trans by blast
qed

lemma successor_nth:
  assumes "i < length q"
  shows "successor (take i q) (q ! i) (drop (Suc i) q) = q ! (Suc i mod length q)"
proof (cases "Suc i < length q")
  case True
  then show ?thesis
    by (simp add: successor_def hd_append hd_drop_conv_nth)
next
  case False
  then have "Suc i = length q"
    using assms by simp
  then show ?thesis
    by (cases i) (auto simp: successor_def hd_append hd_conv_nth)
qed

lemma turns:
  assumes "turn s q b" and "current_thread s = q ! i" and "i < length q"
  shows "\<exists>n s'. n \<le> d * b \<and> run_ticks n s = Inr s' \<and> turn s' q b \<and>
    current_thread s' = q ! ((i + d) mod length q)"
proof (induction d)
  case 0
  then show ?case
    using assms by (intro exI [of _ "0 :: nat"] exI [of _ s]) simp
next
  case (Suc d)
  then obtain n s' where n: "n \<le> d * b" "run_ticks n s = Inr s'" "turn s' q b"
    "current_thread s' = q ! ((i + d) mod length q)"
    by blast
  let ?j = "(i + d) mod length q"
  have j: "?j < length q"
    using assms(3) by (intro mod_less_divisor) auto
  have "q = take ?j q @ current_thread s' # drop (Suc ?j) q"
    using n(4) j by (simp add: id_take_nth_drop)
  then obtain k s2 where k: "k \<le> b" "run_ticks k s' = Inr s2" "turn s2 q b"
    "current_thread s2 = successor (take ?j q) (q ! ?j) (drop (Suc ?j) q)"
    using turn_ends [OF n(3)] n(4) by metis
  have "current_thread s2 = q ! ((i + Suc d) mod length q)"
    using k(4) successor_nth [OF j] by (simp add: mod_Suc_eq)
  moreover have "run_ticks (n + k) s = Inr s2"
    using run_ticks_add [OF n(2)] k(2) by simp
  ultimately show ?case
    using n(1) k(1,3) by (intro exI [of _ "n + k"] exI [of _ s2]) simp
qed

text \<open>
  C11. No thread starves. While no thread of the queue terminates, each of them gets the
  processor within a bounded number of timer ticks: the length of the queue times the longest
  time slice, which is the initial value of a slice or the default of 10 ticks.
\<close>

theorem every_thread_runs:
  assumes "queue s q" and "NULL \<notin> set q" and "current_thread s \<in> set q"
    and "\<forall>t \<in> set q. \<not> terminated s t \<and> unat (time_slice (threads s t)) \<le> b" and "10 \<le> b"
    and "u \<in> set q"
  shows "\<exists>n s'. n \<le> length q * b \<and> run_ticks n s = Inr s' \<and> current_thread s' = u"
proof -
  obtain i j where i: "i < length q" "current_thread s = q ! i" and j: "j < length q" "u = q ! j"
    using assms(3,6) by (metis in_set_conv_nth)
  define d where "d = (if i \<le> j then j - i else j + length q - i)"
  have "(i + d) mod length q = j" "d \<le> length q"
    using i(1) j(1) by (auto simp: d_def)
  moreover obtain n s' where "n \<le> d * b" "run_ticks n s = Inr s'"
    "current_thread s' = q ! ((i + d) mod length q)"
    using turns [of s q b i d] assms(1-5) i by (auto simp: turn_def)
  ultimately show ?thesis
    using j(2) by (metis le_trans mult_le_mono1)
qed

section \<open>Starting threads\<close>

lemma ring_not_alone:
  assumes "queue s q" and "t \<in> set q"
  shows "nxt (thread_nodes s (sched_node t)) \<noteq> sched_node t"
proof -
  obtain xs ys where q: "q = xs @ t # ys"
    using assms(2) by (meson split_list)
  then have r: "is_list (thread_nodes s) (ready_queue s) (map sched_node xs @ sched_node t # map sched_node ys)"
    using assms(1) by (simp add: queue_def)
  have "nxt (thread_nodes s (sched_node t)) = hd (map sched_node ys @ [ready_queue s])"
    using is_list_next [OF r] by simp
  then show ?thesis
    using ll.rep_distinct [OF r] by (cases ys) auto
qed

lemma thread_start_new:
  assumes "queue s q" and "t \<noteq> NULL" and "sched_node t \<noteq> ready_queue s"
    and "nxt (thread_nodes s (sched_node t)) = sched_node t" and "\<not> terminated s t"
  shows "queue (thread_start t s) (q @ [t])" and "current_thread (thread_start t s) = current_thread s"
    and "ready_queue (thread_start t s) = ready_queue s"
    and "state (threads (thread_start t s) u) =
      (if u = t then THREAD_STATE_READY else state (threads s u))"
proof -
  have "t \<notin> set q"
    using ring_not_alone [OF assms(1)] assms(4) by blast
  then have "sched_node t \<notin> set (ready_queue s # map sched_node q)"
    using assms(3) by auto
  then have "is_list (list_add_tail (thread_nodes s) (sched_node t) (ready_queue s))
      (ready_queue s) (map sched_node q @ [sched_node t])"
    using ll.rep_add_tail assms(1) unfolding queue_def by blast
  then show "queue (thread_start t s) (q @ [t])" "current_thread (thread_start t s) = current_thread s"
    "ready_queue (thread_start t s) = ready_queue s"
    "state (threads (thread_start t s) u) =
      (if u = t then THREAD_STATE_READY else state (threads s u))"
    using assms(2,4,5)
    by (simp_all add: thread_start_def change_thread_state_def Let_def terminated_def queue_def
        list_empty_def)
qed

text \<open>A thread that is already in the queue keeps its place.\<close>

lemma thread_start_queued:
  assumes "queue s q" and "t \<in> set q" and "\<not> terminated s t"
  shows "queue (thread_start t s) q" and "current_thread (thread_start t s) = current_thread s"
    and "terminated (thread_start t s) u \<Longrightarrow> terminated s u"
  using ring_not_alone [OF assms(1,2)] assms(1,3)
  by (auto simp: thread_start_def change_thread_state_def Let_def terminated_def queue_def
      list_empty_def split: if_splits)

text \<open>One that has terminated and left the queue comes back at its end, with a new stack.\<close>

lemma thread_restart:
  assumes "queue s q" and "t \<noteq> NULL" and "sched_node t \<noteq> ready_queue s" and "terminated s t"
    and "t \<notin> set q"
  shows "queue (thread_start t s) (q @ [t])" and "current_thread (thread_start t s) = current_thread s"
    and "ready_queue (thread_start t s) = ready_queue s"
    and "state (threads (thread_start t s) u) =
      (if u = t then THREAD_STATE_READY else state (threads s u))"
proof -
  let ?h = "INIT_LIST_HEAD (thread_nodes s) (sched_node t)"
  have n: "sched_node t \<notin> set (ready_queue s # map sched_node q)"
    using assms(3,5) by auto
  have "is_list ?h (ready_queue s) (map sched_node q) = is_list (thread_nodes s) (ready_queue s) (map sched_node q)"
    by (rule is_list_cong) (use n in \<open>auto simp: INIT_LIST_HEAD_def set_next_def set_prev_def Let_def\<close>)
  then have "is_list ?h (ready_queue s) (map sched_node q)"
    using assms(1) by (simp add: queue_def)
  from ll.rep_add_tail [OF this n]
  have "is_list (list_add_tail ?h (sched_node t) (ready_queue s)) (ready_queue s) (map sched_node q @ [sched_node t])" .
  moreover have "list_empty ?h (sched_node t)"
    by (simp add: list_empty_def INIT_LIST_HEAD_def Let_def)
  ultimately show "queue (thread_start t s) (q @ [t])" "current_thread (thread_start t s) = current_thread s"
    "ready_queue (thread_start t s) = ready_queue s"
    "state (threads (thread_start t s) u) =
      (if u = t then THREAD_STATE_READY else state (threads s u))"
    using assms(2,4)
    by (simp_all add: thread_start_def change_thread_state_def thread_setup_stack_def Let_def
        terminated_def queue_def split: prod.split)
qed

text \<open>
  A terminated thread that is still in the queue is made an empty ring and appended again:
  the ring then leads from its old predecessor through it to the anchor, and the threads that
  were behind it are no longer reached.
\<close>

lemma restart_loses_threads:
  assumes "queue s (xs @ t # ys)" and "t \<noteq> NULL" and "terminated s t" and "ys \<noteq> []"
    and "u \<in> set ys"
  shows "list_find (thread_nodes (thread_start t s)) (ready_queue s) (\<lambda>n. n = sched_node u)
           (nxt (thread_nodes (thread_start t s) (ready_queue s))) = Some None"
proof -
  define l where "l = ready_queue s"
  define n where "n = sched_node t"
  let ?h = "thread_nodes s" and ?xs = "map sched_node xs" and ?ys = "map sched_node ys"
  have r: "is_list ?h l (?xs @ n # ?ys)"
    using assms(1) by (simp add: queue_def l_def n_def)
  have d: "distinct (l # ?xs @ n # ?ys)"
    using ll.rep_distinct [OF r] .
  define h0 where "h0 = INIT_LIST_HEAD ?h n"
  define h where "h = list_add_tail h0 n l"
  have "list_empty h0 n"
    by (simp add: list_empty_def h0_def INIT_LIST_HEAD_def Let_def)
  then have th: "thread_nodes (thread_start t s) = h"
    using assms(2,3)
    by (simp add: thread_start_def change_thread_state_def Let_def terminated_def h_def h0_def
        l_def n_def thread_setup_stack_def split: prod.split)
  have last: "prv (?h l) = last ?ys"
    using is_list_last [OF r] assms(4) by simp
  have lastin: "last ?ys \<in> set ?ys"
    using assms(4) by (intro last_in_set) simp
  have nx: "nxt (h a) = (if a = last ?ys then n else if a = n then l else nxt (?h a))" for a
    using d last lastin
    by (auto simp: h_def h0_def list_add_tail_def list_add_between_def INIT_LIST_HEAD_def Let_def)
  have walk: "list_find h l (\<lambda>k. k = sched_node u) (hd (zs @ [n])) = Some None"
    if "?xs = ws @ zs" for ws zs
    using that
  proof (induction zs arbitrary: ws)
    case Nil
    have "n \<noteq> last ?ys" "n \<noteq> l" "sched_node u \<noteq> n"
      using d lastin assms(5) by (auto simp: n_def)
    then show ?case
      by (simp add: list_find.simps [of _ _ _ n] list_find.simps [of _ _ _ l] nx)
  next
    case (Cons z zs)
    have "z \<in> set ?xs"
      using Cons.prems by simp
    then have z: "z \<noteq> l" "z \<noteq> last ?ys" "z \<noteq> n" "z \<noteq> sched_node u"
      using d lastin assms(5) by auto
    have "nxt (?h z) = hd (zs @ n # ?ys @ [l])"
      using is_list_next [of ?h l ws z "zs @ n # ?ys"] r Cons.prems by simp
    then have "nxt (h z) = hd (zs @ [n])"
      using z by (cases zs) (simp_all add: nx)
    then show ?case
      using Cons.IH [of "ws @ [z]"] Cons.prems z by (simp add: list_find.simps [of _ _ _ z])
  qed
  have "nxt (?h l) = hd (?xs @ n # ?ys @ [l])"
    using is_list_first [OF r] by simp
  moreover have "l \<noteq> last ?ys" "l \<noteq> n"
    using d lastin by auto
  ultimately have "nxt (h l) = hd (?xs @ [n])"
    by (cases ?xs) (simp_all add: nx)
  then show ?thesis
    using walk [of "[]" ?xs] by (simp add: th l_def)
qed

section \<open>Reachable states\<close>

text \<open>
  The steps of the running kernel as far as the scheduler sees them, with a main thread that
  never terminates: a timer tick; the start of a new thread, whose node is an empty ring, and of
  one that is already queued; the restart of a thread that has terminated and has left the queue;
  the termination of a thread by itself or by another; and any code that leaves the queue, the
  current thread and the set of terminated threads alone. There is no rule for the restart of a
  terminated thread that is still in the queue: \<open>restart_loses_threads\<close> says what it does.
\<close>

inductive sched_step :: "u64 \<Rightarrow> 'a kernel_scheme \<Rightarrow> 'a kernel_scheme \<Rightarrow> bool" for main :: u64 where
  tick: "sched_on_tick s = Inr s' \<Longrightarrow> sched_step main s s'"
| start: "t \<noteq> NULL \<Longrightarrow> sched_node t \<noteq> ready_queue s \<Longrightarrow> \<not> terminated s t \<Longrightarrow>
    nxt (thread_nodes s (sched_node t)) = sched_node t \<Longrightarrow> sched_step main s (thread_start t s)"
| start_again: "queue s q \<Longrightarrow> t \<in> set q \<Longrightarrow> \<not> terminated s t \<Longrightarrow>
    sched_step main s (thread_start t s)"
| restart: "t \<noteq> NULL \<Longrightarrow> sched_node t \<noteq> ready_queue s \<Longrightarrow> terminated s t \<Longrightarrow>
    queue s q \<Longrightarrow> t \<notin> set q \<Longrightarrow> sched_step main s (thread_start t s)"
| terminate: "t \<noteq> main \<Longrightarrow> thread_terminate t s = Inr s' \<Longrightarrow> sched_step main s s'"
| other: "(\<And>q. queue s q \<Longrightarrow> queue s' q) \<Longrightarrow> current_thread s' = current_thread s \<Longrightarrow>
    (\<And>t. terminated s' t \<Longrightarrow> terminated s t) \<Longrightarrow> sched_step main s s'"

definition sched_inv :: "u64 \<Rightarrow> 'a kernel_scheme \<Rightarrow> bool" where
  "sched_inv main s \<longleftrightarrow>
     (\<exists>q. queue s q \<and> NULL \<notin> set q \<and> current_thread s \<in> set q \<and> main \<in> set q) \<and>
     \<not> terminated s main"

lemma sched_invI:
  "queue s q \<Longrightarrow> NULL \<notin> set q \<Longrightarrow> current_thread s \<in> set q \<Longrightarrow> main \<in> set q \<Longrightarrow>
   \<not> terminated s main \<Longrightarrow> sched_inv main s"
  by (auto simp: sched_inv_def)

lemma schedule_inv:
  assumes "sched_inv main s"
  shows "\<exists>s'. schedule s = Inr s' \<and> sched_inv main s'"
proof -
  obtain q where q: "queue s q" "NULL \<notin> set q" "current_thread s \<in> set q" "main \<in> set q"
    and alive: "\<not> terminated s main"
    using assms by (auto simp: sched_inv_def)
  obtain xs ys where split: "q = xs @ current_thread s # ys"
    using q(3) by (meson split_list)
  let ?t = "current_thread s" and ?u = "successor xs (current_thread s) ys"
  have t: "?t \<noteq> NULL"
    using q(2,3) by auto
  note su = successor_in [of xs ?t ys]
  show ?thesis
  proof (cases "terminated s ?t")
    case True
    then have "?t \<noteq> main"
      using alive by auto
    then have "xs @ ys \<noteq> []" and main: "main \<in> set (xs @ ys)"
      using q(4) split by auto
    then have "?u \<in> set (xs @ ys)"
      unfolding successor_def by (cases ys; cases xs) auto
    obtain s' where "schedule s = Inr s'" "current_thread s' = ?u" "queue s' (xs @ ys)"
      "\<And>v. state (threads s' v) = state (threads s v)"
      using schedule_terminated [OF q(1) split refl t True]
      by (cases "?u = ?t") (auto simp: queue_def)
    then show ?thesis
      using q(2) main alive split \<open>?u \<in> set (xs @ ys)\<close>
      by (intro exI [of _ s'] conjI sched_invI [of _ "xs @ ys"]) (auto simp: terminated_def)
  next
    case False
    obtain s' where "schedule s = Inr s'" "current_thread s' = ?u" "queue s' q"
      "\<And>v. state (threads s' v) = state (threads s v)"
      using schedule_running [OF q(1) split refl t False] q(1)
      by (cases "?u = ?t") (auto simp: queue_def)
    then show ?thesis
      using q(2,4) alive su split
      by (intro exI [of _ s'] conjI sched_invI [of _ q]) (auto simp: terminated_def)
  qed
qed

lemma sched_inv_update:
  "(\<And>t. state (f t) = state t) \<Longrightarrow> sched_inv main (update_thread u f s) = sched_inv main s"
  by (auto simp: sched_inv_def queue_def terminated_def)

lemma sched_step_inv:
  assumes "sched_step main s s'" and "sched_inv main s"
  shows "sched_inv main s'"
  using assms
proof (induction rule: sched_step.induct)
  case (tick s s')
  define s1 where "s1 = (if time_slice (threads s (current_thread s)) > 0
    then update_thread (current_thread s) (\<lambda>t. t\<lparr>time_slice := time_slice t - 1\<rparr>) s else s)"
  have s1: "sched_inv main s1"
    using tick.prems by (simp add: s1_def sched_inv_update)
  moreover obtain s2 where
    "schedule (update_thread (current_thread s) (\<lambda>t. t\<lparr>time_slice := DEFAULT_TIME_SLICE\<rparr>) s1) = Inr s2"
    "sched_inv main s2"
    using schedule_inv [of main "update_thread (current_thread s)
      (\<lambda>t. t\<lparr>time_slice := DEFAULT_TIME_SLICE\<rparr>) s1"] s1 by (auto simp: sched_inv_update)
  ultimately show ?case
    using tick by (auto simp: sched_on_tick_def Let_def s1_def [symmetric] split: if_splits)
next
  case (start t s)
  then obtain q where q: "queue s q" "NULL \<notin> set q" "current_thread s \<in> set q" "main \<in> set q"
    "\<not> terminated s main"
    by (auto simp: sched_inv_def)
  note new = thread_start_new [OF q(1) start.hyps(1,2,4,3)]
  show ?case
    using new q start.hyps(1) unfolding sched_inv_def terminated_def
    by (intro conjI exI [of _ "q @ [t]"]) auto
next
  case (start_again s q t)
  then show ?case
    using thread_start_queued [OF start_again.hyps] thread_start_queued(1) [OF _ _ start_again.hyps(3)]
    unfolding sched_inv_def by (metis queue_same)
next
  case (restart t s q)
  then obtain r where r: "queue s r" "NULL \<notin> set r" "current_thread s \<in> set r" "main \<in> set r"
    "\<not> terminated s main"
    by (auto simp: sched_inv_def)
  have "t \<notin> set r"
    using queue_same [OF r(1) restart.hyps(4)] restart.hyps(5) by simp
  from thread_restart [OF r(1) restart.hyps(1-3) this] show ?case
    using r restart.hyps(1) unfolding sched_inv_def terminated_def
    by (intro conjI exI [of _ "r @ [t]"]) auto
next
  case (terminate t s s')
  show ?case
  proof (cases "t = NULL")
    case False
    let ?s = "change_thread_state t THREAD_STATE_TERMINATED s"
    have "sched_inv main ?s"
      using terminate.prems terminate.hyps(1) False
      by (auto simp: sched_inv_def change_thread_state_def queue_def terminated_def)
    then show ?thesis
      using schedule_inv [of main ?s] terminate.hyps(2) False
      by (auto simp: thread_terminate_def Let_def split: if_splits)
  qed (use terminate in \<open>simp add: thread_terminate_def\<close>)
next
  case (other s s')
  then show ?case
    unfolding sched_inv_def by metis
qed

lemma sched_on_tick_returns:
  assumes "sched_inv main s"
  shows "\<exists>t. sched_on_tick s = Inr t"
proof -
  define s1 where "s1 = (if time_slice (threads s (current_thread s)) > 0
    then update_thread (current_thread s) (\<lambda>t. t\<lparr>time_slice := time_slice t - 1\<rparr>) s else s)"
  have "sched_inv main s1"
    using assms by (simp add: s1_def sched_inv_update)
  then obtain s2 where
    "schedule (update_thread (current_thread s) (\<lambda>t. t\<lparr>time_slice := DEFAULT_TIME_SLICE\<rparr>) s1) = Inr s2"
    using schedule_inv [of main "update_thread (current_thread s)
      (\<lambda>t. t\<lparr>time_slice := DEFAULT_TIME_SLICE\<rparr>) s1"] by (auto simp: sched_inv_update)
  then show ?thesis
    by (simp add: sched_on_tick_def Let_def s1_def [symmetric])
qed


section \<open>Creating threads\<close>

lemma strncpy_copy_frame:
  assumes "strncpy_copy m d s n i = (m', j)" and "\<not> x - d < n"
  shows "m' x = m x"
  using assms
proof (induction m d s n i rule: strncpy_copy.induct)
  case (1 m d s n i)
  show ?case
  proof (cases "i < n \<and> m (s + i) \<noteq> 0")
    case True
    then have "strncpy_copy (m(d + i := m (s + i))) d s n (i + 1) = (m', j)"
      using "1.prems"(1) by (simp only: strncpy_copy.simps [of m] if_True simp_thms)
    then have "m' x = (m(d + i := m (s + i))) x"
      using "1.IH" [OF True _ "1.prems"(2)] by blast
    moreover have "x \<noteq> d + i"
      using True "1.prems"(2) by auto
    ultimately show ?thesis
      by simp
  next
    case False
    then show ?thesis
      using "1.prems"(1) by (subst (asm) strncpy_copy.simps) (simp split: if_splits)
  qed
qed

lemma strncpy_frame:
  assumes "\<not> x - d < n"
  shows "strncpy m d s n x = m x"
proof -
  obtain m' j where c: "strncpy_copy m d s n 0 = (m', j)"
    by fastforce
  have "for_range j n (\<lambda>i m. m(d + i := 0)) m' x = m' x"
  proof (cases "j \<le> n")
    case True
    show ?thesis
      by (rule for_range_inv [OF True, where I = "\<lambda>_ t. t x = m' x"])
        (use assms in \<open>auto simp: algebra_simps\<close>)
  qed (simp add: for_range_done)
  then show ?thesis
    using strncpy_copy_frame [OF c assms] by (simp add: strncpy_def c)
qed

text \<open>The heap's invariant does not see the scheduler's part of the state.\<close>

lemma heap_live_cong:
  assumes "blk_size s = blk_size t" "blk_free s = blk_free t" "elems s = elems t"
    "free_list s = free_list t" "heap_current_virtual s = heap_current_virtual t"
  shows "heap_live s B = heap_live t B"
  by (simp only: heap_live_def heap_wf_def blocks_def allocated_def assms)

lemma heap_live_update [simp]:
  "heap_live (update_thread u f s) B = heap_live s B"
  by (rule heap_live_cong) (simp_all add: update_thread_def)

lemma kfree_update [simp]: "kfree p (update_thread u f s) = update_thread u f (kfree p s)"
  by (simp add: kfree_def update_thread_def Let_def)

lemma thread_fill_eq:
  assumes "setup_frame (heap_bytes s) (kernel_stack_base (threads s t)) MAX_STACK_SIZE
    (trampoline s) e a = (sp, m)"
  shows "heap_bytes (thread_fill t name e a s) = (strncpy m (name_of t) name 31)(name_of t + 31 := 0)"
    and "threads (thread_fill t name e a s) t = (threads s t)\<lparr>entry := e, arg := a, rsp := sp,
      kernel_stack_size := MAX_STACK_SIZE, thread_id := next_id s, state := THREAD_STATE_NEW\<rparr>"
    and "trampoline (thread_fill t name e a s) = trampoline s"
    and "heap_live (thread_fill t name e a s) B = heap_live s B"
    and "thread_nodes (thread_fill t name e a s) =
      INIT_LIST_HEAD (INIT_LIST_HEAD (thread_nodes s) (sched_node t)) (all_node t)"
  using assms
  by (simp_all add: thread_fill_def thread_setup_stack_def new_thread_id_def thread_set_name_def
      thread_init_nodes_def Let_def update_thread_def)
    (rule heap_live_cong, simp_all)

text \<open>The name is written into the thread's block, which the stack does not overlap.\<close>

lemma outside_name:
  assumes "unat t + k \<le> unat base \<or> unat base + l \<le> unat t" and "120 \<le> k" and "0x2000 \<le> l"
    and "unat t + k < 2 ^ 64" and "unat base + l < 2 ^ 64" and "i < 56"
  shows "\<not> base + MAX_STACK_SIZE - 56 + i - name_of t < 32"
proof
  define x where "x = base + MAX_STACK_SIZE - 56 + i"
  have "unat (0x1FC8 + i) = 0x1FC8 + unat i" and i: "unat i < 56"
    using assms(6) by (simp_all add: word_less_nat_alt unat_word_ariths)
  moreover have "x = base + (0x1FC8 + i)"
    by (simp add: x_def MAX_STACK_SIZE_def)
  ultimately have x: "unat x = unat base + 0x1FC8 + unat i"
    using assms(3,5) by (simp add: unat_word_ariths)
  assume "base + MAX_STACK_SIZE - 56 + i - name_of t < 32"
  then have "unat (x - name_of t) < 32"
    by (simp add: word_less_nat_alt x_def)
  moreover have "unat (name_of t) = unat t + 16"
    using assms(2,4) by (simp add: name_of_def unat_word_ariths)
  moreover have "unat x = unat ((x - name_of t) + name_of t)"
    by simp
  ultimately have "unat t + 16 \<le> unat x \<and> unat x < unat t + 48"
    using assms(2,4) unfolding unat_word_ariths by simp
  then show False
    using assms(1-3) x i by linarith
qed

lemma fill_keeps_frame:
  assumes "setup_frame m base MAX_STACK_SIZE tramp e a = (sp, m')"
    and "unat t + k \<le> unat base \<or> unat base + l \<le> unat t" and "120 \<le> k" and "0x2000 \<le> l"
    and "unat t + k < 2 ^ 64" and "unat base + l < 2 ^ 64"
  shows "frame_at ((strncpy m' (name_of t) name 31)(name_of t + 31 := 0)) sp
    \<lparr>reg_rsp = base + MAX_STACK_SIZE, reg_rbp = 0, reg_rbx = 0, reg_r12 = 0,
     reg_r13 = 0, reg_r14 = a, reg_r15 = e, reg_rip = tramp\<rparr>"
proof (rule frame_at_cong [OF setup_frame_at(1) [OF assms(1)]])
  fix i :: u64
  assume "i < 56"
  then have o: "\<not> sp + i - name_of t < 32"
    using outside_name [OF assms(2-6)] setup_frame_at(2) [OF assms(1)] by simp
  have "sp + i \<noteq> name_of t + 31"
    using o by auto
  moreover have "\<not> sp + i - name_of t < 31"
    using o by (simp add: word_less_nat_alt)
  ultimately show "((strncpy m' (name_of t) name 31)(name_of t + 31 := 0)) (sp + i) = m' (sp + i)"
    by (simp add: strncpy_frame)
qed

lemma thread_create_run:
  assumes "name \<noteq> NULL" and "e \<noteq> NULL" and "kmalloc sizeof_thread s = Some (Inr (t, s1))" and "t \<noteq> NULL"
    and "kmalloc MAX_STACK_SIZE s1 = Some (Inr (base, s2))"
  defines "u \<equiv> update_thread t (\<lambda>t. t\<lparr>kernel_stack_base := base\<rparr>) s2"
  shows "thread_create name e a s =
     Some (Inr (if base = NULL then (NULL, kfree t u) else (t, thread_fill t name e a u)))"
  using assms by (simp add: thread_create_def and_then_def Let_def)

lemma thread_create_fails:
  assumes "name \<noteq> NULL" and "e \<noteq> NULL"
  shows "kmalloc sizeof_thread s = Some (Inl p) \<Longrightarrow> thread_create name e a s = Some (Inl p)"
    and "kmalloc sizeof_thread s = Some (Inr (NULL, s1)) \<Longrightarrow> thread_create name e a s = Some (Inr (NULL, s1))"
    and "kmalloc sizeof_thread s = Some (Inr (t, s1)) \<Longrightarrow> t \<noteq> NULL \<Longrightarrow> kmalloc MAX_STACK_SIZE s1 = Some (Inl p) \<Longrightarrow>
      thread_create name e a s = Some (Inl p)"
  using assms by (simp_all add: thread_create_def and_then_def)

lemma thread_fill_ready:
  fixes name e a :: u64
  assumes "120 \<le> k" and "0x2000 \<le> l" and "unat t + k \<le> unat base \<or> unat base + l \<le> unat t"
    and "unat t + k < 2 ^ 64" and "unat base + l < 2 ^ 64" and "heap_live s2 B"
  defines "f \<equiv> thread_fill t name e a (update_thread t (\<lambda>t. t\<lparr>kernel_stack_base := base\<rparr>) s2)"
  shows "kernel_stack_base (threads f t) = base" and "heap_live f B" and "state (threads f t) = THREAD_STATE_NEW"
    and "nxt (thread_nodes f (sched_node t)) = sched_node t"
    and "frame_at (heap_bytes f) (rsp (threads f t))
        \<lparr>reg_rsp = base + MAX_STACK_SIZE, reg_rbp = 0, reg_rbx = 0, reg_r12 = 0,
         reg_r13 = 0, reg_r14 = a, reg_r15 = e, reg_rip = trampoline f\<rparr>"
proof -
  let ?s = "update_thread t (\<lambda>t. t\<lparr>kernel_stack_base := base\<rparr>) s2"
  obtain sp m where f: "setup_frame (heap_bytes ?s) (kernel_stack_base (threads ?s t))
      MAX_STACK_SIZE (trampoline ?s) e a = (sp, m)"
    by fastforce
  note fill = thread_fill_eq [OF f, of name]
  show "kernel_stack_base (threads f t) = base" "heap_live f B" "state (threads f t) = THREAD_STATE_NEW"
    using assms(6) fill(2-4) by (simp_all add: f_def)
  show "nxt (thread_nodes f (sched_node t)) = sched_node t"
    by (simp add: f_def fill(5) INIT_LIST_HEAD_def Let_def sched_node_def all_node_def)
  show "frame_at (heap_bytes f) (rsp (threads f t))
      \<lparr>reg_rsp = base + MAX_STACK_SIZE, reg_rbp = 0, reg_rbx = 0, reg_r12 = 0,
       reg_r13 = 0, reg_r14 = a, reg_r15 = e, reg_rip = trampoline f\<rparr>"
    using fill_keeps_frame [OF _ assms(3,1,2,4,5)] f fill(2-4) by (simp add: f_def fill(1))
qed


text \<open>
  \<^verbatim>\<open>thread_create\<close> does not set the time slice: a new thread starts with whatever its memory
  held. No function of the scheduler sets a state to running.
\<close>

lemma new_thread_time_slice:
  "time_slice (threads (thread_fill t name e a s) t) = time_slice (threads s t)"
proof -
  obtain sp m where "setup_frame (heap_bytes s) (kernel_stack_base (threads s t)) MAX_STACK_SIZE
      (trampoline s) e a = (sp, m)"
    by fastforce
  then show ?thesis
    by (simp add: thread_fill_eq(2))
qed

section \<open>The invariant of the scheduler\<close>

lemma thread_set_name_simps [simp]:
  "threads (thread_set_name t name s) = threads s"
  "thread_nodes (thread_set_name t name s) = thread_nodes s"
  "ready_queue (thread_set_name t name s) = ready_queue s"
  by (simp_all add: thread_set_name_def Let_def)

lemma empty_ring: "is_list h l [] \<longleftrightarrow> nxt (h l) = l \<and> prv (h l) = l"
  by (auto simp: is_list_def)

lemma init_node:
  "nxt (INIT_LIST_HEAD h n a) = (if a = n then n else nxt (h a))"
  "prv (INIT_LIST_HEAD h n a) = (if a = n then n else prv (h a))"
  by (simp_all add: INIT_LIST_HEAD_def Let_def)

lemma sched_init_inv:
  assumes ok: "heap_ok a s bs fs" and below: "unat (ready_queue s) < a" and empty: "queue s []"
    and room: "unat (heap_current_virtual s) + 4262 < 2 ^ 64"
    and run: "sched_init name s = Some (Inr s1)"
  shows "sched_inv (current_thread s1) s1"
proof -
  have n: "sizeof_thread \<noteq> 0" "unat sizeof_thread = 120"
    by (simp_all add: sizeof_thread_def)
  have r: "unat (heap_current_virtual s) + unat sizeof_thread + 4142 < 2 ^ 64"
    using room by (simp add: n)
  obtain m t where k: "kmalloc sizeof_thread s = Some (Inr (m, t))" and m: "m \<noteq> NULL"
    using run by (auto simp: sched_init_def and_then_def split: option.splits sum.splits if_splits)
  have "allocates a s bs sizeof_thread m t"
    using kmalloc_cases [OF ok n(1) r] k m by auto
  then obtain bs' fs' b where b: "m = b + HEADER_SIZE" "heap_ok a t bs' fs'" "b \<in> set bs'"
    "120 \<le> unat (blk_size t b)"
    unfolding allocates_def allocated_def n by blast
  note bd = heap_wf_bounds [OF b(2,3)]
  have um: "unat m = unat b + 32"
    using bd(5) by (simp add: b(1))
  have node: "unat (sched_node m) = unat m + 88" "unat (all_node m) = unat m + 104"
    using bd(1) b(4) um by (simp_all add: sched_node_def all_node_def unat_word_ariths)
  then have ne: "sched_node m \<noteq> ready_queue s" "all_node m \<noteq> ready_queue s"
    using bd(2) below um by auto
  have same: "thread_nodes t = thread_nodes s" "ready_queue t = ready_queue s"
    using kmalloc_frame(1) [OF ok n(1) r k] by (cases t, cases s, simp)+
  let ?h = "INIT_LIST_HEAD (INIT_LIST_HEAD (thread_nodes s) (sched_node m)) (all_node m)"
  have "is_list ?h (ready_queue s) []"
    using empty ne by (simp add: queue_def empty_ring init_node)
  then have "is_list (list_add_tail ?h (sched_node m) (ready_queue s)) (ready_queue s) [sched_node m]"
    using ll.rep_add_tail [of ?h "ready_queue s" "[]" "sched_node m"] ne by simp
  moreover have "thread_nodes s1 = list_add_tail ?h (sched_node m) (ready_queue s)"
    "ready_queue s1 = ready_queue s" "current_thread s1 = m" "\<not> terminated s1 m"
    using run k m by (auto simp: sched_init_def and_then_def new_thread_id_def thread_init_nodes_def
        terminated_def Let_def same)
  ultimately show ?thesis
    using m by (intro sched_invI [of _ "[m]"]) (simp_all add: queue_def)
qed

text \<open>
  C9. From the state that \<^verbatim>\<open>sched_init\<close> leaves, in every state that ticks, starts and
  terminations reach, as long as the main thread does not terminate: the ready queue is a well
  formed ring that contains the current thread and the main thread, and \<^verbatim>\<open>schedule\<close> finds a
  thread to run without following a null link.
\<close>

theorem scheduler_invariant:
  assumes "heap_ok a s bs fs" and "unat (ready_queue s) < a" and "queue s []"
    and "unat (heap_current_virtual s) + 4262 < 2 ^ 64"
    and "sched_init name s = Some (Inr s1)"
    and "rtranclp (sched_step (current_thread s1)) s1 s2"
  shows "sched_inv (current_thread s1) s2 \<and>
    (\<exists>s3. schedule s2 = Inr s3 \<and> sched_inv (current_thread s1) s3)"
proof -
  from assms(6) have "sched_inv (current_thread s1) s2"
  proof (induction rule: rtranclp_induct)
    case base
    show ?case
      using sched_init_inv [OF assms(1-5)] .
  next
    case (step t u)
    then show ?case
      using sched_step_inv by blast
  qed
  then show ?thesis
    using schedule_inv by blast
qed

section \<open>Instances\<close>

text \<open>
  The heap of one free page with an empty ready queue, and three threads in a ring, at
  addresses that are not blocks of that heap.
\<close>

definition sample_kernel :: kernel where
  "sample_kernel = heap.extend (heap.truncate sample_heap)
     \<lparr>threads = (\<lambda>_. \<lparr>rsp = 0, thread_id = 0, state = THREAD_STATE_READY, time_slice = 10,
        kernel_stack_base = 0, kernel_stack_size = 0, entry = 0, arg = 0\<rparr>),
      thread_nodes = INIT_LIST_HEAD (\<lambda>_. \<lparr>nxt = 0, prv = 0\<rparr>) 0x9000, ready_queue = 0x9000,
      current_thread = 0, next_id = 1, cpu = sample_regs, trampoline = 0x500,
      switch_return = 0x600, tick_callback = False\<rparr>"

lemma sample_kernel_fields:
  "blk_size sample_kernel = blk_size sample_heap" "blk_free sample_kernel = blk_free sample_heap"
  "elems sample_kernel = elems sample_heap" "free_list sample_kernel = free_list sample_heap"
  "heap_current_virtual sample_kernel = heap_current_virtual sample_heap"
  "ready_queue sample_kernel = 0x9000"
  "thread_nodes sample_kernel = INIT_LIST_HEAD (\<lambda>_. \<lparr>nxt = 0, prv = 0\<rparr>) 0x9000"
  "state (threads sample_kernel t) = THREAD_STATE_READY"
  "time_slice (threads sample_kernel t) = 10"
  by (simp_all add: sample_kernel_def heap.extend_def heap.truncate_def)

lemma sample_kernel_ok: "heap_ok 0x100000 sample_kernel [0x100000] [0x100000]"
  using sample_heap_ok(1) by (simp add: heap_wf_def sample_kernel_fields)

lemma sample_kernel_empty: "queue sample_kernel []"
  by (simp add: queue_def sample_kernel_fields INIT_LIST_HEAD_list)

text \<open>Three threads at 0x10, 0x200 and 0x400.\<close>

definition sample_queue :: kernel where
  "sample_queue = thread_start 0x400 (thread_start 0x200 (thread_start 0x10
     (sample_kernel\<lparr>thread_nodes := INIT_LIST_HEAD (INIT_LIST_HEAD (INIT_LIST_HEAD (thread_nodes sample_kernel)
       (sched_node 0x10)) (sched_node 0x200)) (sched_node 0x400), current_thread := 0x200\<rparr>)))"

lemma sample_queue_ring:
  "queue sample_queue [0x10, 0x200, 0x400]" "current_thread sample_queue = 0x200"
  "\<not> terminated sample_queue t" "time_slice (threads sample_queue t) = 10"
  by (simp_all add: sample_queue_def thread_start_def change_thread_state_def Let_def queue_def
      terminated_def sample_kernel_fields sched_node_def NULL_def is_list_def list_empty_def
      INIT_LIST_HEAD_def list_add_tail_def list_add_between_def)

theorem schedule_round_robin_witness:
  "\<exists>s'. schedule sample_queue = Inr s' \<and> current_thread s' = 0x400 \<and>
     queue s' [0x10, 0x200, 0x400] \<and> threads s' 0x10 = threads sample_queue 0x10 \<and>
     threads s' 0x400 = threads sample_queue 0x400"
proof -
  obtain s' where s': "schedule sample_queue = Inr s'" "current_thread s' = 0x400"
    "queue s' [0x10, 0x200, 0x400]"
    and th: "threads s' = (threads sample_queue)(0x200 := (threads sample_queue 0x200)\<lparr>rsp := rsp (threads s' 0x200)\<rparr>)"
    using schedule_round_robin [OF sample_queue_ring(1), of "[0x10]" "0x200" "[0x400]"]
    by (auto simp: sample_queue_ring(2,3) successor_def NULL_def)
  have "threads s' 0x10 = threads sample_queue 0x10" "threads s' 0x400 = threads sample_queue 0x400"
    using fun_cong [OF th, of "0x10"] fun_cong [OF th, of "0x400"] by simp_all
  with s' show ?thesis
    by blast
qed

theorem every_thread_runs_witness:
  "\<exists>n s'. n \<le> length [0x10, 0x200, 0x400 :: u64] * 10 \<and> run_ticks n sample_queue = Inr s' \<and>
     current_thread s' = 0x10"
  by (rule every_thread_runs [OF sample_queue_ring(1)])
    (simp_all add: sample_queue_ring(2-4) NULL_def)


text \<open>\<^verbatim>\<open>kmalloc\<close> finds the free block of the sample, so that \<^verbatim>\<open>sched_init\<close> does return.\<close>

lemma sample_sched_init: "\<exists>s1. sched_init 0x700 sample_kernel = Some (Inr s1)"
proof -
  have "List.find (\<lambda>b. round16 sizeof_thread \<le> blk_size sample_kernel b) [0x100000] = Some 0x100000"
    by (simp add: sample_kernel_fields sample_heap_ok(2) round16_def sizeof_thread_def)
  moreover have "sizeof_thread \<noteq> 0"
    by (simp add: sizeof_thread_def)
  ultimately have "kmalloc sizeof_thread sample_kernel = Some (Inr (take_block 0x100000 (round16 sizeof_thread) sample_kernel))"
    using kmalloc_fit [OF sample_kernel_ok] by blast
  then show ?thesis
    by (simp add: sched_init_def and_then_def new_thread_id_def take_block_def Let_def
        HEADER_SIZE_def NULL_def)
qed

theorem scheduler_invariant_witness:
  "\<exists>s1 s2. sched_init 0x700 sample_kernel = Some (Inr s1) \<and> sched_on_tick s1 = Inr s2 \<and>
     sched_inv (current_thread s1) s2 \<and> (\<exists>s3. schedule s2 = Inr s3)"
proof -
  obtain s1 where s1: "sched_init 0x700 sample_kernel = Some (Inr s1)"
    using sample_sched_init by blast
  have room: "unat (heap_current_virtual sample_kernel) + 4262 < 2 ^ 64"
    "unat (ready_queue sample_kernel) < 0x100000"
    by (simp_all add: sample_kernel_fields sample_heap_ok(3))
  then obtain s2 where s2: "sched_on_tick s1 = Inr s2"
    using sched_on_tick_returns sched_init_inv [OF sample_kernel_ok _ sample_kernel_empty _ s1] by blast
  have "rtranclp (sched_step (current_thread s1)) s1 s2"
    using sched_step.tick [OF s2] by (rule r_into_rtranclp)
  from scheduler_invariant [OF sample_kernel_ok room(2) sample_kernel_empty room(1) s1 this]
  show ?thesis
    using s1 s2 by blast
qed

end
