(* ===== verification/Io.thy ===== *)
theory Io
  imports Thread
begin

text \<open>
  The devices: port and register accesses (\<^verbatim>\<open>arch/x86_64/io.h\<close>), the local APIC
  (\<^verbatim>\<open>lapic.c\<close>), the I/O APIC (\<^verbatim>\<open>drivers/ioapic.c\<close>), the PS/2 controller
  (\<^verbatim>\<open>drivers/ps2.c\<close>) and the serial port (\<^verbatim>\<open>drivers/serial.c\<close>).
\<close>

section \<open>Accesses\<close>

text \<open>
  The environment answers the \<open>n\<close>-th read of a device with \<open>inputs n\<close>, whatever the device, and
  sees the accesses in the order of \<open>trace\<close>. Nothing is assumed of the answers.
\<close>

datatype access =
    Out8 u16 u8
  | Out16 u16 u16
  | Out32 u16 u32
  | In8 u16
  | In16 u16
  | In32 u16
  | Write32 u64 u32
  | Read32 u64
  | Cli
  | Sti
  | Sti_hlt
  | Hlt
  | Pause
  | Wrmsr u32 u32 u32
  | Lidt u16 u64
  | Gdt_flush u64

record io = kernel +
  inputs :: "nat \<Rightarrow> u32"
  reads :: nat
  trace :: "access list"
  lapic_base :: u64
  apic_base_msr :: u64

definition note_access :: "access \<Rightarrow> 'a io_scheme \<Rightarrow> 'a io_scheme" where
  "note_access a s = s\<lparr>trace := trace s @ [a]\<rparr>"

definition next_input :: "access \<Rightarrow> 'a io_scheme \<Rightarrow> u32 \<times> 'a io_scheme" where
  "next_input a s = (inputs s (reads s), note_access a (s\<lparr>reads := reads s + 1\<rparr>))"

definition outb :: "u16 \<Rightarrow> u8 \<Rightarrow> 'a io_scheme \<Rightarrow> 'a io_scheme" where
  "outb port val s = note_access (Out8 port val) s"

definition outw :: "u16 \<Rightarrow> u16 \<Rightarrow> 'a io_scheme \<Rightarrow> 'a io_scheme" where
  "outw port val s = note_access (Out16 port val) s"

definition outl :: "u16 \<Rightarrow> u32 \<Rightarrow> 'a io_scheme \<Rightarrow> 'a io_scheme" where
  "outl port val s = note_access (Out32 port val) s"

definition inb :: "u16 \<Rightarrow> 'a io_scheme \<Rightarrow> u8 \<times> 'a io_scheme" where
  "inb port s = (case next_input (In8 port) s of (v, s) \<Rightarrow> (ucast v, s))"

definition inw :: "u16 \<Rightarrow> 'a io_scheme \<Rightarrow> u16 \<times> 'a io_scheme" where
  "inw port s = (case next_input (In16 port) s of (v, s) \<Rightarrow> (ucast v, s))"

definition inl :: "u16 \<Rightarrow> 'a io_scheme \<Rightarrow> u32 \<times> 'a io_scheme" where
  "inl port s = next_input (In32 port) s"

definition io_wait :: "'a io_scheme \<Rightarrow> 'a io_scheme" where
  "io_wait s = outb 0x80 0 s"

definition disable_interrupts :: "'a io_scheme \<Rightarrow> 'a io_scheme" where
  "disable_interrupts s = note_access Cli s"

definition enable_interrupts :: "'a io_scheme \<Rightarrow> 'a io_scheme" where
  "enable_interrupts s = note_access Sti s"

definition halt_sti :: "'a io_scheme \<Rightarrow> 'a io_scheme" where
  "halt_sti s = note_access Sti_hlt s"

definition halt :: "'a io_scheme \<Rightarrow> 'a io_scheme" where
  "halt s = note_access Hlt s"

definition pause :: "'a io_scheme \<Rightarrow> 'a io_scheme" where
  "pause s = note_access Pause s"

section \<open>The local APIC\<close>

definition LAPIC_ID :: u32 where "LAPIC_ID = 0x20"
definition LAPIC_TPR :: u32 where "LAPIC_TPR = 0x80"
definition LAPIC_EOI :: u32 where "LAPIC_EOI = 0xB0"
definition LAPIC_SVR :: u32 where "LAPIC_SVR = 0xF0"
definition LAPIC_TIMER :: u32 where "LAPIC_TIMER = 0x320"
definition LAPIC_TICR :: u32 where "LAPIC_TICR = 0x380"
definition LAPIC_TCCR :: u32 where "LAPIC_TCCR = 0x390"
definition LAPIC_TDCR :: u32 where "LAPIC_TDCR = 0x3E0"
definition LAPIC_SVR_ENABLE :: u32 where "LAPIC_SVR_ENABLE = 0x100"
definition IA32_APIC_BASE_MSR :: u32 where "IA32_APIC_BASE_MSR = 0x1B"
definition IA32_APIC_BASE_MSR_ENABLE :: u32 where "IA32_APIC_BASE_MSR_ENABLE = 0x800"

definition lapic_read :: "u32 \<Rightarrow> 'a io_scheme \<Rightarrow> u32 \<times> 'a io_scheme" where
  "lapic_read reg s = next_input (Read32 (lapic_base s + ucast reg)) s"

definition lapic_write :: "u32 \<Rightarrow> u32 \<Rightarrow> 'a io_scheme \<Rightarrow> 'a io_scheme" where
  "lapic_write reg v s = note_access (Write32 (lapic_base s + ucast reg) v) s"

definition lapic_eoi :: "'a io_scheme \<Rightarrow> 'a io_scheme" where
  "lapic_eoi s = lapic_write LAPIC_EOI 0 s"

text \<open>The result of \<^verbatim>\<open>vmm_map_page\<close> is dropped, here and in the I/O APIC's setup.\<close>

definition lapic_init :: "'a io_scheme \<Rightarrow> 'a io_scheme outcome" where
  "lapic_init s =
     (let hhdm = hhdm_offset s;
          lo = ucast (apic_base_msr s) :: u32;
          hi = ucast (drop_bit 32 (apic_base_msr s)) :: u32;
          msr_base = push_bit 32 (ucast hi :: u64) OR ucast lo;
          phys_base = msr_base AND 0xFFFFF000;
          virt_base = phys_base + hhdm;
          s = s\<lparr>lapic_base := virt_base\<rparr>;
          current_pml4 = P2V s (get_current_cr3 s AND PAGE_FRAME_MASK)
      in bind_ok (vmm_map_page s current_pml4 virt_base phys_base
                    (VMM_FLAG_PRESENT OR VMM_FLAG_WRITABLE OR VMM_FLAG_CACHE_DISABLE)) (\<lambda>(ok, s).
         let s = (if lo AND IA32_APIC_BASE_MSR_ENABLE = 0 then
                    let lo = lo OR IA32_APIC_BASE_MSR_ENABLE
                    in note_access (Wrmsr IA32_APIC_BASE_MSR lo hi)
                         (s\<lparr>apic_base_msr := push_bit 32 (ucast hi) OR ucast lo\<rparr>)
                  else s);
             s = lapic_write LAPIC_SVR (LAPIC_SVR_ENABLE OR 0xFF) s
         in Inr (lapic_write LAPIC_TPR 0 s)))"

section \<open>The I/O APIC\<close>

definition IOAPIC_IDT_VECTOR :: u32 where "IOAPIC_IDT_VECTOR = 0x21"
definition IOAPIC_BASE_PHYSICAL_ADDRESS :: u64 where "IOAPIC_BASE_PHYSICAL_ADDRESS = 0xFEC00000"

text \<open>\<^verbatim>\<open>hhdm_request.response->offset\<close> is read from the response at each use.\<close>

definition ioapic_write :: "u64 \<Rightarrow> u32 \<Rightarrow> u32 \<Rightarrow> 'a io_scheme \<Rightarrow> 'a io_scheme" where
  "ioapic_write offset reg v s =
     (let base = IOAPIC_BASE_PHYSICAL_ADDRESS + offset;
          s = note_access (Write32 base reg) s
      in note_access (Write32 (base + 0x10) v) s)"

definition ioapic_init_keyboard :: "boot_info \<Rightarrow> u8 \<Rightarrow> 'a io_scheme \<Rightarrow> 'a io_scheme outcome" where
  "ioapic_init_keyboard b target_apic_id s =
     (case hhdm_response b of None \<Rightarrow> Inl Bad_access | Some offset \<Rightarrow>
        let current_pml4 = (get_current_cr3 s AND PAGE_FRAME_MASK) + offset
        in bind_ok (vmm_map_page s current_pml4 (IOAPIC_BASE_PHYSICAL_ADDRESS + offset)
                      IOAPIC_BASE_PHYSICAL_ADDRESS
                      (VMM_FLAG_PRESENT OR VMM_FLAG_WRITABLE OR VMM_FLAG_CACHE_DISABLE)) (\<lambda>(ok, s).
           let irq = 1;
               s = ioapic_write offset (0x10 + 2 * irq) IOAPIC_IDT_VECTOR s
           in Inr (ioapic_write offset (0x10 + 2 * irq + 1) (push_bit 24 (ucast target_apic_id)) s)))"

section \<open>The PS/2 controller\<close>

text \<open>
  \<^verbatim>\<open>inb(0x64)\<close> is polled at most 100000 times for a bit of the status; \<open>Inr\<close> leaves the loop.
\<close>

definition ps2_poll :: "(u8 \<Rightarrow> bool) \<Rightarrow> 'a io_scheme \<Rightarrow> bool \<times> 'a io_scheme" where
  "ps2_poll ready s =
     (case for_until 0 100000 (\<lambda>i s. let (status, s) = inb 0x64 s
                                     in if ready status then Inr s else Inl s) s of
        Inr s \<Rightarrow> (True, s) | Inl s \<Rightarrow> (False, s))"

definition ps2_wait_input_empty :: "'a io_scheme \<Rightarrow> bool \<times> 'a io_scheme" where
  "ps2_wait_input_empty s = ps2_poll (\<lambda>status. status AND 2 = 0) s"

definition ps2_wait_output_full :: "'a io_scheme \<Rightarrow> bool \<times> 'a io_scheme" where
  "ps2_wait_output_full s = ps2_poll (\<lambda>status. status AND 1 \<noteq> 0) s"

text \<open>The controller may keep its output buffer full forever.\<close>

partial_function (option) ps2_flush_output_buffer :: "'a io_scheme \<Rightarrow> 'a io_scheme option" where
  "ps2_flush_output_buffer s =
     (case inb 0x64 s of (status, s) \<Rightarrow>
        if status AND 1 \<noteq> 0 then
          (case inb 0x60 s of (data, s) \<Rightarrow> ps2_flush_output_buffer s)
        else Some s)"

definition ps2_write :: "u16 \<Rightarrow> u8 \<Rightarrow> 'a io_scheme \<Rightarrow> bool \<times> 'a io_scheme" where
  "ps2_write port v s =
     (let (ok, s) = ps2_wait_input_empty s
      in if \<not> ok then (False, s) else (True, io_wait (outb port v s)))"

definition ps2_write_command :: "u8 \<Rightarrow> 'a io_scheme \<Rightarrow> bool \<times> 'a io_scheme" where
  "ps2_write_command command s = ps2_write 0x64 command s"

definition ps2_write_data :: "u8 \<Rightarrow> 'a io_scheme \<Rightarrow> bool \<times> 'a io_scheme" where
  "ps2_write_data data s = ps2_write 0x60 data s"

text \<open>The two waits of the condition are evaluated from left to right, the second only if needed.\<close>

definition ps2_keyboard_enable :: "'a io_scheme \<Rightarrow> 'a io_scheme option" where
  "ps2_keyboard_enable s =
     (case ps2_flush_output_buffer s of None \<Rightarrow> None | Some s \<Rightarrow>
        let (_, s) = ps2_write_command 0xAD s;
            (_, s) = ps2_write_command 0xA7 s;
            (asked, s) = ps2_write_command 0x20 s;
            (full, s) = (if asked then ps2_wait_output_full s else (False, s));
            s = (if asked \<and> full then
                   let (command_byte, s) = inb 0x60 s;
                       command_byte = command_byte OR 1;
                       command_byte = command_byte AND NOT 0x10;
                       command_byte = command_byte OR 0x40;
                       (_, s) = ps2_write_command 0x60 s;
                       (_, s) = ps2_write_data command_byte s
                   in s
                 else s);
            (_, s) = ps2_write_command 0xAE s;
            (_, s) = ps2_write_data 0xF4 s;
            (full, s) = ps2_wait_output_full s
        in Some (if full then snd (inb 0x60 s) else s))"

section \<open>The serial port\<close>

definition serial_init :: "'a io_scheme \<Rightarrow> 'a io_scheme" where
  "serial_init s =
     (let s = outb (0x3F8 + 1) 0x00 s;
          s = outb (0x3F8 + 3) 0x80 s;
          s = outb (0x3F8 + 0) 0x03 s;
          s = outb (0x3F8 + 1) 0x00 s;
          s = outb (0x3F8 + 3) 0x03 s;
          s = outb (0x3F8 + 2) 0xC7 s
      in outb (0x3F8 + 4) 0x0B s)"

partial_function (option) serial_wait :: "'a io_scheme \<Rightarrow> 'a io_scheme option" where
  "serial_wait s =
     (case inb (0x3F8 + 5) s of (status, s) \<Rightarrow>
        if status AND 0x20 = 0 then serial_wait s else Some s)"

partial_function (option) serial_puts :: "mem \<Rightarrow> u64 \<Rightarrow> 'a io_scheme \<Rightarrow> 'a io_scheme option" where
  "serial_puts m str s =
     (if m str \<noteq> 0 then
        (case serial_wait s of
           None \<Rightarrow> None
         | Some s \<Rightarrow> serial_puts m (str + 1) (outb 0x3F8 (m str) s))
      else Some s)"

section \<open>Accesses and the state\<close>

lemma io_access_simps [simp]:
  "inputs (note_access a s) = inputs s"
  "reads (note_access a s) = reads s"
  "trace (note_access a s) = trace s @ [a]"
  by (simp_all add: note_access_def)

lemma inb_eq:
  "inb p s = (ucast (inputs s (reads s)), s\<lparr>reads := reads s + 1, trace := trace s @ [In8 p]\<rparr>)"
  by (simp add: inb_def next_input_def note_access_def)

lemma outb_eq: "outb p v s = s\<lparr>trace := trace s @ [Out8 p v]\<rparr>"
  by (simp add: outb_def note_access_def)

lemma status_bit:
  "bit (ucast (v :: u32) :: u8) k \<longleftrightarrow> k < 8 \<and> bit v k"
  by (auto simp: bit_simps)

lemma and_twopow_eq_0:
  fixes w :: "'a::len word"
  shows "w AND 2 ^ k = 0 \<longleftrightarrow> \<not> bit w k \<or> LENGTH('a) \<le> k"
  by (metis and_exp_eq_0_iff_not_bit bit_imp_le_length linorder_not_less mult.right_neutral
      mult_zero_right and_zero_eq exp_eq_zero_iff)

lemma status_simps:
  "(w :: u8) AND 1 = 0 \<longleftrightarrow> \<not> bit w 0"
  "(w :: u8) AND 32 = 0 \<longleftrightarrow> \<not> bit w 5"
  using and_twopow_eq_0 [of w 0] and_twopow_eq_0 [of w 5] by simp_all

section \<open>The serial port sends its string\<close>

text \<open>
  The transmitter's protocol: \<open>sent inp n text log n'\<close> says that, reading the line status from
  input \<open>n\<close> on, \<open>log\<close> writes every byte of \<open>text\<close> once, in order, and each one right after the
  first status that has bit 5 set; \<open>n'\<close> inputs are used up.
\<close>

inductive sent :: "(nat \<Rightarrow> u32) \<Rightarrow> nat \<Rightarrow> u8 list \<Rightarrow> access list \<Rightarrow> nat \<Rightarrow> bool" for inp where
  sent_Nil: "sent inp n [] [] n"
| sent_Cons: "(\<forall>i<k. \<not> bit (inp (n + i)) 5) \<Longrightarrow> bit (inp (n + k)) 5 \<Longrightarrow>
    sent inp (n + k + 1) cs log n' \<Longrightarrow>
    sent inp n (c # cs) (replicate (k + 1) (In8 0x3FD) @ Out8 0x3F8 c # log) n'"

inductive_simps sent_simps [simp]: "sent inp n [] log n'" "sent inp n (c # cs) log n'"

lemma serial_wait_step:
  "serial_wait s =
     (if bit (inputs s (reads s)) 5
      then Some (s\<lparr>reads := reads s + 1, trace := trace s @ [In8 0x3FD]\<rparr>)
      else serial_wait (s\<lparr>reads := reads s + 1, trace := trace s @ [In8 0x3FD]\<rparr>))"
  by (simp add: serial_wait.simps [of s] inb_eq status_simps status_bit)

lemma serial_wait_returns:
  assumes "\<forall>i<k. \<not> bit (inputs s (reads s + i)) 5" and "bit (inputs s (reads s + k)) 5"
  shows "serial_wait s =
     Some (s\<lparr>reads := reads s + k + 1, trace := trace s @ replicate (k + 1) (In8 0x3FD)\<rparr>)"
  using assms
proof (induction k arbitrary: s)
  case 0
  then show ?case
    by (simp add: serial_wait_step)
next
  case (Suc k)
  let ?t = "s\<lparr>reads := reads s + 1, trace := trace s @ [In8 0x3FD]\<rparr>"
  have "serial_wait ?t =
      Some (?t\<lparr>reads := reads ?t + k + 1, trace := trace ?t @ replicate (k + 1) (In8 0x3FD)\<rparr>)"
    using Suc.prems by (intro Suc.IH) auto
  moreover have "\<not> bit (inputs s (reads s)) 5"
    using Suc.prems(1) by force
  ultimately show ?case
    by (simp add: serial_wait_step [of s])
qed

lemma first_ready:
  fixes inp :: "nat \<Rightarrow> u32"
  assumes "\<forall>n. \<exists>k. bit (inp (n + k)) b"
  obtains k where "\<forall>i<k. \<not> bit (inp (n + i)) b" and "bit (inp (n + k)) b"
  using assms exists_least_iff [of "\<lambda>k. bit (inp (n + k)) b"] by blast

lemma serial_puts_text:
  assumes "cstr m str cs" and "\<forall>n. \<exists>k. bit (inputs s (n + k)) 5"
  shows "\<exists>log n'. serial_puts m str s = Some (s\<lparr>reads := n', trace := trace s @ log\<rparr>) \<and>
           sent (inputs s) (reads s) cs log n'"
  using assms
proof (induction cs arbitrary: str s)
  case Nil
  then show ?case
    by (simp add: serial_puts.simps)
next
  case (Cons c cs)
  obtain k where k: "\<forall>i<k. \<not> bit (inputs s (reads s + i)) 5" "bit (inputs s (reads s + k)) 5"
    using first_ready [OF Cons.prems(2)] by blast
  let ?t = "s\<lparr>reads := reads s + k + 1,
              trace := trace s @ replicate (k + 1) (In8 0x3FD) @ [Out8 0x3F8 c]\<rparr>"
  have "serial_puts m str s = serial_puts m (str + 1) ?t"
    using Cons.prems(1) serial_wait_returns [OF k]
    by (simp add: serial_puts.simps [of m str] outb_eq)
  moreover obtain log n' where
    "serial_puts m (str + 1) ?t = Some (?t\<lparr>reads := n', trace := trace ?t @ log\<rparr>)"
    "sent (inputs ?t) (reads ?t) cs log n'"
    using Cons.IH [of "str + 1" ?t] Cons.prems by auto
  ultimately have "serial_puts m str s = Some (s\<lparr>reads := n', trace := trace s @
        replicate (k + 1) (In8 0x3FD) @ Out8 0x3F8 c # log\<rparr>)"
    and "sent (inputs s) (reads s) (c # cs) (replicate (k + 1) (In8 0x3FD) @ Out8 0x3F8 c # log) n'"
    using k by auto
  then show ?case
    by blast
qed

section \<open>The keyboard controller is set up\<close>

text \<open>Every second input read is a status; the flush ends at the first one without bit 0.\<close>

lemma ps2_flush_step:
  "ps2_flush_output_buffer s =
     (if bit (inputs s (reads s)) 0
      then ps2_flush_output_buffer (s\<lparr>reads := reads s + 2, trace := trace s @ [In8 0x64, In8 0x60]\<rparr>)
      else Some (s\<lparr>reads := reads s + 1, trace := trace s @ [In8 0x64]\<rparr>))"
  by (simp add: ps2_flush_output_buffer.simps [of s] inb_eq status_simps status_bit)

lemma ps2_flush_returns:
  assumes "\<not> bit (inputs s (reads s + 2 * k)) 0"
  shows "ps2_flush_output_buffer s \<noteq> None"
  using assms
proof (induction k arbitrary: s)
  case 0
  then show ?case
    by (simp add: ps2_flush_step)
next
  case (Suc k)
  then show ?case
    by (simp add: ps2_flush_step [of s] add.assoc)
qed

lemma ps2_flush_result:
  "ps2_flush_output_buffer s = Some t \<Longrightarrow> \<exists>k. \<not> bit (inputs s (reads s + 2 * k)) 0"
proof (induction rule: ps2_flush_output_buffer.raw_induct [rotated, consumes 1, case_names step])
  case (step rec s t)
  show ?case
  proof (cases "bit (inputs s (reads s)) 0")
    case True
    let ?s = "s\<lparr>reads := reads s + 2, trace := trace s @ [In8 0x64, In8 0x60]\<rparr>"
    have "rec ?s = Some t"
      using step.hyps True by (simp add: inb_eq status_simps status_bit)
    then obtain k where "\<not> bit (inputs s (reads s + 2 + 2 * k)) 0"
      using step.IH by force
    then show ?thesis
      by (intro exI [of _ "Suc k"]) simp
  next
    case False
    then show ?thesis
      by (intro exI [of _ 0]) simp
  qed
qed

lemma ps2_flush_first:
  assumes "\<forall>j<k. bit (inputs s (reads s + 2 * j)) 0" and "\<not> bit (inputs s (reads s + 2 * k)) 0"
  shows "ps2_flush_output_buffer s = Some (s\<lparr>reads := reads s + 2 * k + 1,
           trace := trace s @ concat (replicate k [In8 0x64, In8 0x60]) @ [In8 0x64]\<rparr>)"
  using assms
proof (induction k arbitrary: s)
  case 0
  then show ?case
    by (simp add: ps2_flush_step [of s])
next
  case (Suc k)
  let ?s = "s\<lparr>reads := reads s + 2, trace := trace s @ [In8 0x64, In8 0x60]\<rparr>"
  have "bit (inputs s (reads s + 2 * Suc j)) 0" if "j < k" for j
    using Suc.prems(1) that by blast
  then have "ps2_flush_output_buffer ?s = Some (?s\<lparr>reads := reads ?s + 2 * k + 1,
      trace := trace ?s @ concat (replicate k [In8 0x64, In8 0x60]) @ [In8 0x64]\<rparr>)"
    using Suc.prems(2) by (intro Suc.IH) simp_all
  moreover have "bit (inputs s (reads s)) 0"
    using Suc.prems(1) by force
  ultimately show ?case
    by (simp add: ps2_flush_step [of s])
qed

text \<open>After the flush every wait gives up, so the setup reads a bounded number of inputs.\<close>

named_theorems reads_bounds \<open>how many inputs an operation may use up\<close>

lemma inb_reads [reads_bounds]: "inb p s = (v, t) \<Longrightarrow> reads t = reads s + 1"
  by (auto simp: inb_eq)

lemma snd_inb_reads [simp]: "reads (snd (inb p s)) = reads s + 1"
  by (simp add: inb_eq)

lemma outb_reads [simp]: "reads (outb p v s) = reads s" "reads (io_wait s) = reads s"
  by (simp_all add: outb_eq io_wait_def)

lemma ps2_poll_reads [reads_bounds]:
  assumes "ps2_poll P s = (ok, t)"
  shows "reads t \<le> reads s + 100000"
proof -
  let ?body = "\<lambda>i s. case inb 0x64 s of (status, s) \<Rightarrow> if P status then Inr s else Inl s"
  have "case for_until 0 100000 ?body s of
          Inl t \<Rightarrow> reads t \<le> reads s + unat (100000 :: u64)
        | Inr t \<Rightarrow> reads t \<le> reads s + unat (100000 :: u64)"
  proof (rule for_until_inv [where I = "\<lambda>i t. reads t \<le> reads s + unat i"])
    fix j :: u64 and u
    assume "j < 100000" and "reads u \<le> reads s + unat j"
    then show "case ?body j u of Inl t' \<Rightarrow> reads t' \<le> reads s + unat (j + 1)
      | Inr r \<Rightarrow> reads r \<le> reads s + unat (100000 :: u64)"
      using unat_succ_less [of j 100000] by (simp add: inb_eq word_less_nat_alt)
  qed simp_all
  then show ?thesis
    using assms by (auto simp: ps2_poll_def split: sum.splits)
qed

lemma ps2_wait_reads [reads_bounds]:
  "ps2_wait_input_empty s = (ok, t) \<Longrightarrow> reads t \<le> reads s + 100000"
  "ps2_wait_output_full s = (ok, t) \<Longrightarrow> reads t \<le> reads s + 100000"
  by (simp_all add: ps2_wait_input_empty_def ps2_wait_output_full_def ps2_poll_reads)

lemma ps2_write_reads [reads_bounds]:
  "ps2_write_command v s = (ok, t) \<Longrightarrow> reads t \<le> reads s + 100000"
  "ps2_write_data v s = (ok, t) \<Longrightarrow> reads t \<le> reads s + 100000"
  by (auto simp: ps2_write_command_def ps2_write_data_def ps2_write_def
      dest: ps2_wait_reads split: prod.splits if_splits)

definition ps2_setup :: "'a io_scheme \<Rightarrow> 'a io_scheme" where
  "ps2_setup s =
     (let (_, s) = ps2_write_command 0xAD s;
          (_, s) = ps2_write_command 0xA7 s;
          (asked, s) = ps2_write_command 0x20 s;
          (full, s) = (if asked then ps2_wait_output_full s else (False, s));
          s = (if asked \<and> full then
                 let (command_byte, s) = inb 0x60 s;
                     command_byte = command_byte OR 1;
                     command_byte = command_byte AND NOT 0x10;
                     command_byte = command_byte OR 0x40;
                     (_, s) = ps2_write_command 0x60 s;
                     (_, s) = ps2_write_data command_byte s
                 in s
               else s);
          (_, s) = ps2_write_command 0xAE s;
          (_, s) = ps2_write_data 0xF4 s;
          (full, s) = ps2_wait_output_full s
      in (if full then snd (inb 0x60 s) else s))"

lemma ps2_keyboard_enable_eq:
  "ps2_keyboard_enable s = map_option ps2_setup (ps2_flush_output_buffer s)"
  by (simp add: ps2_keyboard_enable_def ps2_setup_def Let_def case_prod_beta split: option.split)

lemma ps2_setup_reads: "reads (ps2_setup s) \<le> reads s + 900002"
  by (auto simp: ps2_setup_def Let_def split: prod.splits if_splits dest!: reads_bounds)

section \<open>What the devices leave alone\<close>

text \<open>Device accesses and mappings keep every component that is declared after the devices.\<close>

named_theorems device_frames \<open>operations that keep the state behind the devices\<close>

lemma access_more [device_frames, simp]:
  "io.more (note_access a s) = io.more s" "io.more (outb p v s) = io.more s"
  "io.more (snd (inb p s)) = io.more s" "io.more (io_wait s) = io.more s"
  "io.more (lapic_write reg x s) = io.more s" "io.more (snd (lapic_read reg s)) = io.more s"
  "io.more (ioapic_write off reg x s) = io.more s"
  by (simp_all add: note_access_def outb_def inb_def next_input_def io_wait_def lapic_write_def
      lapic_read_def ioapic_write_def Let_def)

lemma io_more_cong: "pmm.more t = pmm.more s \<Longrightarrow> io.more t = io.more (s :: 'a io_scheme)"
  by (cases s; cases t) simp

lemma vmm_map_page_io:
  fixes s :: "'a io_scheme"
  assumes "vmm_map_page s pml4 v p f = Inr (ok, t)"
  shows "io.more t = io.more s"
  by (rule io_more_cong) (use vmm_map_page_more [of s pml4 v p f] assms in simp)

lemma lapic_init_more [device_frames]: "lapic_init s = Inr t \<Longrightarrow> io.more t = io.more s"
  by (auto simp: lapic_init_def Let_def bind_ok_eq_Inr dest!: vmm_map_page_io split: if_splits)

lemma ioapic_init_keyboard_more [device_frames]:
  "ioapic_init_keyboard b apic s = Inr t \<Longrightarrow> io.more t = io.more s"
  by (auto simp: ioapic_init_keyboard_def Let_def bind_ok_eq_Inr dest!: vmm_map_page_io
      split: option.splits)

lemma ps2_poll_more: "ps2_poll P s = (ok, t) \<Longrightarrow> io.more t = io.more s"
proof -
  let ?body = "\<lambda>i s. case inb 0x64 s of (status, s) \<Rightarrow> if P status then Inr s else Inl s"
  have "case for_until 0 100000 ?body s of Inl t \<Rightarrow> io.more t = io.more s | Inr t \<Rightarrow> io.more t = io.more s"
    by (rule for_until_inv [where I = "\<lambda>_ t. io.more t = io.more s"]) (simp_all add: inb_eq)
  then show "ps2_poll P s = (ok, t) \<Longrightarrow> io.more t = io.more s"
    by (auto simp: ps2_poll_def split: sum.splits)
qed

lemma ps2_flush_more: "ps2_flush_output_buffer s = Some t \<Longrightarrow> io.more t = io.more s"
proof (induction rule: ps2_flush_output_buffer.raw_induct [rotated, consumes 1, case_names step])
  case (step rec s t)
  show ?case
  proof (cases "bit (inputs s (reads s)) 0")
    case True
    let ?s = "s\<lparr>reads := reads s + 2, trace := trace s @ [In8 0x64, In8 0x60]\<rparr>"
    have "rec ?s = Some t"
      using step.hyps True by (simp add: inb_eq status_simps status_bit)
    then have "io.more t = io.more ?s"
      by (rule step.IH)
    then show ?thesis
      by simp
  next
    case False
    then show ?thesis
      using step.hyps by (auto simp: inb_eq status_simps status_bit)
  qed
qed

lemma ps2_write_more [simp]:
  "io.more (snd (ps2_write_command v s)) = io.more s" "io.more (snd (ps2_write_data v s)) = io.more s"
  "io.more (snd (ps2_wait_input_empty s)) = io.more s" "io.more (snd (ps2_wait_output_full s)) = io.more s"
proof -
  have poll: "io.more (snd (ps2_poll P s)) = io.more s" for P
    by (cases "ps2_poll P s") (auto dest: ps2_poll_more)
  show "io.more (snd (ps2_write_command v s)) = io.more s" "io.more (snd (ps2_write_data v s)) = io.more s"
    "io.more (snd (ps2_wait_input_empty s)) = io.more s" "io.more (snd (ps2_wait_output_full s)) = io.more s"
    using poll
    by (simp_all add: ps2_write_command_def ps2_write_data_def ps2_write_def ps2_wait_input_empty_def
      ps2_wait_output_full_def case_prod_beta)
qed

lemma ps2_keyboard_enable_more [device_frames]:
  "ps2_keyboard_enable s = Some t \<Longrightarrow> io.more t = io.more s"
  by (auto simp: ps2_keyboard_enable_eq ps2_setup_def Let_def case_prod_beta dest!: ps2_flush_more)

section \<open>Properties\<close>

text \<open>
  C27. The serial driver delivers its message: if the transmitter keeps becoming ready,
  \<^verbatim>\<open>serial_puts\<close> returns, having written exactly the bytes of the string to the data port, in
  order, each directly after the first line status that reports an empty holding register; it
  touches nothing but the port.
\<close>

theorem serial_puts_sends:
  assumes "cstr m str cs" and "\<forall>n. \<exists>k. bit (inputs s (n + k)) 5"
  shows "\<exists>log n'. serial_puts m str s = Some (s\<lparr>reads := n', trace := trace s @ log\<rparr>) \<and>
           sent (inputs s) (reads s) cs log n'"
  using assms by (rule serial_puts_text)

text \<open>
  Setting up the keyboard controller hangs exactly if the controller never reports an empty
  output buffer, at no status read of the flush; otherwise it returns, whatever the controller
  answers: the flush takes \<open>2 * k + 1\<close> reads and the bounded waits and reads behind it at most
  900002.
\<close>

theorem ps2_keyboard_enable_returns:
  "case ps2_keyboard_enable s of
     None \<Rightarrow> \<forall>k. bit (inputs s (reads s + 2 * k)) 0
   | Some t \<Rightarrow> \<exists>k. \<not> bit (inputs s (reads s + 2 * k)) 0 \<and>
       (\<forall>j<k. bit (inputs s (reads s + 2 * j)) 0) \<and> reads t \<le> reads s + 2 * k + 900003"
proof (cases "ps2_flush_output_buffer s")
  case None
  then have "bit (inputs s (reads s + 2 * k)) 0" for k
    using ps2_flush_returns [of s k] by blast
  then show ?thesis
    using None by (simp add: ps2_keyboard_enable_eq)
next
  case (Some t)
  obtain k where k: "\<not> bit (inputs s (reads s + 2 * k)) 0" "\<forall>j<k. bit (inputs s (reads s + 2 * j)) 0"
    using ps2_flush_result [OF Some] exists_least_iff [of "\<lambda>k. \<not> bit (inputs s (reads s + 2 * k)) 0"]
    by blast
  have "reads t = reads s + 2 * k + 1"
    using ps2_flush_first [OF k(2,1)] Some by auto
  then show ?thesis
    using k Some ps2_setup_reads [of t] by (intro exI [of _ k] | simp add: ps2_keyboard_enable_eq)+
qed

section \<open>Witnesses\<close>

definition sample_io :: "(nat \<Rightarrow> u32) \<Rightarrow> io" where
  "sample_io inp = kernel.extend sample_kernel
     \<lparr>inputs = inp, reads = 0, trace = [], lapic_base = 0xFEE00000, apic_base_msr = 0xFEE00900\<rparr>"

lemma sample_io_fields [simp]:
  "inputs (sample_io inp) = inp" "reads (sample_io inp) = 0" "trace (sample_io inp) = []"
  by (simp_all add: sample_io_def kernel.extend_def)

text \<open>A transmitter that is ready at every other status, and the string \<^verbatim>\<open>"Hi"\<close> at 0x100.\<close>

theorem serial_puts_sends_witness:
  "let s = sample_io (\<lambda>n. if odd n then 0x60 else 0)
   in \<exists>log n'. serial_puts ((\<lambda>_. 0)(0x100 := 72, 0x101 := 105)) 0x100 s =
        Some (s\<lparr>reads := n', trace := trace s @ log\<rparr>) \<and>
      sent (inputs s) (reads s) [72, 105] log n'"
  unfolding Let_def
proof (rule serial_puts_sends)
  show "cstr ((\<lambda>_. 0)(0x100 := 72, 0x101 := 105)) 0x100 [72, 105]"
    by simp
  show "\<forall>n. \<exists>k. bit (inputs (sample_io (\<lambda>n. if odd n then 0x60 else 0)) (n + k)) 5"
  proof
    fix n :: nat
    show "\<exists>k. bit (inputs (sample_io (\<lambda>n. if odd n then 0x60 else 0)) (n + k)) 5"
      by (rule exI [of _ "Suc n"]) (simp add: bit_numeral_rec)
  qed
qed

theorem ps2_keyboard_enable_returns_witness:
  "\<exists>t. ps2_keyboard_enable (sample_io (\<lambda>n. if n < 4 then 1 else 0)) = Some t \<and> reads t \<le> 900007"
proof -
  let ?s = "sample_io (\<lambda>n. if n < 4 then 1 else 0)"
  show ?thesis
  proof (cases "ps2_keyboard_enable ?s")
    case None
    then have "bit (inputs ?s (reads ?s + 2 * 2)) 0"
      using ps2_keyboard_enable_returns [of ?s] by (simp only: option.case)
    then show ?thesis
      by simp
  next
    case (Some t)
    then obtain k where k: "\<forall>j<k. bit (inputs ?s (reads ?s + 2 * j)) 0" "reads t \<le> 2 * k + 900003"
      using ps2_keyboard_enable_returns [of ?s] by auto
    have "k \<le> 2"
      using k(1) [rule_format, of 2] by (cases "2 < k") simp_all
    then show ?thesis
      using Some k(2) by simp
  qed
qed

end
