(* ===== verification/Keyboard.thy ===== *)
theory Keyboard
  imports Io Format
begin

text \<open>
  The keyboard driver, \<^verbatim>\<open>drivers/keyboard.c\<close>: scancodes become characters, which wait in a
  pool of 128 events until a reader takes them. An event is at \<open>kbd_pool s + 24 * i\<close>; its
  character is in the store \<open>kbd_char\<close> and its list node in \<open>kbd_nodes\<close>.
\<close>

section \<open>State\<close>

definition KBD_BUFFER_SIZE :: u64 where "KBD_BUFFER_SIZE = 128"

record keyboard = io +
  kbd_pool :: u64
  kbd_char :: "u64 \<Rightarrow> u8"
  kbd_nodes :: nodes
  kbd_free_list :: u64
  kbd_pending_list :: u64
  shift_pressed :: bool
  caps_lock :: bool
  scancode_down :: "u8 \<Rightarrow> bool"

definition evt_list :: "u64 \<Rightarrow> u64" where "evt_list evt = evt + 8"
definition kbd_event_of :: "u64 \<Rightarrow> u64" where "kbd_event_of node = node - 8"
definition kbd_event_at :: "'a keyboard_scheme \<Rightarrow> u64 \<Rightarrow> u64" where
  "kbd_event_at s i = kbd_pool s + 24 * i"

definition scancode_ascii_nomod :: "u8 list" where
  "scancode_ascii_nomod =
     [0, 27] @ map ch ''1234567890-='' @ [8] @
     [9] @ map ch ''qwertyuiop[]'' @ [10] @
     [0] @ map ch ''asdfghjkl;'' @ [39, 96] @
     [0, 92] @ map ch ''zxcvbnm,./'' @ [0] @
     [ch (CHR ''*''), 0, ch (CHR '' '')]"

definition scancode_ascii_maiusc :: "u8 list" where
  "scancode_ascii_maiusc =
     [0, 27, 33, 34] @ map ch ''#$%&/()=?^'' @ [8] @
     [9] @ map ch ''QWERTYUIOP{}'' @ [10] @
     [0] @ map ch ''ASDFGHJKL+*~'' @
     [0] @ map ch ''>ZXCVBNM;:_'' @ [0] @
     [ch (CHR ''*''), 0, ch (CHR '' '')]"

section \<open>Operations\<close>

definition keyboard_process_scancode :: "u8 \<Rightarrow> 'a keyboard_scheme \<Rightarrow> 'a keyboard_scheme" where
  "keyboard_process_scancode scancode s =
     (if scancode = 0x2A \<or> scancode = 0x36 then s\<lparr>shift_pressed := True\<rparr>
      else if scancode = 0xAA \<or> scancode = 0xB6 then s\<lparr>shift_pressed := False\<rparr>
      else if scancode = 0x3A then s\<lparr>caps_lock := \<not> caps_lock s\<rparr>
      else if scancode AND 0x80 \<noteq> 0 then
        s\<lparr>scancode_down := (scancode_down s)(scancode AND 0x7F := False)\<rparr>
      else if scancode_down s scancode then s
      else
        let s = s\<lparr>scancode_down := (scancode_down s)(scancode := True)\<rparr> in
        if unat scancode < length scancode_ascii_nomod then
          let c = (if shift_pressed s \<noteq> caps_lock s
                   then scancode_ascii_maiusc ! unat scancode
                   else scancode_ascii_nomod ! unat scancode)
          in if c \<noteq> 0 \<and> \<not> list_empty (kbd_nodes s) (kbd_free_list s) then
               let node = nxt (kbd_nodes s (kbd_free_list s));
                   s = s\<lparr>kbd_nodes := list_del (kbd_nodes s) node\<rparr>;
                   evt = kbd_event_of node;
                   s = s\<lparr>kbd_char := (kbd_char s)(evt := c)\<rparr>
               in s\<lparr>kbd_nodes := list_add_tail (kbd_nodes s) (evt_list evt) (kbd_pending_list s)\<rparr>
             else s
        else s)"

definition kbd_init_lists :: "'a keyboard_scheme \<Rightarrow> 'a keyboard_scheme" where
  "kbd_init_lists s =
     (let s = s\<lparr>kbd_nodes := INIT_LIST_HEAD (kbd_nodes s) (kbd_free_list s)\<rparr>;
          s = s\<lparr>kbd_nodes := INIT_LIST_HEAD (kbd_nodes s) (kbd_pending_list s)\<rparr>
      in for_range 0 KBD_BUFFER_SIZE (\<lambda>i s.
           s\<lparr>kbd_nodes := list_add_tail (kbd_nodes s) (evt_list (kbd_event_at s i)) (kbd_free_list s)\<rparr>) s)"

text \<open>\<open>None\<close>: the PS/2 controller never empties its output buffer.\<close>

definition keyboard_init :: "boot_info \<Rightarrow> 'a keyboard_scheme \<Rightarrow> 'a keyboard_scheme outcome option" where
  "keyboard_init b s =
     (let (id, s) = lapic_read LAPIC_ID s
      in case ioapic_init_keyboard b (ucast (drop_bit 24 id)) s of
           Inl p \<Rightarrow> Some (Inl p)
         | Inr s \<Rightarrow> map_option (\<lambda>s. Inr (kbd_init_lists s)) (ps2_keyboard_enable s))"

definition keyboard_irq_handler :: "'a keyboard_scheme \<Rightarrow> 'a keyboard_scheme outcome" where
  "keyboard_irq_handler s =
     (let (scancode, s) = inb 0x60 s
      in if scancode = 0x01 then Inl (Panic ''Forced panic via ESC key'')
         else Inr (lapic_eoi (keyboard_process_scancode scancode s)))"

text \<open>
  One turn of the loop of \<^verbatim>\<open>keyboard_getchar\<close>, and the loop; \<open>intr\<close> is what the interrupts do
  that arrive between two turns.
\<close>

definition keyboard_poll :: "'a keyboard_scheme \<Rightarrow> u8 option \<times> 'a keyboard_scheme" where
  "keyboard_poll s =
     (let s = disable_interrupts s in
      if \<not> list_empty (kbd_nodes s) (kbd_pending_list s) then
        let node = nxt (kbd_nodes s (kbd_pending_list s));
            s = s\<lparr>kbd_nodes := list_del (kbd_nodes s) node\<rparr>;
            evt = kbd_event_of node;
            c = kbd_char s evt;
            s = s\<lparr>kbd_nodes := list_add_tail (kbd_nodes s) (evt_list evt) (kbd_free_list s)\<rparr>
        in (Some c, enable_interrupts s)
      else (None, pause (enable_interrupts s)))"

partial_function (option) keyboard_getchar ::
  "('a keyboard_scheme \<Rightarrow> 'a keyboard_scheme) \<Rightarrow> 'a keyboard_scheme \<Rightarrow> (u8 \<times> 'a keyboard_scheme) option" where
  "keyboard_getchar intr s =
     (case keyboard_poll s of
        (Some c, s) \<Rightarrow> Some (c, s)
      | (None, s) \<Rightarrow> keyboard_getchar intr (intr s))"

section \<open>The lists and the pool\<close>

lemma kbd_event_of_list [simp]:
  "kbd_event_of (evt_list e) = e" "evt_list (kbd_event_of n) = n"
  by (simp_all add: kbd_event_of_def evt_list_def)

text \<open>\<open>fs\<close> are the nodes on the free list, \<open>ps\<close> those of the pending characters.\<close>

definition pool_nodes :: "u64 \<Rightarrow> u64 set" where
  "pool_nodes pool = (\<lambda>i. evt_list (pool + 24 * i)) ` {..<KBD_BUFFER_SIZE}"

definition kbd_lists :: "'a keyboard_scheme \<Rightarrow> u64 list \<Rightarrow> u64 list \<Rightarrow> bool" where
  "kbd_lists s fs ps \<longleftrightarrow>
     is_list (kbd_nodes s) (kbd_free_list s) fs \<and> is_list (kbd_nodes s) (kbd_pending_list s) ps \<and>
     distinct (kbd_free_list s # kbd_pending_list s # fs @ ps) \<and>
     set (fs @ ps) = pool_nodes (kbd_pool s)"

definition pending_chars :: "'a keyboard_scheme \<Rightarrow> u64 list \<Rightarrow> u8 list" where
  "pending_chars s ps = map (\<lambda>n. kbd_char s (kbd_event_of n)) ps"

text \<open>The abstraction: the characters that wait, oldest first.\<close>

definition kbd_holds :: "'a keyboard_scheme \<Rightarrow> u8 list \<Rightarrow> bool" where
  "kbd_holds s cs \<longleftrightarrow> (\<exists>fs ps. kbd_lists s fs ps \<and> cs = pending_chars s ps)"

lemma pool_step_inj: "24 * (i :: u64) = 24 * j \<Longrightarrow> i < 128 \<Longrightarrow> j < 128 \<Longrightarrow> i = j"
proof -
  assume eq: "24 * i = 24 * j" and "i < 128" "j < 128"
  then have lt: "unat i < 128" "unat j < 128"
    by (simp_all add: word_less_nat_alt)
  then have "24 * unat i = 24 * unat j"
    using arg_cong [OF eq, of unat] by (simp add: unat_word_ariths)
  then show "i = j"
    by (simp add: word_unat_eq_iff)
qed

lemma card_pool_nodes: "card (pool_nodes pool) = 128"
proof -
  have "inj_on (\<lambda>i. evt_list (pool + 24 * i)) {..<KBD_BUFFER_SIZE}"
    by (rule inj_onI) (auto simp: evt_list_def KBD_BUFFER_SIZE_def dest: pool_step_inj)
  then have "card (pool_nodes pool) = card {..<KBD_BUFFER_SIZE}"
    by (simp add: pool_nodes_def card_image)
  also have "{..<KBD_BUFFER_SIZE} = word_of_nat ` {..<128 :: nat}"
  proof (intro equalityI subsetI)
    fix x :: u64 assume "x \<in> {..<KBD_BUFFER_SIZE}"
    then have "unat x < 128" "x = word_of_nat (unat x)"
      by (simp_all add: KBD_BUFFER_SIZE_def word_less_nat_alt)
    then show "x \<in> word_of_nat ` {..<128 :: nat}"
      by blast
  qed (auto simp: KBD_BUFFER_SIZE_def word_less_nat_alt unat_of_nat)
  also have "card (word_of_nat ` {..<128 :: nat} :: u64 set) = 128"
    by (subst card_image) (auto intro!: inj_onI simp: word_unat_eq_iff unat_of_nat)
  finally show ?thesis .
qed

lemma kbd_lists_length: "kbd_lists s fs ps \<Longrightarrow> length fs + length ps = 128"
  using distinct_card [of "fs @ ps"] card_pool_nodes [of "kbd_pool s"] by (auto simp: kbd_lists_def)

lemma kbd_lists_cong:
  assumes "kbd_nodes s' = kbd_nodes s" and "kbd_free_list s' = kbd_free_list s"
    and "kbd_pending_list s' = kbd_pending_list s" and "kbd_pool s' = kbd_pool s"
  shows "kbd_lists s' = kbd_lists s"
  by (intro ext) (simp add: kbd_lists_def assms)

lemma kbd_holds_cong:
  assumes "kbd_nodes s' = kbd_nodes s" and "kbd_free_list s' = kbd_free_list s"
    and "kbd_pending_list s' = kbd_pending_list s" and "kbd_pool s' = kbd_pool s"
    and "kbd_char s' = kbd_char s"
  shows "kbd_holds s' = kbd_holds s"
  by (intro ext) (simp add: kbd_holds_def pending_chars_def kbd_lists_cong [OF assms(1-4)] assms(5))

lemma kbd_event_of_inj [simp]: "kbd_event_of m = kbd_event_of n \<longleftrightarrow> m = n"
  by (simp add: kbd_event_of_def)

lemma kbd_lists_empty:
  assumes "kbd_lists s fs ps"
  shows "list_empty (kbd_nodes s) (kbd_free_list s) \<longleftrightarrow> fs = []"
    and "list_empty (kbd_nodes s) (kbd_pending_list s) \<longleftrightarrow> ps = []"
  using assms by (auto simp: kbd_lists_def intro!: ll.is_empty_iff)

text \<open>Moving the first node of one list behind the other keeps the pool together.\<close>

lemma kbd_take_free:
  assumes "kbd_lists s (x # fs) ps"
  shows "nxt (kbd_nodes s (kbd_free_list s)) = x"
    and "kbd_lists (s\<lparr>kbd_nodes := list_add_tail (list_del (kbd_nodes s) x) x (kbd_pending_list s)\<rparr>) fs (ps @ [x])"
proof -
  note l = assms [unfolded kbd_lists_def]
  have disj: "set (kbd_free_list s # x # fs) \<inter> set (kbd_pending_list s # ps) = {}"
    using l by auto
  show x: "nxt (kbd_nodes s (kbd_free_list s)) = x"
    using l by (blast intro: ll.first_eq)
  show "kbd_lists (s\<lparr>kbd_nodes := list_add_tail (list_del (kbd_nodes s) x) x (kbd_pending_list s)\<rparr>) fs (ps @ [x])"
    using ll.move_first [where h = "kbd_nodes s", OF _ _ disj, unfolded x] l by (auto simp: kbd_lists_def)
qed

lemma kbd_take_pending:
  assumes "kbd_lists s fs (x # ps)"
  shows "nxt (kbd_nodes s (kbd_pending_list s)) = x"
    and "kbd_lists (s\<lparr>kbd_nodes := list_add_tail (list_del (kbd_nodes s) x) x (kbd_free_list s)\<rparr>) (fs @ [x]) ps"
proof -
  note l = assms [unfolded kbd_lists_def]
  have disj: "set (kbd_pending_list s # x # ps) \<inter> set (kbd_free_list s # fs) = {}"
    using l by auto
  show x: "nxt (kbd_nodes s (kbd_pending_list s)) = x"
    using l by (blast intro: ll.first_eq)
  show "kbd_lists (s\<lparr>kbd_nodes := list_add_tail (list_del (kbd_nodes s) x) x (kbd_free_list s)\<rparr>) (fs @ [x]) ps"
    using ll.move_first [where h = "kbd_nodes s", OF _ _ disj, unfolded x] l by (auto simp: kbd_lists_def)
qed

section \<open>What a scancode types\<close>

text \<open>
  The keys: shift and caps lock are modifiers, a scancode with bit 7 set releases a key, any
  other one presses it.
\<close>

datatype key_event = Shift bool | Caps | Release u8 | Press u8

definition key_event_of :: "u8 \<Rightarrow> key_event" where
  "key_event_of scancode =
     (if scancode \<in> {0x2A, 0x36} then Shift True
      else if scancode \<in> {0xAA, 0xB6} then Shift False
      else if scancode = 0x3A then Caps
      else if bit scancode 7 then Release (take_bit 7 scancode)
      else Press scancode)"

text \<open>A key types when it goes down, not while it is held; shift and caps lock cancel out.\<close>

definition typed :: "u8 \<Rightarrow> 'a keyboard_scheme \<Rightarrow> u8 list" where
  "typed scancode s =
     (case key_event_of scancode of
        Press k \<Rightarrow>
          if scancode_down s k \<or> 58 \<le> unat k then []
          else filter (\<lambda>c. c \<noteq> 0)
            [(if shift_pressed s \<noteq> caps_lock s then scancode_ascii_maiusc else scancode_ascii_nomod) ! unat k]
      | _ \<Rightarrow> [])"

lemma release_bit:
  "(w :: u8) AND 128 = 0 \<longleftrightarrow> \<not> bit w 7" "(w :: u8) AND 127 = take_bit 7 w"
  using and_twopow_eq_0 [of w 7] by (simp_all add: take_bit_eq_mask mask_eq_exp_minus_1)

lemma scancode_table_lengths [simp]:
  "length scancode_ascii_nomod = 58" "length scancode_ascii_maiusc = 58"
  by (simp_all add: scancode_ascii_nomod_def scancode_ascii_maiusc_def)

text \<open>The state after a scancode, the lists apart.\<close>

definition key_effect :: "u8 \<Rightarrow> 'a keyboard_scheme \<Rightarrow> 'a keyboard_scheme" where
  "key_effect scancode s =
     (case key_event_of scancode of
        Shift b \<Rightarrow> s\<lparr>shift_pressed := b\<rparr>
      | Caps \<Rightarrow> s\<lparr>caps_lock := \<not> caps_lock s\<rparr>
      | Release k \<Rightarrow> s\<lparr>scancode_down := (scancode_down s)(k := False)\<rparr>
      | Press k \<Rightarrow> s\<lparr>scancode_down := (scancode_down s)(k := True)\<rparr>)"

definition enqueue :: "u8 \<Rightarrow> 'a keyboard_scheme \<Rightarrow> 'a keyboard_scheme" where
  "enqueue c s =
     (if list_empty (kbd_nodes s) (kbd_free_list s) then s else
      let node = nxt (kbd_nodes s (kbd_free_list s))
      in s\<lparr>kbd_char := (kbd_char s)(kbd_event_of node := c),
           kbd_nodes := list_add_tail (list_del (kbd_nodes s) node) node (kbd_pending_list s)\<rparr>)"

lemma keyboard_process_scancode_eq:
  "keyboard_process_scancode scancode s = fold enqueue (typed scancode s) (key_effect scancode s)"
proof (cases "\<exists>k. key_event_of scancode = Press k")
  case True
  then have p: "key_event_of scancode = Press scancode" and np: "\<not> (scancode = 0x2A \<or> scancode = 0x36)"
      "\<not> (scancode = 0xAA \<or> scancode = 0xB6)" "scancode \<noteq> 0x3A" "\<not> bit scancode 7"
    by (auto simp: key_event_of_def split: if_splits)
  show ?thesis
  proof (cases "scancode_down s scancode")
    case True
    then have "(scancode_down s)(scancode := True) = scancode_down s"
      by (simp add: fun_upd_idem_iff)
    then show ?thesis
      using True np by (simp add: keyboard_process_scancode_def p typed_def key_effect_def release_bit)
  next
    case False
    then show ?thesis
      using np by (simp add: keyboard_process_scancode_def p typed_def key_effect_def
          release_bit enqueue_def Let_def)
  qed
next
  case False
  then have t: "typed scancode s = []"
    by (auto simp: typed_def split: key_event.split)
  consider (shift) "scancode = 0x2A \<or> scancode = 0x36" | (unshift) "scancode = 0xAA \<or> scancode = 0xB6"
    | (caps) "scancode = 0x3A"
    | (release) "bit scancode 7" "scancode \<notin> {0x2A, 0x36}" "scancode \<notin> {0xAA, 0xB6}" "scancode \<noteq> 0x3A"
    using False by (auto simp: key_event_of_def split: if_splits)
  from this t show ?thesis
    by cases (auto simp: keyboard_process_scancode_def key_effect_def key_event_of_def release_bit)
qed

text \<open>The waiting characters are a queue of at most 128; a character that does not fit is lost.\<close>

lemma enqueue_holds:
  assumes "kbd_holds s cs"
  shows "kbd_holds (enqueue c s) (take 128 (cs @ [c]))"
proof -
  obtain fs ps where l: "kbd_lists s fs ps" and cs: "cs = pending_chars s ps"
    using assms by (auto simp: kbd_holds_def)
  have len: "length fs + length ps = 128"
    using l by (rule kbd_lists_length)
  show ?thesis
  proof (cases fs)
    case Nil
    then show ?thesis
      using assms len cs kbd_lists_empty(1) [OF l] by (simp add: enqueue_def pending_chars_def)
  next
    case (Cons x fs')
    note take = kbd_take_free [OF l [unfolded Cons]]
    have "x \<notin> set ps"
      using l by (auto simp: kbd_lists_def Cons)
    then have "pending_chars (enqueue c s) (ps @ [x]) = cs @ [c]"
      using kbd_lists_empty(1) [OF l] Cons
      by (auto simp: enqueue_def pending_chars_def cs take(1) Let_def)
    moreover have "kbd_lists (enqueue c s) fs' (ps @ [x])"
      using take(2) kbd_lists_empty(1) [OF l] Cons
      by (simp add: enqueue_def take(1) Let_def kbd_lists_cong [of "s\<lparr>kbd_char := _, kbd_nodes := _\<rparr>" "s\<lparr>kbd_nodes := _\<rparr>"])
    moreover have "take 128 (cs @ [c]) = cs @ [c]"
      using len Cons by (simp add: cs pending_chars_def)
    ultimately show ?thesis
      unfolding kbd_holds_def by metis
  qed
qed

lemma kbd_holds_length: "kbd_holds s cs \<Longrightarrow> length cs \<le> 128"
  by (auto simp: kbd_holds_def pending_chars_def dest: kbd_lists_length)

lemma kbd_holds_full:
  "kbd_holds s cs \<Longrightarrow> list_empty (kbd_nodes s) (kbd_free_list s) \<longleftrightarrow> length cs = 128"
  by (force simp: kbd_holds_def pending_chars_def kbd_lists_empty(1) dest: kbd_lists_length)

lemma key_effect_holds [simp]: "kbd_holds (key_effect scancode s) = kbd_holds s"
  by (rule kbd_holds_cong) (simp_all add: key_effect_def split: key_event.split)

lemma typed_cases: "typed scancode s = [] \<or> (\<exists>c. typed scancode s = [c])"
  by (simp add: typed_def split: key_event.split)

lemma process_holds:
  assumes "kbd_holds s cs"
  shows "kbd_holds (keyboard_process_scancode scancode s) (take 128 (cs @ typed scancode s))"
  using typed_cases [of scancode s] assms kbd_holds_length [OF assms] enqueue_holds [of "key_effect scancode s" cs]
  by (auto simp: keyboard_process_scancode_eq)

section \<open>The reader\<close>

lemma keyboard_poll_holds:
  assumes "kbd_holds s cs"
  shows "case cs of
      [] \<Rightarrow> (\<exists>t. keyboard_poll s = (None, t) \<and> kbd_holds t [])
    | c # cs' \<Rightarrow> (\<exists>t. keyboard_poll s = (Some c, t) \<and> kbd_holds t cs')"
proof -
  obtain fs ps where l: "kbd_lists s fs ps" and cs: "cs = pending_chars s ps"
    using assms by (auto simp: kbd_holds_def)
  show ?thesis
  proof (cases ps)
    case Nil
    then have "keyboard_poll s = (None, pause (enable_interrupts (disable_interrupts s)))"
      using kbd_lists_empty(2) [OF l]
      by (simp add: keyboard_poll_def Let_def disable_interrupts_def note_access_def)
    moreover have "kbd_holds (pause (enable_interrupts (disable_interrupts s))) = kbd_holds s"
      by (rule kbd_holds_cong)
        (simp_all add: pause_def enable_interrupts_def disable_interrupts_def note_access_def)
    ultimately show ?thesis
      using assms Nil by (simp add: cs pending_chars_def)
  next
    case (Cons x ps')
    note take = kbd_take_pending [OF l [unfolded Cons]]
    let ?t = "s\<lparr>kbd_nodes := list_add_tail (list_del (kbd_nodes s) x) x (kbd_free_list s)\<rparr>"
    have poll: "keyboard_poll s = (Some (kbd_char s (kbd_event_of x)), ?t\<lparr>trace := trace s @ [Cli, Sti]\<rparr>)"
      using kbd_lists_empty(2) [OF l] take(1) Cons
      by (simp add: keyboard_poll_def Let_def disable_interrupts_def enable_interrupts_def note_access_def)
    have "kbd_holds ?t (pending_chars s ps')"
      using take(2) unfolding kbd_holds_def pending_chars_def by force
    moreover have "kbd_holds (?t\<lparr>trace := trace s @ [Cli, Sti]\<rparr>) = kbd_holds ?t"
      by (rule kbd_holds_cong) simp_all
    ultimately show ?thesis
      by (simp add: poll cs pending_chars_def Cons)
  qed
qed

text \<open>
  The waiting reader: \<open>n\<close> turns find nothing, the interrupts behind the last of them bring
  characters, and the reader returns the oldest one.
\<close>

fun idle_turns :: "('a keyboard_scheme \<Rightarrow> 'a keyboard_scheme) \<Rightarrow> nat \<Rightarrow> 'a keyboard_scheme \<Rightarrow> 'a keyboard_scheme" where
  "idle_turns intr 0 s = s"
| "idle_turns intr (Suc n) s = idle_turns intr n (intr (snd (keyboard_poll s)))"

lemma keyboard_getchar_waits:
  assumes "\<forall>j<n. kbd_holds (idle_turns intr j s) []" and "kbd_holds (idle_turns intr n s) (c # cs)"
  shows "\<exists>t. keyboard_getchar intr s = Some (c, t) \<and> kbd_holds t cs"
  using assms
proof (induction n arbitrary: s)
  case 0
  then show ?case
    using keyboard_poll_holds [of s "c # cs"] by (auto simp: keyboard_getchar.simps)
next
  case (Suc n)
  have "kbd_holds s []"
    using Suc.prems(1) by force
  then obtain t where t: "keyboard_poll s = (None, t)"
    using keyboard_poll_holds [of s "[]"] by auto
  have "kbd_holds (idle_turns intr j (intr t)) []" if "j < n" for j
    using Suc.prems(1) that t by force
  then have "\<exists>u. keyboard_getchar intr (intr t) = Some (c, u) \<and> kbd_holds u cs"
    using Suc.prems(2) t by (intro Suc.IH) simp_all
  then show ?case
    by (simp add: keyboard_getchar.simps [of _ s] t)
qed

section \<open>Initialisation\<close>

lemma lessThan_succ:
  fixes j n :: u64
  assumes "j < n"
  shows "{..<j + 1} = insert j {..<j}"
proof -
  have "x < j + 1 \<longleftrightarrow> x = j \<or> x < j" for x
    by (simp only: word_less_nat_alt unat_succ_less [OF assms] less_Suc_eq word_unat_eq_iff disj_commute)
  then show ?thesis
    by auto
qed

lemma kbd_init_lists_holds:
  assumes "kbd_free_list s \<noteq> kbd_pending_list s"
    and "kbd_free_list s \<notin> pool_nodes (kbd_pool s)" and "kbd_pending_list s \<notin> pool_nodes (kbd_pool s)"
  shows "kbd_holds (kbd_init_lists s) []"
proof -
  let ?add = "\<lambda>i s. s\<lparr>kbd_nodes := list_add_tail (kbd_nodes s) (evt_list (kbd_event_at s i)) (kbd_free_list s)\<rparr>"
  let ?h = "INIT_LIST_HEAD (INIT_LIST_HEAD (kbd_nodes s) (kbd_free_list s)) (kbd_pending_list s)"
  let ?s = "s\<lparr>kbd_nodes := ?h\<rparr>"
  define I where "I i t \<longleftrightarrow>
      kbd_pool t = kbd_pool s \<and> kbd_free_list t = kbd_free_list s \<and>
      kbd_pending_list t = kbd_pending_list s \<and>
      (\<exists>fs. is_list (kbd_nodes t) (kbd_free_list s) fs \<and> is_list (kbd_nodes t) (kbd_pending_list s) [] \<and>
        set fs = (\<lambda>j. evt_list (kbd_pool s + 24 * j)) ` {..<i})" for i and t :: "'a keyboard_scheme"
  have "I KBD_BUFFER_SIZE (for_range 0 KBD_BUFFER_SIZE ?add ?s)"
  proof (rule for_range_inv)
    have "is_list ?h (kbd_free_list s) []"
      using assms(1) by (simp add: is_list_def INIT_LIST_HEAD_def set_next_def set_prev_def)
    moreover have "{..<0 :: u64} = {}"
      by auto
    ultimately show "I 0 ?s"
      by (auto simp: I_def INIT_LIST_HEAD_list)
  next
    fix j :: u64 and t
    assume j: "j < KBD_BUFFER_SIZE" and "I j t"
    then obtain fs where t: "kbd_pool t = kbd_pool s" "kbd_free_list t = kbd_free_list s"
        "kbd_pending_list t = kbd_pending_list s"
      and f: "is_list (kbd_nodes t) (kbd_free_list s) fs"
      and p: "is_list (kbd_nodes t) (kbd_pending_list s) []"
      and fs: "set fs = (\<lambda>j. evt_list (kbd_pool s + 24 * j)) ` {..<j}"
      by (auto simp: I_def)
    let ?n = "evt_list (kbd_pool s + 24 * j)"
    have pool: "?n \<in> pool_nodes (kbd_pool s)" "set fs \<subseteq> pool_nodes (kbd_pool s)"
      using j by (auto simp: pool_nodes_def fs)
    have new: "?n \<notin> set fs"
      using j by (auto simp: fs evt_list_def KBD_BUFFER_SIZE_def dest!: pool_step_inj)
    have "is_list (list_add_tail (kbd_nodes t) ?n (kbd_free_list s)) (kbd_free_list s) (fs @ [?n])"
      using f new pool assms(2) by (auto intro: ll.rep_add_tail)
    moreover have "is_list (list_add_tail (kbd_nodes t) ?n (kbd_free_list s)) (kbd_pending_list s) []"
      by (rule ll.frame_add_tail [OF f p]) (use pool assms in auto)
    moreover have "set (fs @ [?n]) = (\<lambda>j. evt_list (kbd_pool s + 24 * j)) ` {..<j + 1}"
      by (simp add: fs lessThan_succ [OF j])
    ultimately show "I (j + 1) (?add j t)"
      unfolding I_def by (intro conjI exI [of _ "fs @ [?n]"]) (simp_all only: t kbd_event_at_def, simp_all add: t)
  qed (simp add: KBD_BUFFER_SIZE_def)
  then obtain fs where "kbd_lists (for_range 0 KBD_BUFFER_SIZE ?add ?s) fs []"
    using assms by (auto simp: I_def kbd_lists_def pool_nodes_def is_list_def)
  then show ?thesis
    by (auto simp: kbd_holds_def pending_chars_def kbd_init_lists_def Let_def)
qed

section \<open>Interrupts and readers\<close>

text \<open>
  A run of the driver: keyboard interrupts and turns of a reader in any order. \<open>ins\<close> are the
  characters the keys typed while an event was free, \<open>outs\<close> those the reader got.
\<close>

inductive kbd_run :: "'a keyboard_scheme \<Rightarrow> u8 list \<Rightarrow> u8 list \<Rightarrow> 'a keyboard_scheme \<Rightarrow> bool" for s where
  run_start: "kbd_run s [] [] s"
| run_irq: "kbd_run s ins outs t \<Longrightarrow> keyboard_irq_handler t = Inr u \<Longrightarrow>
    kbd_run s (ins @ (if list_empty (kbd_nodes t) (kbd_free_list t) then []
                      else typed (ucast (inputs t (reads t))) t)) outs u"
| run_read: "kbd_run s ins outs t \<Longrightarrow> keyboard_poll t = (Some c, u) \<Longrightarrow> kbd_run s ins (outs @ [c]) u"
| run_idle: "kbd_run s ins outs t \<Longrightarrow> keyboard_poll t = (None, u) \<Longrightarrow> kbd_run s ins outs u"

lemma typed_inb [simp]: "typed c (snd (inb p s)) = typed c s"
  by (simp add: typed_def inb_eq split: key_event.split)

lemma kbd_holds_inb [simp]: "kbd_holds (snd (inb p s)) = kbd_holds s"
  by (rule kbd_holds_cong) (simp_all add: inb_eq)

lemma kbd_holds_eoi [simp]: "kbd_holds (lapic_eoi s) = kbd_holds s"
  by (rule kbd_holds_cong) (simp_all add: lapic_eoi_def lapic_write_def note_access_def)

lemma irq_holds:
  assumes "kbd_holds s cs"
  shows "case keyboard_irq_handler s of
      Inl p \<Rightarrow> (ucast (inputs s (reads s)) :: u8) = 1
    | Inr t \<Rightarrow> kbd_holds t (take 128 (cs @ typed (ucast (inputs s (reads s))) s))"
  using process_holds [of "snd (inb 0x60 s)" cs "fst (inb 0x60 s)"] assms
  by (simp add: keyboard_irq_handler_def case_prod_beta) (simp add: inb_eq)

lemma kbd_run_fifo:
  "kbd_run s ins outs t \<Longrightarrow> kbd_holds s cs \<Longrightarrow> \<exists>cs'. kbd_holds t cs' \<and> outs @ cs' = cs @ ins"
proof (induction rule: kbd_run.induct)
  case (run_irq ins outs t u)
  then obtain cs' where cs': "kbd_holds t cs'" "outs @ cs' = cs @ ins"
    by blast
  let ?new = "typed (ucast (inputs t (reads t))) t"
  have u: "kbd_holds u (take 128 (cs' @ ?new))"
    using irq_holds [OF cs'(1)] run_irq.hyps by simp
  show ?case
  proof (cases "length cs' = 128")
    case True
    then show ?thesis
      using u cs' kbd_holds_full [OF cs'(1)] by auto
  next
    case False
    then have "take 128 (cs' @ ?new) = cs' @ ?new"
      using kbd_holds_length [OF cs'(1)] typed_cases [of "ucast (inputs t (reads t))" t] by auto
    then show ?thesis
      using u cs' False kbd_holds_full [OF cs'(1)] by auto
  qed
next
  case (run_read ins outs t c u)
  then obtain cs' where "kbd_holds t cs'" "outs @ cs' = cs @ ins"
    by blast
  then show ?case
    using keyboard_poll_holds [of t cs'] run_read.hyps by (auto split: list.splits)
next
  case (run_idle ins outs t u)
  then obtain cs' where "kbd_holds t cs'" "outs @ cs' = cs @ ins"
    by blast
  then show ?case
    using keyboard_poll_holds [of t cs'] run_idle.hyps by (auto split: list.splits)
qed auto

lemma enqueue_fields:
  "shift_pressed (enqueue c s) = shift_pressed s" "caps_lock (enqueue c s) = caps_lock s"
  "scancode_down (enqueue c s) = scancode_down s" "trace (enqueue c s) = trace s"
  "lapic_base (enqueue c s) = lapic_base s"
  by (simp_all add: enqueue_def Let_def)

text \<open>An interrupt changes the fields outside the lists as its key event does.\<close>

lemma irq_fields:
  fixes s :: "'a keyboard_scheme" and scancode :: u8
  defines "t \<equiv> lapic_eoi (keyboard_process_scancode scancode s)"
  shows "shift_pressed t = shift_pressed (key_effect scancode s)"
    and "caps_lock t = caps_lock (key_effect scancode s)"
    and "scancode_down t = scancode_down (key_effect scancode s)"
    and "trace t = trace s @ [Write32 (lapic_base s + 0xB0) 0]"
proof -
  have "trace (key_effect scancode s) = trace s" "lapic_base (key_effect scancode s) = lapic_base s"
    by (simp_all add: key_effect_def split: key_event.split)
  then show "shift_pressed t = shift_pressed (key_effect scancode s)"
    "caps_lock t = caps_lock (key_effect scancode s)"
    "scancode_down t = scancode_down (key_effect scancode s)"
    "trace t = trace s @ [Write32 (lapic_base s + 0xB0) 0]"
    using typed_cases [of scancode s]
    by (auto simp: t_def keyboard_process_scancode_eq lapic_eoi_def lapic_write_def note_access_def
        LAPIC_EOI_def enqueue_fields)
qed

lemma kbd_init_fields:
  fixes s :: "'a keyboard_scheme"
  shows "inputs (kbd_init_lists s) = inputs s" "reads (kbd_init_lists s) = reads s"
    "shift_pressed (kbd_init_lists s) = shift_pressed s" "caps_lock (kbd_init_lists s) = caps_lock s"
    "scancode_down (kbd_init_lists s) = scancode_down s"
proof -
  let ?add = "\<lambda>i s :: 'a keyboard_scheme.
    s\<lparr>kbd_nodes := list_add_tail (kbd_nodes s) (evt_list (kbd_event_at s i)) (kbd_free_list s)\<rparr>"
  have "inputs (for_range 0 KBD_BUFFER_SIZE ?add t) = inputs t \<and>
      reads (for_range 0 KBD_BUFFER_SIZE ?add t) = reads t \<and>
      shift_pressed (for_range 0 KBD_BUFFER_SIZE ?add t) = shift_pressed t \<and>
      caps_lock (for_range 0 KBD_BUFFER_SIZE ?add t) = caps_lock t \<and>
      scancode_down (for_range 0 KBD_BUFFER_SIZE ?add t) = scancode_down t" for t :: "'a keyboard_scheme"
    by (rule for_range_inv [where I = "\<lambda>_ u. inputs u = inputs t \<and> reads u = reads t \<and>
        shift_pressed u = shift_pressed t \<and> caps_lock u = caps_lock t \<and>
        scancode_down u = scancode_down t"]) (simp_all add: KBD_BUFFER_SIZE_def)
  then show "inputs (kbd_init_lists s) = inputs s" "reads (kbd_init_lists s) = reads s"
    "shift_pressed (kbd_init_lists s) = shift_pressed s" "caps_lock (kbd_init_lists s) = caps_lock s"
    "scancode_down (kbd_init_lists s) = scancode_down s"
    by (simp_all add: kbd_init_lists_def Let_def)
qed

lemma kbd_pool_nodes_iff:
  "n \<in> pool_nodes pool \<longleftrightarrow> (\<exists>i<128. n = evt_list (pool + 24 * i))"
  by (auto simp: pool_nodes_def KBD_BUFFER_SIZE_def)

section \<open>Properties\<close>

text \<open>
  C23. The keyboard is a bounded first-in first-out queue under every interleaving of interrupts
  and readers: from the initialised lists on, what the readers got, followed by the at most 128
  characters that still wait, is exactly what the keys typed, in order; only a key pressed while
  all 128 events wait is dropped, and the events of the pool are never lost or duplicated.
\<close>

theorem keyboard_fifo:
  assumes "kbd_run (kbd_init_lists s) ins outs t"
    and "kbd_free_list s \<noteq> kbd_pending_list s"
    and "kbd_free_list s \<notin> pool_nodes (kbd_pool s)" and "kbd_pending_list s \<notin> pool_nodes (kbd_pool s)"
  shows "\<exists>cs. kbd_holds t cs \<and> length cs \<le> 128 \<and> outs @ cs = ins \<and>
           (list_empty (kbd_nodes t) (kbd_free_list t) \<longleftrightarrow> length cs = 128)"
  using kbd_run_fifo [OF assms(1) kbd_init_lists_holds [OF assms(2-4)]] kbd_holds_length kbd_holds_full
  by fastforce

text \<open>
  C26. One keyboard interrupt, on every scancode: escape panics; otherwise shift, caps lock and the
  set of held keys follow the key event, a key that goes down types at most one character, which
  joins the waiting ones if an event is free, and the interrupt is acknowledged at the local APIC
  as the handler's last access.
\<close>

theorem keyboard_irq_correct:
  assumes "kbd_holds s cs"
  defines "scancode \<equiv> ucast (inputs s (reads s)) :: u8"
  shows "case keyboard_irq_handler s of
      Inl p \<Rightarrow> p = Panic ''Forced panic via ESC key'' \<and> scancode = 1
    | Inr t \<Rightarrow> scancode \<noteq> 1 \<and> kbd_holds t (take 128 (cs @ typed scancode s)) \<and>
        trace t = trace s @ [In8 0x60, Write32 (lapic_base s + 0xB0) 0] \<and>
        (case key_event_of scancode of
           Shift b \<Rightarrow> shift_pressed t = b \<and> caps_lock t = caps_lock s \<and> scancode_down t = scancode_down s
         | Caps \<Rightarrow> shift_pressed t = shift_pressed s \<and> caps_lock t = (\<not> caps_lock s) \<and>
             scancode_down t = scancode_down s
         | Release k \<Rightarrow> shift_pressed t = shift_pressed s \<and> caps_lock t = caps_lock s \<and>
             scancode_down t = (scancode_down s)(k := False)
         | Press k \<Rightarrow> shift_pressed t = shift_pressed s \<and> caps_lock t = caps_lock s \<and>
             scancode_down t = (scancode_down s)(k := True))"
proof (cases "scancode = 1")
  case True
  then show ?thesis
    by (simp add: keyboard_irq_handler_def inb_eq scancode_def)
next
  case False
  let ?s = "snd (inb 0x60 s)"
  let ?t = "lapic_eoi (keyboard_process_scancode scancode ?s)"
  have irq: "keyboard_irq_handler s = Inr ?t"
    using False by (simp add: keyboard_irq_handler_def inb_eq scancode_def)
  have "kbd_holds ?t (take 128 (cs @ typed scancode s))"
    using irq_holds [OF assms(1)] by (simp add: irq flip: scancode_def)
  then show ?thesis
    using False by (simp add: irq irq_fields key_effect_def split: key_event.split) (simp add: inb_eq)
qed

text \<open>
  Caps lock is not debounced as the other keys are: the repeated scancodes of a key that is held
  toggle it each time, so that its state depends on how often the keyboard repeated.
\<close>

theorem caps_lock_repeat_toggles:
  "keyboard_process_scancode 0x3A (keyboard_process_scancode 0x3A s) = s"
  by (simp add: keyboard_process_scancode_def)

text \<open>Releasing one shift key ends the shift although the other one is still held.\<close>

theorem shift_release_forgets_other:
  "shift_pressed (keyboard_process_scancode 0xAA
     (keyboard_process_scancode 0x36 (keyboard_process_scancode 0x2A s))) = False"
  by (simp add: keyboard_process_scancode_def)

section \<open>Witnesses\<close>

definition sample_keyboard :: "(nat \<Rightarrow> u32) \<Rightarrow> keyboard" where
  "sample_keyboard inp = io.extend (sample_io inp)
     \<lparr>kbd_pool = 0x10000, kbd_char = (\<lambda>_. 0), kbd_nodes = (\<lambda>_. \<lparr>nxt = 0, prv = 0\<rparr>),
      kbd_free_list = 0x8000, kbd_pending_list = 0x8010,
      shift_pressed = False, caps_lock = False, scancode_down = (\<lambda>_. False)\<rparr>"

lemma sample_keyboard_fields [simp]:
  "inputs (sample_keyboard inp) = inp" "reads (sample_keyboard inp) = 0"
  "kbd_pool (sample_keyboard inp) = 0x10000" "kbd_free_list (sample_keyboard inp) = 0x8000"
  "kbd_pending_list (sample_keyboard inp) = 0x8010" "scancode_down (sample_keyboard inp) k = False"
  "shift_pressed (sample_keyboard inp) = False" "caps_lock (sample_keyboard inp) = False"
  by (simp_all add: sample_keyboard_def io.extend_def sample_io_def kernel.extend_def)

lemma sample_anchors: "0x8000 \<notin> pool_nodes 0x10000" "0x8010 \<notin> pool_nodes 0x10000"
proof -
  have "evt_list (0x10000 + 24 * i) \<noteq> a" if "a < 0x10000" "i < 128" for a i :: u64
  proof -
    have "unat (evt_list (0x10000 + 24 * i)) = 0x10008 + 24 * unat i"
      using that(2) by (simp add: evt_list_def word_less_nat_alt unat_word_ariths)
    then show ?thesis
      using that(1) by (auto simp: word_less_nat_alt)
  qed
  then show "0x8000 \<notin> pool_nodes 0x10000" "0x8010 \<notin> pool_nodes 0x10000"
    by (auto simp: kbd_pool_nodes_iff dest: not_sym)
qed

lemma sample_keyboard_holds: "kbd_holds (kbd_init_lists (sample_keyboard inp)) []"
  by (rule kbd_init_lists_holds) (simp_all add: sample_anchors)

text \<open>The key A, typed and not yet read.\<close>

theorem keyboard_fifo_witness:
  "\<exists>t cs. kbd_run (kbd_init_lists (sample_keyboard (\<lambda>_. 0x1E))) [97] [] t \<and>
     kbd_holds t cs \<and> [] @ cs = [97]"
proof -
  let ?s = "kbd_init_lists (sample_keyboard (\<lambda>_. 0x1E))"
  obtain u where u: "keyboard_irq_handler ?s = Inr u"
    by (auto simp: keyboard_irq_handler_def inb_eq kbd_init_fields)
  have "\<not> list_empty (kbd_nodes ?s) (kbd_free_list ?s)"
    using kbd_holds_full [OF sample_keyboard_holds] by simp
  moreover have "typed 0x1E ?s = [97]"
    by (simp add: typed_def key_event_of_def kbd_init_fields scancode_ascii_nomod_def ch_def)
  ultimately have run: "kbd_run ?s [97] [] u"
    using run_irq [OF run_start u] by (simp add: kbd_init_fields)
  then show ?thesis
    using keyboard_fifo [OF run] by (auto simp: sample_anchors)
qed

theorem keyboard_irq_correct_witness:
  "case keyboard_irq_handler (kbd_init_lists (sample_keyboard (\<lambda>_. 0x2A))) of
     Inl p \<Rightarrow> False | Inr t \<Rightarrow> shift_pressed t \<and> kbd_holds t []"
  using keyboard_irq_correct [OF sample_keyboard_holds, of "\<lambda>_. 0x2A"]
  by (simp add: kbd_init_fields typed_def key_event_of_def split: sum.splits)

end
