(* ===== verification/Mem32.thy ===== *)
theory Mem32
  imports Mem
begin

text \<open>
  Accesses of 32 bits to the byte memory, in little-endian order: the fields of the firmware's
  tables and the pixels of a framebuffer.
\<close>

definition rd32 :: "mem \<Rightarrow> u64 \<Rightarrow> u32" where
  "rd32 m a =
     ucast (m a) OR push_bit 8 (ucast (m (a + 1))) OR push_bit 16 (ucast (m (a + 2))) OR
     push_bit 24 (ucast (m (a + 3)))"

definition wr32 :: "mem \<Rightarrow> u64 \<Rightarrow> u32 \<Rightarrow> mem" where
  "wr32 m a v = (\<lambda>x. if x - a < 4 then ucast (drop_bit (8 * unat (x - a)) v) else m x)"

lemma lt4_cases:
  fixes j :: nat
  assumes "j < 4"
  obtains "j = 0" | "j = 1" | "j = 2" | "j = 3"
  using assms by linarith

lemma bit_rd32:
  "bit (rd32 m a) n \<longleftrightarrow> n < 32 \<and> bit (m (a + of_nat (n div 8))) (n mod 8)"
proof (cases "n < 32")
  case True
  obtain j r where n: "n = 8 * j + r" and r: "r < 8"
    by (metis mod_less_divisor mult_div_mod_eq zero_less_numeral)
  have j: "j < 4" and jr: "n div 8 = j" "n mod 8 = r"
    using True n r by auto
  have hi: "\<And>x :: u8. \<And>k. 8 \<le> k \<Longrightarrow> \<not> bit x k"
    by (auto dest: bit_imp_le_length)
  show ?thesis
    unfolding rd32_def jr unfolding n
    using r by (cases rule: lt4_cases [OF j]) (simp_all add: bit_simps hi)
next
  case False
  then show ?thesis
    by (auto dest: bit_imp_le_length)
qed

lemma unat_lt4:
  fixes x :: u64
  shows "x < 4 \<longleftrightarrow> unat x < 4"
  by (simp add: word_less_nat_alt)

lemma rd32_wr32_same [simp]: "rd32 (wr32 m a v) a = v"
proof (rule bit_eqI)
  fix n
  show "bit (rd32 (wr32 m a v) a) n = bit v n"
  proof (cases "n < 32")
    case True
    then have lt: "n div 8 < 4"
      by linarith
    then have "unat (word_of_nat (n div 8) :: u64) = n div 8"
      by (simp add: unat_of_nat)
    with True lt show ?thesis
      by (simp add: bit_rd32 wr32_def bit_simps unat_lt4 del: div_less)
  next
    case False
    then show ?thesis
      by (auto simp: bit_rd32 dest: bit_imp_le_length)
  qed
qed

lemma rd32_cong:
  assumes "\<And>i. i < 4 \<Longrightarrow> m (a + i) = m' (a' + i)"
  shows "rd32 m a = rd32 m' a'"
  using assms [of 0] assms [of 1] assms [of 2] assms [of 3] by (simp add: rd32_def)

lemma wr32_outside: "\<not> x - a < 4 \<Longrightarrow> wr32 m a v x = m x"
  by (simp add: wr32_def)

text \<open>Two four-byte cells that do not overlap.\<close>

definition apart4 :: "u64 \<Rightarrow> u64 \<Rightarrow> bool" where
  "apart4 a b \<longleftrightarrow> 4 \<le> a - b \<and> 4 \<le> b - a"

lemma diff_less_4:
  fixes i j :: u64
  assumes "i < 4" and "j < 4"
  shows "i - j < 4 \<or> j - i < 4"
  using assms by (rule diff_less)

lemma rd32_wr32_apart:
  assumes "apart4 a b"
  shows "rd32 (wr32 m a v) b = rd32 m b"
proof (rule rd32_cong)
  fix i :: u64
  assume i: "i < 4"
  have "\<not> b + i - a < 4"
  proof
    assume lt: "b + i - a < 4"
    have "b - a = (b + i - a) - i" and "a - b = i - (b + i - a)"
      by simp_all
    with assms lt i show False
      unfolding apart4_def by (metis diff_less_4 not_le)
  qed
  then show "wr32 m a v (b + i) = m (b + i)"
    by (rule wr32_outside)
qed

end
