(* ===== verification/Timer.thy ===== *)
theory Timer
  imports Keyboard Mem32
begin

text \<open>
  Time: the firmware tables that name the power-management timer (\<^verbatim>\<open>drivers/acpi.c\<close>), the local
  APIC's timer that is calibrated against it (\<^verbatim>\<open>drivers/lapic_timer.c\<close>) and the generic timer
  layer with \<^verbatim>\<open>sleep_ms\<close> (\<^verbatim>\<open>kernel/timer/timer.c\<close>).
\<close>

section \<open>The firmware tables\<close>

text \<open>The members of the packed structures that are read, by their offsets.\<close>

definition rsdp_revision :: "mem \<Rightarrow> u64 \<Rightarrow> u8" where "rsdp_revision m p = m (p + 15)"
definition rsdp_rsdt_address :: "mem \<Rightarrow> u64 \<Rightarrow> u32" where "rsdp_rsdt_address m p = rd32 m (p + 16)"
definition rsdp_xsdt_address :: "mem \<Rightarrow> u64 \<Rightarrow> u64" where "rsdp_xsdt_address m p = rd64 m (p + 24)"
definition acpi_length :: "mem \<Rightarrow> u64 \<Rightarrow> u32" where "acpi_length m p = rd32 m (p + 4)"
definition sizeof_acpi_header :: u64 where "sizeof_acpi_header = 36"
definition fadt_pm_timer_block :: "mem \<Rightarrow> u64 \<Rightarrow> u32" where "fadt_pm_timer_block m p = rd32 m (p + 76)"

definition has_facp_signature :: "mem \<Rightarrow> u64 \<Rightarrow> bool" where
  "has_facp_signature m header \<longleftrightarrow>
     m header = ch (CHR ''F'') \<and> m (header + 1) = ch (CHR ''A'') \<and>
     m (header + 2) = ch (CHR ''C'') \<and> m (header + 3) = ch (CHR ''P'')"

text \<open>
  Sizes are \<^verbatim>\<open>size_t\<close>: the subtraction is done in 64 bits and only the quotient is truncated.
\<close>

definition get_acpi_pm_timer_port :: "boot_info \<Rightarrow> mem \<Rightarrow> u16 outcome" where
  "get_acpi_pm_timer_port b m =
     (case rsdp_response b of None \<Rightarrow> Inr 0 | Some rsdp \<Rightarrow>
      if rsdp = NULL then Inr 0 else
      case hhdm_response b of None \<Rightarrow> Inl Bad_access | Some offset \<Rightarrow>
      if rsdp_revision m rsdp \<ge> 2 \<and> rsdp_xsdt_address m rsdp \<noteq> 0 then
        let xsdt = rsdp_xsdt_address m rsdp + offset;
            entries = (ucast ((ucast (acpi_length m xsdt) - sizeof_acpi_header) div 8) :: u32);
            pointers = xsdt + sizeof_acpi_header
        in case for_until 0 (ucast entries) (\<lambda>i u.
                  let header = rd64 m (pointers + 8 * i) + offset
                  in if has_facp_signature m header
                     then Inr (ucast (fadt_pm_timer_block m header)) else Inl u) () of
             Inr port \<Rightarrow> Inr port | Inl u \<Rightarrow> Inr 0
      else
        let rsdt = ucast (rsdp_rsdt_address m rsdp) + offset;
            entries = (ucast ((ucast (acpi_length m rsdt) - sizeof_acpi_header) div 4) :: u32);
            pointers = rsdt + sizeof_acpi_header
        in case for_until 0 (ucast entries) (\<lambda>i u.
                  let header = ucast (rd32 m (pointers + 4 * i)) + offset
                  in if has_facp_signature m header
                     then Inr (ucast (fadt_pm_timer_block m header)) else Inl u) () of
             Inr port \<Rightarrow> Inr port | Inl u \<Rightarrow> Inr 0)"

section \<open>The timer layer\<close>

text \<open>
  The function pointers of a device are arguments of the functions that call them; a pointer that
  may be null is an option. A device's frequency is in the store \<open>device_frequency\<close>, its list node
  at \<open>device_node\<close>.
\<close>

record timers = keyboard +
  timer_nodes :: nodes
  timer_list :: u64
  active_timer :: u64
  device_frequency :: "u64 \<Rightarrow> u32"
  lapic_timer_dev :: u64
  lapic_timer_ticks :: u64
  selected_divider :: u32

definition device_node :: "u64 \<Rightarrow> u64" where "device_node dev = dev + 32"

definition get_registered_timers :: "'a timers_scheme \<Rightarrow> u64" where
  "get_registered_timers s = timer_list s"

definition set_active_timer :: "u64 \<Rightarrow> 'a timers_scheme \<Rightarrow> 'a timers_scheme" where
  "set_active_timer timer s = s\<lparr>active_timer := timer\<rparr>"

definition get_active_timer :: "'a timers_scheme \<Rightarrow> u64" where
  "get_active_timer s = active_timer s"

text \<open>An initialisation that does not return is \<open>None\<close>.\<close>

definition timer_register ::
  "(u32 \<Rightarrow> 'a timers_scheme \<Rightarrow> 'a timers_scheme outcome option) option \<Rightarrow>
   u64 \<Rightarrow> u32 \<Rightarrow> 'a timers_scheme \<Rightarrow> 'a timers_scheme outcome option" where
  "timer_register init timer frequency s =
     (if timer = NULL then Some (Inr s) else
      let s = s\<lparr>device_frequency := (device_frequency s)(timer := frequency)\<rparr>;
          s = s\<lparr>timer_nodes := INIT_LIST_HEAD (timer_nodes s) (device_node timer)\<rparr>
      in case (case init of Some f \<Rightarrow> f frequency s | None \<Rightarrow> Some (Inr s)) of
           None \<Rightarrow> None
         | Some r \<Rightarrow> Some (bind_ok r (\<lambda>s.
             let s = s\<lparr>timer_nodes := list_add_tail (timer_nodes s) (device_node timer) (timer_list s)\<rparr>
             in Inr (if active_timer s = NULL then set_active_timer timer s else s))))"

text \<open>
  \<open>intr\<close> is what happens from the \<^verbatim>\<open>hlt\<close> to the next instruction of this thread: the interrupts
  that wake the processor, and the other threads they may switch to.
\<close>

partial_function (option) sleep_until ::
  "('a timers_scheme \<Rightarrow> u64) \<Rightarrow> ('a timers_scheme \<Rightarrow> 'a timers_scheme outcome) \<Rightarrow> u64 \<Rightarrow>
   'a timers_scheme \<Rightarrow> 'a timers_scheme outcome option" where
  "sleep_until get_ticks intr target s =
     (if get_ticks s < target then
        (case intr (halt_sti s) of
           Inl p \<Rightarrow> Some (Inl p)
         | Inr s \<Rightarrow> sleep_until get_ticks intr target s)
      else Some (Inr s))"

definition sleep_ticks :: "u32 \<Rightarrow> u32 \<Rightarrow> u64" where
  "sleep_ticks ms frequency =
     (let ticks_to_wait = (ucast ms * ucast frequency) div 1000
      in if ticks_to_wait = 0 \<and> ms > 0 then 1 else ticks_to_wait)"

definition sleep_ms ::
  "('a timers_scheme \<Rightarrow> u64) option \<Rightarrow> ('a timers_scheme \<Rightarrow> 'a timers_scheme outcome) \<Rightarrow> u32 \<Rightarrow>
   'a timers_scheme \<Rightarrow> 'a timers_scheme outcome option" where
  "sleep_ms ticks_fn intr ms s =
     (if active_timer s = NULL \<or> device_frequency s (active_timer s) = 0 then Some (Inr s) else
      case ticks_fn of None \<Rightarrow> Some (Inr s) | Some get_ticks \<Rightarrow>
        let start = get_ticks s;
            ticks_to_wait = sleep_ticks ms (device_frequency s (active_timer s));
            target = start + ticks_to_wait
        in sleep_until get_ticks intr target s)"

definition timer_set_tick_callback :: "bool \<Rightarrow> 'a kernel_scheme \<Rightarrow> 'a kernel_scheme" where
  "timer_set_tick_callback callback s = s\<lparr>tick_callback := callback\<rparr>"

text \<open>
  The function the pointer leads to is an argument; \<open>tick_callback\<close> says whether the pointer is set.
  The kernel sets it to \<^verbatim>\<open>sched_on_tick\<close> alone (\<open>run_handler\<close>).
\<close>

definition timer_tick_event ::
  "('a kernel_scheme \<Rightarrow> 'a kernel_scheme outcome) \<Rightarrow> 'a kernel_scheme \<Rightarrow> 'a kernel_scheme outcome" where
  "timer_tick_event callback s = (if tick_callback s then callback s else Inr s)"

section \<open>The local APIC timer\<close>

definition LAPIC_TIMER_VECTOR :: u32 where "LAPIC_TIMER_VECTOR = 0x20"
definition LAPIC_TIMER_PERIODIC :: u32 where "LAPIC_TIMER_PERIODIC = 0x20000"
definition LAPIC_TIMER_DIV_16 :: u32 where "LAPIC_TIMER_DIV_16 = 3"
definition ACPI_PM_FREQ :: u32 where "ACPI_PM_FREQ = 3579545"

definition pm_elapsed :: "u32 \<Rightarrow> u32 \<Rightarrow> u32 \<Rightarrow> u32" where
  "pm_elapsed start current elapsed =
     (if current \<ge> start then elapsed + (current - start)
      else elapsed + ((0x00FFFFFF - start) + current))"

partial_function (option) acpi_pm_wait ::
  "u16 \<Rightarrow> u32 \<Rightarrow> u32 \<Rightarrow> u32 \<Rightarrow> 'a io_scheme \<Rightarrow> 'a io_scheme option" where
  "acpi_pm_wait pm_port target_ticks start elapsed s =
     (if elapsed < target_ticks then
        (case inl pm_port s of (v, s) \<Rightarrow>
           let current = v AND 0x00FFFFFF
           in acpi_pm_wait pm_port target_ticks current (pm_elapsed start current elapsed) (pause s))
      else Some s)"

definition acpi_pm_delay_ms :: "u16 \<Rightarrow> u32 \<Rightarrow> 'a io_scheme \<Rightarrow> 'a io_scheme option" where
  "acpi_pm_delay_ms pm_port ms s =
     (let target_ticks = (ms * ACPI_PM_FREQ) div 1000;
          (v, s) = inl pm_port s;
          start = v AND 0x00FFFFFF
      in acpi_pm_wait pm_port target_ticks start 0 s)"

text \<open>The calibration: how far the timer counts down in ten milliseconds.\<close>

definition lapic_timer_calibrate :: "u16 \<Rightarrow> u32 \<Rightarrow> 'a timers_scheme \<Rightarrow> (u32 \<times> 'a timers_scheme) option" where
  "lapic_timer_calibrate pm_port frequency s =
     (let s = lapic_write LAPIC_TDCR (selected_divider s) s;
          s = lapic_write LAPIC_TIMER LAPIC_TIMER_VECTOR s;
          s = lapic_write LAPIC_TICR 0xFFFFFFFF s
      in case acpi_pm_delay_ms pm_port 10 s of
           None \<Rightarrow> None
         | Some s \<Rightarrow>
             let (current_count, s) = lapic_read LAPIC_TCCR s;
                 elapsed_ticks = 0xFFFFFFFF - current_count;
                 ticks_per_ms = elapsed_ticks div 10
             in Some ((ticks_per_ms * 1000) div frequency, s))"

definition lapic_timer_init_callback ::
  "boot_info \<Rightarrow> u32 \<Rightarrow> 'a timers_scheme \<Rightarrow> 'a timers_scheme outcome option" where
  "lapic_timer_init_callback b frequency s =
     (let frequency = (if frequency = 0 then 1000 else frequency) in
      case get_acpi_pm_timer_port b (mem s) of
        Inl p \<Rightarrow> Some (Inl p)
      | Inr pm_port \<Rightarrow>
          case (if pm_port \<noteq> 0 then lapic_timer_calibrate pm_port frequency s else Some (0, s)) of
            None \<Rightarrow> None
          | Some (initial_count, s) \<Rightarrow>
              let initial_count = (if initial_count = 0 then 100000000 div frequency else initial_count);
                  s = lapic_write LAPIC_TDCR (selected_divider s) s;
                  s = lapic_write LAPIC_TIMER (LAPIC_TIMER_VECTOR OR LAPIC_TIMER_PERIODIC) s
              in Some (Inr (lapic_write LAPIC_TICR initial_count s)))"

definition lapic_timer_get_ticks :: "'a timers_scheme \<Rightarrow> u64" where
  "lapic_timer_get_ticks s = lapic_timer_ticks s"

definition lapic_timer_irq_handler ::
  "('a timers_scheme \<Rightarrow> 'a timers_scheme outcome) \<Rightarrow> 'a timers_scheme \<Rightarrow> 'a timers_scheme outcome" where
  "lapic_timer_irq_handler callback s =
     (let s = s\<lparr>lapic_timer_ticks := lapic_timer_ticks s + 1\<rparr>;
          s = lapic_eoi s
      in timer_tick_event callback s)"

definition lapic_timer_device_init ::
  "boot_info \<Rightarrow> u32 \<Rightarrow> 'a timers_scheme \<Rightarrow> 'a timers_scheme outcome option" where
  "lapic_timer_device_init b divider s =
     (let s = s\<lparr>selected_divider := divider\<rparr>
      in timer_register (Some (lapic_timer_init_callback b)) (lapic_timer_dev s) 1000 s)"

section \<open>Searching the tables\<close>

lemma for_until_find:
  "for_until i n (\<lambda>i u. if P i then Inr (r i) else Inl u) s =
     (case List.find P (map of_nat [unat i..<unat n]) of None \<Rightarrow> Inl s | Some i \<Rightarrow> Inr (r i))"
proof (induction "unat n - unat i" arbitrary: i)
  case 0
  then show ?case
    by (simp add: for_until_done word_less_nat_alt)
next
  case (Suc k)
  then have lt: "i < n"
    by (simp add: word_less_nat_alt)
  then have "unat (i + 1) = Suc (unat i)"
    by (rule unat_succ_less)
  moreover from this have "for_until (i + 1) n (\<lambda>i u. if P i then Inr (r i) else Inl u) s =
      (case List.find P (map of_nat [unat (i + 1)..<unat n]) of None \<Rightarrow> Inl s | Some i \<Rightarrow> Inr (r i))"
    using Suc by (intro Suc.hyps(1)) simp
  ultimately show ?case
    using lt by (subst for_until.simps) (simp add: word_less_nat_alt upt_conv_Cons)
qed

lemma for_until_find_in:
  "for_until 0 n (\<lambda>i u. if P (h i) then Inr (r (h i)) else Inl u) s =
     (case List.find P (map (\<lambda>k. h (of_nat k)) [0..<unat n]) of None \<Rightarrow> Inl s | Some x \<Rightarrow> Inr (r x))"
proof -
  have "List.find P (map h xs) = map_option h (List.find (\<lambda>i. P (h i)) xs)" for xs
    by (induction xs) auto
  from this [of "map of_nat [0..<unat n]"] show ?thesis
    by (simp add: for_until_find [of 0 n "\<lambda>i. P (h i)" "\<lambda>i. r (h i)"] o_def split: option.split)
qed

text \<open>The tables the root table lists: of 8-byte entries if there is an extended one, else of 4.\<close>

definition acpi_tables :: "mem \<Rightarrow> u64 \<Rightarrow> u64 \<Rightarrow> u64 list" where
  "acpi_tables m rsdp offset =
     (if rsdp_revision m rsdp \<ge> 2 \<and> rsdp_xsdt_address m rsdp \<noteq> 0 then
        let root = rsdp_xsdt_address m rsdp + offset
        in map (\<lambda>k. rd64 m (root + 36 + 8 * of_nat k) + offset)
             [0..<unat (ucast ((ucast (acpi_length m root) - 36 :: u64) div 8) :: u32)]
      else
        let root = ucast (rsdp_rsdt_address m rsdp) + offset
        in map (\<lambda>k. ucast (rd32 m (root + 36 + 4 * of_nat k)) + offset)
             [0..<unat (ucast ((ucast (acpi_length m root) - 36 :: u64) div 4) :: u32)])"

lemma get_acpi_pm_timer_port_eq:
  "get_acpi_pm_timer_port b m =
     (case (rsdp_response b, hhdm_response b) of
        (None, _) \<Rightarrow> Inr 0
      | (Some rsdp, off) \<Rightarrow> if rsdp = 0 then Inr 0 else
          (case off of None \<Rightarrow> Inl Bad_access | Some offset \<Rightarrow>
             Inr (case List.find (has_facp_signature m) (acpi_tables m rsdp offset) of
                    None \<Rightarrow> 0 | Some fadt \<Rightarrow> ucast (fadt_pm_timer_block m fadt))))"
proof -
  have u: "unat (ucast w :: u64) = unat w" for w :: u32
    using unsigned_less [of w, where 'a = nat] by (simp add: unsigned_ucast_eq take_bit_nat_eq_self)
  note find = for_until_find_in [where P = "has_facp_signature m" and
      r = "\<lambda>h. ucast (fadt_pm_timer_block m h) :: u16"]
  have "for_until 0 (ucast n) (\<lambda>i u.
           if has_facp_signature m (rd64 m (p + 8 * i) + off)
           then Inr (ucast (fadt_pm_timer_block m (rd64 m (p + 8 * i) + off)) :: u16) else Inl u) () =
       (case List.find (has_facp_signature m) (map (\<lambda>k. rd64 m (p + 8 * of_nat k) + off) [0..<unat n]) of
          None \<Rightarrow> Inl () | Some x \<Rightarrow> Inr (ucast (fadt_pm_timer_block m x)))"
    "for_until 0 (ucast n) (\<lambda>i u.
           if has_facp_signature m (ucast (rd32 m (p + 4 * i)) + off)
           then Inr (ucast (fadt_pm_timer_block m (ucast (rd32 m (p + 4 * i)) + off)) :: u16) else Inl u) () =
       (case List.find (has_facp_signature m) (map (\<lambda>k. ucast (rd32 m (p + 4 * of_nat k)) + off) [0..<unat n]) of
          None \<Rightarrow> Inl () | Some x \<Rightarrow> Inr (ucast (fadt_pm_timer_block m x)))"
    for n :: u32 and p off
    using find [of "ucast n" "\<lambda>i. rd64 m (p + 8 * i) + off"]
      find [of "ucast n" "\<lambda>i. ucast (rd32 m (p + 4 * i)) + off"] by (simp_all add: u)
  note find = this
  show ?thesis
    unfolding get_acpi_pm_timer_port_def acpi_tables_def Let_def sizeof_acpi_header_def NULL_def find
    by (simp split: option.split)
qed

section \<open>The delay loop\<close>

text \<open>
  \<open>T n\<close> is the true number of ticks of the power-management timer at the \<open>n\<close>-th read of a port,
  of which the port shows the low 24 bits. The loop's sum falls behind the truth by one for each
  time the 24 bits wrapped, and is exact otherwise.
\<close>

definition pm_counted :: "(nat \<Rightarrow> nat) \<Rightarrow> nat \<Rightarrow> nat \<Rightarrow> nat" where
  "pm_counted T n0 k = (T (n0 + k) - T n0) - (T (n0 + k) div 2 ^ 24 - T n0 div 2 ^ 24)"

definition pm_clock :: "(nat \<Rightarrow> nat) \<Rightarrow> (nat \<Rightarrow> u32) \<Rightarrow> bool" where
  "pm_clock T inp \<longleftrightarrow>
     (\<forall>n. inp n AND 0x00FFFFFF = of_nat (T n mod 2 ^ 24) \<and> T n \<le> T (n + 1) \<and> T (n + 1) < T n + 2 ^ 24) \<and>
     (\<forall>N. \<exists>n. N \<le> T n)"

lemma pm_clock_mono: "pm_clock T inp \<Longrightarrow> m \<le> n \<Longrightarrow> T m \<le> T n"
  by (rule lift_Suc_mono_le [of T]) (auto simp: pm_clock_def)

lemma div_le_diff:
  fixes a b M :: nat
  assumes "a \<le> b" and "0 < M"
  shows "b div M - a div M \<le> b - a"
proof -
  have "b \<le> a + M * (b - a)"
  proof -
    have "b - a \<le> M * (b - a)"
      using assms(2) by simp
    then show ?thesis
      using assms(1) by linarith
  qed
  then have "b div M \<le> (a + M * (b - a)) div M"
    by (rule div_le_mono)
  also have "\<dots> = a div M + (b - a)"
    using assms(2) by simp
  finally show ?thesis
    by simp
qed

text \<open>One turn, in terms of quotient and remainder of two successive readings.\<close>

lemma pm_step_nat:
  fixes a b M :: nat
  assumes "a \<le> b" "b < a + M"
  shows "(if a mod M \<le> b mod M then b mod M - a mod M else (M - 1 - a mod M) + b mod M) +
           (b div M - a div M) = b - a"
proof -
  have same: "(if ra \<le> rb then rb - ra else (M - 1 - ra) + rb) = b - a"
    if "a = x + ra" "b = x + rb" "a \<le> b" for a x ra b rb :: nat
    using that by simp
  have wrap: "(M - 1 - ra) + rb + 1 = b - a"
    if "a = x + ra" "b = x + M + rb" "ra < M" "b < a + M" for a x ra b rb :: nat
    using that by simp
  have M: "0 < M"
    using assms by simp
  have eq: "a = M * (a div M) + a mod M" "b = M * (b div M) + b mod M" and r: "a mod M < M" "b mod M < M"
    using M by simp_all
  have "b div M \<le> (a + M) div M" "a div M \<le> b div M"
    using assms by (simp_all add: div_le_mono)
  then consider "b div M = a div M" | "b div M = Suc (a div M)"
    using div_add_self2 [of M a] M by fastforce
  then show ?thesis
  proof cases
    case 1
    then have "a mod M \<le> b mod M"
      using eq assms(1) by (metis add_le_cancel_left)
    then show ?thesis
      using 1 same [of a "M * (a div M)" "a mod M" b "b mod M"] eq assms(1) by simp
  next
    case 2
    then have b: "b = M * (a div M) + M + b mod M"
      using eq(2) by simp
    have "\<not> a mod M \<le> b mod M"
      using b eq(1) assms(2) by linarith
    moreover have "(M - 1 - a mod M) + b mod M + 1 = b - a"
      by (rule wrap [OF eq(1) b r(1) assms(2)])
    ultimately show ?thesis
      by (simp only: 2 if_not_P not_False_eq_True)
  qed
qed

lemma counted_step:
  fixes x y z d qx qy qz :: nat
  assumes "d + (qy - qx) = y - x" and "z \<le> x" "x \<le> y" "qz \<le> qx" "qx \<le> qy" "qx - qz \<le> x - z"
  shows "(y - z) - (qy - qz) = (x - z) - (qx - qz) + d"
  using assms by linarith

lemma pm_counted_Suc:
  assumes "pm_clock T inp"
  defines "r n \<equiv> T n mod 16777216"
  shows "pm_counted T n0 (Suc k) = pm_counted T n0 k +
      (if r (n0 + k) \<le> r (n0 + Suc k) then r (n0 + Suc k) - r (n0 + k)
       else (16777215 - r (n0 + k)) + r (n0 + Suc k))"
proof -
  have m: "T n0 \<le> T (n0 + k)" "T (n0 + k) \<le> T (n0 + Suc k)" "T (n0 + Suc k) < T (n0 + k) + 16777216"
    using assms(1) pm_clock_mono [OF assms(1)] by (auto simp: pm_clock_def)
  have d: "T n0 div 16777216 \<le> T (n0 + k) div 16777216"
    "T (n0 + k) div 16777216 \<le> T (n0 + Suc k) div 16777216"
    using m by (simp_all add: div_le_mono)
  show ?thesis
    unfolding pm_counted_def r_def
    using counted_step [OF pm_step_nat [OF m(2,3)] m(1,2) d div_le_diff [OF m(1)]] by simp
qed

lemma pm_elapsed_counted:
  assumes "pm_clock T inp"
  shows "pm_elapsed (inp (n0 + k) AND 0x00FFFFFF) (inp (n0 + Suc k) AND 0x00FFFFFF)
           (of_nat (pm_counted T n0 k)) = of_nat (pm_counted T n0 (Suc k))"
proof -
  let ?r = "\<lambda>n. T n mod 16777216"
  have inp: "inp n AND 0x00FFFFFF = of_nat (?r n)" for n
    using assms by (simp add: pm_clock_def)
  have lt: "?r n < 2 ^ 32" "?r n \<le> 16777215" for n
    using mod_less_divisor [of 16777216 "T n"] by simp_all
  have le: "(of_nat (?r m) :: u32) \<le> of_nat (?r n) \<longleftrightarrow> ?r m \<le> ?r n" for m n
    using lt [of m] lt [of n] by (simp add: word_le_nat_alt unat_of_nat)
  show ?thesis
    using lt(2) [of "n0 + k"]
    by (simp add: pm_elapsed_def inp le pm_counted_Suc [OF assms] of_nat_diff)
qed

lemma pm_counted_0 [simp]: "pm_counted T n0 0 = 0"
  by (simp add: pm_counted_def)

lemma acpi_pm_wait_returns:
  assumes clock: "pm_clock T (inputs s)"
    and reads: "reads s = n0 + Suc k"
    and before: "\<forall>j<l. pm_counted T n0 (k + j) < unat target"
    and reached: "unat target \<le> pm_counted T n0 (k + l)" "pm_counted T n0 (k + l) < 2 ^ 32"
  shows "\<exists>log. acpi_pm_wait port target (inputs s (n0 + k) AND 0x00FFFFFF) (of_nat (pm_counted T n0 k)) s =
           Some (s\<lparr>reads := n0 + Suc (k + l), trace := log\<rparr>)"
  using assms
proof (induction l arbitrary: k s)
  case 0
  then have "\<not> of_nat (pm_counted T n0 k) < target"
    by (simp add: word_less_nat_alt unat_of_nat)
  moreover have "s\<lparr>reads := n0 + Suc (k + 0), trace := trace s\<rparr> = s"
    using "0.prems"(2) by simp
  ultimately show ?case
    by (subst acpi_pm_wait.simps) (auto intro!: exI [of _ "trace s"])
next
  case (Suc l)
  let ?s = "s\<lparr>reads := n0 + Suc (Suc k), trace := trace s @ [In32 port, Pause]\<rparr>"
  have "pm_counted T n0 k < unat target"
    using Suc.prems(3) by force
  then have lt: "of_nat (pm_counted T n0 k) < target"
    using unsigned_less [of target, where 'a = nat] by (simp add: word_less_nat_alt unat_of_nat)
  have rd: "inl port s = (inputs s (n0 + Suc k), s\<lparr>reads := n0 + Suc (Suc k), trace := trace s @ [In32 port]\<rparr>)"
    using Suc.prems(2) by (simp add: inl_def next_input_def note_access_def)
  have "acpi_pm_wait port target (inputs s (n0 + k) AND 0x00FFFFFF) (of_nat (pm_counted T n0 k)) s =
      acpi_pm_wait port target (inputs ?s (n0 + Suc k) AND 0x00FFFFFF) (of_nat (pm_counted T n0 (Suc k))) ?s"
    using pm_elapsed_counted [OF Suc.prems(1), of n0 k]
    by (simp add: acpi_pm_wait.simps [of _ _ _ _ s] lt rd Let_def pause_def note_access_def)
  moreover have "\<exists>log. acpi_pm_wait port target (inputs ?s (n0 + Suc k) AND 0x00FFFFFF)
      (of_nat (pm_counted T n0 (Suc k))) ?s = Some (?s\<lparr>reads := n0 + Suc (Suc k + l), trace := log\<rparr>)"
    using Suc.prems by (intro Suc.IH) auto
  ultimately show ?case
    by auto
qed

lemma pm_counted_bound:
  assumes "pm_clock T inp"
  shows "pm_counted T n0 (Suc k) \<le> pm_counted T n0 k + 2 ^ 24"
proof -
  have "T n mod 16777216 < 16777216" for n
    by simp
  then show ?thesis
    using pm_counted_Suc [OF assms, of n0 k] by (simp add: less_imp_le split: if_splits)
qed

text \<open>A clock that goes on gets past every target.\<close>

lemma pm_counted_unbounded:
  assumes "pm_clock T inp"
  shows "\<exists>k. N \<le> pm_counted T n0 k"
proof -
  obtain n where n: "2 * (N + 1) + T n0 \<le> T n"
    using assms by (auto simp: pm_clock_def)
  define k where "k = n - n0"
  have "T n \<le> T (n0 + k)"
    using pm_clock_mono [OF assms, of n "n0 + k"] by (simp add: k_def)
  then have enough: "2 * (N + 1) \<le> T (n0 + k) - T n0"
    using n by simp
  have half: "N \<le> x - y" if "2 * (N + 1) \<le> x" "y \<le> x div 2 + 1" for x y :: nat
    using that by presburger
  have "T (n0 + k) div 16777216 - T n0 div 16777216 \<le> (T (n0 + k) - T n0) div 2 + 1"
    by linarith
  from half [OF enough this] show ?thesis
    by (intro exI [of _ k]) (simp add: pm_counted_def)
qed

lemma acpi_pm_delay_returns:
  assumes clock: "pm_clock T (inputs s)" and ms: "unat ms * 3579545 < 2 ^ 32"
  shows "\<exists>k log. acpi_pm_delay_ms port ms s = Some (s\<lparr>reads := reads s + Suc k, trace := log\<rparr>) \<and>
           unat ms * 3579545 div 1000 \<le> pm_counted T (reads s) k \<and>
           (\<forall>j<k. pm_counted T (reads s) j < unat ms * 3579545 div 1000)"
proof -
  let ?target = "ms * ACPI_PM_FREQ div 1000"
  have target: "unat ?target = unat ms * 3579545 div 1000"
    using ms by (simp add: ACPI_PM_FREQ_def unat_div_distrib unat_word_ariths)
  obtain k where k: "unat ?target \<le> pm_counted T (reads s) k"
      "\<forall>j<k. pm_counted T (reads s) j < unat ?target"
    using pm_counted_unbounded [OF clock] exists_least_iff [of "\<lambda>k. unat ?target \<le> pm_counted T (reads s) k"]
    by (metis not_le)
  let ?s = "s\<lparr>reads := reads s + Suc 0, trace := trace s @ [In32 port]\<rparr>"
  have "pm_counted T (reads s) k < 2 ^ 32"
  proof (cases k)
    case (Suc j)
    have "unat ?target < 2 ^ 31"
      using ms by (simp add: target)
    then show ?thesis
      using pm_counted_bound [OF clock, of "reads s" j] k(2) Suc by force
  qed simp
  then have "\<exists>log. acpi_pm_wait port ?target (inputs ?s (reads s + 0) AND 0x00FFFFFF)
      (of_nat (pm_counted T (reads s) 0)) ?s = Some (?s\<lparr>reads := reads s + Suc (0 + k), trace := log\<rparr>)"
    using clock k by (intro acpi_pm_wait_returns) simp_all
  then obtain log where "acpi_pm_delay_ms port ms s = Some (s\<lparr>reads := reads s + Suc k, trace := log\<rparr>)"
    by (auto simp: acpi_pm_delay_ms_def inl_def next_input_def note_access_def)
  then show ?thesis
    using k unfolding target by blast
qed

section \<open>Sleeping\<close>

lemma unat_sleep_ticks:
  "unat (sleep_ticks ms f) =
     (let n = unat ms * unat f div 1000 in if n = 0 \<and> ms \<noteq> 0 then 1 else n)"
proof -
  have u: "unat (ucast w :: u64) = unat w" for w :: u32
    using unsigned_less [of w, where 'a = nat] by (simp add: unsigned_ucast_eq take_bit_nat_eq_self)
  have "unat ms < 2 ^ 32" "unat f < 2 ^ 32"
    using unsigned_less [of ms, where 'a = nat] unsigned_less [of f, where 'a = nat] by simp_all
  then have "unat ms * unat f \<le> 2 ^ 32 * 2 ^ 32 - 1"
    using mult_strict_mono [of "unat ms" "2 ^ 32" "unat f" "2 ^ 32"] by simp
  then have prod: "unat (ucast ms * ucast f :: u64) = unat ms * unat f"
    by (simp add: unat_word_ariths u)
  then have "unat ((ucast ms * ucast f :: u64) div 1000) = unat ms * unat f div 1000"
    by (simp add: unat_div_distrib)
  then show ?thesis
    by (simp add: sleep_ticks_def Let_def word_gt_0 unat_eq_0 [symmetric] word_unat_eq_iff)
qed

text \<open>
  The rule for sleeping: an invariant of the interrupts under which each of them returns and moves
  the tick counter on.
\<close>

lemma sleep_until_returns:
  assumes "I s"
    and "\<And>t. I t \<Longrightarrow> get_ticks t < target \<Longrightarrow>
           \<exists>u. intr (halt_sti t) = Inr u \<and> I u \<and> get_ticks t < get_ticks u"
  shows "\<exists>t. sleep_until get_ticks intr target s = Some (Inr t) \<and> I t \<and> target \<le> get_ticks t"
  using assms(1)
proof (induction "unat target - unat (get_ticks s)" arbitrary: s rule: less_induct)
  case less
  show ?case
  proof (cases "get_ticks s < target")
    case True
    then obtain u where u: "intr (halt_sti s) = Inr u" "I u" "get_ticks s < get_ticks u"
      using assms(2) less.prems by blast
    then have "unat target - unat (get_ticks u) < unat target - unat (get_ticks s)"
      using True by (simp add: word_less_nat_alt)
    from less.hyps [OF this u(2)] show ?thesis
      using True u(1) by (simp add: sleep_until.simps [of _ _ _ s])
  next
    case False
    then show ?thesis
      using less.prems by (simp add: sleep_until.simps [of _ _ _ s])
  qed
qed

lemma acpi_pm_wait_more:
  "acpi_pm_wait port target start e s = Some t \<Longrightarrow> io.more t = io.more s"
proof (induction rule: acpi_pm_wait.raw_induct [rotated, consumes 1, case_names step])
  case (step rec port target start e s t)
  show ?case
  proof (cases "e < target")
    case True
    let ?c = "fst (inl port s) AND 0x00FFFFFF"
    have "rec port target ?c (pm_elapsed start ?c e) (pause (snd (inl port s))) = Some t"
      using step.hyps True by (simp add: case_prod_beta Let_def)
    then have "io.more t = io.more (pause (snd (inl port s)))"
      by (rule step.IH)
    then show ?thesis
      by (simp add: inl_def next_input_def pause_def note_access_def)
  next
    case False
    then show ?thesis
      using step.hyps by simp
  qed
qed

lemma acpi_pm_delay_more:
  "acpi_pm_delay_ms port ms s = Some t \<Longrightarrow> io.more t = io.more s"
  by (auto simp: acpi_pm_delay_ms_def inl_def next_input_def note_access_def Let_def
      dest!: acpi_pm_wait_more)

lemma sleep_until_exact:
  assumes "I s" and "get_ticks s \<le> target"
    and "\<And>t. I t \<Longrightarrow> get_ticks t < target \<Longrightarrow>
           \<exists>u. intr (halt_sti t) = Inr u \<and> I u \<and> get_ticks u = get_ticks t + 1"
  shows "\<exists>t. sleep_until get_ticks intr target s = Some (Inr t) \<and> I t \<and> get_ticks t = target"
proof -
  let ?J = "\<lambda>t. I t \<and> get_ticks t \<le> target"
  have "\<exists>u. intr (halt_sti t) = Inr u \<and> ?J u \<and> get_ticks t < get_ticks u"
    if t: "?J t" "get_ticks t < target" for t
  proof -
    obtain u where "intr (halt_sti t) = Inr u" "I u" "get_ticks u = get_ticks t + 1"
      using assms(3) [of t] t by blast
    then show ?thesis
      using unat_succ_less [OF t(2)] word_succ_le [OF t(2)] by (auto simp: word_less_nat_alt)
  qed
  with sleep_until_returns [of ?J s get_ticks target intr] assms(1,2) show ?thesis
    by fastforce
qed

lemma sleep_ms_eq:
  assumes "active_timer s \<noteq> NULL" and "device_frequency s (active_timer s) \<noteq> 0"
  shows "sleep_ms (Some get_ticks) intr ms s =
    sleep_until get_ticks intr (get_ticks s + sleep_ticks ms (device_frequency s (active_timer s))) s"
  using assms by (simp add: sleep_ms_def Let_def)

section \<open>The timer interrupt\<close>

lemma lapic_timer_irq_no_callback:
  assumes "\<not> tick_callback s"
  shows "lapic_timer_irq_handler callback s =
     Inr (s\<lparr>lapic_timer_ticks := lapic_timer_ticks s + 1,
            trace := trace s @ [Write32 (lapic_base s + 0xB0) 0]\<rparr>)"
  using assms by (simp add: lapic_timer_irq_handler_def timer_tick_event_def lapic_eoi_def
      lapic_write_def note_access_def LAPIC_EOI_def Let_def)

lemma lapic_write_eq:
  "lapic_write reg v s = s\<lparr>trace := trace s @ [Write32 (lapic_base s + ucast reg) v]\<rparr>"
  by (simp add: lapic_write_def note_access_def)

text \<open>What arms the timer: the divider, periodic mode on vector 0x20, and a first count.\<close>

definition timer_armed :: "'a io_scheme \<Rightarrow> u32 \<Rightarrow> u32 \<Rightarrow> bool" where
  "timer_armed s divider initial_count \<longleftrightarrow>
     (\<exists>log. trace s = log @
        [Write32 (lapic_base s + 0x3E0) divider, Write32 (lapic_base s + 0x320) 0x20020,
         Write32 (lapic_base s + 0x380) initial_count])"

lemma div_pos_iff_le:
  fixes f :: u32
  assumes "f \<noteq> 0" and "f \<le> 100000000"
  shows "100000000 div f \<noteq> 0"
proof -
  have "0 < unat f" "unat f \<le> 100000000"
    using assms by (simp_all add: word_le_nat_alt unat_gt_0)
  then have "unat (100000000 div f) \<noteq> 0"
    by (simp add: unat_div_distrib div_greater_zero_iff)
  then show ?thesis
    by auto
qed

lemma lapic_timer_calibrate_divider:
  assumes "lapic_timer_calibrate p f s = Some (c, u)"
  shows "selected_divider u = selected_divider s"
proof -
  have keep: "selected_divider u = selected_divider v"
    if "acpi_pm_delay_ms p 10 v = Some u" for p and u v :: "'a timers_scheme"
    using acpi_pm_delay_more [OF that] by (cases u; cases v) simp
  show ?thesis
    using assms keep
    by (auto simp: lapic_timer_calibrate_def Let_def lapic_write_eq lapic_read_def next_input_def
        note_access_def split: option.splits prod.splits)
qed

lemma lapic_timer_init_armed:
  assumes "lapic_timer_init_callback b f s = Some (Inr t)" and "f \<le> 100000000"
  shows "\<exists>count. timer_armed t (selected_divider s) count \<and> count \<noteq> 0"
proof -
  let ?f = "if f = 0 then 1000 else f"
  obtain port where port: "get_acpi_pm_timer_port b (mem s) = Inr port"
    using assms(1) by (auto simp: lapic_timer_init_callback_def Let_def split: sum.splits)
  obtain c u where cu: "(if port \<noteq> 0 then lapic_timer_calibrate port ?f s else Some (0, s)) = Some (c, u)"
    using assms(1) by (auto simp: lapic_timer_init_callback_def Let_def port split: option.splits if_splits)
  let ?count = "if c = 0 then 100000000 div ?f else c"
  have "selected_divider u = selected_divider s"
    using cu lapic_timer_calibrate_divider by (cases "port = 0") fastforce+
  moreover have "t = lapic_write LAPIC_TICR ?count (lapic_write LAPIC_TIMER
      (LAPIC_TIMER_VECTOR OR LAPIC_TIMER_PERIODIC) (lapic_write LAPIC_TDCR (selected_divider u) u))"
    using assms(1) by (simp only: lapic_timer_init_callback_def Let_def port sum.case cu option.case prod.case) simp
  moreover have "?count \<noteq> 0"
    using assms(2) div_pos_iff_le [of ?f] by auto
  ultimately show ?thesis
    by (intro exI [of _ ?count])
      (simp add: timer_armed_def lapic_write_eq LAPIC_TICR_def LAPIC_TIMER_def LAPIC_TDCR_def
        LAPIC_TIMER_VECTOR_def LAPIC_TIMER_PERIODIC_def)
qed

section \<open>Properties\<close>

text \<open>
  C25. The calibration delay is long enough and ends, on a power-management timer of 24 bits that is
  polled faster than it wraps: for a delay whose tick count fits 32 bits, the loop returns at the
  first poll at which the true number of ticks since the first read reaches the delay at the
  timer's 3579545 Hz plus one tick for each wrap of the 24 bits in between, which the loop does not
  count.
\<close>

theorem acpi_pm_delay_correct:
  assumes "pm_clock T (inputs s)" and "unat ms * 3579545 < 2 ^ 32"
  defines "ticks \<equiv> unat ms * 3579545 div 1000"
    and "passed k \<equiv> T (reads s + k) - T (reads s)"
    and "wraps k \<equiv> T (reads s + k) div 2 ^ 24 - T (reads s) div 2 ^ 24"
  shows "\<exists>k log. acpi_pm_delay_ms port ms s = Some (s\<lparr>reads := reads s + Suc k, trace := log\<rparr>) \<and>
           ticks + wraps k \<le> passed k \<and> (\<forall>j<k. passed j < ticks + wraps j)"
proof -
  obtain k log where k: "acpi_pm_delay_ms port ms s = Some (s\<lparr>reads := reads s + Suc k, trace := log\<rparr>)"
      "ticks \<le> pm_counted T (reads s) k" "\<forall>j<k. pm_counted T (reads s) j < ticks"
    using acpi_pm_delay_returns [OF assms(1,2), of port] unfolding ticks_def by blast
  have "pm_counted T (reads s) j = passed j - wraps j" "wraps j \<le> passed j" for j
    using div_le_diff [of "T (reads s)" "T (reads s + j)" "2 ^ 24"] pm_clock_mono [OF assms(1), of "reads s" "reads s + j"]
    by (simp_all add: pm_counted_def passed_def wraps_def)
  then have "ticks + wraps k \<le> passed k" "\<forall>j<k. passed j < ticks + wraps j"
    using k(2,3) by (simp_all add: le_diff_conv2 less_diff_conv2)
  then show ?thesis
    using k(1) by blast
qed


text \<open>
  Initialising the local APIC's timer, when it returns, leaves it armed whatever the firmware
  tables and the calibration say: the last three accesses program the selected divider, periodic
  mode on vector 0x20 and a count that is not zero, for every frequency up to 100 MHz, zero, which
  stands for 1000, included.
\<close>

theorem lapic_timer_armed:
  assumes "lapic_timer_init_callback b f s = Some (Inr t)" and "f \<le> 100000000"
  shows "\<exists>count. timer_armed t (selected_divider s) count \<and> count \<noteq> 0"
  using assms by (rule lapic_timer_init_armed)

text \<open>
  The port of the power-management timer is found as the tables say: it is the low half of the
  timer block of the first table with signature \<^verbatim>\<open>FACP\<close> among those the root table lists, with
  8-byte entries if the root pointer has revision 2 and an extended root table and with 4-byte
  entries otherwise, and 0 if there is no root pointer or no such table; without the direct map's
  offset the code dereferences null.
\<close>

theorem acpi_pm_port_found:
  "get_acpi_pm_timer_port b m =
     (case (rsdp_response b, hhdm_response b) of
        (None, _) \<Rightarrow> Inr 0
      | (Some rsdp, off) \<Rightarrow> if rsdp = 0 then Inr 0 else
          (case off of None \<Rightarrow> Inl Bad_access | Some offset \<Rightarrow>
             Inr (case List.find (has_facp_signature m) (acpi_tables m rsdp offset) of
                    None \<Rightarrow> 0 | Some fadt \<Rightarrow> ucast (fadt_pm_timer_block m fadt))))"
  by (rule get_acpi_pm_timer_port_eq)

text \<open>
  The tick count is computed in 32 bits: from 1200 milliseconds on it wraps, and the delay for 1200
  milliseconds lasts 486 ticks, a seventh of a millisecond.
\<close>

theorem acpi_pm_delay_wraps:
  "((1200 :: u32) * ACPI_PM_FREQ) div 1000 = 486"
  by (simp add: ACPI_PM_FREQ_def)

text \<open>
  A sleep counts tick events, not periods: with ticks that arrive one at a time it ends exactly at
  tick \<open>sleep_ticks\<close>, so a sleep of one millisecond on a 1000 Hz timer ends at the next tick, however
  soon that is.
\<close>

theorem sleep_counts_ticks:
  assumes "active_timer s \<noteq> NULL" and "device_frequency s (active_timer s) = 1000"
    and "\<not> tick_callback s" and "lapic_timer_ticks s < lapic_timer_ticks s + 1"
  shows "\<exists>t. sleep_ms (Some lapic_timer_get_ticks) (lapic_timer_irq_handler sched_on_tick) 1 s = Some (Inr t) \<and>
           lapic_timer_ticks t = lapic_timer_ticks s + 1"
proof -
  have "sleep_ticks 1 1000 = 1"
    by (simp add: sleep_ticks_def)
  moreover have "\<exists>u. lapic_timer_irq_handler sched_on_tick (halt_sti t) = Inr u \<and> \<not> tick_callback u \<and>
      lapic_timer_get_ticks u = lapic_timer_get_ticks t + 1" if "\<not> tick_callback t" for t :: "'a timers_scheme"
    using that by (simp add: lapic_timer_irq_no_callback halt_sti_def note_access_def lapic_timer_get_ticks_def)
  ultimately show ?thesis
    using sleep_until_exact [where I = "\<lambda>t. \<not> tick_callback t" and get_ticks = lapic_timer_get_ticks
        and intr = "lapic_timer_irq_handler sched_on_tick" and s = s and target = "lapic_timer_ticks s + 1"] assms
    by (auto simp add: sleep_ms_eq lapic_timer_get_ticks_def less_imp_le)
qed

section \<open>Witnesses\<close>

definition sample_timers :: "(nat \<Rightarrow> u32) \<Rightarrow> timers" where
  "sample_timers inp = keyboard.extend (sample_keyboard inp)
     \<lparr>timer_nodes = (\<lambda>_. \<lparr>nxt = 0, prv = 0\<rparr>), timer_list = 0x9100, active_timer = 0x9200,
      device_frequency = (\<lambda>_. 1000), lapic_timer_dev = 0x9200, lapic_timer_ticks = 5,
      selected_divider = 3\<rparr>"

lemma sample_timers_fields [simp]:
  "inputs (sample_timers inp) = inp" "reads (sample_timers inp) = 0"
  "active_timer (sample_timers inp) = 0x9200" "device_frequency (sample_timers inp) d = 1000"
  "lapic_timer_ticks (sample_timers inp) = 5" "selected_divider (sample_timers inp) = 3"
  "tick_callback (sample_timers inp) = tick_callback sample_kernel"
  by (simp_all add: sample_timers_def keyboard.extend_def sample_keyboard_def io.extend_def
      sample_io_def kernel.extend_def)

lemma sample_no_callback [simp]: "\<not> tick_callback sample_kernel"
  by (simp add: sample_kernel_def heap.extend_def heap.truncate_def)

text \<open>A timer that is read every thousand ticks, so that its 24 bits wrap in the course of time.\<close>

lemma sample_pm_clock: "pm_clock (\<lambda>n. 1000 * n) (\<lambda>n. of_nat (1000 * n mod 2 ^ 24))"
proof -
  have "(of_nat x :: u32) AND 0x00FFFFFF = of_nat x" if "x < 2 ^ 24" for x
    using unat_and_mask [of "of_nat x :: u32" 24] that
    by (simp add: mask_eq_exp_minus_1 unat_of_nat word_unat_eq_iff)
  then have "(of_nat (1000 * n mod 2 ^ 24) :: u32) AND 0x00FFFFFF = of_nat (1000 * n mod 2 ^ 24)" for n
    by simp
  moreover have "\<exists>n. N \<le> 1000 * n" for N :: nat
    by (rule exI [of _ N]) simp
  ultimately show ?thesis
    by (simp add: pm_clock_def)
qed

theorem acpi_pm_delay_correct_witness:
  "\<exists>k log. acpi_pm_delay_ms 0x608 10 (sample_io (\<lambda>n. of_nat (1000 * n mod 2 ^ 24))) =
       Some (sample_io (\<lambda>n. of_nat (1000 * n mod 2 ^ 24)) \<lparr>reads := Suc k, trace := log\<rparr>) \<and>
     35795 + (1000 * k) div 2 ^ 24 \<le> 1000 * k"
  using acpi_pm_delay_correct [where T = "\<lambda>n. 1000 * n" and ms = "10" and port = "0x608" and
      s = "sample_io (\<lambda>n. of_nat (1000 * n mod 2 ^ 24))"] sample_pm_clock by auto


text \<open>Without firmware tables the timer runs on the assumed 100 MHz.\<close>

theorem lapic_timer_armed_witness:
  "\<exists>t count. lapic_timer_init_callback
       \<lparr>memmap_response = None, kernel_address_response = None, hhdm_response = None,
        framebuffer_response = None, rsdp_response = None\<rparr> 1000 (sample_timers (\<lambda>_. 0)) = Some (Inr t) \<and>
     timer_armed t 3 count \<and> count \<noteq> 0"
proof -
  let ?b = "\<lparr>memmap_response = None, kernel_address_response = None, hhdm_response = None,
    framebuffer_response = None, rsdp_response = None\<rparr>"
  obtain t where "lapic_timer_init_callback ?b 1000 (sample_timers (\<lambda>_. 0)) = Some (Inr t)"
    by (simp add: lapic_timer_init_callback_def get_acpi_pm_timer_port_def Let_def)
  then show ?thesis
    using lapic_timer_armed [of ?b 1000 "sample_timers (\<lambda>_. 0)" t] by auto
qed

end
