(* ===== verification/Interrupts.thy ===== *)
theory Interrupts
  imports Timer
begin

text \<open>
  The processor's tables: segments and interrupt stacks (\<^verbatim>\<open>arch/x86_64/gdt.c\<close>,
  \<^verbatim>\<open>asm/gdt_flush.asm\<close>), the interrupt descriptors and the dispatcher (\<^verbatim>\<open>arch/x86_64/idt.c\<close>),
  and the entry and exit code of \<^verbatim>\<open>asm/interrupts.asm\<close>.
\<close>

section \<open>Segments\<close>

record gdt_entry =
  limit_low :: u16
  base_low :: u16
  base_middle :: u8
  gdt_access :: u8
  granularity :: u8
  base_high :: u8

record tss_descriptor = gdt_entry +
  base_upper32 :: u32
  tss_reserved :: u32

text \<open>
  The members of \<^verbatim>\<open>struct tss_entry\<close> after the reserved ones, all of which stay zero: \<open>ists\<close> is
  \<^verbatim>\<open>ist1\<close> to \<^verbatim>\<open>ist7\<close>.
\<close>

record tss_entry =
  rsps :: "u64 list"
  ists :: "u64 list"
  iomap_base :: u16

definition zero_tss :: tss_entry where
  "zero_tss = \<lparr>rsps = replicate 3 0, ists = replicate 7 0, iomap_base = 0\<rparr>"

definition sizeof_tss :: u32 where "sizeof_tss = 104"
definition sizeof_gdt :: u16 where "sizeof_gdt = 56"
definition IST_STACK_SIZE :: u64 where "IST_STACK_SIZE = 4096"

record idt_entry =
  isr_low :: u16
  kernel_cs :: u16
  ist :: u8
  attributes :: u8
  isr_mid :: u16
  isr_high :: u32
  idt_zero :: u32

text \<open>The interrupt handlers that the kernel registers.\<close>

datatype isr_handler = Lapic_timer_irq_handler | Keyboard_irq_handler

text \<open>
  A table register or pointer is a limit and a base. \<open>gdtr\<close>, \<open>idtr\<close>, \<open>code_segment\<close>,
  \<open>data_segments\<close> and \<open>task_register\<close> are what the processor has loaded.
\<close>

record tables = timers +
  gdt_entries :: "gdt_entry list"
  gdt_tss_desc :: tss_descriptor
  tss :: tss_entry
  gdt_pointer :: "u16 \<times> u64"
  idt :: "idt_entry list"
  idt_pointer :: "u16 \<times> u64"
  interrupt_handlers :: "isr_handler option list"
  gdtr :: "u16 \<times> u64"
  idtr :: "u16 \<times> u64"
  code_segment :: u16
  data_segments :: u16
  task_register :: u16

text \<open>The addresses of the static objects.\<close>

record table_symbols =
  gdt_address :: u64
  tss_address :: u64
  gdt_pointer_address :: u64
  idt_address :: u64
  double_fault_stack :: u64
  nmi_stack :: u64
  machine_check_stack :: u64
  debug_stack :: u64
  stack_fault_stack :: u64
  isr_stub_table :: "u64 list"

definition gdt_set_entry :: "nat \<Rightarrow> u32 \<Rightarrow> u32 \<Rightarrow> u8 \<Rightarrow> u8 \<Rightarrow> 'a tables_scheme \<Rightarrow> 'a tables_scheme" where
  "gdt_set_entry num base limit acc gran s =
     (let e = \<lparr>limit_low = ucast (limit AND 0xFFFF),
               base_low = ucast (base AND 0xFFFF),
               base_middle = ucast (drop_bit 16 base AND 0xFF),
               gdt_access = acc,
               granularity = ucast (drop_bit 16 limit AND 0x0F) OR (gran AND 0xF0),
               base_high = ucast (drop_bit 24 base AND 0xFF)\<rparr>
      in s\<lparr>gdt_entries := (gdt_entries s)[num := e]\<rparr>)"

definition gdt_set_tss_descriptor :: "u64 \<Rightarrow> u32 \<Rightarrow> 'a tables_scheme \<Rightarrow> 'a tables_scheme" where
  "gdt_set_tss_descriptor base limit s =
     s\<lparr>gdt_tss_desc :=
        \<lparr>limit_low = ucast (limit AND 0xFFFF),
         base_low = ucast (base AND 0xFFFF),
         base_middle = ucast (drop_bit 16 base AND 0xFF),
         gdt_access = 0x89,
         granularity = ucast (drop_bit 16 limit AND 0x0F),
         base_high = ucast (drop_bit 24 base AND 0xFF),
         base_upper32 = ucast (drop_bit 32 base AND 0xFFFFFFFF),
         tss_reserved = 0\<rparr>\<rparr>"

text \<open>\<^verbatim>\<open>gdt_flush\<close>: load the table, the data segments, the code segment and the task register.\<close>

definition gdt_flush :: "u64 \<Rightarrow> 'a tables_scheme \<Rightarrow> 'a tables_scheme" where
  "gdt_flush ptr s =
     (let s = note_access (Gdt_flush ptr) s
      in s\<lparr>gdtr := gdt_pointer s, data_segments := 0x10, code_segment := 0x08, task_register := 0x28\<rparr>)"

definition gdt_init :: "table_symbols \<Rightarrow> 'a tables_scheme \<Rightarrow> 'a tables_scheme" where
  "gdt_init syms s =
     (let s = gdt_set_entry 0 0 0 0 0 s;
          s = gdt_set_entry 1 0 0xFFFFF 0x9A 0xA0 s;
          s = gdt_set_entry 2 0 0xFFFFF 0x92 0xC0 s;
          s = gdt_set_entry 3 0 0xFFFFF 0xF2 0xC0 s;
          s = gdt_set_entry 4 0 0xFFFFF 0xFA 0xA0 s;
          s = s\<lparr>tss := zero_tss\<rparr>;
          s = s\<lparr>tss := (tss s)\<lparr>ists := (ists (tss s))
                [0 := double_fault_stack syms + IST_STACK_SIZE,
                 1 := nmi_stack syms + IST_STACK_SIZE,
                 2 := machine_check_stack syms + IST_STACK_SIZE,
                 3 := debug_stack syms + IST_STACK_SIZE,
                 4 := stack_fault_stack syms + IST_STACK_SIZE]\<rparr>\<rparr>;
          s = gdt_set_tss_descriptor (tss_address syms) (sizeof_tss - 1) s;
          s = s\<lparr>gdt_pointer := (sizeof_gdt - 1, gdt_address syms)\<rparr>
      in gdt_flush (gdt_pointer_address syms) s)"

section \<open>Interrupt descriptors\<close>

definition PIC1_COMMAND :: u16 where "PIC1_COMMAND = 0x20"
definition PIC1_DATA :: u16 where "PIC1_DATA = 0x21"
definition PIC2_COMMAND :: u16 where "PIC2_COMMAND = 0xA0"
definition PIC2_DATA :: u16 where "PIC2_DATA = 0xA1"

definition exception_names :: "string list" where
  "exception_names =
     [''Division By Zero'', ''Debug'', ''Non-Maskable Interrupt'', ''Breakpoint'',
      ''Into Detected Overflow'', ''Out of Bounds'', ''Invalid Opcode'', ''No Coprocessor'',
      ''Double Fault'', ''Coprocessor Segment Overrun'', ''Bad TSS'', ''Segment Not Present'',
      ''Stack Fault'', ''General Protection Fault'', ''Page Fault'', ''Unknown Interrupt'',
      ''Coprocessor Fault'', ''Alignment Check'', ''Machine Check'', ''SIMD Floating-Point'',
      ''Virtualization Exception'', ''Control Protection Exception'', ''Reserved'', ''Reserved'',
      ''Reserved'', ''Reserved'', ''Reserved'', ''Reserved'', ''Reserved'', ''Reserved'',
      ''Security Exception'', ''Reserved'']"

definition idt_set_descriptor :: "u8 \<Rightarrow> u64 \<Rightarrow> u8 \<Rightarrow> u16 \<Rightarrow> 'a tables_scheme \<Rightarrow> 'a tables_scheme" where
  "idt_set_descriptor vector isr_address attrs cs s =
     (let e = \<lparr>isr_low = ucast (isr_address AND 0xFFFF),
               kernel_cs = cs,
               ist = 0,
               attributes = attrs,
               isr_mid = ucast (drop_bit 16 isr_address AND 0xFFFF),
               isr_high = ucast (drop_bit 32 isr_address AND 0xFFFFFFFF),
               idt_zero = 0\<rparr>
      in s\<lparr>idt := (idt s)[unat vector := e]\<rparr>)"

definition idt_register_handler :: "u8 \<Rightarrow> isr_handler \<Rightarrow> 'a tables_scheme \<Rightarrow> 'a tables_scheme" where
  "idt_register_handler vector handler s =
     s\<lparr>interrupt_handlers := (interrupt_handlers s)[unat vector := Some handler]\<rparr>"

definition idt_set_ist :: "nat \<Rightarrow> u8 \<Rightarrow> 'a tables_scheme \<Rightarrow> 'a tables_scheme" where
  "idt_set_ist vector i s = s\<lparr>idt := (idt s)[vector := (idt s ! vector)\<lparr>ist := i\<rparr>]\<rparr>"

text \<open>What the code of the interrupt entry stored of the interrupted program.\<close>

record registers =
  r_rax :: u64  r_rbx :: u64  r_rcx :: u64  r_rdx :: u64  r_rsi :: u64  r_rdi :: u64  r_rbp :: u64
  r_r8 :: u64  r_r9 :: u64  r_r10 :: u64  r_r11 :: u64  r_r12 :: u64  r_r13 :: u64  r_r14 :: u64
  r_r15 :: u64
  int_no :: u64  error_code :: u64
  r_rip :: u64  r_cs :: u64  r_rflags :: u64  r_rsp :: u64  r_ss :: u64

fun run_handler :: "isr_handler \<Rightarrow> 'a tables_scheme \<Rightarrow> 'a tables_scheme outcome" where
  "run_handler Lapic_timer_irq_handler s = lapic_timer_irq_handler sched_on_tick s"
| "run_handler Keyboard_irq_handler s = keyboard_irq_handler s"

text \<open>
  The arrays have 256 and 32 elements; an interrupt number beyond the first, which no stub
  delivers, is read past its end. The panic of \<^verbatim>\<open>kernel_panic_detailed\<close> is the value.
\<close>

definition idt_handler_c :: "registers \<Rightarrow> 'a tables_scheme \<Rightarrow> 'a tables_scheme outcome" where
  "idt_handler_c r s =
     (if length (interrupt_handlers s) \<le> unat (int_no r) then Inl Bad_access else
      case interrupt_handlers s ! unat (int_no r) of
        Some handler \<Rightarrow> run_handler handler s
      | None \<Rightarrow>
          if int_no r < 32 then Inl (Panic (exception_names ! unat (int_no r))) else Inr s)"

definition pic_disable :: "'a io_scheme \<Rightarrow> 'a io_scheme" where
  "pic_disable s =
     (let s = io_wait (outb PIC1_COMMAND 0x11 s);
          s = io_wait (outb PIC2_COMMAND 0x11 s);
          s = io_wait (outb PIC1_DATA 0x20 s);
          s = io_wait (outb PIC2_DATA 0x28 s);
          s = io_wait (outb PIC1_DATA 0x04 s);
          s = io_wait (outb PIC2_DATA 0x02 s);
          s = io_wait (outb PIC1_DATA 0x01 s);
          s = io_wait (outb PIC2_DATA 0x01 s);
          s = io_wait (outb PIC1_DATA 0xFF s);
          s = io_wait (outb PIC2_DATA 0xFF s)
      in s)"

definition idt_fill :: "table_symbols \<Rightarrow> 'a tables_scheme \<Rightarrow> 'a tables_scheme" where
  "idt_fill syms s =
     (let current_cs = code_segment s;
          s = for_range 0 256 (\<lambda>i s.
                idt_set_descriptor (ucast i) (isr_stub_table syms ! unat i) 0x8E current_cs s) s;
          s = idt_set_ist 8 1 s;
          s = idt_set_ist 2 2 s;
          s = idt_set_ist 18 3 s;
          s = idt_set_ist 1 4 s;
          s = idt_set_ist 3 4 s
      in idt_set_ist 12 5 s)"

definition idt_init :: "table_symbols \<Rightarrow> 'a tables_scheme \<Rightarrow> 'a tables_scheme outcome" where
  "idt_init syms s =
     (let s = idt_fill syms s;
          s = s\<lparr>idt_pointer := (16 * 256 - 1, idt_address syms)\<rparr>
      in if snd (idt_pointer s) = 0 then Inl (Panic ''IDT base address is NULL.'') else
         let s = note_access (Lidt (fst (idt_pointer s)) (snd (idt_pointer s))) s;
             s = s\<lparr>idtr := idt_pointer s\<rparr>;
             s = pic_disable s
         in lapic_init s)"

section \<open>Interrupt entry and exit\<close>

text \<open>
  The stack grows down from \<open>sp\<close>; \<open>push_all\<close> pushes the first value of the list first, \<open>pop_list\<close>
  pops as many words as it is told.
\<close>

fun push_all :: "u64 list \<Rightarrow> u64 \<times> mem \<Rightarrow> u64 \<times> mem" where
  "push_all [] c = c"
| "push_all (v # vs) (sp, m) = push_all vs (sp - 8, wr64 m (sp - 8) v)"

fun pop_list :: "nat \<Rightarrow> mem \<Rightarrow> u64 \<Rightarrow> u64 list \<times> u64" where
  "pop_list 0 m sp = ([], sp)"
| "pop_list (Suc n) m sp = (let (vs, sp') = pop_list n m (sp + 8) in (rd64 m sp # vs, sp'))"

text \<open>The processor's pushes; some exceptions come with an error code.\<close>

definition cpu_pushes :: "registers \<Rightarrow> u64 option \<Rightarrow> u64 list" where
  "cpu_pushes r err =
     [r_ss r, r_rsp r, r_rflags r, r_cs r, r_rip r] @ (case err of None \<Rightarrow> [] | Some e \<Rightarrow> [e])"

text \<open>The macros \<^verbatim>\<open>ISR_NOERR\<close> and \<^verbatim>\<open>ISR_ERR\<close>, and which vector uses which.\<close>

definition isr_err_vector :: "nat \<Rightarrow> bool" where
  "isr_err_vector v \<longleftrightarrow> v \<in> {8, 10, 11, 12, 13, 14, 17, 21, 29, 30}"

definition isr_stub :: "nat \<Rightarrow> u64 list" where
  "isr_stub v = (if isr_err_vector v then [of_nat v] else [0, of_nat v])"

definition isr_common_pushes :: "registers \<Rightarrow> u64 list" where
  "isr_common_pushes r =
     [r_r15 r, r_r14 r, r_r13 r, r_r12 r, r_r11 r, r_r10 r, r_r9 r, r_r8 r,
      r_rbp r, r_rdi r, r_rsi r, r_rdx r, r_rcx r, r_rbx r, r_rax r]"

definition isr_entry :: "nat \<Rightarrow> u64 option \<Rightarrow> registers \<Rightarrow> u64 \<times> mem \<Rightarrow> u64 \<times> mem" where
  "isr_entry v err r c = push_all (cpu_pushes r err @ isr_stub v @ isr_common_pushes r) c"

text \<open>The structure that the dispatcher gets a pointer to.\<close>

definition registers_at :: "mem \<Rightarrow> u64 \<Rightarrow> registers" where
  "registers_at m p =
     \<lparr>r_rax = rd64 m p, r_rbx = rd64 m (p + 8), r_rcx = rd64 m (p + 16), r_rdx = rd64 m (p + 24),
      r_rsi = rd64 m (p + 32), r_rdi = rd64 m (p + 40), r_rbp = rd64 m (p + 48),
      r_r8 = rd64 m (p + 56), r_r9 = rd64 m (p + 64), r_r10 = rd64 m (p + 72),
      r_r11 = rd64 m (p + 80), r_r12 = rd64 m (p + 88), r_r13 = rd64 m (p + 96),
      r_r14 = rd64 m (p + 104), r_r15 = rd64 m (p + 112),
      int_no = rd64 m (p + 120), error_code = rd64 m (p + 128),
      r_rip = rd64 m (p + 136), r_cs = rd64 m (p + 144), r_rflags = rd64 m (p + 152),
      r_rsp = rd64 m (p + 160), r_ss = rd64 m (p + 168)\<rparr>"

text \<open>
  The end of \<^verbatim>\<open>isr_common\<close>: the registers are popped, the vector and the error code skipped, and
  \<^verbatim>\<open>iretq\<close> pops the rest. The registers keep \<open>int_no\<close> and \<open>error_code\<close>, which are no registers, of \<open>r\<close>.
\<close>

definition isr_exit :: "registers \<Rightarrow> u64 \<times> mem \<Rightarrow> registers" where
  "isr_exit r c =
     (case c of (sp, m) \<Rightarrow>
        let (g, sp) = pop_list 15 m sp;
            sp = sp + 16;
            (f, sp) = pop_list 5 m sp
        in r\<lparr>r_rax := g ! 0, r_rbx := g ! 1, r_rcx := g ! 2, r_rdx := g ! 3, r_rsi := g ! 4,
             r_rdi := g ! 5, r_rbp := g ! 6, r_r8 := g ! 7, r_r9 := g ! 8, r_r10 := g ! 9,
             r_r11 := g ! 10, r_r12 := g ! 11, r_r13 := g ! 12, r_r14 := g ! 13, r_r15 := g ! 14,
             r_rip := f ! 0, r_cs := f ! 1, r_rflags := f ! 2, r_rsp := f ! 3, r_ss := f ! 4\<rparr>)"

section \<open>What the processor reads from the descriptors\<close>

definition seg_base :: "'a gdt_entry_scheme \<Rightarrow> u32" where
  "seg_base e = ucast (base_low e) OR push_bit 16 (ucast (base_middle e)) OR push_bit 24 (ucast (base_high e))"

definition seg_limit :: "'a gdt_entry_scheme \<Rightarrow> u32" where
  "seg_limit e = ucast (limit_low e) OR push_bit 16 (ucast (granularity e AND 0xF))"

definition tss_base :: "tss_descriptor \<Rightarrow> u64" where
  "tss_base d = ucast (seg_base d) OR push_bit 32 (ucast (base_upper32 d))"

text \<open>The eight bytes of a packed entry as one little-endian number.\<close>

definition gdt_bits :: "'a gdt_entry_scheme \<Rightarrow> u64" where
  "gdt_bits e =
     ucast (limit_low e) OR push_bit 16 (ucast (base_low e)) OR push_bit 32 (ucast (base_middle e)) OR
     push_bit 40 (ucast (gdt_access e)) OR push_bit 48 (ucast (granularity e)) OR
     push_bit 56 (ucast (base_high e))"

definition isr_offset :: "idt_entry \<Rightarrow> u64" where
  "isr_offset e = ucast (isr_low e) OR push_bit 16 (ucast (isr_mid e)) OR push_bit 32 (ucast (isr_high e))"

lemma mask_literals:
  "(0xF :: 'a::len word) = mask 4" "(0xFF :: 'a::len word) = mask 8" "(0xFFFF :: 'a::len word) = mask 16"
  "(0xFFFFF :: 'a::len word) = mask 20" "(0xFFFFFFFF :: 'a::len word) = mask 32"
  by (simp_all add: mask_eq_exp_minus_1)

lemma split_base:
  fixes b :: u32
  shows "ucast (ucast (b AND 0xFFFF) :: u16) OR push_bit 16 (ucast (ucast (drop_bit 16 b AND 0xFF) :: u8)) OR
    push_bit 24 (ucast (ucast (drop_bit 24 b AND 0xFF) :: u8)) = b"
  (is "?l = ?r")
proof (rule bit_word_eqI)
  fix n :: nat
  assume n: "n < LENGTH(32)"
  consider "n < 16" | "16 \<le> n" "n < 24" | "24 \<le> n"
    by linarith
  then show "bit ?l n = bit ?r n"
    unfolding mask_literals by cases (use n in \<open>simp_all add: bit_simps less_diff_conv2\<close>)
qed

lemma split_limit0:
  fixes b :: u32
  shows "ucast (ucast (b AND 0xFFFF) :: u16) OR
    push_bit 16 (ucast ((ucast (drop_bit 16 b AND 0xF) :: u8) AND 0xF)) = b AND 0xFFFFF"
  (is "?l = ?r")
proof (rule bit_word_eqI)
  fix n :: nat
  assume n: "n < LENGTH(32)"
  consider "n < 16" | "16 \<le> n" "n < 20" | "20 \<le> n"
    by linarith
  then show "bit ?l n = bit ?r n"
    unfolding mask_literals by cases (use n in \<open>simp_all add: bit_simps less_diff_conv2\<close>)
qed

lemma split_limit:
  fixes b :: u32 and g :: u8
  shows "ucast (ucast (b AND 0xFFFF) :: u16) OR
    push_bit 16 (ucast ((ucast (drop_bit 16 b AND 0xF) OR (g AND 0xF0)) AND 0xF)) = b AND 0xFFFFF"
  (is "?l = ?r")
proof -
  have "(x OR (g AND 0xF0)) AND 0xF = x AND 0xF" for x :: u8
    by (simp add: bit.conj_disj_distrib2 and.assoc)
  then show ?thesis
    by (simp add: split_limit0)
qed

lemma split_offset:
  fixes a :: u64
  shows "ucast (ucast (a AND 0xFFFF) :: u16) OR push_bit 16 (ucast (ucast (drop_bit 16 a AND 0xFFFF) :: u16)) OR
    push_bit 32 (ucast (ucast (drop_bit 32 a AND 0xFFFFFFFF) :: u32)) = a"
  (is "?l = ?r")
proof (rule bit_word_eqI)
  fix n :: nat
  assume n: "n < LENGTH(64)"
  consider "n < 16" | "16 \<le> n" "n < 32" | "32 \<le> n"
    by linarith
  then show "bit ?l n = bit ?r n"
    unfolding mask_literals by cases (use n in \<open>simp_all add: bit_simps less_diff_conv2\<close>)
qed

lemma split_tss_base:
  fixes a :: u64
  shows "ucast (ucast (ucast (a AND 0xFFFF) :: u16) OR push_bit 16 (ucast (ucast (drop_bit 16 a AND 0xFF) :: u8)) OR
    push_bit 24 (ucast (ucast (drop_bit 24 a AND 0xFF) :: u8)) :: u32) OR
    push_bit 32 (ucast (ucast (drop_bit 32 a AND 0xFFFFFFFF) :: u32)) = a"
  (is "?l = ?r")
proof (rule bit_word_eqI)
  fix n :: nat
  assume n: "n < LENGTH(64)"
  consider "n < 16" | "16 \<le> n" "n < 24" | "24 \<le> n" "n < 32" | "32 \<le> n"
    by linarith
  then show "bit ?l n = bit ?r n"
    unfolding mask_literals by cases (use n in \<open>simp_all add: bit_simps less_diff_conv2\<close>)
qed

section \<open>The segments\<close>

definition make_gdt_entry :: "u32 \<Rightarrow> u32 \<Rightarrow> u8 \<Rightarrow> u8 \<Rightarrow> gdt_entry" where
  "make_gdt_entry base limit acc gran =
     \<lparr>limit_low = ucast (limit AND 0xFFFF), base_low = ucast (base AND 0xFFFF),
      base_middle = ucast (drop_bit 16 base AND 0xFF), gdt_access = acc,
      granularity = ucast (drop_bit 16 limit AND 0x0F) OR (gran AND 0xF0),
      base_high = ucast (drop_bit 24 base AND 0xFF)\<rparr>"

lemma gdt_set_entry_fields [simp]:
  "gdt_entries (gdt_set_entry num base limit acc gran s) = (gdt_entries s)[num := make_gdt_entry base limit acc gran]"
  "tss (gdt_set_entry num base limit acc gran s) = tss s"
  "idt (gdt_set_entry num base limit acc gran s) = idt s"
  by (simp_all add: gdt_set_entry_def make_gdt_entry_def Let_def)

lemma gdt_set_tss_fields [simp]:
  "gdt_entries (gdt_set_tss_descriptor base limit s) = gdt_entries s"
  "tss (gdt_set_tss_descriptor base limit s) = tss s"
  "idt (gdt_set_tss_descriptor base limit s) = idt s"
  by (simp_all add: gdt_set_tss_descriptor_def)

lemma gdt_flush_fields [simp]:
  "gdt_entries (gdt_flush ptr s) = gdt_entries s" "gdt_tss_desc (gdt_flush ptr s) = gdt_tss_desc s"
  "tss (gdt_flush ptr s) = tss s" "idt (gdt_flush ptr s) = idt s" "gdtr (gdt_flush ptr s) = gdt_pointer s"
  "code_segment (gdt_flush ptr s) = 8" "data_segments (gdt_flush ptr s) = 0x10"
  "task_register (gdt_flush ptr s) = 0x28"
  by (simp_all add: gdt_flush_def note_access_def)

lemma gdt_init_fields:
  "gdt_entries (gdt_init syms s) =
     (gdt_entries s)[0 := make_gdt_entry 0 0 0 0, 1 := make_gdt_entry 0 0xFFFFF 0x9A 0xA0,
       2 := make_gdt_entry 0 0xFFFFF 0x92 0xC0, 3 := make_gdt_entry 0 0xFFFFF 0xF2 0xC0,
       4 := make_gdt_entry 0 0xFFFFF 0xFA 0xA0]"
  "gdt_tss_desc (gdt_init syms s) = gdt_tss_desc (gdt_set_tss_descriptor (tss_address syms) 103 s)"
  "ists (tss (gdt_init syms s)) = [double_fault_stack syms + 4096, nmi_stack syms + 4096,
     machine_check_stack syms + 4096, debug_stack syms + 4096, stack_fault_stack syms + 4096, 0, 0]"
  "idt (gdt_init syms s) = idt s" "gdtr (gdt_init syms s) = (55, gdt_address syms)"
  "code_segment (gdt_init syms s) = 8" "data_segments (gdt_init syms s) = 0x10"
  "task_register (gdt_init syms s) = 0x28"
proof -
  show "gdt_tss_desc (gdt_init syms s) = gdt_tss_desc (gdt_set_tss_descriptor (tss_address syms) 103 s)"
    by (simp add: gdt_init_def Let_def sizeof_tss_def) (simp add: gdt_set_tss_descriptor_def)
qed (simp_all add: gdt_init_def Let_def sizeof_gdt_def zero_tss_def IST_STACK_SIZE_def numeral_eq_Suc)

lemma gdt_bits_values:
  "gdt_bits (make_gdt_entry 0 0 0 0) = 0"
  "gdt_bits (make_gdt_entry 0 0xFFFFF 0x9A 0xA0) = 0x00AF9A000000FFFF"
  "gdt_bits (make_gdt_entry 0 0xFFFFF 0x92 0xC0) = 0x00CF92000000FFFF"
  "gdt_bits (make_gdt_entry 0 0xFFFFF 0xF2 0xC0) = 0x00CFF2000000FFFF"
  "gdt_bits (make_gdt_entry 0 0xFFFFF 0xFA 0xA0) = 0x00AFFA000000FFFF"
  by (simp_all add: gdt_bits_def make_gdt_entry_def)

lemma gdt_set_entry_decoded:
  fixes base limit :: u32 and acc gran :: u8
  assumes "num < length (gdt_entries s)"
  defines "t \<equiv> gdt_set_entry num base limit acc gran s"
  shows "seg_base (gdt_entries t ! num) = base" "seg_limit (gdt_entries t ! num) = limit AND 0xFFFFF"
    "gdt_access (gdt_entries t ! num) = acc" "granularity (gdt_entries t ! num) AND 0xF0 = gran AND 0xF0"
proof -
  have "(ucast (x AND 0x0F) OR (gran AND 0xF0)) AND 0xF0 = gran AND 0xF0" for x :: u32
  proof (rule bit_word_eqI)
    fix n :: nat
    assume "n < LENGTH(8)"
    have "bit (0xF0 :: u8) n \<longleftrightarrow> 4 \<le> n \<and> n < 8" if "n < 8" for n
      using that by (auto simp: bit_numeral_rec less_Suc_eq numeral_eq_Suc)
    then show "bit ((ucast (x AND 0x0F) OR (gran AND 0xF0)) AND 0xF0) n = bit (gran AND 0xF0) n"
      using \<open>n < LENGTH(8)\<close> unfolding mask_literals by (auto simp: bit_simps)
  qed
  then show "granularity (gdt_entries t ! num) AND 0xF0 = gran AND 0xF0"
    using assms(1) by (simp add: t_def gdt_set_entry_def Let_def)
  show "seg_base (gdt_entries t ! num) = base"
    using assms(1) split_base [of base] by (simp add: t_def gdt_set_entry_def seg_base_def Let_def)
  show "seg_limit (gdt_entries t ! num) = limit AND 0xFFFFF"
    using assms(1) split_limit [of limit gran] by (simp add: t_def gdt_set_entry_def seg_limit_def Let_def)
  show "gdt_access (gdt_entries t ! num) = acc"
    using assms(1) by (simp add: t_def gdt_set_entry_def Let_def)
qed

lemma five_entries:
  assumes "length xs = 5"
  obtains a b c d e where "xs = [a, b, c, d, e]"
  using assms by (auto simp: numeral_eq_Suc length_Suc_conv)

lemma gdt_set_tss_decoded:
  "tss_base (gdt_tss_desc (gdt_set_tss_descriptor base limit s)) = base"
  "limit AND 0xFFFFF = limit \<Longrightarrow> seg_limit (gdt_tss_desc (gdt_set_tss_descriptor base limit s)) = limit"
  using split_tss_base [of base] split_limit0 [of limit]
  by (simp_all add: gdt_set_tss_descriptor_def tss_base_def seg_base_def seg_limit_def)

section \<open>The interrupt vectors\<close>

definition vector_entry :: "table_symbols \<Rightarrow> u16 \<Rightarrow> nat \<Rightarrow> idt_entry" where
  "vector_entry syms cs v =
     (let a = isr_stub_table syms ! v
      in \<lparr>isr_low = ucast (a AND 0xFFFF), kernel_cs = cs, ist = 0, attributes = 0x8E,
          isr_mid = ucast (drop_bit 16 a AND 0xFFFF), isr_high = ucast (drop_bit 32 a AND 0xFFFFFFFF),
          idt_zero = 0\<rparr>)"

lemma isr_offset_vector_entry [simp]:
  "isr_offset (vector_entry syms cs v) = isr_stub_table syms ! v"
  "kernel_cs (vector_entry syms cs v) = cs" "ist (vector_entry syms cs v) = 0"
  "attributes (vector_entry syms cs v) = 0x8E" "idt_zero (vector_entry syms cs v) = 0"
  using split_offset [of "isr_stub_table syms ! v"]
  by (simp_all add: vector_entry_def isr_offset_def Let_def)

lemma unat_byte_of_index:
  fixes i :: u64
  assumes "i < 256"
  shows "unat (ucast i :: u8) = unat i"
  using assms by (simp add: unsigned_ucast_eq take_bit_nat_eq_self word_less_nat_alt)

lemma idt_loop:
  fixes s :: "'a tables_scheme" and syms :: table_symbols and cs :: u16
  assumes "length (idt s) = 256"
  defines "t \<equiv> for_range 0 256 (\<lambda>i s.
      idt_set_descriptor (ucast i) (isr_stub_table syms ! unat i) 0x8E cs s) s"
  shows "idt t = map (vector_entry syms cs) [0..<256] \<and> t\<lparr>idt := idt s\<rparr> = s"
proof -
  define I where "I i u \<longleftrightarrow> length (idt u) = 256 \<and>
      (\<forall>v<unat i. idt u ! v = vector_entry syms cs v) \<and> u\<lparr>idt := idt s\<rparr> = s" for i :: u64 and u
  have "I 256 t"
    unfolding t_def
  proof (rule for_range_inv)
    fix j :: u64 and u
    assume j: "j < 256" and "I j u"
    have "unat j < 256"
      using j by (simp add: word_less_nat_alt)
    then show "I (j + 1) (idt_set_descriptor (ucast j) (isr_stub_table syms ! unat j) 0x8E cs u)"
      using \<open>I j u\<close> unat_succ_less [OF j] unat_byte_of_index [OF j]
      by (auto simp: I_def idt_set_descriptor_def Let_def vector_entry_def less_Suc_eq nth_list_update)
  qed (use assms(1) in \<open>simp_all add: I_def\<close>)
  then show ?thesis
    by (auto simp: I_def intro!: nth_equalityI)
qed

text \<open>
  The stack on which the processor handles a vector: \<open>None\<close> is the interrupted one. The stacks are
  those of \<^verbatim>\<open>tss\<close>; that this is the task state segment the processor reads, the one its task
  register selects, is a part of the property.
\<close>

definition interrupt_stack :: "'a tables_scheme \<Rightarrow> nat \<Rightarrow> u64 option" where
  "interrupt_stack s v =
     (let i = ist (idt s ! v) in if i = 0 then None else Some (ists (tss s) ! (unat i - 1)))"

lemma set_ist_map:
  assumes "v < 256"
  shows "idt_set_ist v i (s\<lparr>idt := map g [0..<256]\<rparr>) = s\<lparr>idt := map (g(v := (g v)\<lparr>ist := i\<rparr>)) [0..<256]\<rparr>"
proof -
  have "(map g [0..<256])[v := (g v)\<lparr>ist := i\<rparr>] = map (g(v := (g v)\<lparr>ist := i\<rparr>)) [0..<256]"
    by (rule nth_equalityI) (auto simp: nth_list_update)
  then show ?thesis
    using assms by (simp add: idt_set_ist_def)
qed

definition vector_ist :: "nat \<Rightarrow> u8" where
  "vector_ist v = ((\<lambda>_. 0)(8 := 1, 2 := 2, 18 := 3, 1 := 4, 3 := 4, 12 := 5)) v"

lemma idt_fill_eq:
  assumes "length (idt s) = 256"
  shows "idt_fill syms s = s\<lparr>idt :=
    map (\<lambda>v. (vector_entry syms (code_segment s) v)\<lparr>ist := vector_ist v\<rparr>) [0..<256]\<rparr>"
proof -
  let ?g = "vector_entry syms (code_segment s)"
  define t where "t = for_range 0 256 (\<lambda>i s'.
      idt_set_descriptor (ucast i) (isr_stub_table syms ! unat i) 0x8E (code_segment s) s') s"
  have t: "idt t = map ?g [0..<256]" "t\<lparr>idt := idt s\<rparr> = s"
    using idt_loop [OF assms, of syms "code_segment s"] by (simp_all add: t_def)
  have rest: "t\<lparr>idt := x\<rparr> = s\<lparr>idt := x\<rparr>" for x
    by (subst t(2) [symmetric]) simp
  have start: "idt_set_ist v i t = idt_set_ist v i (t\<lparr>idt := map ?g [0..<256]\<rparr>)" for v i
    by (simp flip: t(1))
  have "idt_fill syms s = t\<lparr>idt := map (?g(8 := (?g 8)\<lparr>ist := 1\<rparr>, 2 := (?g 2)\<lparr>ist := 2\<rparr>,
      18 := (?g 18)\<lparr>ist := 3\<rparr>, 1 := (?g 1)\<lparr>ist := 4\<rparr>, 3 := (?g 3)\<lparr>ist := 4\<rparr>,
      12 := (?g 12)\<lparr>ist := 5\<rparr>)) [0..<256]\<rparr>"
    by (simp add: idt_fill_def Let_def t_def [symmetric] start set_ist_map)
  moreover have "?g(8 := (?g 8)\<lparr>ist := 1\<rparr>, 2 := (?g 2)\<lparr>ist := 2\<rparr>, 18 := (?g 18)\<lparr>ist := 3\<rparr>,
      1 := (?g 1)\<lparr>ist := 4\<rparr>, 3 := (?g 3)\<lparr>ist := 4\<rparr>, 12 := (?g 12)\<lparr>ist := 5\<rparr>) =
      (\<lambda>v. (?g v)\<lparr>ist := vector_ist v\<rparr>)"
    by (rule ext) (simp add: vector_ist_def vector_entry_def Let_def)
  ultimately show ?thesis
    by (simp only: rest)
qed

section \<open>Frames on the stack\<close>

lemma push_all_append: "push_all (vs @ ws) c = push_all ws (push_all vs c)"
  by (induction vs c rule: push_all.induct) simp_all

text \<open>After a push of at most \<open>2 ^ 60\<close> words, the words are found in reverse order from the stack pointer on.\<close>

lemma push_all_words:
  assumes "length vs < 2 ^ 60"
  shows "fst (push_all vs (sp, m)) = sp - 8 * of_nat (length vs) \<and>
     (\<forall>i<length vs. rd64 (snd (push_all vs (sp, m))) (sp - 8 * of_nat (Suc i)) = vs ! i)"
  using assms
proof (induction vs rule: rev_induct)
  case (snoc v vs)
  let ?c = "push_all vs (sp, m)"
  have IH: "fst ?c = sp - 8 * of_nat (length vs)"
    "\<And>i. i < length vs \<Longrightarrow> rd64 (snd ?c) (sp - 8 * of_nat (Suc i)) = vs ! i"
    using snoc by simp_all
  have last: "push_all (vs @ [v]) (sp, m) =
      (sp - 8 * of_nat (Suc (length vs)), wr64 (snd ?c) (sp - 8 * of_nat (Suc (length vs))) v)"
  proof -
    obtain a b where ab: "?c = (a, b)"
      by fastforce
    then have "a - 8 = sp - 8 * of_nat (Suc (length vs))"
      using IH(1) by (simp add: algebra_simps)
    then show ?thesis
      by (simp only: push_all_append ab push_all.simps snd_conv)
  qed
  have "apart8 (sp - 8 * of_nat (Suc (length vs))) (sp - 8 * of_nat (Suc i))" if "i < length vs" for i
  proof -
    have d: "sp - 8 * of_nat (Suc i) - (sp - 8 * of_nat (Suc (length vs))) = of_nat (8 * (length vs - i))"
      "sp - 8 * of_nat (Suc (length vs)) - (sp - 8 * of_nat (Suc i)) = - of_nat (8 * (length vs - i))"
      using that by (simp_all add: of_nat_diff algebra_simps)
    define k where "k = 8 * (length vs - i)"
    have k: "8 \<le> k" "k < 2 ^ 63"
      using that snoc.prems by (simp_all add: k_def)
    then have u: "unat (of_nat k :: u64) = k"
      by (simp add: unat_of_nat)
    then have "unat (- of_nat k :: u64) = 2 ^ 64 - k"
      using k unat_sub_if' [of 0 "of_nat k :: u64"] by simp
    then show ?thesis
      using k u unfolding apart8_def d k_def [symmetric] by (simp add: word_le_nat_alt)
  qed
  then have "rd64 (snd (push_all (vs @ [v]) (sp, m))) (sp - 8 * of_nat (Suc i)) = (vs @ [v]) ! i"
    if "i < length (vs @ [v])" for i
    using that IH(2) [of i] by (cases "i = length vs") (simp_all add: last nth_append less_Suc_eq del: of_nat_Suc)
  then show ?case
    by (simp add: last)
qed simp

lemma push_all_read:
  assumes "push_all vs (sp, m) = (p, m')" and "i < length vs" and "length vs < 2 ^ 60"
  shows "rd64 m' (p + 8 * of_nat i) = rev vs ! i"
proof -
  have p: "p = sp - 8 * of_nat (length vs)"
    using push_all_words [OF assms(3), of sp m] assms(1) by simp
  have "rd64 m' (sp - 8 * of_nat (Suc (length vs - Suc i))) = vs ! (length vs - Suc i)"
    using push_all_words [OF assms(3), of sp m] assms(1,2) by (simp del: of_nat_Suc)
  moreover have "sp - 8 * of_nat (Suc (length vs - Suc i)) = p + 8 * of_nat i"
    using assms(2) by (simp add: p Suc_diff_Suc of_nat_diff algebra_simps del: of_nat_Suc)
  ultimately show ?thesis
    using assms(2) by (simp only: rev_nth)
qed

lemma pop_list_eq:
  "pop_list n m sp = (map (\<lambda>i. rd64 m (sp + 8 * of_nat i)) [0..<n], sp + 8 * of_nat n)"
proof (induction n arbitrary: sp)
  case (Suc n)
  have "map (\<lambda>i. rd64 m (sp + 8 + 8 * of_nat i)) [0..<n] = map (\<lambda>i. rd64 m (sp + 8 * of_nat i)) [Suc 0..<Suc n]"
    by (rule nth_equalityI) (simp_all add: algebra_simps del: upt_Suc)
  then show ?case
    using Suc.IH [of "sp + 8"] by (simp add: upt_conv_Cons algebra_simps del: upt_Suc)
qed simp

section \<open>The dispatcher and the scheduler\<close>

lemma schedule_more: "schedule s = Inr t \<Longrightarrow> kernel.more t = kernel.more s"
  by (auto simp: schedule_def switch_threads_def update_thread_def Let_def split: if_splits option.splits prod.splits)

lemma sched_on_tick_more: "sched_on_tick s = Inr t \<Longrightarrow> kernel.more t = kernel.more s"
  by (auto simp: sched_on_tick_def update_thread_def Let_def dest!: schedule_more split: if_splits)

lemma kernel_more_timers:
  fixes s t :: "'a tables_scheme"
  assumes "kernel.more t = kernel.more s"
  shows "trace t = trace s" "lapic_timer_ticks t = lapic_timer_ticks s"
    "interrupt_handlers t = interrupt_handlers s"
  using assms by (cases s, cases t, simp)+

lemma io_more_tables:
  fixes s t :: "'a tables_scheme"
  assumes "io.more t = io.more s"
  shows "idt t = idt s" "tss t = tss s" "idtr t = idtr s" "code_segment t = code_segment s"
    "gdt_tss_desc t = gdt_tss_desc s" "gdtr t = gdtr s" "task_register t = task_register s"
  using assms by (cases s, cases t, simp)+

lemma pic_disable_more [simp]: "io.more (pic_disable s) = io.more s"
  by (simp add: pic_disable_def Let_def)

lemma idt_init_tables:
  fixes s :: "'a tables_scheme"
  assumes "idt_init syms s = Inr t" and "length (idt s) = 256"
  shows "idt t = map (\<lambda>v. (vector_entry syms (code_segment s) v)\<lparr>ist := vector_ist v\<rparr>) [0..<256]"
    and "tss t = tss s" and "idtr t = (4095, idt_address syms)" and "idt_address syms \<noteq> 0"
    and "gdt_tss_desc t = gdt_tss_desc s" and "gdtr t = gdtr s" and "task_register t = task_register s"
proof -
  let ?idt = "map (\<lambda>v. (vector_entry syms (code_segment s) v)\<lparr>ist := vector_ist v\<rparr>) [0..<256]"
  let ?s1 = "s\<lparr>idt := ?idt, idt_pointer := (4095, idt_address syms)\<rparr>"
  let ?s2 = "(note_access (Lidt 4095 (idt_address syms)) ?s1)\<lparr>idtr := (4095, idt_address syms)\<rparr>"
  show "idt_address syms \<noteq> 0"
    using assms by (auto simp: idt_init_def Let_def)
  then have "lapic_init (pic_disable ?s2) = Inr t"
    using assms(1) by (simp add: idt_init_def Let_def idt_fill_eq [OF assms(2)] note_access_def)
  then have "io.more t = io.more ?s2"
    using lapic_init_more [of "pic_disable ?s2" t] pic_disable_more [of ?s2] by (simp only:)
  from io_more_tables [OF this]
  show "idt t = ?idt" "tss t = tss s" "idtr t = (4095, idt_address syms)"
    "gdt_tss_desc t = gdt_tss_desc s" "gdtr t = gdtr s" "task_register t = task_register s"
    by (simp_all add: note_access_def)
qed

section \<open>Properties\<close>

text \<open>
  The segments are the ones the comments name: after \<^verbatim>\<open>gdt_init\<close> the table is the null
  descriptor, 64-bit code and data of ring 0 and data and 64-bit code of ring 3, all flat; the task
  state segment is an available one of 104 bytes at its address, with the ends of the five
  interrupt stacks; and the processor has loaded the table of 56 bytes, its code segment 0x08, its
  data segments 0x10 and the task register 0x28.
\<close>

theorem gdt_init_correct:
  fixes syms :: table_symbols
  assumes "length (gdt_entries s) = 5"
  defines "t \<equiv> gdt_init syms s"
  shows "map gdt_bits (gdt_entries t) =
      [0, 0x00AF9A000000FFFF, 0x00CF92000000FFFF, 0x00CFF2000000FFFF, 0x00AFFA000000FFFF] \<and>
    tss_base (gdt_tss_desc t) = tss_address syms \<and> seg_limit (gdt_tss_desc t) = 104 - 1 \<and>
    gdt_access (gdt_tss_desc t) = 0x89 \<and>
    ists (tss t) = map (\<lambda>stack. stack + 4096) [double_fault_stack syms, nmi_stack syms,
      machine_check_stack syms, debug_stack syms, stack_fault_stack syms] @ [0, 0] \<and>
    gdtr t = (55, gdt_address syms) \<and> code_segment t = 0x08 \<and> data_segments t = 0x10 \<and> task_register t = 0x28"
proof -
  obtain a b c d e where "gdt_entries s = [a, b, c, d, e]"
    using assms(1) by (rule five_entries)
  then have "map gdt_bits (gdt_entries t) =
      [0, 0x00AF9A000000FFFF, 0x00CF92000000FFFF, 0x00CFF2000000FFFF, 0x00AFFA000000FFFF]"
    by (simp add: t_def gdt_init_fields gdt_bits_values)
  moreover have "gdt_access (gdt_tss_desc t) = 0x89"
    by (simp add: t_def gdt_init_fields gdt_set_tss_descriptor_def)
  ultimately show ?thesis
    using gdt_set_tss_decoded(1) [of "tss_address syms" 103 s] gdt_set_tss_decoded(2) [of 103 "tss_address syms" s]
    by (simp add: t_def gdt_init_fields)
qed

text \<open>
  C21. The processor finds each handler: after \<^verbatim>\<open>gdt_init\<close> and \<^verbatim>\<open>idt_init\<close> every vector leads, through an
  interrupt gate in the kernel's code segment, to its own stub; the double fault, the non-maskable
  interrupt, the machine check and the stack fault each run on a stack of their own, debug and
  breakpoint share one, and all other vectors stay on the interrupted stack. The processor finds
  these stacks: its task register selects the descriptor of \<^verbatim>\<open>tss\<close> in the loaded table.
\<close>

theorem exception_stacks:
  assumes "idt_init syms (gdt_init syms s) = Inr t" and "length (gdt_entries s) = 5" and "length (idt s) = 256"
  shows "idtr t = (256 * 16 - 1, idt_address syms) \<and>
    gdtr t = (55, gdt_address syms) \<and> task_register t = 0x28 \<and>
    tss_base (gdt_tss_desc t) = tss_address syms \<and>
    (\<forall>v<256. isr_offset (idt t ! v) = isr_stub_table syms ! v \<and> kernel_cs (idt t ! v) = 0x08 \<and>
       attributes (idt t ! v) = 0x8E \<and>
       interrupt_stack t v =
         (if v = 8 then Some (double_fault_stack syms + 4096)
          else if v = 2 then Some (nmi_stack syms + 4096)
          else if v = 18 then Some (machine_check_stack syms + 4096)
          else if v \<in> {1, 3} then Some (debug_stack syms + 4096)
          else if v = 12 then Some (stack_fault_stack syms + 4096) else None))"
proof -
  let ?s = "gdt_init syms s"
  have s: "length (idt ?s) = 256" "code_segment ?s = 8"
    using assms(3) by (simp_all add: gdt_init_fields)
  note t = idt_init_tables [OF assms(1) s(1)]
  have offs: "isr_offset (e\<lparr>ist := i\<rparr>) = isr_offset e" for e i
    by (simp add: isr_offset_def)
  have "interrupt_stack t v =
         (if v = 8 then Some (double_fault_stack syms + 4096)
          else if v = 2 then Some (nmi_stack syms + 4096)
          else if v = 18 then Some (machine_check_stack syms + 4096)
          else if v \<in> {1, 3} then Some (debug_stack syms + 4096)
          else if v = 12 then Some (stack_fault_stack syms + 4096) else None)" if "v < 256" for v
    using that by (simp add: interrupt_stack_def t(1,2) gdt_init_fields vector_ist_def Let_def)
  then show ?thesis
    by (auto simp: t(1,3,5-7) offs s(2) gdt_init_fields gdt_set_tss_decoded)
qed

text \<open>
  The descriptors encode their arguments without loss: base, the low 20 bits of the limit, access
  byte and flags can be read back from an entry, the other entries keep their contents, and an
  interrupt gate and the task state descriptor give back their 64-bit addresses.
\<close>

theorem descriptor_roundtrip:
  assumes "num < length (gdt_entries s)" and "unat vector < length (idt s)"
  shows "seg_base (gdt_entries (gdt_set_entry num base limit acc gran s) ! num) = base \<and>
    seg_limit (gdt_entries (gdt_set_entry num base limit acc gran s) ! num) = limit AND 0xFFFFF \<and>
    gdt_access (gdt_entries (gdt_set_entry num base limit acc gran s) ! num) = acc \<and>
    granularity (gdt_entries (gdt_set_entry num base limit acc gran s) ! num) AND 0xF0 = gran AND 0xF0 \<and>
    (\<forall>k. k \<noteq> num \<longrightarrow> gdt_entries (gdt_set_entry num base limit acc gran s) ! k = gdt_entries s ! k) \<and>
    tss_base (gdt_tss_desc (gdt_set_tss_descriptor addr limit s)) = addr \<and>
    isr_offset (idt (idt_set_descriptor vector isr attrs cs s) ! unat vector) = isr \<and>
    attributes (idt (idt_set_descriptor vector isr attrs cs s) ! unat vector) = attrs"
  using gdt_set_entry_decoded [OF assms(1)] gdt_set_tss_decoded(1) [of addr limit s] split_offset [of isr] assms
  by (simp add: idt_set_descriptor_def isr_offset_def Let_def)

text \<open>
  C22. Entering and leaving an interrupt is transparent: whatever the vector, provided the processor
  pushes an error code for exactly the vectors whose stub expects one, the dispatcher's structure
  holds every register of the interrupted program, the vector and the error code or zero, and
  returning from a frame that the handler left alone gives all registers back, the stack pointer and
  the flags included.
\<close>

theorem interrupt_frame_roundtrip:
  assumes "isr_entry v err r (sp, m) = (p, m')" and "err = None \<longleftrightarrow> \<not> isr_err_vector v"
    and "\<forall>i<22. rd64 m'' (p + 8 * of_nat i) = rd64 m' (p + 8 * of_nat i)"
  shows "registers_at m' p = r\<lparr>int_no := of_nat v, error_code := (case err of None \<Rightarrow> 0 | Some e \<Rightarrow> e)\<rparr> \<and>
    isr_exit r (p, m'') = r"
proof -
  let ?e = "case err of None \<Rightarrow> 0 | Some e \<Rightarrow> e"
  define vs where "vs = [r_ss r, r_rsp r, r_rflags r, r_cs r, r_rip r, ?e, of_nat v] @ isr_common_pushes r"
  have "cpu_pushes r err @ isr_stub v @ isr_common_pushes r = vs"
    using assms(2) by (auto simp: cpu_pushes_def isr_stub_def vs_def split: option.split)
  then have "push_all vs (sp, m) = (p, m')"
    using assms(1) by (simp add: isr_entry_def)
  moreover have len: "length vs = 22"
    by (simp add: vs_def isr_common_pushes_def)
  ultimately have w: "rd64 m' (p + 8 * of_nat i) = rev vs ! i" if "i < 22" for i
    using push_all_read [of vs sp m p m' i] that by simp
  have rev: "rev vs = [r_rax r, r_rbx r, r_rcx r, r_rdx r, r_rsi r, r_rdi r, r_rbp r, r_r8 r, r_r9 r,
      r_r10 r, r_r11 r, r_r12 r, r_r13 r, r_r14 r, r_r15 r, of_nat v, ?e, r_rip r, r_cs r, r_rflags r, r_rsp r, r_ss r]"
    by (simp add: vs_def isr_common_pushes_def)
  have "registers_at m' p = r\<lparr>int_no := of_nat v, error_code := ?e\<rparr>"
    using w [of 0] w [of 1] w [of 2] w [of 3] w [of 4] w [of 5] w [of 6] w [of 7] w [of 8] w [of 9] w [of 10]
      w [of 11] w [of 12] w [of 13] w [of 14] w [of 15] w [of 16] w [of 17] w [of 18] w [of 19] w [of 20] w [of 21]
    by (simp add: registers_at_def rev)
  moreover have "pop_list 15 m'' p = (take 15 (rev vs), p + 120)"
    using w assms(3) by (simp add: pop_list_eq list_eq_iff_nth_eq len)
  moreover have "pop_list 5 m'' (p + 136) = (drop 17 (rev vs), p + 176)"
  proof -
    have "rd64 m'' (p + 136 + 8 * of_nat i) = rev vs ! (17 + i)" if "i < 5" for i
      using w [of "17 + i"] assms(3) [rule_format, of "17 + i"] that by (simp add: add.assoc)
    then show ?thesis
      by (simp add: pop_list_eq list_eq_iff_nth_eq len add.assoc)
  qed
  ultimately show ?thesis
    by (simp add: isr_exit_def Let_def rev add.assoc)
qed

text \<open>
  C20. A timer interrupt through the dispatcher drives the scheduler safely. Its handler, whatever
  function the tick callback is, counts the tick and acknowledges the interrupt by a single access,
  and only then calls the callback, on the state with both done. With the scheduler as the callback
  and its invariant, the dispatcher returns with the invariant, what the scheduler made of that
  state, no further access, and the same thread unless its time slice is used up.
\<close>

theorem timer_interrupt_schedules:
  fixes s :: "'a tables_scheme"
  assumes "length (interrupt_handlers s) = 256" and "interrupt_handlers s ! 32 = Some Lapic_timer_irq_handler"
    and "int_no r = 32" and "tick_callback s" and "sched_inv main s"
    and "acked = s\<lparr>lapic_timer_ticks := lapic_timer_ticks s + 1,
                    trace := trace s @ [Write32 (lapic_base s + 0xB0) 0]\<rparr>"
  shows "(\<forall>callback. lapic_timer_irq_handler callback s = callback acked) \<and>
    idt_handler_c r s = lapic_timer_irq_handler sched_on_tick s \<and>
    (\<exists>t. idt_handler_c r s = Inr t \<and> sched_on_tick acked = Inr t \<and> sched_inv main t \<and>
       lapic_timer_ticks t = lapic_timer_ticks s + 1 \<and>
       trace t = trace s @ [Write32 (lapic_base s + 0xB0) 0] \<and>
       (1 < time_slice (threads s (current_thread s)) \<longrightarrow> current_thread t = current_thread s))"
proof -
  have order: "lapic_timer_irq_handler callback s = callback acked" for callback
    using assms(4,6) by (simp add: lapic_timer_irq_handler_def timer_tick_event_def
        lapic_eoi_def lapic_write_def note_access_def LAPIC_EOI_def Let_def)
  have disp: "idt_handler_c r s = lapic_timer_irq_handler sched_on_tick s"
    using assms(1-3) by (simp add: idt_handler_c_def)
  have inv: "sched_inv main acked"
    using assms(5) by (simp add: assms(6) sched_inv_def queue_def terminated_def)
  obtain t where t: "sched_on_tick acked = Inr t"
    using sched_on_tick_returns [OF inv] by blast
  have "sched_inv main t"
    using sched_step_inv [OF sched_step.tick [OF t] inv] .
  moreover have "trace t = trace acked" "lapic_timer_ticks t = lapic_timer_ticks acked"
    using kernel_more_timers [OF sched_on_tick_more [OF t]] by simp_all
  moreover have "current_thread t = current_thread s" if "1 < time_slice (threads s (current_thread s))"
  proof -
    have "time_slice (threads s (current_thread s)) - 1 \<noteq> 0" "0 < time_slice (threads s (current_thread s))"
      using that by (auto simp: word_less_nat_alt)
    then show ?thesis
      using t by (auto simp: assms(6) sched_on_tick_def Let_def split: if_splits)
  qed
  ultimately show ?thesis
    using disp t order by (simp add: assms(6))
qed

section \<open>Witnesses\<close>

definition sample_symbols :: table_symbols where
  "sample_symbols = \<lparr>gdt_address = 0x20000, tss_address = 0x20100, gdt_pointer_address = 0x20200,
     idt_address = 0x21000, double_fault_stack = 0x30000, nmi_stack = 0x31000,
     machine_check_stack = 0x32000, debug_stack = 0x33000, stack_fault_stack = 0x34000,
     isr_stub_table = map (\<lambda>v. 0xFFFFFFFF80000000 + 16 * of_nat v) [0..<256]\<rparr>"

definition sample_tables :: tables where
  "sample_tables = timers.extend (sample_timers (\<lambda>_. 0))
     \<lparr>gdt_entries = replicate 5 (make_gdt_entry 0 0 0 0),
      gdt_tss_desc = \<lparr>limit_low = 0, base_low = 0, base_middle = 0, gdt_access = 0, granularity = 0,
        base_high = 0, base_upper32 = 0, tss_reserved = 0\<rparr>,
      tss = zero_tss, gdt_pointer = (0, 0),
      idt = replicate 256 (vector_entry sample_symbols 0 0), idt_pointer = (0, 0),
      interrupt_handlers = (replicate 256 None)[32 := Some Lapic_timer_irq_handler],
      gdtr = (0, 0), idtr = (0, 0), code_segment = 0x28, data_segments = 0x30, task_register = 0\<rparr>"

lemma sample_tables_fields [simp]:
  "length (gdt_entries sample_tables) = 5" "length (idt sample_tables) = 256"
  "length (interrupt_handlers sample_tables) = 256"
  "interrupt_handlers sample_tables ! 32 = Some Lapic_timer_irq_handler"
  by (simp_all add: sample_tables_def timers.extend_def)

lemma sample_initialized: "physical_memory_initialized sample_tables"
proof -
  have "physical_memory_initialized sample_heap"
    by (simp add: sample_heap_def empty_heap_def pmm.extend_def kfree_def Let_def)
  then show ?thesis
    by (simp add: sample_tables_def timers.extend_def sample_timers_def keyboard.extend_def
        sample_keyboard_def io.extend_def sample_io_def kernel.extend_def sample_kernel_def
        heap.extend_def heap.truncate_def)
qed

lemma sample_idt_init: "\<exists>t. idt_init sample_symbols (gdt_init sample_symbols sample_tables) = Inr t"
proof -
  let ?s = "gdt_init sample_symbols sample_tables"
  have "length (idt ?s) = 256"
    by (simp add: gdt_init_fields)
  moreover have "physical_memory_initialized ?s"
    using sample_initialized
    by (simp add: gdt_init_def Let_def gdt_set_entry_def gdt_set_tss_descriptor_def gdt_flush_def note_access_def)
  moreover have "\<exists>t. lapic_init s = Inr t" if "physical_memory_initialized s" for s :: tables
    using vmm_map_page_no_panic [of "s\<lparr>lapic_base := _\<rparr>"] that
    by (auto simp: lapic_init_def Let_def bind_ok_eq_Inr no_panic_def) (metis (no_types))
  ultimately show ?thesis
    by (simp add: idt_init_def Let_def idt_fill_eq sample_symbols_def pic_disable_def outb_def io_wait_def note_access_def)
qed

theorem gdt_init_correct_witness:
  "map gdt_bits (gdt_entries (gdt_init sample_symbols sample_tables)) =
     [0, 0x00AF9A000000FFFF, 0x00CF92000000FFFF, 0x00CFF2000000FFFF, 0x00AFFA000000FFFF] \<and>
   tss_base (gdt_tss_desc (gdt_init sample_symbols sample_tables)) = 0x20100"
  using gdt_init_correct [of sample_tables sample_symbols] by (simp add: sample_symbols_def)

theorem exception_stacks_witness:
  "\<exists>t. idt_init sample_symbols (gdt_init sample_symbols sample_tables) = Inr t \<and>
     interrupt_stack t 8 = Some 0x31000 \<and> interrupt_stack t 14 = None \<and>
     isr_offset (idt t ! 14) = isr_stub_table sample_symbols ! 14"
proof -
  obtain t where t: "idt_init sample_symbols (gdt_init sample_symbols sample_tables) = Inr t"
    using sample_idt_init by blast
  note all = exception_stacks [OF t, simplified, THEN conjunct2, THEN conjunct2, THEN conjunct2, THEN conjunct2,
    rule_format]
  show ?thesis
    using t all [of 8] all [of 14] by (auto simp: sample_symbols_def)
qed

theorem descriptor_roundtrip_witness:
  "seg_base (gdt_entries (gdt_set_entry 1 0x12345678 0xFFFFF 0x9A 0xA0 sample_tables) ! 1) = 0x12345678 \<and>
   isr_offset (idt (idt_set_descriptor 14 0xFFFFFFFF80001234 0x8E 8 sample_tables) ! unat (14 :: u8)) = 0xFFFFFFFF80001234"
  using descriptor_roundtrip [of 1 sample_tables 14 "0x12345678" "0xFFFFF" "0x9A" "0xA0" 0 "0xFFFFFFFF80001234" "0x8E" 8]
  by simp

definition sample_registers :: registers where
  "sample_registers = \<lparr>r_rax = 1, r_rbx = 2, r_rcx = 3, r_rdx = 4, r_rsi = 5, r_rdi = 6, r_rbp = 7,
     r_r8 = 8, r_r9 = 9, r_r10 = 10, r_r11 = 11, r_r12 = 12, r_r13 = 13, r_r14 = 14, r_r15 = 15,
     int_no = 32, error_code = 0, r_rip = 16, r_cs = 8, r_rflags = 0x202, r_rsp = 0x5000, r_ss = 0x10\<rparr>"

theorem interrupt_frame_roundtrip_witness:
  "\<exists>p m'. isr_entry 14 (Some 2) sample_registers (0x5000, \<lambda>_. 0) = (p, m') \<and>
     error_code (registers_at m' p) = 2 \<and> isr_exit sample_registers (p, m') = sample_registers"
proof -
  obtain p m' where e: "isr_entry 14 (Some 2) sample_registers (0x5000, \<lambda>_. 0) = (p, m')"
    by fastforce
  then show ?thesis
    using interrupt_frame_roundtrip [OF e, of m'] by (simp add: isr_err_vector_def)
qed

text \<open>A tick of the three threads of the scheduler's sample.\<close>

definition sample_running :: tables where
  "sample_running = kernel.extend (kernel.truncate (sample_queue\<lparr>tick_callback := True\<rparr>)) (kernel.more sample_tables)"

theorem timer_interrupt_schedules_witness:
  "\<exists>t. idt_handler_c sample_registers sample_running = Inr t \<and> sched_inv 0x10 t \<and>
     current_thread t = 0x200"
proof -
  have f: "queue sample_running [0x10, 0x200, 0x400]" "current_thread sample_running = 0x200"
    "\<not> terminated sample_running t" "time_slice (threads sample_running t) = 10"
    "tick_callback sample_running" for t
    using sample_queue_ring
    by (simp_all add: sample_running_def kernel.extend_def kernel.truncate_def queue_def terminated_def)
  have h: "interrupt_handlers sample_running = interrupt_handlers sample_tables"
    by (rule kernel_more_timers) (simp add: sample_running_def kernel.extend_def)
  have "sched_inv 0x10 sample_running"
    using f by (intro sched_invI [OF f(1)]) (simp_all add: NULL_def)
  then show ?thesis
    using timer_interrupt_schedules [OF _ _ _ _ _ refl, of sample_running sample_registers "0x10"] f
    by (auto simp: h sample_registers_def)
qed

end
