(* ===== verification/Memmove.thy ===== *)
theory Memmove
  imports Mem
begin

text \<open>
  \<^verbatim>\<open>memmove\<close> towards lower addresses on overlapping blocks, which is how the console scrolls:
  the code hands it to \<^verbatim>\<open>memcpy\<close>, whose unrolled head stores both ends of the block before
  the words between them. What comes out is stated exactly.
\<close>

section \<open>Copying with an overlap\<close>

text \<open>A step only reads what it needs; nothing is asked of the rest of the block.\<close>

lemma copying_outside:
  assumes "s + i - d \<notin> S"
  shows "copying m d s S (s + i) = m (s + i)"
  using assms by (simp add: copying_def filled_def)

lemma put8_step:
  assumes "s + i - d \<notin> S"
  shows "put8 (copying m d s S) d s i = copying m d s (insert i S)"
  unfolding put8_def copying_outside [OF assms]
  using filled_byte [of m d "\<lambda>j. m (s + j)" S i] by (simp add: copying_def)

lemma put64_step:
  assumes "\<And>j. j < 8 \<Longrightarrow> s + (8 * i + j) - d \<notin> S" and "unat (8 * i) + 8 \<le> 2 ^ 64"
  shows "put64 (copying m d s S) d s i = copying m d s (S \<union> offs (unat (8 * i)) (unat (8 * i) + 8))"
proof -
  have "rd64 (copying m d s S) (s + 8 * i) = rd64 m (s + 8 * i)"
    by (rule rd64_cong) (use copying_outside [OF assms(1)] in \<open>simp add: add.assoc\<close>)
  then show ?thesis
    unfolding put64_def using assms(2)
    by (simp add: copying_def, intro filled_word_offs) (simp_all add: byte_of_rd64 add.assoc)
qed

text \<open>The word loops follow any sequence of memories that their single steps follow.\<close>

lemma memcpy_words4_follow:
  assumes step: "\<And>j. j < N \<Longrightarrow> put64 (c j) d s (of_nat j) = c (Suc j)"
    and "unat i + unat tw \<le> N" and "N < 2 ^ 61"
  shows "\<exists>i' tw'. memcpy_words4 (c (unat i)) d s i tw = (c (unat i'), i', tw') \<and>
           unat i' + unat tw' = unat i + unat tw"
  using assms(2)
proof (induction "unat tw" arbitrary: i tw rule: less_induct)
  case less
  show ?case
  proof (cases "4 \<le> tw")
    case True
    have n: "4 \<le> unat tw" "unat (tw - 4) = unat tw - 4"
      using True by (simp_all add: word_le_nat_alt unat_sub)
    have u: "unat (i + of_nat k) = unat i + k" if "k \<le> 4" for k
      using less.prems n assms(3) that by (subst unat_add_no_overflow) (simp_all add: unat_of_nat)
    have "put64 (c (unat i + k)) d s (i + of_nat k) = c (Suc (unat i + k))" if "k < 4" for k
      using step [of "unat i + k"] less.prems n that by simp
    from this [of 0] this [of 1] this [of 2] this [of 3]
    have "memcpy_words4 (c (unat i)) d s i tw = memcpy_words4 (c (unat (i + 4))) d s (i + 4) (tw - 4)"
      using True u [of 4] by (subst memcpy_words4.simps) (simp add: Let_def numeral_eq_Suc)
    moreover have "unat (tw - 4) < unat tw" "unat (i + 4) + unat (tw - 4) \<le> N"
      using n u [of 4] less.prems by simp_all
    ultimately show ?thesis
      using less.hyps [of "tw - 4" "i + 4"] n u [of 4] by auto
  next
    case False
    then show ?thesis
      by (subst memcpy_words4.simps) auto
  qed
qed

lemma memcpy_words1_follow:
  assumes step: "\<And>j. j < N \<Longrightarrow> put64 (c j) d s (of_nat j) = c (Suc j)"
    and "unat i + unat tw \<le> N" and "N < 2 ^ 61"
  shows "memcpy_words1 (c (unat i)) d s i tw = c (unat i + unat tw)"
  using assms(2)
proof (induction "unat tw" arbitrary: i tw rule: less_induct)
  case less
  show ?case
  proof (cases "0 < tw")
    case True
    then have n: "0 < unat tw" "unat (tw - 1) = unat tw - 1"
      by (simp_all add: word_less_nat_alt unat_minus_one unat_gt_0)
    have u: "unat (i + 1) = Suc (unat i)"
      using less.prems n assms(3) by (subst unat_add_no_overflow) simp_all
    have "memcpy_words1 (c (unat i)) d s i tw = memcpy_words1 (c (unat (i + 1))) d s (i + 1) (tw - 1)"
      using True step [of "unat i"] less.prems n u by (subst memcpy_words1.simps) simp
    then show ?thesis
      using less.hyps [of "tw - 1" "i + 1"] less.prems n u by simp
  next
    case False
    then have "unat tw = 0"
      by (simp add: word_less_nat_alt)
    then show ?thesis
      using False by (subst memcpy_words1.simps) simp
  qed
qed

lemma memcpy_words_follow:
  assumes "\<And>j. j < unat tw \<Longrightarrow> put64 (c j) d s (of_nat j) = c (Suc j)" and "unat tw < 2 ^ 61"
  shows "(case memcpy_words4 (c 0) d s 0 tw of (m, i, tw) \<Rightarrow> memcpy_words1 m d s i tw) = c (unat tw)"
proof -
  obtain i' tw' where w: "memcpy_words4 (c 0) d s 0 tw = (c (unat i'), i', tw')" "unat i' + unat tw' = unat tw"
    using memcpy_words4_follow [of "unat tw" c d s 0 tw] assms by auto
  then show ?thesis
    using memcpy_words1_follow [of "unat tw" c d s i' tw'] assms by simp
qed

section \<open>Moving down by at least a word\<close>

text \<open>
  \<open>shifted d s n\<close>: the source starts at least eight bytes behind the destination, and the blocks
  share at least sixteen.
\<close>

definition shifted :: "u64 \<Rightarrow> u64 \<Rightarrow> u64 \<Rightarrow> bool" where
  "shifted d s n \<longleftrightarrow> 8 \<le> unat (s - d) \<and> unat (s - d) + 16 \<le> unat n \<and> unat (s - d) + unat n \<le> 2 ^ 64"

lemma shifted_offset:
  assumes "shifted d s n" and "unat i < unat n"
  shows "unat (s + i - d) = unat (s - d) + unat i"
proof -
  have "s + i - d = (s - d) + i"
    by simp
  then show ?thesis
    using assms by (simp only: shifted_def) (intro unat_add_no_overflow, simp)
qed

lemma shifted_pair:
  assumes "shifted d s n" and a: "a < 8"
  shows "put8 (put8 (copying m d s (ends a n)) d s (of_nat a)) d s (n - of_nat (Suc a)) =
           copying m d s (ends (Suc a) n)"
proof -
  have n: "a < unat n" "16 < unat n"
    using assms by (auto simp: shifted_def)
  have u: "unat (of_nat a :: u64) = a"
    using a by (simp add: unat_of_nat)
  have v: "unat (n - of_nat (Suc a)) = unat n - Suc a"
    using a n by (subst unat_sub) (simp_all add: word_le_nat_alt unat_of_nat del: of_nat_Suc)
  have lo: "s + of_nat a - d \<notin> ends a n"
    using assms u shifted_offset [OF assms(1), of "of_nat a"] by (auto simp: ends_def shifted_def)
  have hi: "s + (n - of_nat (Suc a)) - d \<notin> insert (of_nat a) (ends a n)"
    using assms u v n shifted_offset [OF assms(1), of "n - of_nat (Suc a)"]
    by (auto simp: ends_def shifted_def word_unat_eq_iff [where 'a = 64] simp del: of_nat_Suc)
  show ?thesis
    using put8_step [OF lo, of m] put8_step [OF hi, of m] ends_Suc [OF n(1)]
    by (simp add: insert_commute del: of_nat_Suc)
qed

lemma copying_join: "copying (copying m d s S) d s {} = copying m d s S"
  by (simp add: copying_def filled_def)

lemma shifted_prologue:
  assumes "shifted d s n" and "k \<le> n"
  shows "for_range 0 k (\<lambda>i m. put8 m d s i) m = copying m d s (offs 0 (unat k))"
proof (rule for_range_inv [where I = "\<lambda>j t. t = copying m d s (offs 0 (unat j))"])
  fix j t
  assume j: "j < k" and t: "t = copying m d s (offs 0 (unat j))"
  have jn: "unat j < unat n"
    using j assms(2) by (simp add: word_less_nat_alt word_le_nat_alt)
  have "s + j - d \<notin> offs 0 (unat j)"
    using shifted_offset [OF assms(1) jn] by simp
  moreover have "insert j (offs 0 (unat j)) = offs 0 (unat (j + 1))"
    using j by (auto simp: unat_succ_less word_unat_eq_iff [where 'a = 64])
  ultimately show "put8 t d s j = copying m d s (offs 0 (unat (j + 1)))"
    using t put8_step by simp
qed (auto simp: copying_def filled_def)

lemma shifted_word:
  assumes "shifted d s n" and "unat k + 8 * j + 8 \<le> unat n"
  shows "put64 (copying m d s (offs 0 (unat k + 8 * j))) (d + k) (s + k) (of_nat j) =
           copying m d s (offs 0 (unat k + 8 * Suc j))"
proof -
  let ?b = "unat k + 8 * j"
  have bound: "?b + 8 < 2 ^ 64"
    using assms unat64_bound [of "s - d"] by (auto simp: shifted_def)
  then have u: "unat (k + 8 * of_nat j) = ?b"
    by (simp add: unat_word_ariths unat_of_nat)
  have "s + (k + 8 * of_nat j + i) - d \<notin> offs 0 ?b" if "i < 8" for i
  proof -
    have "unat (k + 8 * of_nat j + i) = ?b + unat i"
      using bound u that by (subst unat_add_no_overflow) (simp_all add: word_less_nat_alt)
    then show ?thesis
      using shifted_offset [OF assms(1), of "k + 8 * of_nat j + i"] assms(2) that
      by (simp add: word_less_nat_alt)
  qed
  then have rd: "rd64 (copying m d s (offs 0 ?b)) (s + (k + 8 * of_nat j)) = rd64 m (s + (k + 8 * of_nat j))"
    by (intro rd64_cong) (use copying_outside [of s _ d "offs 0 ?b" m] in \<open>simp add: add.assoc\<close>)
  have "wr64 (copying m d s (offs 0 ?b)) (d + (k + 8 * of_nat j)) (rd64 m (s + (k + 8 * of_nat j))) =
      copying m d s (offs 0 ?b \<union> offs (unat (k + 8 * of_nat j)) (unat (k + 8 * of_nat j) + 8))"
    unfolding copying_def
    by (rule filled_word_offs) (use bound u in \<open>simp_all add: byte_of_rd64 add.assoc\<close>)
  then show ?thesis
    unfolding put64_def u using rd offs_join [of 0 ?b "?b + 8" "{}"] by (simp add: add.assoc add.commute [of 8])
qed

lemma memcpy_shifted:
  assumes sh: "shifted d s n"
  shows "memcpy m d s n = (\<lambda>x. if x - d < n
           then m (if unat n \<le> unat (x - d) + unat (s - d) + 8 \<and> unat (x - d) + unat (s - d) < unat n
                   then s + (s - d) + (x - d) else s + (x - d))
           else m x)"
proof -
  let ?c = "copying m d s"
  let ?m = "?c (ends 8 n)"
  note pair = shifted_pair [OF sh]
  have n: "16 < n" "16 < unat n"
    using sh by (auto simp: shifted_def word_less_nat_alt)
  have c0: "?c (ends 0 n) = m"
    by (simp add: copying_def filled_def ends_0)
  have e: "put8 (put8 m d s 0) d s (n - 1) = ?c (ends 1 n)"
    "put8 (put8 (?c (ends 1 n)) d s 1) d s (n - 2) = ?c (ends 2 n)"
    "put8 (put8 (?c (ends 2 n)) d s 2) d s (n - 3) = ?c (ends 3 n)"
    "put8 (put8 (?c (ends 3 n)) d s 3) d s (n - 4) = ?c (ends 4 n)"
    "put8 (put8 (?c (ends 4 n)) d s 4) d s (n - 5) = ?c (ends 5 n)"
    "put8 (put8 (?c (ends 5 n)) d s 5) d s (n - 6) = ?c (ends 6 n)"
    "put8 (put8 (?c (ends 6 n)) d s 6) d s (n - 7) = ?c (ends 7 n)"
    "put8 (put8 (?c (ends 7 n)) d s 7) d s (n - 8) = ?m"
    using pair [of 0 m] pair [of 1 m] pair [of 2 m] pair [of 3 m] pair [of 4 m] pair [of 5 m] pair [of 6 m]
      pair [of 7 m] c0 by (simp_all add: numeral_eq_Suc)
  define k where "k = (- d) AND 7"
  note pro = align_prologue [OF n(1) k_def]
  let ?w = "((n - k) AND (- 8)) div 8"
  let ?t = "\<lambda>j. copying ?m d s (offs 0 (unat k + 8 * j))"
  have k: "k \<le> n"
    using pro(1) n by (simp add: word_le_nat_alt)
  have w: "unat k + 8 * unat ?w \<le> unat n" "unat n < unat k + 8 * unat ?w + 8" "unat ?w < 2 ^ 61"
    using pro n unat64_bound [of n] by auto
  have "put64 (?t j) (d + k) (s + k) (of_nat j) = ?t (Suc j)" if "j < unat ?w" for j
    using shifted_word [OF sh, of k j ?m] w(1) that by simp
  then have words: "(case memcpy_words4 (?t 0) (d + k) (s + k) 0 ?w of
      (m, i, tw) \<Rightarrow> memcpy_words1 m (d + k) (s + k) i tw) = ?t (unat ?w)"
    using memcpy_words_follow [of ?w ?t "d + k" "s + k"] w(3) by blast
  have "\<not> n \<le> 2" "\<not> n \<le> 6" "\<not> n \<le> 8" "\<not> n \<le> 16" "n \<noteq> 0"
    using n by (auto simp: word_le_nat_alt)
  then have "memcpy m d s n = ?t (unat ?w)"
    using words shifted_prologue [OF sh k, of ?m] e by (simp add: memcpy_def Let_def k_def)
  also have "\<dots> = (\<lambda>x. if x - d < n
      then m (if unat n \<le> unat (x - d) + unat (s - d) + 8 \<and> unat (x - d) + unat (s - d) < unat n
              then s + (s - d) + (x - d) else s + (x - d))
      else m x)"
  proof (rule ext)
    fix x
    let ?o = "x - d"
    have src: "?m (s + ?o) = m (if unat n \<le> unat ?o + unat (s - d) + 8 \<and> unat ?o + unat (s - d) < unat n
        then s + (s - d) + ?o else s + ?o)" if "unat ?o < unat n"
      using shifted_offset [OF sh that] sh
      by (simp add: copying_def filled_def ends_def shifted_def add.commute add.left_commute)
        (simp add: algebra_simps)
    have tail: "?m x = m (s + ?o)" if "unat n \<le> unat ?o + 8" "unat ?o < unat n"
      using that by (simp add: copying_def filled_def ends_def)
    have out: "?m x = m x" if "\<not> unat ?o < unat n"
      using that n by (simp add: copying_def filled_def ends_def)
    show "?t (unat ?w) x = (if ?o < n
      then m (if unat n \<le> unat ?o + unat (s - d) + 8 \<and> unat ?o + unat (s - d) < unat n
              then s + (s - d) + ?o else s + ?o)
      else m x)"
    proof (cases "unat ?o < unat k + 8 * unat ?w")
      case True
      then have "?t (unat ?w) x = ?m (s + ?o)"
        by (simp add: copying_def [of ?m] filled_def)
      then show ?thesis
        using True w(1) src by (simp add: word_less_nat_alt)
    next
      case False
      then have "?t (unat ?w) x = ?m x"
        by (simp add: copying_def [of ?m] filled_def)
      moreover have "\<not> unat ?o + unat (s - d) < unat n" if "unat ?o < unat n"
        using False w(2) sh that by (simp add: shifted_def)
      ultimately show ?thesis
        using False w(2) tail out by (cases "unat ?o < unat n") (simp_all add: word_less_nat_alt)
    qed
  qed
  finally show ?thesis .
qed

section \<open>Properties\<close>

text \<open>
  C39. Moving a block down onto itself, by at least eight bytes and with at least sixteen bytes in
  common: \<^verbatim>\<open>memmove\<close> moves every byte except the eight whose source is the end of the destination
  block; these get the byte that lies the distance further behind, because the end of the block is
  stored before the bytes it overwrites have been read. Nothing outside the block changes.
\<close>

theorem memmove_down_exact:
  assumes "d < s" and "8 \<le> unat (s - d)" and "unat (s - d) + 16 \<le> unat n" and "unat (s - d) + unat n \<le> 2 ^ 64"
  shows "memmove m d s n = (\<lambda>x. if x - d < n
           then m (if unat n \<le> unat (x - d) + unat (s - d) + 8 \<and> unat (x - d) + unat (s - d) < unat n
                   then s + (s - d) + (x - d) else s + (x - d))
           else m x)"
proof -
  have "memmove m d s n = memcpy m d s n"
    using assms(1,3) by (auto simp: memmove_def Let_def unat_0_iff [symmetric])
  then show ?thesis
    using memcpy_shifted [of d s n m] assms by (simp add: shifted_def)
qed

text \<open>Thirty-two bytes moved down by eight: byte 16 of the result is byte 32 of the block, not byte 24.\<close>

theorem memmove_down_exact_witness:
  "memmove (\<lambda>x. ucast x) 0x1000 0x1008 32 0x1010 = 0x20"
  using memmove_down_exact [of "0x1000" "0x1008" 32 "\<lambda>x. ucast x"] by simp

end
