(* ===== verification/Pixels.thy ===== *)
theory Pixels
  imports Mem32 Memmove
begin

text \<open>
  A framebuffer as the drawing code sees it: an array of 32-bit pixels in the byte memory.
  Loops over a signed 32-bit counter, the filling of a whole buffer
  (\<^verbatim>\<open>fill_buffer_with_color\<close> of \<^verbatim>\<open>drivers/screen/screen.c\<close>), and \<open>painted\<close>, the specification
  that every drawing routine of one colour is reduced to.
\<close>

section \<open>Signed counters\<close>

text \<open>\<^verbatim>\<open>for (int32_t i = ...; i < n; i++)\<close>; the guard keeps the increment from overflowing.\<close>

lemma sint_succ:
  fixes i n :: u32
  assumes "i <s n"
  shows "sint (i + 1) = sint i + 1"
proof -
  have "sint i < sint n"
    using assms by (simp add: word_sless_alt)
  moreover have "sint n < 2 ^ 31" "- (2 ^ 31) \<le> sint i"
    using sint_lt [of n] sint_ge [of i] by simp_all
  ultimately show ?thesis
    by (simp add: sint_word_ariths signed_take_bit_int_eq_self)
qed

function for_int :: "u32 \<Rightarrow> u32 \<Rightarrow> (u32 \<Rightarrow> 's \<Rightarrow> 's) \<Rightarrow> 's \<Rightarrow> 's" where
  "for_int i n f s = (if i <s n then for_int (i + 1) n f (f i s) else s)"
  by pat_completeness auto
termination
  by (relation "measure (\<lambda>(i, n, f, s). nat (sint n - sint i))")
    (auto simp: sint_succ word_sless_alt)

declare for_int.simps [simp del]

lemma sint_small:
  assumes "unat (w :: u32) < 2 ^ 31"
  shows "sint w = int (unat w)"
proof -
  have u: "uint w = int (unat w)"
    by (simp only: uint_nat)
  have "unat w < 2147483648"
    using assms by simp
  with u have "uint w < 2147483648" "- 2147483648 \<le> uint w"
    by linarith+
  then have "signed_take_bit 31 (uint w) = uint w"
    by (intro signed_take_bit_int_eq_self) simp_all
  then have "sint w = uint w"
    using sint_uint [of w] by simp
  then show ?thesis
    using u by (rule trans)
qed

lemma sless_small:
  "unat (v :: u32) < 2 ^ 31 \<Longrightarrow> unat w < 2 ^ 31 \<Longrightarrow> v <s w \<longleftrightarrow> unat v < unat w"
  by (simp only: word_sless_alt sint_small of_nat_less_iff)

lemma sle_small:
  "unat (v :: u32) < 2 ^ 31 \<Longrightarrow> unat w < 2 ^ 31 \<Longrightarrow> v \<le>s w \<longleftrightarrow> unat v \<le> unat w"
  by (simp only: word_sle_eq sint_small of_nat_le_iff)

lemma scast_small:
  assumes "unat (w :: u32) < 2 ^ 31"
  shows "(scast w :: u64) = of_nat (unat w)"
proof -
  have "(scast w :: u64) = word_of_int (sint w)"
    by (rule scast_eq)
  then show ?thesis
    by (simp only: sint_small [OF assms] of_int_of_nat_eq)
qed

lemma unat_scast_small:
  assumes "unat (w :: u32) < 2 ^ 31"
  shows "unat (scast w :: u64) = unat w"
  unfolding scast_small [OF assms] unat_of_nat using assms by simp

text \<open>A loop over a body that only looks at its state through an invariant indexed by the counter.\<close>

lemma for_int_inv:
  fixes f :: "u32 \<Rightarrow> 's \<Rightarrow> 's"
  assumes step: "\<And>j t. j < unat n \<Longrightarrow> I j t \<Longrightarrow> I (Suc j) (f (of_nat j) t)"
    and "unat n < 2 ^ 31" and "I 0 s"
  shows "I (unat n) (for_int 0 n f s)"
proof -
  have "I (unat n) (for_int i n f t)" if "I (unat i) t" "unat i \<le> unat n" for i t
    using that
  proof (induction "unat n - unat i" arbitrary: i t rule: less_induct)
    case less
    show ?case
    proof (cases "unat i < unat n")
      case True
      then have i: "i <s n"
        using assms(2) by (simp add: sless_small)
      have u: "unat (i + 1) = Suc (unat i)"
        using True assms(2) by (subst unat_add_no_overflow) simp_all
      have "I (Suc (unat i)) (f i t)"
        using step [OF True less.prems(1)] by simp
      then have "I (unat n) (for_int (i + 1) n f (f i t))"
        using True u by (intro less.hyps) simp_all
      then show ?thesis
        using i by (subst for_int.simps) simp
    next
      case False
      then have "\<not> i <s n"
        using less.prems assms(2) by (simp add: sless_small)
      then show ?thesis
        using False less.prems by (subst for_int.simps) simp
    qed
  qed
  then show ?thesis
    using assms(3) by simp
qed

section \<open>Painting\<close>

text \<open>\<open>pixel m b k\<close>: element \<open>k\<close> of the array at \<open>b\<close>. \<open>painted m b S v\<close>: the elements in \<open>S\<close> set to \<open>v\<close>.\<close>

definition pixel :: "mem \<Rightarrow> u64 \<Rightarrow> nat \<Rightarrow> u32" where
  "pixel m b k = rd32 m (b + 4 * of_nat k)"

definition painted :: "mem \<Rightarrow> u64 \<Rightarrow> nat set \<Rightarrow> u32 \<Rightarrow> mem" where
  "painted m b S v =
     (\<lambda>x. if unat (x - b) div 4 \<in> S then ucast (drop_bit (8 * (unat (x - b) mod 4)) v) else m x)"

lemma painted_empty [simp]: "painted m b {} v = m"
  by (simp add: painted_def)

lemma painted_outside: "unat (x - b) div 4 \<notin> S \<Longrightarrow> painted m b S v x = m x"
  by (simp add: painted_def)

lemma painted_Un: "painted (painted m b S v) b T v = painted m b (S \<union> T) v"
  by (rule ext) (simp add: painted_def)

lemma window:
  fixes x i :: u64
  assumes "unat i + w \<le> 2 ^ 64"
  shows "unat (x - i) < w \<longleftrightarrow> unat i \<le> unat x \<and> unat x < unat i + w"
    and "unat i \<le> unat x \<Longrightarrow> unat (x - i) = unat x - unat i"
  using assms unat64_bound [of x] by (auto simp: unat_sub_if' split: if_splits)

lemma in_block: "n \<le> j \<and> j < n + 4 \<longleftrightarrow> j div 4 = k" if "n = 4 * k" for j n k :: nat
  using that by auto

lemma in_pixel:
  fixes x b :: u64
  assumes "k < 2 ^ 62"
  shows "x - (b + 4 * of_nat k) < 4 \<longleftrightarrow> unat (x - b) div 4 = k"
    and "unat (x - b) div 4 = k \<Longrightarrow> unat (x - (b + 4 * of_nat k)) = unat (x - b) mod 4"
proof -
  let ?k = "4 * of_nat k :: u64"
  have u: "unat ?k = 4 * k"
    using assms by (simp add: unat_word_ariths unat_of_nat)
  then have bound: "unat ?k + 4 \<le> 2 ^ 64"
    using assms by simp
  have e: "x - (b + ?k) = (x - b) - ?k"
    by simp
  show "x - (b + ?k) < 4 \<longleftrightarrow> unat (x - b) div 4 = k"
    unfolding e unat_lt4 window(1) [OF bound] using u by (rule in_block)
  assume d: "unat (x - b) div 4 = k"
  then have "unat ?k \<le> unat (x - b)"
    using u by auto
  then show "unat (x - (b + ?k)) = unat (x - b) mod 4"
    unfolding e using window(2) [OF bound, of "x - b"] u d by (simp add: modulo_nat_def)
qed

lemma wr32_painted:
  assumes "k < 2 ^ 62"
  shows "wr32 (painted m b S v) (b + 4 * of_nat k) v = painted m b (insert k S) v"
  by (rule ext) (use in_pixel [OF assms] in \<open>auto simp: wr32_def painted_def\<close>)

lemma wr32_eq_painted: "k < 2 ^ 62 \<Longrightarrow> wr32 m (b + 4 * of_nat k) v = painted m b {k} v"
  using wr32_painted [of k m b "{}" v] by simp

lemma pixel_painted:
  assumes "k < 2 ^ 62"
  shows "pixel (painted m b S v) b k = (if k \<in> S then v else pixel m b k)"
proof -
  have o: "unat (b + 4 * of_nat k + i - b) = 4 * k + unat i" if "i < 4" for i
  proof -
    have "unat i < 4"
      using that by (simp add: unat_lt4)
    then show ?thesis
      using assms by (simp add: unat_word_ariths unat_of_nat)
  qed
  show ?thesis
  proof (cases "k \<in> S")
    case True
    have "rd32 (painted m b S v) (b + 4 * of_nat k) = rd32 (wr32 m (b + 4 * of_nat k) v) (b + 4 * of_nat k)"
    proof (rule rd32_cong)
      fix i :: u64
      assume i: "i < 4"
      then show "painted m b S v (b + 4 * of_nat k + i) = wr32 m (b + 4 * of_nat k) v (b + 4 * of_nat k + i)"
        using True o [OF i] by (simp add: painted_def wr32_def unat_lt4)
    qed
    then show ?thesis
      using True by (simp add: pixel_def)
  next
    case False
    have "rd32 (painted m b S v) (b + 4 * of_nat k) = rd32 m (b + 4 * of_nat k)"
      by (rule rd32_cong) (use False o in \<open>simp add: painted_def unat_lt4\<close>)
    then show ?thesis
      using False by (simp add: pixel_def)
  qed
qed

text \<open>Two pixels at once: a 64-bit word of the colour twice.\<close>

definition color64 :: "u32 \<Rightarrow> u64" where
  "color64 color = push_bit 32 (ucast color) OR ucast color"

lemma byte_of_color64:
  assumes "j < 8"
  shows "ucast (drop_bit (8 * j) (color64 c)) = (ucast (drop_bit (8 * (j mod 4)) c) :: u8)"
proof (rule bit_word_eqI)
  fix n :: nat
  assume n: "n < LENGTH(8)"
  show "bit (ucast (drop_bit (8 * j) (color64 c)) :: u8) n = bit (ucast (drop_bit (8 * (j mod 4)) c) :: u8) n"
    unfolding color64_def using n
    by (cases rule: lt8_cases [OF assms]) (auto simp: bit_simps dest: bit_imp_le_length)
qed

lemma in_block8: "8 * k \<le> j \<and> j < 8 * k + 8 \<longleftrightarrow> j div 4 \<in> {2 * k, Suc (2 * k)}" for j k :: nat
  by auto

lemma mod_diff8:
  fixes j k :: nat
  assumes "8 * k \<le> j"
  shows "(j - 8 * k) mod 4 = j mod 4"
proof -
  have "j mod 4 = ((j - 8 * k) + (2 * k) * 4) mod 4"
    using assms by simp
  then show ?thesis
    by (simp only: mod_mult_self1)
qed

lemma wr64_painted:
  assumes "k < 2 ^ 61"
  shows "wr64 (painted m b S v) (b + 8 * of_nat k) (color64 v) = painted m b (S \<union> {2 * k, Suc (2 * k)}) v"
proof (rule ext)
  fix x :: u64
  let ?o = "unat (x - b)"
  have u: "unat (8 * of_nat k :: u64) = 8 * k"
    using assms by (simp add: unat_word_ariths unat_of_nat)
  have e: "x - (b + 8 * of_nat k) = (x - b) - 8 * of_nat k"
    by simp
  have bound: "unat (8 * of_nat k :: u64) + 8 \<le> 2 ^ 64"
    using assms u by simp
  have iff: "x - (b + 8 * of_nat k) < 8 \<longleftrightarrow> ?o div 4 \<in> {2 * k, Suc (2 * k)}"
    unfolding e unat_lt8 window(1) [OF bound] unfolding u by (rule in_block8)
  show "wr64 (painted m b S v) (b + 8 * of_nat k) (color64 v) x =
      painted m b (S \<union> {2 * k, Suc (2 * k)}) v x"
  proof (cases "x - (b + 8 * of_nat k) < 8")
    case True
    then have o: "8 * k \<le> ?o" "?o - 8 * k < 8"
      unfolding e unat_lt8 window(1) [OF bound] unfolding u by auto
    then have sub: "unat (x - (b + 8 * of_nat k)) = ?o - 8 * k"
      unfolding e using window(2) [OF bound] u by simp
    have mod: "(?o - 8 * k) mod 4 = ?o mod 4"
      using o(1) by (rule mod_diff8)
    show ?thesis
      using True byte_of_color64 [OF o(2), of v] iff [THEN iffD1] unfolding wr64_def painted_def sub mod by auto
  next
    case False
    then show ?thesis
      using iff by (auto simp: wr64_outside painted_def)
  qed
qed

section \<open>Filling a buffer\<close>

function fill_words4 :: "mem \<Rightarrow> u64 \<Rightarrow> u64 \<Rightarrow> u64 \<Rightarrow> u64 \<Rightarrow> mem \<times> u64 \<times> u64" where
  "fill_words4 m target64 c i total_words =
     (if 4 \<le> total_words then
        let m = wr64 m (target64 + 8 * i) c;
            m = wr64 m (target64 + 8 * (i + 1)) c;
            m = wr64 m (target64 + 8 * (i + 2)) c;
            m = wr64 m (target64 + 8 * (i + 3)) c
        in fill_words4 m target64 c (i + 4) (total_words - 4)
      else (m, i, total_words))"
  by pat_completeness auto
termination
  by (relation "measure (\<lambda>(m, t, c, i, tw). unat tw)") (auto simp: word_le_nat_alt unat_sub_if')

function fill_words1 :: "mem \<Rightarrow> u64 \<Rightarrow> u64 \<Rightarrow> u64 \<Rightarrow> u64 \<Rightarrow> mem" where
  "fill_words1 m target64 c i total_words =
     (if 0 < total_words then
        fill_words1 (wr64 m (target64 + 8 * i) c) target64 c (i + 1) (total_words - 1)
      else m)"
  by pat_completeness auto
termination
  by (relation "measure (\<lambda>(m, t, c, i, tw). unat tw)") (auto simp: word_less_nat_alt unat_sub_if')

declare fill_words4.simps [simp del] fill_words1.simps [simp del]

definition fill_buffer_with_color :: "mem \<Rightarrow> u64 \<Rightarrow> u64 \<Rightarrow> u32 \<Rightarrow> mem" where
  "fill_buffer_with_color m target total_bytes color =
     (if color = 0 then memset m target 0 total_bytes
      else case fill_words4 m target (color64 color) 0 (total_bytes div 8) of
             (m, i, total_words) \<Rightarrow> fill_words1 m target (color64 color) i total_words)"

lemma fill_word:
  assumes "unat i < 2 ^ 61"
  shows "wr64 (painted m b {..<2 * unat i} v) (b + 8 * i) (color64 v) = painted m b {..<2 * Suc (unat i)} v"
proof -
  have "{..<2 * unat i} \<union> {2 * unat i, Suc (2 * unat i)} = {..<2 * Suc (unat i)}"
    by auto
  then show ?thesis
    using wr64_painted [OF assms, of m b "{..<2 * unat i}" v] by simp
qed

lemma fill_words4_painted:
  assumes "unat i + unat tw \<le> 2 ^ 61"
  shows "\<exists>i' tw'. fill_words4 (painted m b {..<2 * unat i} v) b (color64 v) i tw =
           (painted m b {..<2 * unat i'} v, i', tw') \<and> unat i' + unat tw' = unat i + unat tw"
  using assms
proof (induction "unat tw" arbitrary: i tw rule: less_induct)
  case less
  show ?case
  proof (cases "4 \<le> tw")
    case True
    then have n: "4 \<le> unat tw" "unat (tw - 4) = unat tw - 4"
      by (simp_all add: word_le_nat_alt unat_sub)
    define P where "P k = painted m b {..<2 * k} v" for k
    have u: "unat (i + 1) = Suc (unat i)" "unat (i + 2) = Suc (Suc (unat i))"
      "unat (i + 3) = Suc (Suc (Suc (unat i)))" "unat (i + 4) = Suc (Suc (Suc (Suc (unat i))))"
      using less.prems n by (subst unat_add_no_overflow; simp)+
    have w: "wr64 (P (unat j)) (b + 8 * j) (color64 v) = P (Suc (unat j))" if "unat j < unat i + 4" for j
      unfolding P_def using less.prems n that by (intro fill_word) simp
    have "fill_words4 (P (unat i)) b (color64 v) i tw = fill_words4 (P (unat (i + 4))) b (color64 v) (i + 4) (tw - 4)"
      using True w [of i] w [of "i + 1"] w [of "i + 2"] w [of "i + 3"] u
      by (subst fill_words4.simps) (simp add: Let_def)
    then have "fill_words4 (painted m b {..<2 * unat i} v) b (color64 v) i tw =
        fill_words4 (painted m b {..<2 * unat (i + 4)} v) b (color64 v) (i + 4) (tw - 4)"
      by (simp only: P_def)
    moreover have "\<exists>i' tw'. fill_words4 (painted m b {..<2 * unat (i + 4)} v) b (color64 v) (i + 4) (tw - 4) =
        (painted m b {..<2 * unat i'} v, i', tw') \<and> unat i' + unat tw' = unat (i + 4) + unat (tw - 4)"
      using n u less.prems by (intro less.hyps) simp_all
    moreover have "unat (i + 4) + unat (tw - 4) = unat i + unat tw"
      using n u by simp
    ultimately show ?thesis
      by metis
  next
    case False
    then show ?thesis
      by (subst fill_words4.simps) auto
  qed
qed

lemma fill_words1_painted:
  assumes "unat i + unat tw \<le> 2 ^ 61"
  shows "fill_words1 (painted m b {..<2 * unat i} v) b (color64 v) i tw =
           painted m b {..<2 * (unat i + unat tw)} v"
  using assms
proof (induction "unat tw" arbitrary: i tw rule: less_induct)
  case less
  show ?case
  proof (cases "0 < tw")
    case True
    then have n: "0 < unat tw" "unat (tw - 1) = unat tw - 1"
      by (simp_all add: word_less_nat_alt unat_minus_one unat_gt_0)
    have u: "unat (i + 1) = Suc (unat i)"
      using less.prems n by (subst unat_add_no_overflow) simp_all
    have "fill_words1 (painted m b {..<2 * unat i} v) b (color64 v) i tw =
        fill_words1 (painted m b {..<2 * unat (i + 1)} v) b (color64 v) (i + 1) (tw - 1)"
      using True n less.prems fill_word [of i m b v] u by (subst fill_words1.simps) simp
    also have "\<dots> = painted m b {..<2 * (unat (i + 1) + unat (tw - 1))} v"
      using n u less.prems by (intro less.hyps) simp_all
    finally show ?thesis
      using n u by simp
  next
    case False
    then have "unat tw = 0"
      by (simp add: word_less_nat_alt)
    then show ?thesis
      using False by (subst fill_words1.simps) simp
  qed
qed

lemma fill_nonzero:
  assumes "c \<noteq> 0"
  shows "fill_buffer_with_color m b n c = painted m b {..<2 * (unat n div 8)} c"
proof -
  let ?w = "n div 8"
  have w: "unat ?w = unat n div 8" "unat ?w \<le> 2 ^ 61"
    using unat64_bound [of n] by (simp_all add: unat_div)
  obtain i tw where "fill_words4 (painted m b {..<2 * unat (0 :: u64)} c) b (color64 c) 0 ?w =
      (painted m b {..<2 * unat i} c, i, tw)" "unat i + unat tw = unat (0 :: u64) + unat ?w"
    using fill_words4_painted [of 0 ?w m b c] w by auto
  then show ?thesis
    using assms fill_words1_painted [of i tw m b c] w by (simp add: fill_buffer_with_color_def)
qed

lemma fill_zero:
  assumes "4 dvd unat n"
  shows "fill_buffer_with_color m b n 0 = painted m b {..<unat n div 4} 0"
proof (rule ext)
  fix x
  have "unat (x - b) < unat n \<longleftrightarrow> unat (x - b) div 4 < unat n div 4"
    using assms by (auto simp: dvd_def)
  then show "fill_buffer_with_color m b n 0 x = painted m b {..<unat n div 4} 0 x"
    by (simp add: fill_buffer_with_color_def memset_eq painted_def word_less_nat_alt)
qed

text \<open>A buffer of an even number of pixels is filled; of an odd number, all but the last one unless the colour is 0.\<close>

lemma fill_buffer_eq:
  assumes "8 dvd unat n"
  shows "fill_buffer_with_color m b n c = painted m b {..<unat n div 4} c"
proof (cases "c = 0")
  case True
  moreover have "4 dvd unat n"
    using assms by (rule dvd_trans [rotated]) simp
  ultimately show ?thesis
    by (simp add: fill_zero)
next
  case False
  have "2 * (unat n div 8) = unat n div 4"
    using assms by (auto simp: dvd_def)
  then show ?thesis
    using False by (simp add: fill_nonzero)
qed

lemma odd_pixel:
  fixes n :: nat
  assumes "n mod 8 = 4"
  shows "\<not> n div 4 - 1 < 2 * (n div 8)"
proof -
  have "n = 8 * (n div 8) + 4"
    using assms mult_div_mod_eq [of 8 n] by simp
  then have "n div 4 = 2 * (n div 8) + 1"
    by linarith
  then show ?thesis
    by simp
qed

theorem fill_misses_last_pixel:
  assumes "unat n mod 8 = 4" and "c \<noteq> 0"
  shows "pixel (fill_buffer_with_color m b n c) b (unat n div 4 - 1) = pixel m b (unat n div 4 - 1)"
proof -
  have "unat n div 4 - 1 < 2 ^ 62"
    using unat64_bound [of n] by simp
  moreover have "\<not> unat n div 4 - 1 < 2 * (unat n div 8)"
    using assms(1) by (rule odd_pixel)
  ultimately show ?thesis
    using assms(2) by (simp add: fill_nonzero pixel_painted)
qed

theorem fill_misses_last_pixel_witness:
  "pixel (fill_buffer_with_color (\<lambda>_. 0) 0x1000 12 0xFF000000) 0x1000 2 = pixel (\<lambda>_. 0) 0x1000 2"
  using fill_misses_last_pixel [of 12 "0xFF000000" "\<lambda>_. 0" "0x1000"] by simp

end
