(* ===== verification/Blit.thy ===== *)
theory Blit
  imports Pixels
begin

text \<open>
  The bitmap font of \<^verbatim>\<open>drivers/screen/fonts/blit32.h\<close>: the table of glyphs and
  \<^verbatim>\<open>blit32_TextNExplicit\<close>, with the pointer arithmetic of its loops. A signed 32-bit value is a
  \<open>u32\<close> read with the signed comparisons. The string is an array of its own, because the
  console passes a local one.
\<close>

section \<open>Definitions\<close>

definition blit32_WIDTH :: u32 where "blit32_WIDTH = 5"
definition blit32_HEIGHT :: u32 where "blit32_HEIGHT = 6"
definition blit32_ADVANCE :: u32 where "blit32_ADVANCE = blit32_WIDTH + 1"
definition blit32_DESCENDER :: u32 where "blit32_DESCENDER = 2"
definition blit32_BASELINE_OFFSET :: u32 where "blit32_BASELINE_OFFSET = blit32_DESCENDER + 1"
definition blit32_ROW_ADVANCE :: u32 where "blit32_ROW_ADVANCE = blit32_HEIGHT + blit32_BASELINE_OFFSET"
definition blit32_EXTRA_BITS :: "u32 \<Rightarrow> u32" where "blit32_EXTRA_BITS x = drop_bit 30 x AND 3"
definition blit_Clip :: u32 where "blit_Clip = 0"

text \<open>\<^verbatim>\<open>blit_IndexFromASCII\<close>; a \<^verbatim>\<open>char\<close> is signed.\<close>

definition blit_IndexFromASCII :: "u8 \<Rightarrow> u32" where
  "blit_IndexFromASCII ascii = scast ascii - 0x20"

definition blit32_Glyphs :: "u32 list" where
  "blit32_Glyphs =
     [0x00000000, 0x08021084, 0x0000294a, 0x15f52bea, 0x08fa38be, 0x33a22e60, 0x2e94d8a6, 0x00001084,
      0x10421088, 0x04421082, 0x00a23880, 0x00471000, 0x04420000, 0x00070000, 0x0c600000, 0x02222200,
      0x1d3ad72e, 0x3e4214c4, 0x3e22222e, 0x1d18320f, 0x210fc888, 0x1d183c3f, 0x1d17844c, 0x0222221f,
      0x1d18ba2e, 0x210f463e, 0x0c6018c0, 0x04401000, 0x10411100, 0x00e03800, 0x04441040, 0x0802322e,
      0x3c1ef62e, 0x231fc544, 0x1f18be2f, 0x3c10862e, 0x1f18c62f, 0x3e10bc3f, 0x0210bc3f, 0x1d1c843e,
      0x2318fe31, 0x3e42109f, 0x0c94211f, 0x23149d31, 0x3e108421, 0x231ad6bb, 0x239cd671, 0x1d18c62e,
      0x0217c62f, 0x30eac62e, 0x2297c62f, 0x1d141a2e, 0x0842109f, 0x1d18c631, 0x08454631, 0x375ad631,
      0x22a21151, 0x08421151, 0x3e22221f, 0x1842108c, 0x20820820, 0x0c421086, 0x00004544, 0xbe000000,
      0x00000082, 0x1c97b000, 0x0e949c21, 0x1c10b800, 0x1c94b908, 0x3c1fc5c0, 0x42211c4c, 0x4e87252e,
      0x12949c21, 0x0c210040, 0x8c421004, 0x12519521, 0x0c210842, 0x235aac00, 0x12949c00, 0x0c949800,
      0x4213a526, 0x7087252e, 0x02149800, 0x0e837000, 0x0c213c42, 0x0e94a400, 0x0464a400, 0x155ac400,
      0x36426c00, 0x4e872529, 0x1e223c00, 0x1843188c, 0x08421084, 0x0c463086, 0x0006d800]"

text \<open>
  The innermost loops, \<^verbatim>\<open>for (px = n; px--; *Pixel++ = Value)\<close> and the row of a glyph; a state is
  the memory and the pointer that moves.
\<close>

definition blit_run :: "u32 \<Rightarrow> u32 \<Rightarrow> mem \<times> u64 \<Rightarrow> mem \<times> u64" where
  "blit_run v n = (\<lambda>(m, p). (wr32 m p v, p + 4)) ^^ unat n"

definition blit_glyph_cell :: "u32 \<Rightarrow> u32 \<Rightarrow> u32 \<Rightarrow> nat \<Rightarrow> nat \<Rightarrow> mem \<times> u64 \<Rightarrow> mem \<times> u64" where
  "blit_glyph_cell v Scale Glyph glY glX = (\<lambda>(m, p).
     let Shift = glY * unat blit32_WIDTH + glX in
     if drop_bit Shift Glyph AND 1 \<noteq> 0 then blit_run v Scale (m, p)
     else (m, p + 4 * scast Scale))"

definition blit_glyph_line ::
  "u32 \<Rightarrow> u32 \<Rightarrow> u32 \<Rightarrow> u32 \<Rightarrow> nat \<Rightarrow> mem \<times> u64 \<Rightarrow> mem \<times> u64" where
  "blit_glyph_line v Scale BufWidth Glyph glY = (\<lambda>(m, Row).
     case fold (blit_glyph_cell v Scale Glyph glY) [0..<unat blit32_WIDTH] (m, Row) of
       (m, p) \<Rightarrow> (m, Row + 4 * scast BufWidth))"

definition blit_glyph :: "u32 \<Rightarrow> u32 \<Rightarrow> u32 \<Rightarrow> u32 \<Rightarrow> mem \<times> u64 \<Rightarrow> mem \<times> u64" where
  "blit_glyph v Scale BufWidth Glyph =
     fold (\<lambda>glY. blit_glyph_line v Scale BufWidth Glyph glY ^^ unat Scale) [0..<unat blit32_HEIGHT]"

text \<open>The cases of a space and of a tab: \<open>n\<close> pixels cleared in every line of the row.\<close>

definition blit_clear :: "u32 \<Rightarrow> u32 \<Rightarrow> u32 \<Rightarrow> mem \<times> u64 \<Rightarrow> mem \<times> u64" where
  "blit_clear Scale BufWidth n =
     fold (\<lambda>sY. (\<lambda>(m, Row). (fst (blit_run 0 n (m, Row)), Row + 4 * scast BufWidth)) ^^ unat Scale)
       [0..<unat (blit32_HEIGHT + blit32_DESCENDER)]"

definition blit_at :: "u64 \<Rightarrow> u32 \<Rightarrow> u32 \<Rightarrow> u32 \<Rightarrow> u64" where
  "blit_at Buffer AbsBufWidth x y = Buffer + 4 * ucast (y * AbsBufWidth) + 4 * scast x"

text \<open>
  The \<^verbatim>\<open>switch\<close>: the new column and row, the number of lines and the memory. A character that
  has no entry in the table is an access outside the array.
\<close>

definition blit32_char ::
  "u64 \<Rightarrow> u32 \<Rightarrow> u32 \<Rightarrow> u32 \<Rightarrow> u32 \<Rightarrow> u32 \<Rightarrow> u32 \<Rightarrow> u8 \<Rightarrow>
   u32 \<Rightarrow> u32 \<Rightarrow> u32 \<Rightarrow> mem \<Rightarrow> (u32 \<times> u32 \<times> u32 \<times> mem) outcome" where
  "blit32_char Buffer v Scale BufWidth AbsBufWidth DrawDir StartX c x y LinesPrinted m =
     (if c = 0x20 then
        let m = fst (blit_clear Scale BufWidth (Scale * blit32_ADVANCE) (m, blit_at Buffer AbsBufWidth x y))
        in Inr (x + Scale * blit32_ADVANCE, y, LinesPrinted, m)
      else if c = 8 then Inr (x - Scale * blit32_ADVANCE, y, LinesPrinted, m)
      else if c = 9 then
        let m = fst (blit_clear Scale BufWidth (4 * Scale * blit32_ADVANCE) (m, blit_at Buffer AbsBufWidth x y))
        in Inr (x + 4 * Scale * blit32_ADVANCE, y, LinesPrinted, m)
      else if c = 10 then
        Inr (StartX, y + DrawDir * Scale * blit32_ROW_ADVANCE, LinesPrinted + 1, m)
      else if c = 13 then Inr (StartX, y, LinesPrinted, m)
      else
        let index = unat (blit_IndexFromASCII c) in
        if length blit32_Glyphs \<le> index then Inl Bad_access else
        let Glyph = blit32_Glyphs ! index;
            DesiredOffset = (if 0 < blit32_EXTRA_BITS Glyph then blit32_DESCENDER else 0);
            OffsetY = y + DesiredOffset * Scale * DrawDir;
            m = fst (blit_glyph v Scale BufWidth Glyph (m, blit_at Buffer AbsBufWidth x OffsetY))
        in Inr (x + Scale * blit32_ADVANCE, y, LinesPrinted, m))"

partial_function (option) blit32_loop ::
  "u64 \<Rightarrow> u32 \<Rightarrow> u32 \<Rightarrow> u32 \<Rightarrow> u32 \<Rightarrow> u32 \<Rightarrow> u32 \<Rightarrow> u32 \<Rightarrow> (u64 \<Rightarrow> u8) \<Rightarrow>
   u64 \<Rightarrow> u32 \<Rightarrow> u32 \<Rightarrow> u32 \<Rightarrow> mem \<Rightarrow> (u32 \<times> mem) outcome option" where
  "blit32_loop Buffer v Scale BufWidth BufHeight Wrap StartX StrLen String i x y LinesPrinted m =
     (if String i \<noteq> 0 \<and> i < scast StrLen then
        let IsNegative = BufWidth <s 0;
            DrawDir = (if IsNegative then -1 else 1);
            AbsBufWidth = DrawDir * BufWidth;
            c = String i;
            EndY = y + (blit32_HEIGHT + blit32_DESCENDER) * Scale * DrawDir;
            BufUnderflow = EndY <s 0 \<or> y <s 0;
            BufOverflow = BufHeight \<noteq> 0 \<and> (BufHeight \<le>s EndY \<or> BufHeight \<le>s y);
            BufYMinExceed = BufUnderflow \<or> IsNegative \<and> BufOverflow;
            BufYMaxExceed = BufOverflow \<or> IsNegative \<and> BufUnderflow;
            BufXMinExceed = x <s 0;
            CharWidth = (if c = 9 then 4 * Scale * blit32_ADVANCE else Scale * blit32_WIDTH);
            BufXMaxExceed = AbsBufWidth <s x + CharWidth
        in if BufYMaxExceed then Some (Inr (LinesPrinted, m)) else
           let BufXMaxExceed = (if c = 10 \<or> c = 13 then False else BufXMaxExceed) in
           if \<not> BufYMinExceed \<and> (\<not> BufXMaxExceed \<or> Wrap \<noteq> 0) \<or> c = 10 \<or> c = 13 then
             let (c, i) =
                   (if BufXMaxExceed \<and> c \<noteq> 10 \<and> c \<noteq> 13 \<and> c \<noteq> 9 \<and> c \<noteq> 0x20 then (10, i - 1)
                    else if BufXMinExceed \<and> c \<noteq> 10 \<and> c \<noteq> 13 then (0x20, i)
                    else (c, i))
             in case blit32_char Buffer v Scale BufWidth AbsBufWidth DrawDir StartX c x y LinesPrinted m of
                  Inl e \<Rightarrow> Some (Inl e)
                | Inr (x, y, LinesPrinted, m) \<Rightarrow>
                    blit32_loop Buffer v Scale BufWidth BufHeight Wrap StartX StrLen String
                      (i + 1) x y LinesPrinted m
           else
             blit32_loop Buffer v Scale BufWidth BufHeight Wrap StartX StrLen String (i + 1) x y LinesPrinted m
      else Some (Inr (LinesPrinted, m)))"

definition blit32_TextNExplicit ::
  "u64 \<Rightarrow> u32 \<Rightarrow> u32 \<Rightarrow> u32 \<Rightarrow> u32 \<Rightarrow> u32 \<Rightarrow> u32 \<Rightarrow> u32 \<Rightarrow> u32 \<Rightarrow> (u64 \<Rightarrow> u8) \<Rightarrow> mem \<Rightarrow>
   (u32 \<times> mem) outcome option" where
  "blit32_TextNExplicit Buffer v Scale BufWidth BufHeight Wrap StartX StartY StrLen String m =
     blit32_loop Buffer v Scale BufWidth BufHeight Wrap StartX
       (if 0 \<le>s StrLen then StrLen else 0x7FFFFFFF) String 0 StartX StartY 1 m"

section \<open>The pixels of a glyph\<close>

text \<open>
  The specification: with the top left corner at index \<open>k\<close> of an array of lines of \<open>w\<close> pixels, the
  pixel \<open>dx\<close> to the right and \<open>dy\<close> down belongs to the glyph when the bit of its cell of
  \<open>sc\<close> times \<open>sc\<close> pixels is set.
\<close>

definition glyph_pixels :: "u32 \<Rightarrow> nat \<Rightarrow> nat \<Rightarrow> nat \<Rightarrow> nat set" where
  "glyph_pixels g sc w k =
     {k + dy * w + dx | dy dx. dy < 6 * sc \<and> dx < 5 * sc \<and> bit g (5 * (dy div sc) + dx div sc)}"

definition at_pixel :: "u64 \<Rightarrow> nat \<Rightarrow> u64" where
  "at_pixel b k = b + 4 * of_nat k"

lemma at_pixel_move: "at_pixel b k + 4 * of_nat n = at_pixel b (k + n)"
  by (simp add: at_pixel_def algebra_simps)

lemma at_pixel_next: "at_pixel b k + 4 = at_pixel b (Suc k)"
  using at_pixel_move [of b k 1] by simp

lemma wr32_at_pixel: "k < 2 ^ 62 \<Longrightarrow> wr32 (painted m b S v) (at_pixel b k) v = painted m b (insert k S) v"
  by (simp only: at_pixel_def wr32_painted)

lemma line_index:
  fixes w X x Y y :: nat
  assumes "X < w" and "x < w"
  shows "Y * w + X = y * w + x \<longleftrightarrow> Y = y \<and> X = x"
proof
  assume e: "Y * w + X = y * w + x"
  have "(Y * w + X) div w = Y" "(y * w + x) div w = y"
    using assms by simp_all
  then show "Y = y \<and> X = x"
    using e by simp
qed simp

text \<open>In rows and columns: column \<open>X\<close> of line \<open>Y\<close> belongs to the glyph at column \<open>x\<close> of line \<open>y\<close>.\<close>

lemma glyph_pixels_iff:
  assumes "X < w" and "x + 5 * sc \<le> w"
  shows "Y * w + X \<in> glyph_pixels g sc w (y * w + x) \<longleftrightarrow>
           y \<le> Y \<and> Y < y + 6 * sc \<and> x \<le> X \<and> X < x + 5 * sc \<and>
           bit g (5 * ((Y - y) div sc) + (X - x) div sc)"
proof -
  have e: "Y * w + X = y * w + x + dy * w + dx \<longleftrightarrow> Y = y + dy \<and> X = x + dx" if "dx < 5 * sc" for dy dx
    using line_index [of X w "x + dx" Y "y + dy"] assms that by (simp add: algebra_simps)
  have "Y * w + X \<in> glyph_pixels g sc w (y * w + x) \<longleftrightarrow>
      (\<exists>dy dx. Y = y + dy \<and> X = x + dx \<and> dy < 6 * sc \<and> dx < 5 * sc \<and> bit g (5 * (dy div sc) + dx div sc))"
    unfolding glyph_pixels_def mem_Collect_eq by (intro ex_cong1) (metis e)
  also have "\<dots> \<longleftrightarrow> y \<le> Y \<and> Y < y + 6 * sc \<and> x \<le> X \<and> X < x + 5 * sc \<and>
      bit g (5 * ((Y - y) div sc) + (X - x) div sc)" (is "_ \<longleftrightarrow> ?in")
  proof
    assume ?in
    then have "Y = y + (Y - y)" "X = x + (X - x)" "Y - y < 6 * sc" "X - x < 5 * sc"
      by linarith+
    with \<open>?in\<close> show "\<exists>dy dx. Y = y + dy \<and> X = x + dx \<and> dy < 6 * sc \<and> dx < 5 * sc \<and>
        bit g (5 * (dy div sc) + dx div sc)"
      by blast
  qed auto
  finally show ?thesis .
qed

lemma blit_run_painted:
  assumes "k + unat n \<le> 2 ^ 62"
  shows "blit_run v n (painted m b S v, at_pixel b k) =
           (painted m b (S \<union> {k..<k + unat n}) v, at_pixel b (k + unat n))"
proof -
  have "((\<lambda>(m, p). (wr32 m p v, p + 4)) ^^ j) (painted m b S v, at_pixel b k) =
      (painted m b (S \<union> {k..<k + j}) v, at_pixel b (k + j))" if "j \<le> unat n" for j
    using that
  proof (induction j)
    case (Suc j)
    then have "k + j < 2 ^ 62"
      using assms by linarith
    moreover have "insert (k + j) (S \<union> {k..<k + j}) = S \<union> {k..<k + Suc j}"
      by auto
    ultimately show ?case
      using Suc wr32_at_pixel [of "k + j" m b "S \<union> {k..<k + j}" v] at_pixel_next [of b "k + j"] by simp
  qed simp
  then show ?thesis
    by (simp only: blit_run_def order_refl)
qed

lemma cell_bit: "drop_bit n (g :: u32) AND 1 \<noteq> 0 \<longleftrightarrow> bit g n"
  by (simp only: and_one_eq mod_2_eq_odd bit_iff_odd_drop_bit of_bool_eq_0_iff not_not)

definition line_pixels :: "u32 \<Rightarrow> nat \<Rightarrow> nat \<Rightarrow> nat \<Rightarrow> nat \<Rightarrow> nat set" where
  "line_pixels g sc glY n k = {k + dx | dx. dx < n * sc \<and> bit g (5 * glY + dx div sc)}"

lemma line_pixels_Suc:
  assumes "0 < sc"
  shows "line_pixels g sc glY (Suc n) k =
           line_pixels g sc glY n k \<union> (if bit g (5 * glY + n) then {k + n * sc..<k + n * sc + sc} else {})"
proof (rule set_eqI)
  fix j
  have last: "d div sc = n" if "n * sc \<le> d" "d < Suc n * sc" for d
    using that assms by (intro div_nat_eqI) (simp_all add: mult.commute)
  show "j \<in> line_pixels g sc glY (Suc n) k \<longleftrightarrow>
      j \<in> line_pixels g sc glY n k \<union> (if bit g (5 * glY + n) then {k + n * sc..<k + n * sc + sc} else {})"
  proof (cases "k \<le> j")
    case True
    then obtain d where "j = k + d"
      using le_Suc_ex by blast
    then show ?thesis
      using last [of d] by (cases "n * sc \<le> d") (auto simp: line_pixels_def)
  qed (auto simp: line_pixels_def)
qed

lemma glyph_cells_painted:
  assumes sc: "0 < unat sc" "unat sc < 2 ^ 31" and "k + n * unat sc \<le> 2 ^ 62"
  shows "fold (blit_glyph_cell v sc g glY) [0..<n] (painted m b S v, at_pixel b k) =
           (painted m b (S \<union> line_pixels g (unat sc) glY n k) v, at_pixel b (k + n * unat sc))"
  using assms(3)
proof (induction n)
  case 0
  then show ?case
    by (simp add: line_pixels_def)
next
  case (Suc n)
  let ?P = "\<lambda>n. (painted m b (S \<union> line_pixels g (unat sc) glY n k) v, at_pixel b (k + n * unat sc))"
  have shift: "glY * unat blit32_WIDTH + n = 5 * glY + n"
    by (simp add: blit32_WIDTH_def)
  have bound: "k + n * unat sc + unat sc \<le> 2 ^ 62"
    using Suc.prems by simp
  have more: "k + n * unat sc + unat sc = k + Suc n * unat sc"
    by simp
  have "blit_glyph_cell v sc g glY n (?P n) = ?P (Suc n)"
  proof (cases "bit g (5 * glY + n)")
    case True
    then show ?thesis
      unfolding blit_glyph_cell_def shift cell_bit line_pixels_Suc [OF sc(1)] more [symmetric]
      using blit_run_painted [OF bound, of v m b "S \<union> line_pixels g (unat sc) glY n k"]
      by (simp only: Let_def prod.case if_True Un_assoc)
  next
    case False
    then show ?thesis
      unfolding blit_glyph_cell_def shift cell_bit line_pixels_Suc [OF sc(1)] more [symmetric]
      by (simp only: Let_def prod.case if_False Un_empty_right scast_small [OF sc(2)] at_pixel_move)
  qed
  moreover have "fold (blit_glyph_cell v sc g glY) [0..<n] (painted m b S v, at_pixel b k) = ?P n"
    using Suc.prems by (intro Suc.IH) simp
  ultimately show ?case
    by simp
qed

definition rows_pixels :: "u32 \<Rightarrow> nat \<Rightarrow> nat \<Rightarrow> nat \<Rightarrow> nat \<Rightarrow> nat set" where
  "rows_pixels g sc w h k =
     {k + dy * w + dx | dy dx. dy < h \<and> dx < 5 * sc \<and> bit g (5 * (dy div sc) + dx div sc)}"

lemma rows_pixels_Suc:
  "rows_pixels g sc w (Suc h) k = rows_pixels g sc w h k \<union> line_pixels g sc (h div sc) 5 (k + h * w)"
proof (rule set_eqI)
  fix j
  show "j \<in> rows_pixels g sc w (Suc h) k \<longleftrightarrow>
      j \<in> rows_pixels g sc w h k \<union> line_pixels g sc (h div sc) 5 (k + h * w)"
    unfolding rows_pixels_def line_pixels_def less_Suc_eq by blast
qed

lemma blit_glyph_line_painted:
  assumes sc: "0 < unat sc" "unat sc < 2 ^ 31" and w: "unat w < 2 ^ 31"
    and "k + 5 * unat sc \<le> 2 ^ 62"
  shows "blit_glyph_line v sc w g glY (painted m b S v, at_pixel b k) =
           (painted m b (S \<union> line_pixels g (unat sc) glY 5 k) v, at_pixel b (k + unat w))"
proof -
  have "unat blit32_WIDTH = 5"
    by (simp add: blit32_WIDTH_def)
  then show ?thesis
    unfolding blit_glyph_line_def prod.case
    using glyph_cells_painted [OF sc, of k 5 v g glY m b S] assms(4)
    by (simp only: scast_small [OF w] at_pixel_move prod.case)
qed

lemma blit_glyph_painted:
  assumes sc: "0 < unat sc" "unat sc < 2 ^ 31" and w: "unat w < 2 ^ 31"
    and bound: "k + 6 * unat sc * unat w + 5 * unat sc \<le> 2 ^ 62"
  shows "fst (blit_glyph v sc w g (m, at_pixel b k)) = painted m b (glyph_pixels g (unat sc) (unat w) k) v"
proof -
  let ?P = "\<lambda>h. (painted m b (rows_pixels g (unat sc) (unat w) h k) v, at_pixel b (k + h * unat w))"
  have line: "blit_glyph_line v sc w g (h div unat sc) (?P h) = ?P (Suc h)" if "h < 6 * unat sc" for h
  proof -
    have "h * unat w \<le> 6 * unat sc * unat w"
      using that by (intro mult_le_mono1) simp
    then have "k + h * unat w + 5 * unat sc \<le> 2 ^ 62"
      using bound by linarith
    moreover have "k + h * unat w + unat w = k + Suc h * unat w"
      by simp
    ultimately show ?thesis
      unfolding rows_pixels_Suc by (metis blit_glyph_line_painted [OF sc w])
  qed
  have block: "(blit_glyph_line v sc w g n ^^ j) (?P (n * unat sc)) = ?P (n * unat sc + j)"
    if "n < 6" "j \<le> unat sc" for n j
    using that(2)
  proof (induction j)
    case (Suc j)
    have "(n * unat sc + j) div unat sc = n"
      using Suc.prems sc(1) by (intro div_nat_eqI) (simp_all add: mult.commute)
    moreover have "n * unat sc + j < 6 * unat sc"
    proof -
      have "n * unat sc \<le> 5 * unat sc"
        using that(1) by (intro mult_le_mono1) simp
      then show ?thesis
        using Suc.prems by linarith
    qed
    ultimately show ?case
      using Suc line [of "n * unat sc + j"] by simp
  qed simp
  have "fold (\<lambda>glY. blit_glyph_line v sc w g glY ^^ unat sc) [0..<n] (?P 0) = ?P (n * unat sc)" if "n \<le> 6" for n
    using that
  proof (induction n)
    case (Suc n)
    then show ?case
      using block [of n "unat sc"] by (simp add: add.commute [of "unat sc"])
  qed simp
  from this [of 6] have "blit_glyph v sc w g (?P 0) = ?P (6 * unat sc)"
    by (simp add: blit_glyph_def blit32_HEIGHT_def)
  moreover have "?P 0 = (m, at_pixel b k)"
    by (simp add: rows_pixels_def)
  ultimately show ?thesis
    by (simp add: glyph_pixels_def rows_pixels_def)
qed

section \<open>Drawing one character\<close>

text \<open>A printable character: one with an entry in the table that is not a space.\<close>

definition printable :: "u8 \<Rightarrow> bool" where
  "printable c \<longleftrightarrow> 0x20 < c \<and> c < 0x7F"

definition glyph_of :: "u8 \<Rightarrow> u32" where
  "glyph_of c = blit32_Glyphs ! (unat c - 32)"

text \<open>The array \<^verbatim>\<open>{ch, 0}\<close> that the console passes.\<close>

definition single_char :: "u8 \<Rightarrow> u64 \<Rightarrow> u8" where
  "single_char c i = (if i = 0 then c else 0)"

lemma printable_index:
  assumes "printable c"
  shows "unat (blit_IndexFromASCII c) = unat c - 32" and "unat c - 32 < length blit32_Glyphs"
proof -
  have c: "32 < unat c" "unat c < 127"
    using assms by (simp_all add: printable_def word_less_nat_alt)
  have u: "uint c = int (unat c)"
    by (simp only: uint_nat)
  with c have "- 128 \<le> uint c" "uint c < 128"
    by linarith+
  then have "signed_take_bit 7 (uint c) = uint c"
    by (intro signed_take_bit_int_eq_self) simp_all
  then have "sint c = uint c"
    using sint_uint [of c] by simp
  then have of_c: "(scast c :: u32) = of_nat (unat c)"
    by (simp only: scast_eq u of_int_of_nat_eq)
  have "unat (scast c :: u32) = unat c"
    unfolding of_c unat_of_nat using c by simp
  then show "unat (blit_IndexFromASCII c) = unat c - 32"
    using c by (simp add: blit_IndexFromASCII_def unat_sub_if')
  have "length blit32_Glyphs = 95"
    by (simp add: blit32_Glyphs_def)
  then show "unat c - 32 < length blit32_Glyphs"
    using c by simp
qed

text \<open>The glyphs with a tail below the line are drawn two cells lower.\<close>

definition descent :: "u32 \<Rightarrow> nat \<Rightarrow> nat" where
  "descent g sc = (if bit g 30 \<or> bit g 31 then 2 * sc else 0)"

lemma extra_bits: "0 < blit32_EXTRA_BITS g \<longleftrightarrow> bit g 30 \<or> bit g 31"
proof -
  have three: "(3 :: u32) = mask 2"
    by (simp add: mask_eq_exp_minus_1)
  have "blit32_EXTRA_BITS g \<noteq> 0 \<longleftrightarrow> (\<exists>n. bit (blit32_EXTRA_BITS g) n)"
    by (metis bit_eqI bit_0_eq bot_apply bot_bool_def)
  also have "\<dots> \<longleftrightarrow> (\<exists>n < 2. bit g (30 + n))"
    unfolding blit32_EXTRA_BITS_def three by (auto simp: bit_simps add.commute)
  also have "\<dots> \<longleftrightarrow> bit g 30 \<or> bit g 31"
    by (auto simp: numeral_2_eq_2 Ex_less_Suc)
  finally show ?thesis
    by (simp add: word_gt_0)
qed

lemma small_sum: "unat x + a < 2 ^ 31 \<Longrightarrow> unat (y :: u32) = a \<Longrightarrow> unat (x + y) = unat x + a" for x :: u32
  by (subst unat_add_no_overflow) simp_all

lemma small_product: "a * unat x < 2 ^ 31 \<Longrightarrow> unat (of_nat a * (x :: u32)) = a * unat x"
  by (simp add: unat_word_ariths unat_of_nat mod_mult_left_eq)

lemma blit32_char_draws:
  assumes c: "printable c" and sc: "0 < unat sc" and w: "unat w < 2 ^ 31"
    and y: "unat y + 8 * unat sc < 2 ^ 31" and x: "unat x + 6 * unat sc < 2 ^ 31"
    and size: "(unat y + 8 * unat sc) * unat w < 2 ^ 32"
  shows "blit32_char B v sc w w 1 x0 c x y L m =
           Inr (x + sc * blit32_ADVANCE, y, L,
             painted m B (glyph_pixels (glyph_of c) (unat sc) (unat w)
               ((unat y + descent (glyph_of c) (unat sc)) * unat w + unat x)) v)"
proof -
  let ?g = "glyph_of c"
  define d where "d = (if 0 < blit32_EXTRA_BITS ?g then blit32_DESCENDER else 0)"
  let ?y = "y + d * sc * 1"
  let ?k = "(unat y + descent ?g (unat sc)) * unat w + unat x"
  have "c \<noteq> 0x20" "c \<noteq> 8" "c \<noteq> 9" "c \<noteq> 10" "c \<noteq> 13"
    using c by (auto simp: printable_def)
  then have step: "blit32_char B v sc w w 1 x0 c x y L m =
      Inr (x + sc * blit32_ADVANCE, y, L, fst (blit_glyph v sc w ?g (m, blit_at B w x ?y)))"
    using printable_index [OF c] by (simp add: blit32_char_def Let_def glyph_of_def d_def)
  have "unat (d * sc) = descent ?g (unat sc)"
    using y small_product [of 2 sc] by (auto simp: d_def extra_bits descent_def blit32_DESCENDER_def)
  then have yd: "unat ?y = unat y + descent ?g (unat sc)"
    using y by (simp, intro small_sum) (simp_all add: descent_def)
  have le: "(unat y + descent ?g (unat sc)) * unat w \<le> (unat y + 8 * unat sc) * unat w"
    by (intro mult_le_mono1) (simp add: descent_def)
  then have "unat ?y * unat w < 2 ^ 32"
    using size unfolding yd by (rule le_less_trans)
  then have "unat (?y * w) = unat ?y * unat w"
    using unat_mult_lem [of ?y w] by simp
  then have "(ucast (?y * w) :: u64) = of_nat (unat ?y * unat w)"
    by (metis of_nat_unat)
  moreover have xs: "unat x < 2 ^ 31"
    using x by simp
  ultimately have at: "blit_at B w x ?y = at_pixel B ?k"
    unfolding blit_at_def scast_small [OF xs] at_pixel_def yd by (simp add: algebra_simps)
  have "6 * unat sc * unat w \<le> (unat y + 8 * unat sc) * unat w"
    by (intro mult_le_mono1) simp
  then have "?k + 6 * unat sc * unat w + 5 * unat sc \<le> 4611686018427387904"
    using size [simplified] le x [simplified] by linarith
  then have "?k + 6 * unat sc * unat w + 5 * unat sc \<le> 2 ^ 62"
    by simp
  then show ?thesis
    unfolding step at using blit_glyph_painted [of sc w ?k v ?g m B] sc y w by simp
qed

text \<open>
  A character's cell has five columns and eight lines. \<open>fits_cell\<close> says that it lies in an array of
  \<open>h\<close> lines of \<open>w\<close> pixels, \<open>drawn_cell\<close> that the code takes it to: the code refuses one that ends
  with the last line.
\<close>

definition fits_cell :: "nat \<Rightarrow> nat \<Rightarrow> nat \<Rightarrow> nat \<Rightarrow> nat \<Rightarrow> bool" where
  "fits_cell sc w h x y \<longleftrightarrow> y + 8 * sc \<le> h \<and> x + 5 * sc \<le> w"

definition drawn_cell :: "nat \<Rightarrow> nat \<Rightarrow> nat \<Rightarrow> nat \<Rightarrow> nat \<Rightarrow> bool" where
  "drawn_cell sc w h x y \<longleftrightarrow> y + 8 * sc < h \<and> x + 5 * sc \<le> w"

lemma drawn_cell_iff: "drawn_cell sc w h x y \<longleftrightarrow> fits_cell sc w h x y \<and> y + 8 * sc \<noteq> h"
  by (auto simp: drawn_cell_def fits_cell_def)

lemma glyph_inside:
  assumes "drawn_cell sc w h x y"
  shows "glyph_pixels g sc w ((y + descent g sc) * w + x) \<subseteq> {..<h * w}"
proof
  fix k
  assume "k \<in> glyph_pixels g sc w ((y + descent g sc) * w + x)"
  then obtain dx dy where d: "dy < 6 * sc" "dx < 5 * sc" and k: "k = (y + descent g sc) * w + x + dy * w + dx"
    by (auto simp: glyph_pixels_def)
  have "y + descent g sc + dy + 1 \<le> h"
    using assms d by (simp add: drawn_cell_def descent_def)
  then have "(y + descent g sc + dy + 1) * w \<le> h * w"
    by (rule mult_le_mono1)
  moreover have "x + dx < w"
    using assms d by (simp add: drawn_cell_def)
  ultimately show "k \<in> {..<h * w}"
    by (simp add: k algebra_simps)
qed

lemma blit32_loop_end: "String i = 0 \<Longrightarrow> blit32_loop B v sc w h Wrap x0 n String i x y L m = Some (Inr (L, m))"
  by (subst blit32_loop.simps) simp

lemma small_signed: "unat (x :: u32) < 2 ^ 31 \<Longrightarrow> \<not> x <s 0"
  by (simp add: sless_small)

lemma blit32_draws:
  assumes c: "printable c" and sc: "0 < unat sc" and w: "unat w < 2 ^ 31" and h: "0 < unat h" "unat h < 2 ^ 31"
    and y: "unat y + 8 * unat sc < 2 ^ 31" and x: "unat x + 6 * unat sc < 2 ^ 31"
    and size: "unat h * unat w \<le> 2 ^ 32"
  shows "blit32_TextNExplicit B v sc w h blit_Clip x y (- 1) (single_char c) m =
           Some (Inr (1,
             if drawn_cell (unat sc) (unat w) (unat h) (unat x) (unat y)
             then painted m B (glyph_pixels (glyph_of c) (unat sc) (unat w)
                    ((unat y + descent (glyph_of c) (unat sc)) * unat w + unat x)) v
             else m))"
proof -
  have cs: "c \<noteq> 0" "c \<noteq> 0x20" "c \<noteq> 9" "c \<noteq> 10" "c \<noteq> 13"
    using c by (auto simp: printable_def)
  let ?bottom = "y + (blit32_HEIGHT + blit32_DESCENDER) * sc * 1"
  have "unat (8 * sc) = 8 * unat sc" "unat (5 * sc) = 5 * unat sc"
    using y small_product [of 8 sc] small_product [of 5 sc] by simp_all
  then have e: "unat ?bottom = unat y + 8 * unat sc" and r: "unat (x + sc * blit32_WIDTH) = unat x + 5 * unat sc"
    using x y small_sum [of y "8 * unat sc"] small_sum [of x "5 * unat sc"]
    by (simp_all add: blit32_HEIGHT_def blit32_DESCENDER_def blit32_WIDTH_def mult.commute)
  have under: "\<not> ?bottom <s 0" "\<not> y <s 0" "\<not> x <s 0" "\<not> w <s 0"
    using e x y w by (simp_all add: small_signed)
  have over: "h \<noteq> 0 \<and> (h \<le>s ?bottom \<or> h \<le>s y) \<longleftrightarrow> \<not> unat y + 8 * unat sc < unat h"
    using e y h by (auto simp: sle_small)
  have right: "w <s x + sc * blit32_WIDTH \<longleftrightarrow> \<not> unat x + 5 * unat sc \<le> unat w"
    using r x w by (auto simp: sless_small)
  have start: "single_char c 0 = c" "single_char c (0 + 1) = 0" "(0 :: u64) < scast (0x7FFFFFFF :: u32)"
    by (simp_all add: single_char_def)
  let ?m = "painted m B (glyph_pixels (glyph_of c) (unat sc) (unat w)
    ((unat y + descent (glyph_of c) (unat sc)) * unat w + unat x)) v"
  have draw: "blit32_char B v sc w (1 * w) 1 x c x y 1 m = Inr (x + sc * blit32_ADVANCE, y, 1, ?m)"
    if "unat y + 8 * unat sc < unat h"
  proof -
    have "(unat y + 8 * unat sc) * unat w < unat h * unat w \<or> unat w = 0"
      using that by auto
    then have "(unat y + 8 * unat sc) * unat w < 2 ^ 32"
      using size by (metis order_less_le_trans mult_0_right zero_less_power zero_less_numeral)
    from blit32_char_draws [OF c sc w y x this] show ?thesis
      by simp
  qed
  note last = blit32_loop_end [where String = "single_char c", OF start(2)]
  have "blit32_loop B v sc w h blit_Clip x 0x7FFFFFFF (single_char c) 0 x y 1 m =
      Some (Inr (1, if drawn_cell (unat sc) (unat w) (unat h) (unat x) (unat y) then ?m else m))"
  proof (cases "unat y + 8 * unat sc < unat h")
    case True
    then have over': "(h \<noteq> 0 \<and> (h \<le>s ?bottom \<or> h \<le>s y)) = False"
      using over by simp
    show ?thesis
      using cs start under right True draw [OF True] last
      by (subst blit32_loop.simps) (simp add: Let_def over' drawn_cell_def blit_Clip_def del: mult_1_right)
  next
    case False
    then have over': "(h \<noteq> 0 \<and> (h \<le>s ?bottom \<or> h \<le>s y)) = True"
      using over by simp
    show ?thesis
      using cs start under False
      by (subst blit32_loop.simps) (simp add: Let_def over' drawn_cell_def del: mult_1_right)
  qed
  then show ?thesis
    by (simp add: blit32_TextNExplicit_def word_sle_eq)
qed

text \<open>The character 0x7F is beyond the end of the table.\<close>

theorem blit32_delete_out_of_bounds:
  "blit32_char B v sc w aw dir x0 0x7F x y L m = Inl Bad_access"
proof -
  have "length blit32_Glyphs = 95"
    by (simp add: blit32_Glyphs_def)
  then show ?thesis
    by (simp add: blit32_char_def Let_def blit_IndexFromASCII_def)
qed

section \<open>Properties\<close>

text \<open>
  C30. Given a printable character and a place in an array of \<open>h\<close> lines of \<open>w\<close> pixels, the font
  draws the character's glyph, every cell of its bitmap as a square of \<open>sc\<close> times \<open>sc\<close> pixels, when
  its eight lines and five columns fit into the array and do not end with the array's last line.
  Otherwise it changes nothing, also when the character fits and ends there. Pixels of the array
  that are not part of the glyph and memory outside the array keep their contents.
\<close>

theorem blit32_draws_glyph:
  assumes "printable c" and "0 < unat sc" and "unat w < 2 ^ 31" and "0 < unat h" and "unat h < 2 ^ 31"
    and "unat y + 8 * unat sc < 2 ^ 31" and "unat x + 6 * unat sc < 2 ^ 31" and "unat h * unat w \<le> 2 ^ 32"
    and "drawn \<longleftrightarrow> fits_cell (unat sc) (unat w) (unat h) (unat x) (unat y) \<and>
           unat y + 8 * unat sc \<noteq> unat h"
  shows "\<exists>m'. blit32_TextNExplicit B v sc w h blit_Clip x y (- 1) (single_char c) m = Some (Inr (1, m')) \<and>
           (\<forall>k < 2 ^ 62. pixel m' B k =
             (if drawn \<and>
                 k \<in> glyph_pixels (glyph_of c) (unat sc) (unat w)
                   ((unat y + descent (glyph_of c) (unat sc)) * unat w + unat x)
              then v else pixel m B k)) \<and>
           (\<not> drawn \<longrightarrow> m' = m) \<and>
           (\<forall>a. unat h * unat w \<le> unat (a - B) div 4 \<longrightarrow> m' a = m a)"
proof -
  let ?S = "glyph_pixels (glyph_of c) (unat sc) (unat w)
    ((unat y + descent (glyph_of c) (unat sc)) * unat w + unat x)"
  have drawn: "drawn \<longleftrightarrow> drawn_cell (unat sc) (unat w) (unat h) (unat x) (unat y)"
    unfolding drawn_cell_iff by (rule assms(9))
  have "unat (a - B) div 4 \<notin> ?S" if "drawn" "unat h * unat w \<le> unat (a - B) div 4" for a
    using glyph_inside [OF that(1) [unfolded drawn], of "glyph_of c"] that(2) by auto
  then show ?thesis
    using assms(1-8) by (simp add: blit32_draws pixel_painted painted_outside drawn)
qed

text \<open>
  A character in an array of exactly its size is not drawn: the comparison with the height of the
  array takes the line behind the character for its last.
\<close>

lemma blit32_refuses_last_line:
  "blit32_TextNExplicit B v 1 8 8 blit_Clip 0 0 (- 1) (single_char 0x48) m = Some (Inr (1, m)) \<and>
   fits_cell 1 8 8 0 0"
proof -
  have "printable 0x48"
    by (simp add: printable_def)
  then show ?thesis
    by (simp add: blit32_draws drawn_cell_def fits_cell_def)
qed

text \<open>An \<^verbatim>\<open>H\<close> at scale 1: the middle bar has the pixel in column 2 set, the line above it has not.\<close>

theorem blit32_draws_glyph_witness:
  "\<exists>m'. blit32_TextNExplicit 0x1000 0xFFFFFF 1 20 20 blit_Clip 10 10 (- 1) (single_char 0x48) (\<lambda>_. 0) =
      Some (Inr (1, m')) \<and> pixel m' 0x1000 (12 * 20 + 12) = 0xFFFFFF \<and> pixel m' 0x1000 (11 * 20 + 12) = 0"
proof -
  have g: "glyph_of 0x48 = 0x2318fe31"
    by (simp add: glyph_of_def blit32_Glyphs_def)
  have H: "12 * 20 + 12 \<in> glyph_pixels 0x2318fe31 1 20 (10 * 20 + 10)"
    "11 * 20 + 12 \<notin> glyph_pixels 0x2318fe31 1 20 (10 * 20 + 10)"
    by (simp_all only: glyph_pixels_iff) (simp_all add: bit_numeral_rec)
  have "pixel (\<lambda>_. 0) 0x1000 k = 0" for k
    by (simp add: pixel_def rd32_def)
  moreover have "printable 0x48"
    by (simp add: printable_def)
  then obtain m' where "blit32_TextNExplicit 0x1000 0xFFFFFF 1 20 20 blit_Clip 10 10 (- 1) (single_char 0x48) (\<lambda>_. 0) =
      Some (Inr (1, m'))"
    and "\<forall>k < 2 ^ 62. pixel m' 0x1000 k =
      (if k \<in> glyph_pixels 0x2318fe31 1 20 (10 * 20 + 10) then 0xFFFFFF else pixel (\<lambda>_. 0) 0x1000 k)"
    using blit32_draws_glyph [of "0x48" 1 20 20 10 10 True "0x1000" "0xFFFFFF" "\<lambda>_. 0"]
    by (auto simp: g descent_def fits_cell_def bit_numeral_rec)
  ultimately show ?thesis
    using H by (intro exI [of _ m']) simp
qed

end
