(* ===== verification/Screen.thy ===== *)
theory Screen
  imports Interrupts Format Blit "HOL-Library.Signed_Division"
begin

text \<open>
  The console of \<^verbatim>\<open>drivers/screen/screen.c\<close>: a framebuffer, a backbuffer of the same shape, a
  cursor, text with control characters, scrolling, and formatted output in several colours.
  Pixels live in the byte memory of the machine. An \<^verbatim>\<open>int32_t\<close> is a \<open>u32\<close> with signed
  comparisons; converting it to \<^verbatim>\<open>size_t\<close> extends its sign.
\<close>

section \<open>Definitions\<close>

definition DEFAULT_CURSOR_X :: u32 where "DEFAULT_CURSOR_X = 10"
definition DEFAULT_CURSOR_Y :: u32 where "DEFAULT_CURSOR_Y = 10"
definition TAB_SIZE :: nat where "TAB_SIZE = 4"
definition COLOR_WHITE :: u32 where "COLOR_WHITE = 0xFFFFFFFF"
definition COLOR_BLACK :: u32 where "COLOR_BLACK = 0xFF000000"
definition DEFAULT_blit32_TEXT_SCALE :: u32 where "DEFAULT_blit32_TEXT_SCALE = 2"

text \<open>\<open>fb\<close> points to the driver's copy of the bootloader's description, or is null.\<close>

record screen = tables +
  fb :: "limine_framebuffer option"
  screen_pitch_div_4 :: u64
  backbuffer :: u64
  cursor_x :: u32
  cursor_y :: u32
  auto_flush_enabled :: bool
  current_background_color :: u32

record blit_props =
  Buffer :: u64
  Value :: u32
  Scale :: u32
  BufWidth :: u32
  BufHeight :: u32
  Wrap :: u32

definition set_auto_flush :: "bool \<Rightarrow> 'a screen_scheme \<Rightarrow> 'a screen_scheme" where
  "set_auto_flush enable s = s\<lparr>auto_flush_enabled := enable\<rparr>"

definition get_auto_flush :: "'a screen_scheme \<Rightarrow> bool" where
  "get_auto_flush s = auto_flush_enabled s"

definition reset_cursor :: "'a screen_scheme \<Rightarrow> 'a screen_scheme" where
  "reset_cursor s = s\<lparr>cursor_x := DEFAULT_CURSOR_X, cursor_y := DEFAULT_CURSOR_Y\<rparr>"

definition screen_flush :: "'a screen_scheme \<Rightarrow> 'a screen_scheme" where
  "screen_flush s =
     (case fb s of
        None \<Rightarrow> s
      | Some f \<Rightarrow>
          s\<lparr>mem := for_range 0 (fb_height f)
            (\<lambda>y m. memcpy m (fb_address f + 4 * (y * screen_pitch_div_4 s))
                     (backbuffer s + 4 * (y * screen_pitch_div_4 s)) (fb_width f * 4)) (mem s)\<rparr>)"

definition screen_put_pixel :: "u64 \<Rightarrow> u64 \<Rightarrow> u32 \<Rightarrow> bool \<Rightarrow> 'a screen_scheme \<Rightarrow> 'a screen_scheme" where
  "screen_put_pixel x y color direct_vram s =
     (case fb s of
        None \<Rightarrow> s
      | Some f \<Rightarrow>
          if fb_width f \<le> x \<or> fb_height f \<le> y then s
          else if direct_vram then
            s\<lparr>mem := wr32 (mem s) (fb_address f + 4 * (y * screen_pitch_div_4 s) + 4 * x) color\<rparr>
          else
            s\<lparr>mem := wr32 (mem s) (backbuffer s + 4 * (y * screen_pitch_div_4 s + x)) color\<rparr>)"

definition fill_rect ::
  "u64 \<Rightarrow> u64 \<Rightarrow> u32 \<Rightarrow> u32 \<Rightarrow> u32 \<Rightarrow> bool \<Rightarrow> 'a screen_scheme \<Rightarrow> 'a screen_scheme" where
  "fill_rect x y width height color direct_vram =
     for_int 0 height (\<lambda>dy. for_int 0 width (\<lambda>dx.
       screen_put_pixel (x + scast dx) (y + scast dy) color direct_vram))"

text \<open>
  The scrolling part of \<^verbatim>\<open>check_newline_and_scroll\<close>: the rows of the surface moved up by a line of
  text and the freed rows filled. \<open>f\<close> is \<^verbatim>\<open>*fb\<close>, which every caller has checked.
\<close>

definition scroll_up :: "limine_framebuffer \<Rightarrow> blit_props \<Rightarrow> u32 \<Rightarrow> bool \<Rightarrow> 'a screen_scheme \<Rightarrow> mem" where
  "scroll_up f props cell_height direct_vram s =
     (let stride = screen_pitch_div_4 s;
          line_size = ucast (scast cell_height * stride) :: u32;
          rows = BufHeight props - cell_height;
          total = scast cell_height * stride * 4
      in if direct_vram then
           let vram = fb_address f;
               m = for_int 0 rows
                     (\<lambda>y m. memcpy m (vram + 4 * (scast y * stride))
                              (vram + 4 * (scast (y + cell_height) * stride)) (scast (BufWidth props * 4)))
                     (mem s)
           in fill_buffer_with_color m (vram + 4 * (scast rows * stride)) total (current_background_color s)
         else
           let m = memmove (mem s) (backbuffer s) (backbuffer s + 4 * scast line_size)
                     (scast rows * stride * 4)
           in fill_buffer_with_color m (backbuffer s + 4 * (scast rows * stride)) total
                (current_background_color s))"

definition check_newline_and_scroll ::
  "limine_framebuffer \<Rightarrow> blit_props \<Rightarrow> u32 \<Rightarrow> bool \<Rightarrow> 'a screen_scheme \<Rightarrow> 'a screen_scheme" where
  "check_newline_and_scroll f props cell_height direct_vram s =
     (let s = s\<lparr>cursor_x := DEFAULT_CURSOR_X, cursor_y := cursor_y s + cell_height\<rparr> in
      if BufHeight props <s cursor_y s + cell_height then
        s\<lparr>mem := scroll_up f props cell_height direct_vram s, cursor_y := cursor_y s - cell_height\<rparr>
      else s)"

text \<open>
  Signed division truncates towards zero; dividing by zero raises exception 0, whose handler
  panics.
\<close>

definition int_div :: "u32 \<Rightarrow> u32 \<Rightarrow> u32 outcome" where
  "int_div a b =
     (if b = 0 then Inl (Panic ''Division By Zero'') else Inr (word_of_int (sint a sdiv sint b)))"

text \<open>The cases of \<^verbatim>\<open>kprint\<close>'s loop body, for one character.\<close>

definition kprint_backspace ::
  "limine_framebuffer \<Rightarrow> u32 \<Rightarrow> u32 \<Rightarrow> bool \<Rightarrow> 'a screen_scheme \<Rightarrow> 'a screen_scheme outcome" where
  "kprint_backspace f cell_width cell_height direct_vram s =
     (let erase = (\<lambda>s. fill_rect (scast (cursor_x s)) (scast (cursor_y s)) cell_width cell_height
                     (current_background_color s) direct_vram s) in
      if DEFAULT_CURSOR_X + cell_width \<le>s cursor_x s then
        Inr (erase (s\<lparr>cursor_x := cursor_x s - cell_width\<rparr>))
      else if DEFAULT_CURSOR_Y + cell_height \<le>s cursor_y s then
        bind_ok (int_div (ucast (fb_width f) - DEFAULT_CURSOR_X) cell_width) (\<lambda>max_chars_per_line.
          Inr (erase (s\<lparr>cursor_x := DEFAULT_CURSOR_X + (max_chars_per_line - 1) * cell_width,
                        cursor_y := cursor_y s - cell_height\<rparr>)))
      else Inr s)"

definition kprint_space ::
  "limine_framebuffer \<Rightarrow> blit_props \<Rightarrow> u32 \<Rightarrow> u32 \<Rightarrow> bool \<Rightarrow> 'a screen_scheme \<Rightarrow> 'a screen_scheme" where
  "kprint_space f props cell_width cell_height direct_vram s =
     (let s = (if ucast (fb_width f) <s cursor_x s + cell_width
               then check_newline_and_scroll f props cell_height direct_vram s else s);
          s = fill_rect (scast (cursor_x s)) (scast (cursor_y s)) cell_width cell_height
                (current_background_color s) direct_vram s
      in s\<lparr>cursor_x := cursor_x s + cell_width\<rparr>)"

definition kprint_tab_cell ::
  "limine_framebuffer \<Rightarrow> u32 \<Rightarrow> u32 \<Rightarrow> bool \<Rightarrow> 'a screen_scheme \<Rightarrow> 'a screen_scheme" where
  "kprint_tab_cell f cell_width cell_height direct_vram s =
     (if cursor_x s + cell_width \<le>s ucast (fb_width f) then
        let s = fill_rect (scast (cursor_x s)) (scast (cursor_y s)) cell_width cell_height
                  (current_background_color s) direct_vram s
        in s\<lparr>cursor_x := cursor_x s + cell_width\<rparr>
      else s)"

definition kprint_tab ::
  "limine_framebuffer \<Rightarrow> blit_props \<Rightarrow> u32 \<Rightarrow> u32 \<Rightarrow> bool \<Rightarrow> 'a screen_scheme \<Rightarrow> 'a screen_scheme" where
  "kprint_tab f props cell_width cell_height direct_vram s =
     (let tab_width = cell_width * of_nat TAB_SIZE in
      if ucast (fb_width f) <s cursor_x s + tab_width
      then check_newline_and_scroll f props cell_height direct_vram s
      else (kprint_tab_cell f cell_width cell_height direct_vram ^^ TAB_SIZE) s)"

definition kprint_glyph ::
  "limine_framebuffer \<Rightarrow> blit_props \<Rightarrow> u32 \<Rightarrow> u32 \<Rightarrow> bool \<Rightarrow> u8 \<Rightarrow> 'a screen_scheme \<Rightarrow>
   'a screen_scheme outcome option" where
  "kprint_glyph f props cell_width cell_height direct_vram c s =
     (let s = (if ucast (fb_width f) <s cursor_x s + cell_width
               then check_newline_and_scroll f props cell_height direct_vram s else s) in
      case blit32_TextNExplicit (Buffer props) (Value props) (Scale props) (BufWidth props) (BufHeight props)
             (Wrap props) (cursor_x s) (cursor_y s) (- 1) (single_char c) (mem s) of
        None \<Rightarrow> None
      | Some (Inl e) \<Rightarrow> Some (Inl e)
      | Some (Inr (lines, m)) \<Rightarrow> Some (Inr (s\<lparr>mem := m, cursor_x := cursor_x s + cell_width\<rparr>)))"

definition kprint_char ::
  "limine_framebuffer \<Rightarrow> blit_props \<Rightarrow> u32 \<Rightarrow> u32 \<Rightarrow> bool \<Rightarrow> u8 \<Rightarrow> 'a screen_scheme \<Rightarrow>
   'a screen_scheme outcome option" where
  "kprint_char f props cell_width cell_height direct_vram c s =
     (let c = (if 127 < c then 0x3F else c) in
      if c = 10 then Some (Inr (check_newline_and_scroll f props cell_height direct_vram s))
      else if c = 13 then Some (Inr (s\<lparr>cursor_x := DEFAULT_CURSOR_X\<rparr>))
      else if c = 8 then Some (kprint_backspace f cell_width cell_height direct_vram s)
      else if c = 0x20 then Some (Inr (kprint_space f props cell_width cell_height direct_vram s))
      else if c = 9 then Some (Inr (kprint_tab f props cell_width cell_height direct_vram s))
      else if c < 0x20 then Some (Inr s)
      else kprint_glyph f props cell_width cell_height direct_vram c s)"

partial_function (option) kprint_loop ::
  "limine_framebuffer \<Rightarrow> blit_props \<Rightarrow> u32 \<Rightarrow> u32 \<Rightarrow> bool \<Rightarrow> u64 \<Rightarrow> u64 \<Rightarrow> 'a screen_scheme \<Rightarrow>
   'a screen_scheme outcome option" where
  "kprint_loop f props cell_width cell_height direct_vram txt i s =
     (if mem s (txt + i) \<noteq> 0 then
        (case kprint_char f props cell_width cell_height direct_vram (mem s (txt + i)) s of
           None \<Rightarrow> None
         | Some (Inl e) \<Rightarrow> Some (Inl e)
         | Some (Inr s) \<Rightarrow> kprint_loop f props cell_width cell_height direct_vram txt (i + 1) s)
      else Some (Inr s))"

definition kprint_props :: "limine_framebuffer \<Rightarrow> u32 \<Rightarrow> u32 \<Rightarrow> bool \<Rightarrow> 'a screen_scheme \<Rightarrow> blit_props" where
  "kprint_props f color scale direct_vram s =
     \<lparr>Buffer = if direct_vram then fb_address f else backbuffer s, Value = color, Scale = scale,
      BufWidth = ucast (screen_pitch_div_4 s), BufHeight = ucast (fb_height f), Wrap = blit_Clip\<rparr>"

definition kprint :: "u64 \<Rightarrow> u32 \<Rightarrow> u32 \<Rightarrow> bool \<Rightarrow> 'a screen_scheme \<Rightarrow> 'a screen_scheme outcome option" where
  "kprint txt color scale direct_vram s =
     (case fb s of
        None \<Rightarrow> Some (Inr s)
      | Some f \<Rightarrow>
          if txt = NULL then Some (Inr s) else
          kprint_loop f (kprint_props f color scale direct_vram s)
            ((blit32_WIDTH + 2) * scale) ((blit32_HEIGHT + 2) * scale) direct_vram txt 0 s)"

text \<open>
  \<^verbatim>\<open>flush_formatted_segment\<close> keeps two arrays of 1024 bytes in its stack frame, at \<open>frame\<close>; the
  format and the strings it prints are elsewhere in the same memory. The result is the state and
  the arguments that are left.
\<close>

definition flush_formatted_segment ::
  "u64 \<Rightarrow> u64 \<Rightarrow> u64 \<Rightarrow> u32 \<Rightarrow> u32 \<Rightarrow> bool \<Rightarrow> va_list \<Rightarrow> 'a screen_scheme \<Rightarrow>
   ('a screen_scheme \<times> va_list) outcome option" where
  "flush_formatted_segment frame segment_start segment_len color scale direct_vram args s =
     (if segment_len = 0 then Some (Inr (s, args)) else
      let segment_fmt = frame;
          segment_out = frame + 1024;
          segment_len = (if 1024 \<le> segment_len then 1023 else segment_len);
          m = for_range 0 segment_len (\<lambda>i m. m(segment_fmt + i := m (segment_start + i))) (mem s);
          m = m(segment_fmt + segment_len := 0)
      in case kvsnprintf m segment_out 1024 segment_fmt args of
           None \<Rightarrow> None
         | Some (Inl e) \<Rightarrow> Some (Inl e)
         | Some (Inr (m, len, segment_args)) \<Rightarrow>
             (case kprint segment_out color scale direct_vram (s\<lparr>mem := m\<rparr>) of
                None \<Rightarrow> None
              | Some (Inl e) \<Rightarrow> Some (Inl e)
              | Some (Inr s) \<Rightarrow>
                  (case consume_format_args (mem s) segment_fmt args of
                     None \<Rightarrow> None
                   | Some (Inl e) \<Rightarrow> Some (Inl e)
                   | Some (Inr args) \<Rightarrow> Some (Inr (s, args)))))"

partial_function (option) kprintf_loop ::
  "u64 \<Rightarrow> u64 \<Rightarrow> u32 \<Rightarrow> bool \<Rightarrow> u64 \<Rightarrow> u64 \<Rightarrow> u32 \<Rightarrow> va_list \<Rightarrow> 'a screen_scheme \<Rightarrow>
   'a screen_scheme outcome option" where
  "kprintf_loop frame fmt scale direct_vram i segment_start current_color args s =
     (if mem s (fmt + i) = 0 then
        (case flush_formatted_segment frame segment_start (fmt + i - segment_start) current_color scale
                direct_vram args s of
           None \<Rightarrow> None
         | Some (Inl e) \<Rightarrow> Some (Inl e)
         | Some (Inr (s, args)) \<Rightarrow> Some (Inr s))
      else if mem s (fmt + i) = ch CHR ''%'' \<and> mem s (fmt + (i + 1)) = ch CHR ''C'' then
        (case flush_formatted_segment frame segment_start (fmt + i - segment_start) current_color scale
                direct_vram args s of
           None \<Rightarrow> None
         | Some (Inl e) \<Rightarrow> Some (Inl e)
         | Some (Inr (s, args)) \<Rightarrow>
             (case va_arg args of
                Inl e \<Rightarrow> Some (Inl e)
              | Inr (a, args) \<Rightarrow>
                  kprintf_loop frame fmt scale direct_vram (i + 1 + 1) (fmt + (i + 1) + 1) (ucast a) args s))
      else kprintf_loop frame fmt scale direct_vram (i + 1) segment_start current_color args s)"

definition kprintf ::
  "u64 \<Rightarrow> u32 \<Rightarrow> u32 \<Rightarrow> bool \<Rightarrow> u64 \<Rightarrow> va_list \<Rightarrow> 'a screen_scheme \<Rightarrow> 'a screen_scheme outcome option" where
  "kprintf frame default_color scale direct_vram fmt args s =
     (case kprintf_loop frame fmt scale direct_vram 0 fmt default_color args s of
        None \<Rightarrow> None
      | Some (Inl e) \<Rightarrow> Some (Inl e)
      | Some (Inr s) \<Rightarrow>
          Some (Inr (if \<not> direct_vram \<and> auto_flush_enabled s then screen_flush s else s)))"

definition screen_get_fb :: "'a screen_scheme \<Rightarrow> limine_framebuffer option" where
  "screen_get_fb s = fb s"

definition is_screen_initialized :: "'a screen_scheme \<Rightarrow> bool" where
  "is_screen_initialized s \<longleftrightarrow> fb s \<noteq> None"

definition screen_set_cursor :: "u32 \<Rightarrow> u32 \<Rightarrow> 'a screen_scheme \<Rightarrow> 'a screen_scheme" where
  "screen_set_cursor x y s = s\<lparr>cursor_x := x, cursor_y := y\<rparr>"

definition screen_get_cursor_y :: "'a screen_scheme \<Rightarrow> u32" where
  "screen_get_cursor_y s = cursor_y s"

definition screen_get_cursor_x :: "'a screen_scheme \<Rightarrow> u32" where
  "screen_get_cursor_x s = cursor_x s"

definition screen_init :: "boot_info \<Rightarrow> 'a screen_scheme \<Rightarrow> 'a screen_scheme outcome" where
  "screen_init bi s =
     (case framebuffer_response bi of
        None \<Rightarrow> Inl (Panic ''Failed to initialize screen: No valid framebuffer available.'')
      | Some [] \<Rightarrow> Inl (Panic ''Failed to initialize screen: No valid framebuffer available.'')
      | Some (None # _) \<Rightarrow> Inl Bad_access
      | Some (Some f # _) \<Rightarrow>
          let s = s\<lparr>fb := Some f\<rparr> in
          if fb_bpp f \<noteq> 32 then
            Inl (Panic ''Unsupported BPP. Kernel requires exactly 32 bits per pixel.'')
          else if fb_memory_model f \<noteq> LIMINE_FRAMEBUFFER_RGB then
            Inl (Panic ''Unsupported memory model. Kernel requires RGB/RGBA framebuffer.'')
          else if fb_red_mask_size f \<noteq> 8 \<or> fb_green_mask_size f \<noteq> 8 \<or> fb_blue_mask_size f \<noteq> 8 then
            Inl (Panic ''Unexpected color mask size.'')
          else
            let s = s\<lparr>screen_pitch_div_4 := fb_pitch f div 4\<rparr>;
                total_bytes = fb_pitch f * fb_height f;
                pages_needed = (total_bytes + 4095) div 4096
            in bind_ok (pmm_alloc_pages s pages_needed) (\<lambda>(phys_buffer, s).
                 if phys_buffer = NULL then
                   Inl (Panic ''Failed to initialize screen: Unable to allocate backbuffer for screen'')
                 else
                   let s = s\<lparr>backbuffer := phys_buffer + hhdm_offset s\<rparr>
                   in Inr (s\<lparr>mem := memset (mem s) (backbuffer s) 0 total_bytes\<rparr>)))"

definition screen_clear :: "u32 \<Rightarrow> bool \<Rightarrow> 'a screen_scheme \<Rightarrow> 'a screen_scheme" where
  "screen_clear color direct_vram s =
     (case fb s of
        None \<Rightarrow> s
      | Some f \<Rightarrow>
          let s = s\<lparr>current_background_color := color\<rparr>;
              target = (if direct_vram then fb_address f else backbuffer s);
              total_bytes = fb_pitch f * fb_height f;
              s = s\<lparr>mem := fill_buffer_with_color (mem s) target total_bytes color\<rparr>;
              s = reset_cursor s
          in if \<not> direct_vram \<and> auto_flush_enabled s then screen_flush s else s)"

section \<open>Surfaces\<close>

text \<open>
  A surface is the framebuffer or the backbuffer: \<open>lines\<close> lines of \<open>stride\<close> pixels, of which the
  first \<open>columns\<close> are visible. The bounds are far above real screens.
\<close>

abbreviation columns :: "limine_framebuffer \<Rightarrow> nat" where "columns f \<equiv> unat (fb_width f)"
abbreviation lines :: "limine_framebuffer \<Rightarrow> nat" where "lines f \<equiv> unat (fb_height f)"
abbreviation stride :: "'a screen_scheme \<Rightarrow> nat" where "stride s \<equiv> unat (screen_pitch_div_4 s)"

definition surface :: "limine_framebuffer \<Rightarrow> bool \<Rightarrow> 'a screen_scheme \<Rightarrow> u64" where
  "surface f direct_vram s = (if direct_vram then fb_address f else backbuffer s)"

definition shape :: "limine_framebuffer \<Rightarrow> 'a screen_scheme \<Rightarrow> bool" where
  "shape f s \<longleftrightarrow> fb s = Some f \<and> 4 \<le> stride s \<and> stride s \<le> 2 ^ 15 \<and> 0 < lines f \<and> lines f \<le> 2 ^ 15 \<and>
     columns f \<le> stride s \<and>
     unat (fb_address f) + 4 * (lines f * stride s) \<le> 2 ^ 64 \<and>
     unat (backbuffer s) + 4 * (lines f * stride s) \<le> 2 ^ 64"

lemma shape_bounds:
  assumes "shape f s"
  shows "fb s = Some f" "4 \<le> stride s" "stride s \<le> 32768" "0 < lines f" "lines f \<le> 32768" "columns f \<le> stride s"
    "columns f \<le> 32768"
  using assms by (auto simp: shape_def)

lemma shape_more [simp]:
  "shape f (s\<lparr>mem := m\<rparr>) = shape f s" "shape f (s\<lparr>cursor_x := x\<rparr>) = shape f s"
  "shape f (s\<lparr>cursor_y := y\<rparr>) = shape f s"
  by (simp_all add: shape_def)

lemma surface_more [simp]:
  "surface f d (s\<lparr>mem := m\<rparr>) = surface f d s" "surface f d (s\<lparr>cursor_x := x\<rparr>) = surface f d s"
  "surface f d (s\<lparr>cursor_y := y\<rparr>) = surface f d s"
  by (simp_all add: surface_def)

text \<open>The visible pixels of a rectangle, as indices into the surface.\<close>

definition rect :: "nat \<Rightarrow> nat \<Rightarrow> nat \<Rightarrow> nat \<Rightarrow> nat \<Rightarrow> nat \<Rightarrow> nat \<Rightarrow> nat set" where
  "rect cols lns w x y width height =
     {Y * w + X | X Y. x \<le> X \<and> X < x + width \<and> X < cols \<and> y \<le> Y \<and> Y < y + height \<and> Y < lns}"

lemma rect_empty [simp]: "rect cols lns w x y 0 h = {}" "rect cols lns w x y wd 0 = {}"
  by (auto simp: rect_def)

lemma rect_more_columns:
  "rect cols lns w x y (Suc n) h =
     rect cols lns w x y n h \<union> rect cols lns w (x + n) y 1 h"
  by (rule set_eqI) (auto simp: rect_def less_Suc_eq, (metis le_add1)+)

lemma rect_more_lines:
  "rect cols lns w x y n (Suc h) = rect cols lns w x y n h \<union> rect cols lns w x (y + h) n 1"
  by (rule set_eqI) (auto simp: rect_def less_Suc_eq, (metis le_add1)+)

lemma rect_pixel: "rect cols lns w x y 1 1 = (if x < cols \<and> y < lns then {y * w + x} else {})"
  by (auto simp: rect_def less_Suc_eq_le dest: order.antisym)

lemma pixel_index_less:
  fixes X Y w n :: nat
  assumes "X < w" and "Y < n"
  shows "Y * w + X < n * w"
proof -
  have "Y * w + w \<le> n * w"
    using assms(2) mult_le_mono1 [of "Suc Y" n w] by simp
  then show ?thesis
    using assms(1) by linarith
qed

lemma index_word:
  assumes "shape f s" and "unat y < lines f" and "unat x < columns f"
  shows "y * screen_pitch_div_4 s + x = of_nat (unat y * stride s + unat x)"
  by simp

lemma surface_index:
  assumes "shape f s" and "Y < lines f" and "X < columns f"
  shows "Y * stride s + X < lines f * stride s" and "lines f * stride s \<le> 2 ^ 30"
proof -
  show "Y * stride s + X < lines f * stride s"
    using assms shape_bounds(6) [OF assms(1)] by (intro pixel_index_less) simp_all
  show "lines f * stride s \<le> 2 ^ 30"
    using mult_le_mono [OF shape_bounds(5) [OF assms(1)] shape_bounds(3) [OF assms(1)]] by simp
qed

section \<open>Pixels and rectangles\<close>

lemma screen_put_pixel_painted:
  assumes "shape f s"
  shows "screen_put_pixel x y c d s =
           s\<lparr>mem := painted (mem s) (surface f d s) (rect (columns f) (lines f) (stride s) (unat x) (unat y) 1 1) c\<rparr>"
proof (cases "unat x < columns f \<and> unat y < lines f")
  case True
  let ?k = "unat y * stride s + unat x"
  have "?k < 2 ^ 30"
    using surface_index [OF assms, of "unat y" "unat x"] True by (auto intro: order_less_le_trans)
  then have k: "?k < 2 ^ 62"
    by simp
  have w: "4 * (y * screen_pitch_div_4 s + x) = 4 * of_nat ?k"
    using index_word [OF assms] True by simp
  have "screen_put_pixel x y c d s = s\<lparr>mem := wr32 (mem s) (surface f d s + 4 * of_nat ?k) c\<rparr>"
    unfolding w [symmetric] using True shape_bounds(1) [OF assms]
    by (simp add: screen_put_pixel_def word_le_nat_alt surface_def algebra_simps)
  then show ?thesis
    using True wr32_eq_painted [OF k] by (simp only: rect_pixel if_True simp_thms)
next
  case False
  then show ?thesis
    using shape_bounds(1) [OF assms] unfolding rect_pixel
    by (auto simp: screen_put_pixel_def word_le_nat_alt)
qed

lemma fill_line_painted:
  assumes "shape f s" and "unat x + unat width < 2 ^ 63" and "unat width < 2 ^ 31"
  shows "for_int 0 width (\<lambda>dx. screen_put_pixel (x + scast dx) y c d) s =
           s\<lparr>mem := painted (mem s) (surface f d s)
             (rect (columns f) (lines f) (stride s) (unat x) (unat y) (unat width) 1) c\<rparr>"
proof -
  let ?P = "\<lambda>n. s\<lparr>mem := painted (mem s) (surface f d s)
    (rect (columns f) (lines f) (stride s) (unat x) (unat y) n 1) c\<rparr>"
  have "for_int 0 width (\<lambda>dx. screen_put_pixel (x + scast dx) y c d) s = ?P (unat width)"
  proof (rule for_int_inv [where I = "\<lambda>n t. t = ?P n"])
    fix j t
    assume j: "j < unat width" and t: "t = ?P j"
    have u: "unat (of_nat j :: u32) = j"
      using j assms(3) by (simp add: unat_of_nat)
    then have "(scast (of_nat j :: u32) :: u64) = of_nat j"
      using j assms(3) by (subst scast_small) simp_all
    moreover have "unat (x + of_nat j) = unat x + j"
      using j assms(2) by (subst unat_add_no_overflow) (simp_all add: unat_of_nat)
    ultimately show "screen_put_pixel (x + scast (of_nat j :: u32)) y c d t = ?P (Suc j)"
      unfolding t using screen_put_pixel_painted [of f "?P j" "x + of_nat j" y c d] assms(1)
      by (simp add: painted_Un rect_more_columns [of _ _ _ _ _ j])
  qed (use assms(3) in simp_all)
  then show ?thesis .
qed

lemma fill_rect_painted:
  assumes "shape f s" and "unat x + unat width < 2 ^ 63" and "unat width < 2 ^ 31"
    and "unat y + unat height < 2 ^ 63" and "unat height < 2 ^ 31"
  shows "fill_rect x y width height c d s =
           s\<lparr>mem := painted (mem s) (surface f d s)
             (rect (columns f) (lines f) (stride s) (unat x) (unat y) (unat width) (unat height)) c\<rparr>"
proof -
  let ?P = "\<lambda>n. s\<lparr>mem := painted (mem s) (surface f d s)
    (rect (columns f) (lines f) (stride s) (unat x) (unat y) (unat width) n) c\<rparr>"
  have "fill_rect x y width height c d s = ?P (unat height)"
    unfolding fill_rect_def
  proof (rule for_int_inv [where I = "\<lambda>n t. t = ?P n"])
    fix j t
    assume j: "j < unat height" and t: "t = ?P j"
    have u: "unat (of_nat j :: u32) = j"
      using j assms(5) by (simp add: unat_of_nat)
    then have "(scast (of_nat j :: u32) :: u64) = of_nat j"
      using j assms(5) by (subst scast_small) simp_all
    moreover have "unat (y + of_nat j) = unat y + j"
      using j assms(4) by (subst unat_add_no_overflow) (simp_all add: unat_of_nat)
    ultimately show "for_int 0 width (\<lambda>dx. screen_put_pixel (x + scast dx) (y + scast (of_nat j :: u32)) c d) t =
        ?P (Suc j)"
      unfolding t using fill_line_painted [of f "?P j" x width "y + of_nat j" c d] assms(1-3)
      by (simp add: painted_Un rect_more_lines [of _ _ _ _ _ _ j])
  qed (use assms(5) in simp_all)
  then show ?thesis .
qed

section \<open>Scrolling\<close>

text \<open>
  The surface has \<open>n\<close> pixels and moves up by \<open>c\<close> of them. Line by line, each pixel comes from \<open>c\<close>
  further on. The single move of the backbuffer takes two pixels from \<open>2 * c\<close> further on: the last
  two of the block whose source is the end of the moved block (see \<^verbatim>\<open>memmove\<close>).
\<close>

definition scroll_source :: "bool \<Rightarrow> nat \<Rightarrow> nat \<Rightarrow> nat \<Rightarrow> nat" where
  "scroll_source direct_vram n c k =
     (if \<not> direct_vram \<and> n \<le> k + 2 * c + 2 \<and> k + 2 * c < n then k + 2 * c else k + c)"

definition moved_up :: "bool \<Rightarrow> nat \<Rightarrow> nat \<Rightarrow> u64 \<Rightarrow> mem \<Rightarrow> mem" where
  "moved_up direct_vram n c b m =
     (\<lambda>a. let j = unat (a - b) in
        if j < 4 * (n - c) then m (b + of_nat (4 * scroll_source direct_vram n c (j div 4) + j mod 4)) else m a)"

lemma unat_ucast_small: "unat (w :: u64) < 2 ^ 32 \<Longrightarrow> unat (ucast w :: u32) = unat w"
  by (simp add: unsigned_ucast_eq take_bit_nat_eq_self)

lemma unat_of_nat64: "n < 2 ^ 64 \<Longrightarrow> unat (of_nat n :: u64) = n"
  by (simp add: unat_of_nat)

lemma unat_quad: "k \<le> 1073741824 \<Longrightarrow> unat (of_nat (4 * k) :: u64) = 4 * k"
  by (intro unat_of_nat64) simp

lemma unat_neg:
  fixes k :: u64
  assumes "0 < unat k"
  shows "unat (0 - k) = 2 ^ 64 - unat k"
  using assms by (subst unat_sub_if') simp

lemma rows_copied:
  assumes w: "0 < w" and up: "0 < up" and j: "j + up < 2 ^ 16" and small: "w \<le> 2 ^ 15"
  shows "memcpy (\<lambda>a. if unat (a - b) < 4 * (j * w) then m (a + of_nat (4 * (up * w))) else m a)
           (b + of_nat (4 * (j * w))) (b + of_nat (4 * ((j + up) * w))) (of_nat (4 * w)) =
         (\<lambda>a. if unat (a - b) < 4 * (Suc j * w) then m (a + of_nat (4 * (up * w))) else m a)"
proof -
  let ?t = "\<lambda>a. if unat (a - b) < 4 * (j * w) then m (a + of_nat (4 * (up * w))) else m a"
  let ?d = "b + of_nat (4 * (j * w)) :: u64" and ?s = "b + of_nat (4 * ((j + up) * w)) :: u64"
  have "(j + up) * w \<le> 2 ^ 16 * 2 ^ 15"
    using j small by (intro mult_le_mono) simp_all
  then have big: "j * w + up * w \<le> 2147483648"
    by (simp add: algebra_simps)
  have w': "w \<le> 32768"
    using small by simp
  have wc: "w \<le> up * w"
    using up by simp
  have diff: "?s - ?d = of_nat (4 * (up * w))"
    by (simp add: algebra_simps)
  have u: "unat (of_nat (4 * (up * w)) :: u64) = 4 * (up * w)" "unat (of_nat (4 * w) :: u64) = 4 * w"
    "unat (of_nat (4 * (j * w)) :: u64) = 4 * (j * w)"
    using big w' by (intro unat_of_nat64; simp)+
  have "?d - ?s = 0 - of_nat (4 * (up * w))"
    using diff by (simp add: algebra_simps)
  then have rev: "unat (?d - ?s) = 2 ^ 64 - 4 * (up * w)"
    using u(1) w up unat_neg [of "of_nat (4 * (up * w))"] by (simp only: nat_0_less_mult_iff zero_less_numeral simp_thms)
  have "no_overlap ?d ?s (of_nat (4 * w))"
    unfolding no_overlap_def word_le_nat_alt diff rev u using wc big w' by simp
  from memcpy_eq [OF this, of ?t]
  have copy: "memcpy ?t ?d ?s (of_nat (4 * w)) =
      (\<lambda>x. if x - ?d < of_nat (4 * w) then ?t (?s + (x - ?d)) else ?t x)" .
  show ?thesis
    unfolding copy
  proof (rule ext)
    fix x
    let ?o = "unat (x - b)"
    have win: "x - ?d < of_nat (4 * w) \<longleftrightarrow> 4 * (j * w) \<le> ?o \<and> ?o < 4 * (j * w) + 4 * w"
      using window(1) [of "of_nat (4 * (j * w))" "4 * w" "x - b"] u big w'
      by (simp add: word_less_nat_alt diff_diff_eq)
    have src: "?s + (x - ?d) = x + of_nat (4 * (up * w))"
      using diff by (simp add: algebra_simps)
    have "unat (x + of_nat (4 * (up * w)) - b) = ?o + 4 * (up * w)" if "?o < 4 * (j * w) + 4 * w"
    proof -
      have e: "x + of_nat (4 * (up * w)) - b = (x - b) + of_nat (4 * (up * w))"
        by simp
      show ?thesis
        unfolding e using that big w' u(1) by (subst unat_add_no_overflow) simp_all
    qed
    then show "(if x - ?d < of_nat (4 * w) then ?t (?s + (x - ?d)) else ?t x) =
        (if ?o < 4 * (Suc j * w) then m (x + of_nat (4 * (up * w))) else m x)"
      unfolding win src by (auto simp: algebra_simps)
  qed
qed

lemma painted_shift:
  assumes "k + c \<le> 2 ^ 62"
  shows "painted m (b + of_nat (4 * k)) {..<c} v = painted m b {k..<k + c} v"
proof (rule ext)
  fix x
  let ?o = "unat (x - b)" and ?k = "of_nat (4 * k) :: u64"
  have e: "x - (b + ?k) = (x - b) - ?k"
    by simp
  show "painted m (b + ?k) {..<c} v x = painted m b {k..<k + c} v x"
  proof (cases "c = 0")
    case False
    then have u: "unat ?k = 4 * k" and bound: "unat ?k + 4 * c \<le> 2 ^ 64"
      using assms by (simp_all add: unat_of_nat64 del: of_nat_mult)
    have lt: "unat ((x - b) - ?k) div 4 < c \<longleftrightarrow> k \<le> ?o div 4 \<and> ?o div 4 < k + c"
    proof -
      have "unat ((x - b) - ?k) div 4 < c \<longleftrightarrow> unat ((x - b) - ?k) < 4 * c"
        by (simp add: div_less_iff_less_mult mult.commute)
      also have "\<dots> \<longleftrightarrow> 4 * k \<le> ?o \<and> ?o < 4 * k + 4 * c"
        unfolding window(1) [OF bound] u ..
      also have "\<dots> \<longleftrightarrow> k \<le> ?o div 4 \<and> ?o div 4 < k + c"
        by auto
      finally show ?thesis .
    qed
    have "unat ((x - b) - ?k) mod 4 = ?o mod 4" if "k \<le> ?o div 4"
    proof -
      have le: "4 * k \<le> ?o"
        using that by auto
      then have "unat ((x - b) - ?k) = ?o - 4 * k"
        using window(2) [OF bound] u by simp
      then have "?o = unat ((x - b) - ?k) + k * 4"
        using le by simp
      then show ?thesis
        by simp
    qed
    then show ?thesis
      unfolding painted_def e using lt by simp
  qed simp
qed

lemma moved_up_rows:
  assumes w: "0 < w" "w \<le> 2 ^ 15" and c: "0 < c" "c \<le> l" and l: "l < 2 ^ 16"
    and body: "\<And>j t. j < l - c \<Longrightarrow> f (of_nat j) t =
      memcpy t (b + of_nat (4 * (j * w))) (b + of_nat (4 * ((j + c) * w))) (of_nat (4 * w))"
  shows "for_int 0 (of_nat (l - c)) f m = moved_up True (l * w) (c * w) b m"
proof -
  let ?P = "\<lambda>j a. if unat (a - b) < 4 * (j * w) then m (a + of_nat (4 * (c * w))) else m a"
  have u: "unat (of_nat (l - c) :: u32) = l - c"
    using l by (simp add: unat_of_nat)
  have "for_int 0 (of_nat (l - c)) f m = ?P (unat (of_nat (l - c) :: u32))"
  proof (rule for_int_inv [where I = "\<lambda>j t. t = ?P j"])
    fix j t
    assume j: "j < unat (of_nat (l - c) :: u32)" and t: "t = ?P j"
    then have "j + c < 2 ^ 16" "j < l - c"
      using u l by simp_all
    then show "f (of_nat j) t = ?P (Suc j)"
      unfolding t by (simp only: body rows_copied [OF w(1) c(1) _ w(2)])
  qed (use u l in simp_all)
  also have "?P (unat (of_nat (l - c) :: u32)) = moved_up True (l * w) (c * w) b m"
  proof (rule ext)
    fix a
    have "b + of_nat (4 * scroll_source True (l * w) (c * w) (unat (a - b) div 4) + unat (a - b) mod 4) =
        a + of_nat (4 * (c * w))"
    proof -
      have "4 * (unat (a - b) div 4 + c * w) + unat (a - b) mod 4 = unat (a - b) + 4 * (c * w)"
        by simp
      then have "of_nat (4 * (unat (a - b) div 4 + c * w) + unat (a - b) mod 4) =
          (a - b) + of_nat (4 * (c * w))"
        by (simp only: of_nat_add of_nat_unat ucast_id)
      then show ?thesis
        by (simp add: scroll_source_def del: of_nat_add of_nat_mult)
    qed
    then show "?P (unat (of_nat (l - c) :: u32)) a = moved_up True (l * w) (c * w) b m a"
      unfolding moved_up_def u by (simp only: Let_def diff_mult_distrib)
  qed
  finally show ?thesis .
qed

text \<open>
  The block move copies with \<^verbatim>\<open>memcpy\<close>, because the destination lies below the source. Here \<open>q\<close> pixels
  are skipped and \<open>n - q\<close> moved. When the two regions overlap, the words copied last are read
  after they were written.
\<close>

lemma memcpy_up_overlapping:
  assumes q: "4 \<le> q" "2 * q + 4 \<le> n" and n: "n \<le> 1073741824"
  shows "memcpy m b (b + of_nat (4 * q)) (of_nat (4 * (n - q))) a =
    (if unat (a - b) < 4 * (n - q)
     then m (if n \<le> unat (a - b) div 4 + 2 * q + 2 \<and> unat (a - b) div 4 + 2 * q < n
             then a + of_nat (4 * (2 * q)) else a + of_nat (4 * q))
     else m a)"
proof -
  let ?d = "of_nat (4 * q) :: u64" and ?n = "of_nat (4 * (n - q)) :: u64" and ?o = "unat (a - b)"
  have u: "unat ?d = 4 * q" "unat ?n = 4 * (n - q)"
    using assms by (intro unat_quad; linarith)+
  have sd: "b + ?d - b = ?d"
    by simp
  have sh: "shifted b (b + ?d) ?n"
    unfolding shifted_def sd u using assms by (intro conjI; linarith?; simp)
  have cond: "4 * (n - q) \<le> ?o + 4 * q + 8 \<and> ?o + 4 * q < 4 * (n - q) \<longleftrightarrow>
      n \<le> ?o div 4 + 2 * q + 2 \<and> ?o div 4 + 2 * q < n"
    using q by linarith
  have in_n: "a - b < ?n \<longleftrightarrow> ?o < 4 * (n - q)"
    unfolding word_less_nat_alt u ..
  have "of_nat (4 * (2 * q)) = ?d + ?d" "b + ?d + ?d + (a - b) = a + (?d + ?d)" "b + ?d + (a - b) = a + ?d"
    by simp_all
  then show ?thesis
    unfolding memcpy_shifted [OF sh] in_n sd u cond by (simp only:)
qed

lemma memcpy_up_apart:
  assumes q: "4 \<le> q" "q < n" "n \<le> 2 * q" and n: "n \<le> 1073741824"
  shows "memcpy m b (b + of_nat (4 * q)) (of_nat (4 * (n - q))) a =
    (if unat (a - b) < 4 * (n - q) then m (a + of_nat (4 * q)) else m a)"
proof -
  let ?d = "of_nat (4 * q) :: u64" and ?n = "of_nat (4 * (n - q)) :: u64"
  have u: "unat ?d = 4 * q" "unat ?n = 4 * (n - q)"
    using assms by (intro unat_quad; linarith)+
  have sd: "b + ?d - b = ?d" and e: "b - (b + ?d) = 0 - ?d" "b + ?d + (a - b) = a + ?d"
    by simp_all
  have in_n: "a - b < ?n \<longleftrightarrow> unat (a - b) < 4 * (n - q)"
    unfolding word_less_nat_alt u ..
  have "unat (0 - ?d) = 2 ^ 64 - 4 * q"
    using unat_neg [of ?d] u(1) q(1) by linarith
  moreover have "(2 :: nat) ^ 64 = 18446744073709551616"
    by simp
  ultimately have "4 * (n - q) \<le> unat (0 - ?d)"
    using assms by linarith
  moreover have "4 * (n - q) \<le> 4 * q"
    using q by linarith
  ultimately have no: "no_overlap b (b + ?d) ?n"
    unfolding no_overlap_def word_le_nat_alt sd e u by blast
  show ?thesis
    unfolding memcpy_eq [OF no] in_n e ..
qed

lemma moved_up_block:
  assumes w: "4 \<le> w" "w \<le> 2 ^ 15" and c: "0 < c" "c \<le> l" and l: "l \<le> 2 ^ 15"
    and b: "unat b + 4 * (l * w) \<le> 2 ^ 64"
  shows "memmove m b (b + of_nat (4 * (c * w))) (of_nat (4 * ((l - c) * w))) =
         moved_up False (l * w) (c * w) b m"
proof (cases "c = l")
  case True
  then show ?thesis
    by (simp add: memmove_def moved_up_def)
next
  case False
  let ?d = "of_nat (4 * (c * w)) :: u64" and ?n = "of_nat (4 * ((l - c) * w)) :: u64"
  have le: "l * w \<le> 1073741824" "c * w < l * w"
    using mult_le_mono [OF l w(2)] c w(1) False by simp_all
  have lw: "(l - c) * w = l * w - c * w"
    by (rule diff_mult_distrib)
  have u: "unat ?d = 4 * (c * w)" "unat ?n = 4 * (l * w - c * w)"
    unfolding lw using le by (intro unat_quad; linarith)+
  have cw: "4 \<le> c * w"
    using w(1) c(1) by (metis mult_le_mono nat_mult_1 Suc_leI One_nat_def)
  have "unat b + unat ?d < 2 ^ 64"
    unfolding u using b le(2) by linarith
  then have "unat (b + ?d) = unat b + 4 * (c * w)"
    using unat_add_no_overflow [of b ?d] u(1) by (simp del: of_nat_mult)
  then have "b < b + ?d"
    unfolding word_less_nat_alt using cw by linarith
  moreover have "?n \<noteq> 0"
    using u(2) le(2) by (metis diff_is_0_eq less_numeral_extra(3) mult_is_0 not_le unsigned_0 zero_neq_numeral)
  ultimately have cpy: "memmove m b (b + ?d) ?n = memcpy m b (b + ?d) ?n"
    by (auto simp: memmove_def Let_def)
  show ?thesis
    unfolding cpy
  proof (rule ext)
    fix a
    let ?o = "unat (a - b)"
    have src: "b + of_nat (4 * (?o div 4 + k) + ?o mod 4) = a + of_nat (4 * k)" for k
    proof -
      have "4 * (?o div 4 + k) + ?o mod 4 = ?o + 4 * k"
        by simp
      then have "of_nat (4 * (?o div 4 + k) + ?o mod 4) = (a - b) + of_nat (4 * k)"
        by (simp only: of_nat_add of_nat_unat ucast_id)
      then show ?thesis
        by (simp del: of_nat_add of_nat_mult)
    qed
    have "moved_up False (l * w) (c * w) b m a =
        (if ?o < 4 * (l * w - c * w)
         then m (if l * w \<le> ?o div 4 + 2 * (c * w) + 2 \<and> ?o div 4 + 2 * (c * w) < l * w
                 then a + of_nat (4 * (2 * (c * w))) else a + ?d)
         else m a)"
      unfolding moved_up_def scroll_source_def Let_def
      by (cases "l * w \<le> ?o div 4 + 2 * (c * w) + 2 \<and> ?o div 4 + 2 * (c * w) < l * w")
        (simp_all only: src simp_thms if_True if_False mult.assoc)
    also have "\<dots> = memcpy m b (b + ?d) ?n a"
    proof (cases "2 * (c * w) < l * w")
      case True
      then have "2 * c < l"
        by (metis mult.assoc mult_less_cancel2)
      then have "(2 * c + 1) * w \<le> l * w"
        by (intro mult_le_mono1) simp
      then have "2 * (c * w) + 4 \<le> l * w"
        using w(1) by (simp add: algebra_simps)
      from memcpy_up_overlapping [OF cw this le(1)] show ?thesis
        unfolding lw ..
    next
      case False
      then have far: "\<not> (l * w \<le> ?o div 4 + 2 * (c * w) + 2 \<and> ?o div 4 + 2 * (c * w) < l * w)"
        by linarith
      from False have "l * w \<le> 2 * (c * w)"
        by linarith
      from memcpy_up_apart [OF cw le(2) this le(1)] show ?thesis
        unfolding lw if_not_P [OF far] ..
    qed
    finally show "memcpy m b (b + ?d) ?n a = moved_up False (l * w) (c * w) b m a" ..
  qed
qed

lemma unat_minus_small: "unat (y :: u32) \<le> unat x \<Longrightarrow> unat (x - y) = unat x - unat y"
  by (simp add: unat_sub_if')

lemma fill_bottom:
  assumes "c * w \<le> l * w" and "l * w \<le> 1073741824" and "even c"
  shows "fill_buffer_with_color m (b + of_nat (4 * (l * w - c * w))) (of_nat (4 * (c * w))) v =
    painted m b {l * w - c * w..<l * w} v"
proof -
  have u: "unat (of_nat (4 * (c * w)) :: u64) = 4 * (c * w)"
    using assms by (intro unat_quad) linarith
  have "8 dvd 4 * (c * w)"
    using assms(3) by (auto elim!: evenE)
  then have "fill_buffer_with_color m (b + of_nat (4 * (l * w - c * w))) (of_nat (4 * (c * w))) v =
      painted m (b + of_nat (4 * (l * w - c * w))) {..<c * w} v"
    by (subst fill_buffer_eq) (simp_all only: u nonzero_mult_div_cancel_left zero_neq_numeral not_False_eq_True)
  moreover have "(l * w - c * w) + c * w = l * w" and "l * w \<le> 2 ^ 62"
    using assms by simp_all
  ultimately show ?thesis
    using painted_shift [of "l * w - c * w" "c * w" m b v] by simp
qed

text \<open>The two ways of moving the lines that stay: one by one on the screen, as a block in the backbuffer.\<close>

lemma scroll_rows_direct:
  assumes "lines f \<le> 32768" and "4 \<le> stride s" "stride s \<le> 32768"
    and up: "0 < unat up" "unat up \<le> lines f"
    and room: "unat b + 4 * (lines f * stride s) \<le> 2 ^ 64"
  shows "for_int 0 (of_nat (lines f - unat up))
      (\<lambda>y m. memcpy m (b + 4 * (scast y * screen_pitch_div_4 s))
         (b + 4 * (scast (y + up) * screen_pitch_div_4 s)) (of_nat (4 * stride s))) m =
    moved_up True (lines f * stride s) (unat up * stride s) b m"
proof (rule moved_up_rows)
  fix j t
  assume j: "j < lines f - unat up"
  have u: "unat (of_nat j :: u32) = j"
    using j assms(1) by (simp add: unat_of_nat)
  then have "unat (of_nat j + up) = j + unat up"
    using j assms(1) by (subst unat_add_no_overflow) simp_all
  then have "scast (of_nat j + up) = (of_nat (j + unat up) :: u64)"
    using j assms(1) by (subst scast_small) simp_all
  moreover have "scast (of_nat j :: u32) = (of_nat j :: u64)"
    using j assms(1) u by (subst scast_small) simp_all
  ultimately show "memcpy t (b + 4 * (scast (of_nat j :: u32) * screen_pitch_div_4 s))
      (b + 4 * (scast (of_nat j + up) * screen_pitch_div_4 s)) (of_nat (4 * stride s)) =
      memcpy t (b + of_nat (4 * (j * stride s))) (b + of_nat (4 * ((j + unat up) * stride s)))
        (of_nat (4 * stride s))"
    by simp
qed (use assms in simp_all)

lemma scroll_offset:
  fixes up :: u32
  assumes "unat up * stride s \<le> 1073741824" and "scast up = (of_nat (unat up) :: u64)"
  shows "4 * scast (ucast (scast up * screen_pitch_div_4 s) :: u32) = (of_nat (4 * (unat up * stride s)) :: u64)"
proof -
  let ?n = "unat up * stride s"
  have e: "scast up * screen_pitch_div_4 s = of_nat ?n"
    unfolding assms(2) by simp
  have "unat (scast up * screen_pitch_div_4 s) = ?n"
    unfolding e using assms(1) by (intro unat_of_nat64) simp
  then have "unat (ucast (scast up * screen_pitch_div_4 s) :: u32) = ?n"
    using assms(1) by (subst unat_ucast_small) simp_all
  then have "scast (ucast (scast up * screen_pitch_div_4 s) :: u32) = (of_nat ?n :: u64)"
    using assms(1) by (subst scast_small) simp_all
  then show ?thesis
    by simp
qed

lemma scroll_up_painted:
  assumes s: "shape f s" and p: "BufWidth props = ucast (screen_pitch_div_4 s)" "BufHeight props = ucast (fb_height f)"
    and up: "0 < unat up" "unat up \<le> lines f" "even (unat up)"
  shows "scroll_up f props up d s =
           painted (moved_up d (lines f * stride s) (unat up * stride s) (surface f d s) (mem s)) (surface f d s)
             {lines f * stride s - unat up * stride s..<lines f * stride s} (current_background_color s)"
proof -
  let ?w = "stride s" and ?c = "unat up" and ?l = "lines f" and ?b = "surface f d s"
  note bounds = shape_bounds [OF s]
  have le: "?c * ?w \<le> ?l * ?w" "?l * ?w \<le> 1073741824"
    using mult_le_mono [OF bounds(5,3)] mult_le_mono1 [OF up(2)] by simp_all
  have lw: "(?l - ?c) * ?w = ?l * ?w - ?c * ?w"
    by (rule diff_mult_distrib)
  have ups: "scast up = (of_nat ?c :: u64)"
    using up(2) bounds(5) by (intro scast_small) simp
  have pitch: "screen_pitch_div_4 s = of_nat ?w"
    by simp
  have rows: "BufHeight props - up = of_nat (?l - ?c)" "unat (BufHeight props - up) = ?l - ?c"
  proof -
    have "unat (BufHeight props) = ?l"
      unfolding p using bounds(5) by (intro unat_ucast_small) simp
    then show u: "unat (BufHeight props - up) = ?l - ?c"
      using up(2) unat_minus_small [of up "BufHeight props"] by simp
    show "BufHeight props - up = of_nat (?l - ?c)"
      unfolding u [symmetric] by simp
  qed
  have srows: "scast (BufHeight props - up) = (of_nat (?l - ?c) :: u64)"
    using rows(2) bounds(5) by (subst scast_small) simp_all
  have total: "scast up * screen_pitch_div_4 s * 4 = of_nat (4 * (?c * ?w))"
    unfolding ups by simp
  have bottom: "4 * (scast (BufHeight props - up) * screen_pitch_div_4 s) = of_nat (4 * (?l * ?w - ?c * ?w))"
    unfolding srows lw [symmetric] by simp
  note fill = fill_bottom [OF le up(3)]
  show ?thesis
  proof (cases d)
    case True
    have width: "scast (BufWidth props * 4) = (of_nat (4 * ?w) :: u64)"
    proof -
      have "unat (BufWidth props) = ?w"
        unfolding p using bounds(3) by (intro unat_ucast_small) simp
      then have "unat (BufWidth props * 4) = 4 * ?w"
        using bounds(3) small_product [of 4 "BufWidth props"] by (simp add: mult.commute)
      then show ?thesis
        using bounds(3) by (subst scast_small) simp_all
    qed
    have "unat ?b + 4 * (?l * ?w) \<le> 2 ^ 64"
      using s by (auto simp: shape_def surface_def)
    note rows_moved = scroll_rows_direct [OF bounds(5,2,3) up(1,2) this, of "mem s"]
    with True show ?thesis
      by (simp only: scroll_up_def Let_def if_True rows(1) width total surface_def bottom [unfolded rows(1)]
          fill [unfolded surface_def if_P [OF True]]
          rows_moved [unfolded surface_def if_P [OF True]])
  next
    case False
    have "?c * ?w \<le> 1073741824"
      using le by linarith
    note line = scroll_offset [OF this ups]
    have size: "scast (BufHeight props - up) * screen_pitch_div_4 s * 4 = of_nat (4 * ((?l - ?c) * ?w))"
      unfolding srows by simp
    have "memmove (mem s) ?b (?b + of_nat (4 * (?c * ?w))) (of_nat (4 * ((?l - ?c) * ?w))) =
        moved_up False (?l * ?w) (?c * ?w) ?b (mem s)"
      using bounds up s by (intro moved_up_block) (auto simp: shape_def surface_def)
    with False show ?thesis
      by (simp only: scroll_up_def Let_def if_False line size total surface_def bottom
          fill [unfolded surface_def if_not_P [OF False]])
  qed
qed

section \<open>Drawing stays on the surface\<close>

text \<open>
  A drawing step changes the memory of the surface and the cursor, and nothing else; the cursor
  stays on the screen.
\<close>

definition cursor_ok :: "limine_framebuffer \<Rightarrow> 'a screen_scheme \<Rightarrow> bool" where
  "cursor_ok f s \<longleftrightarrow> unat (cursor_x s) \<le> columns f \<and> unat (cursor_y s) \<le> lines f"

definition draws :: "limine_framebuffer \<Rightarrow> bool \<Rightarrow> 'a screen_scheme \<Rightarrow> 'a screen_scheme \<Rightarrow> bool" where
  "draws f d s t \<longleftrightarrow>
     (\<exists>m x y. t = s\<lparr>mem := m, cursor_x := x, cursor_y := y\<rparr> \<and>
       (\<forall>a. 4 * (lines f * stride s) \<le> unat (a - surface f d s) \<longrightarrow> m a = mem s a)) \<and>
     cursor_ok f t"

lemma drawsI:
  assumes "t = s\<lparr>mem := m, cursor_x := x, cursor_y := y\<rparr>"
    and "\<And>a. 4 * (lines f * stride s) \<le> unat (a - surface f d s) \<Longrightarrow> m a = mem s a"
    and "unat x \<le> columns f" and "unat y \<le> lines f"
  shows "draws f d s t"
  unfolding draws_def using assms by (auto simp: cursor_ok_def)

lemma draws_refl: "cursor_ok f s \<Longrightarrow> draws f d s s"
  by (rule drawsI [where m = "mem s" and x = "cursor_x s" and y = "cursor_y s"]) (simp_all add: cursor_ok_def)

lemma draws_trans:
  assumes "draws f d s t" and "draws f d t u"
  shows "draws f d s u"
proof -
  obtain m x y where t: "t = s\<lparr>mem := m, cursor_x := x, cursor_y := y\<rparr>"
    and m: "\<And>a. 4 * (lines f * stride s) \<le> unat (a - surface f d s) \<Longrightarrow> m a = mem s a"
    using assms(1) by (auto simp: draws_def)
  obtain m' x' y' where u: "u = t\<lparr>mem := m', cursor_x := x', cursor_y := y'\<rparr>"
    and m': "\<And>a. 4 * (lines f * stride t) \<le> unat (a - surface f d t) \<Longrightarrow> m' a = mem t a"
    and "cursor_ok f u"
    using assms(2) by (auto simp: draws_def)
  then show ?thesis
    using m t by (intro drawsI [where m = m' and x = x' and y = y']) (simp_all add: cursor_ok_def)
qed

lemma draws_state:
  assumes "draws f d s t"
  shows "cursor_ok f t" and "shape f t = shape f s" and "surface f d t = surface f d s" and "stride t = stride s"
    and "screen_pitch_div_4 t = screen_pitch_div_4 s"
  using assms by (auto simp: draws_def)

lemma draws_outside:
  "draws f d s t \<Longrightarrow> 4 * (lines f * stride s) \<le> unat (a - surface f d s) \<Longrightarrow> mem t a = mem s a"
  by (auto simp: draws_def)

lemma painted_inside:
  "S \<subseteq> {..<n} \<Longrightarrow> 4 * n \<le> unat (a - b) \<Longrightarrow> painted m b S v a = m a"
  by (rule painted_outside) auto

lemma rect_inside: "cols \<le> w \<Longrightarrow> rect cols lns w x y a b \<subseteq> {..<lns * w}"
  by (auto simp: rect_def intro!: pixel_index_less)

lemma moved_up_inside: "4 * n \<le> unat (a - b) \<Longrightarrow> moved_up d n c b m a = m a"
  by (auto simp: moved_up_def Let_def)

text \<open>The text cells: the line of text is not higher than the screen, and one character fits into a row.\<close>

definition cell_ok :: "limine_framebuffer \<Rightarrow> u32 \<Rightarrow> u32 \<Rightarrow> bool" where
  "cell_ok f cw chh \<longleftrightarrow> 0 < unat cw \<and> 10 + unat cw \<le> columns f \<and> 0 < unat chh \<and> unat chh \<le> lines f \<and>
     even (unat chh)"

definition props_for :: "limine_framebuffer \<Rightarrow> 'a screen_scheme \<Rightarrow> blit_props \<Rightarrow> bool" where
  "props_for f s props \<longleftrightarrow>
     BufWidth props = ucast (screen_pitch_div_4 s) \<and> BufHeight props = ucast (fb_height f)"

lemma unat_sum_small: "unat (x :: u32) + unat y < 2 ^ 32 \<Longrightarrow> unat (x + y) = unat x + unat y"
  by (rule unat_add_no_overflow) simp

lemma newline_draws:
  assumes s: "shape f s" and p: "props_for f s props" and c: "cell_ok f cw up" and k: "cursor_ok f s"
  shows "draws f d s (check_newline_and_scroll f props up d s)"
    and "cursor_x (check_newline_and_scroll f props up d s) = 10"
proof -
  note bounds = shape_bounds [OF s]
  let ?y = "cursor_y s + up"
  let ?s = "s\<lparr>cursor_x := DEFAULT_CURSOR_X, cursor_y := ?y\<rparr>"
  have up: "0 < unat up" "unat up \<le> lines f" "even (unat up)" and ten: "10 \<le> columns f"
    using c by (simp_all add: cell_ok_def)
  have y: "unat (cursor_y s) \<le> lines f"
    using k by (simp add: cursor_ok_def)
  have uy: "unat ?y = unat (cursor_y s) + unat up"
    using y up bounds(5) by (intro unat_sum_small) simp
  then have uy2: "unat (?y + up) = unat (cursor_y s) + unat up + unat up"
    using y up bounds(5) by (subst unat_sum_small) simp_all
  have h: "unat (BufHeight props) = lines f"
    using p bounds(5) by (simp add: props_for_def unat_ucast_small)
  have scroll: "BufHeight props <s ?y + up \<longleftrightarrow> lines f < unat (cursor_y s) + unat up + unat up"
    using uy2 h y up bounds(5) by (subst sless_small) simp_all
  have x: "unat DEFAULT_CURSOR_X = 10"
    by (simp add: DEFAULT_CURSOR_X_def)
  show "draws f d s (check_newline_and_scroll f props up d s)"
  proof (cases "BufHeight props <s ?y + up")
    case True
    show ?thesis
    proof (rule drawsI)
      show "check_newline_and_scroll f props up d s =
          s\<lparr>mem := scroll_up f props up d ?s, cursor_x := DEFAULT_CURSOR_X, cursor_y := cursor_y s\<rparr>"
        using True by (simp add: check_newline_and_scroll_def Let_def)
      have "shape f ?s"
        using s by simp
      from scroll_up_painted [OF this _ _ up] p
      have up_eq: "scroll_up f props up d ?s =
          painted (moved_up d (lines f * stride s) (unat up * stride s) (surface f d s) (mem s)) (surface f d s)
            {lines f * stride s - unat up * stride s..<lines f * stride s} (current_background_color s)"
        by (simp add: props_for_def)
      show "scroll_up f props up d ?s a = mem s a" if "4 * (lines f * stride s) \<le> unat (a - surface f d s)" for a
        unfolding up_eq using that by (subst painted_inside) (auto simp: moved_up_inside)
    qed (use y ten x in simp_all)
  next
    case False
    show ?thesis
    proof (rule drawsI)
      show "check_newline_and_scroll f props up d s =
          s\<lparr>mem := mem s, cursor_x := DEFAULT_CURSOR_X, cursor_y := ?y\<rparr>"
        using False by (simp add: check_newline_and_scroll_def Let_def)
    qed (use False scroll uy ten x in simp_all)
  qed
  show "cursor_x (check_newline_and_scroll f props up d s) = 10"
    by (simp add: check_newline_and_scroll_def Let_def DEFAULT_CURSOR_X_def)
qed

text \<open>Clearing a cell at the cursor.\<close>

lemma clear_cell_eq:
  assumes s: "shape f s" and c: "cell_ok f cw up" and k: "cursor_ok f s"
  shows "fill_rect (scast (cursor_x s)) (scast (cursor_y s)) cw up color d s =
           s\<lparr>mem := painted (mem s) (surface f d s)
             (rect (columns f) (lines f) (stride s) (unat (cursor_x s)) (unat (cursor_y s)) (unat cw) (unat up)) color\<rparr>"
proof -
  note bounds = shape_bounds [OF s]
  have u: "unat (scast (cursor_x s) :: u64) = unat (cursor_x s)" "unat (scast (cursor_y s) :: u64) = unat (cursor_y s)"
    using k bounds by (simp_all only: cursor_ok_def, (subst unat_scast_small; simp)+)
  show ?thesis
    unfolding u [symmetric] using s c k bounds u by (intro fill_rect_painted) (simp_all add: cell_ok_def cursor_ok_def)
qed

lemma clear_cell_draws:
  assumes s: "shape f s" and c: "cell_ok f cw up" and k: "cursor_ok f s" and x: "unat x \<le> columns f"
  shows "draws f d s ((fill_rect (scast (cursor_x s)) (scast (cursor_y s)) cw up color d s)\<lparr>cursor_x := x\<rparr>)"
proof (rule drawsI)
  let ?R = "rect (columns f) (lines f) (stride s) (unat (cursor_x s)) (unat (cursor_y s)) (unat cw) (unat up)"
  show "(fill_rect (scast (cursor_x s)) (scast (cursor_y s)) cw up color d s)\<lparr>cursor_x := x\<rparr> =
      s\<lparr>mem := painted (mem s) (surface f d s) ?R color, cursor_x := x, cursor_y := cursor_y s\<rparr>"
    unfolding clear_cell_eq [OF s c k] by simp
  show "painted (mem s) (surface f d s) ?R color a = mem s a"
    if "4 * (lines f * stride s) \<le> unat (a - surface f d s)" for a
    using rect_inside [OF shape_bounds(6) [OF s]] that by (rule painted_inside)
qed (use x k in \<open>simp_all add: cursor_ok_def\<close>)

lemma move_draws: "unat x \<le> columns f \<Longrightarrow> unat y \<le> lines f \<Longrightarrow> draws f d s (s\<lparr>cursor_x := x, cursor_y := y\<rparr>)"
  by (rule drawsI [where m = "mem s" and x = x and y = y]) simp_all

text \<open>Where the line has no room for another cell, the cursor first goes to the next line.\<close>

lemma room_draws:
  fixes f s props cw up d
  assumes "shape f s" and "props_for f s props" and c: "cell_ok f cw up" and "cursor_ok f s"
  defines "t \<equiv> (if ucast (fb_width f) <s cursor_x s + cw then check_newline_and_scroll f props up d s else s)"
  shows "draws f d s t" and "unat (cursor_x t + cw) \<le> columns f" "unat (cursor_x t + cw) = unat (cursor_x t) + unat cw"
proof -
  note bounds = shape_bounds [OF assms(1)]
  have sum: "unat (x + cw) = unat x + unat cw" if "unat x \<le> columns f" for x
    using that c bounds by (intro unat_sum_small) (simp add: cell_ok_def)
  have room: "ucast (fb_width f) <s cursor_x s + cw \<longleftrightarrow> columns f < unat (cursor_x s) + unat cw"
    using assms(4) bounds c sum [of "cursor_x s"]
    by (subst sless_small) (simp_all add: unat_ucast_small cell_ok_def cursor_ok_def)
  show d: "draws f d s t"
    using newline_draws(1) [OF assms(1-4)] draws_refl [OF assms(4)] by (simp add: t_def)
  have "unat (cursor_x t) + unat cw \<le> columns f"
    using newline_draws(2) [OF assms(1-4)] room c by (auto simp: t_def cell_ok_def)
  moreover have "unat (cursor_x t) \<le> columns f"
    using draws_state(1) [OF d] by (simp add: cursor_ok_def)
  ultimately show "unat (cursor_x t + cw) \<le> columns f" "unat (cursor_x t + cw) = unat (cursor_x t) + unat cw"
    using sum by simp_all
qed

lemma props_for_draws: "draws f d s t \<Longrightarrow> props_for f t props = props_for f s props"
  by (simp add: props_for_def draws_state)

lemma kprint_space_draws:
  assumes "shape f s" and "props_for f s props" and "cell_ok f cw up" and "cursor_ok f s"
  shows "draws f d s (kprint_space f props cw up d s)"
proof -
  let ?t = "if ucast (fb_width f) <s cursor_x s + cw then check_newline_and_scroll f props up d s else s"
  note room = room_draws [OF assms, of d]
  have "draws f d ?t ((fill_rect (scast (cursor_x ?t)) (scast (cursor_y ?t)) cw up
      (current_background_color ?t) d ?t)\<lparr>cursor_x := cursor_x ?t + cw\<rparr>)"
    using room assms draws_state [OF room(1)] by (intro clear_cell_draws) simp_all
  moreover have "cursor_x (fill_rect (scast (cursor_x ?t)) (scast (cursor_y ?t)) cw up
      (current_background_color ?t) d ?t) = cursor_x ?t"
    using clear_cell_eq [of f ?t cw up] room assms draws_state [OF room(1)] by simp
  ultimately show ?thesis
    using room(1) by (auto simp: kprint_space_def Let_def intro: draws_trans)
qed

lemma kprint_tab_cell_draws:
  assumes t: "shape f t" "cursor_ok f t" and c: "cell_ok f cw up"
  shows "draws f d t (kprint_tab_cell f cw up d t)"
proof (cases "cursor_x t + cw \<le>s ucast (fb_width f)")
  case True
  note bounds = shape_bounds [OF t(1)]
  have "unat (cursor_x t + cw) = unat (cursor_x t) + unat cw"
    using t(2) c bounds by (intro unat_sum_small) (simp add: cell_ok_def cursor_ok_def)
  then have "unat (cursor_x t + cw) \<le> columns f"
    using True t(2) c bounds
    by (subst (asm) sle_small) (simp_all add: unat_ucast_small cell_ok_def cursor_ok_def)
  from clear_cell_draws [OF t(1) c t(2) this] True clear_cell_eq [OF t(1) c t(2)]
  show ?thesis
    by (simp add: kprint_tab_cell_def Let_def)
qed (use draws_refl [OF t(2)] in \<open>simp add: kprint_tab_cell_def\<close>)

lemma kprint_tab_draws:
  assumes "shape f s" and "props_for f s props" and c: "cell_ok f cw up" and "cursor_ok f s"
  shows "draws f d s (kprint_tab f props cw up d s)"
proof -
  have "draws f d s ((kprint_tab_cell f cw up d ^^ n) s)" for n
  proof (induction n)
    case (Suc n)
    then have "draws f d ((kprint_tab_cell f cw up d ^^ n) s) (kprint_tab_cell f cw up d ((kprint_tab_cell f cw up d ^^ n) s))"
      using assms(1) by (intro kprint_tab_cell_draws c) (simp_all add: draws_state)
    with Suc show ?case
      by (auto intro: draws_trans)
  qed (simp add: draws_refl assms)
  then show ?thesis
    using newline_draws(1) [OF assms] by (simp add: kprint_tab_def Let_def)
qed

lemma sdiv_nat: "int m sdiv int n = int (m div n)"
  by (cases "m = 0"; cases "n = 0") (simp_all add: signed_divide_int_def sgn_if zdiv_int)

lemma int_div_small:
  assumes "unat a < 2 ^ 31" and "0 < unat b" and "unat b < 2 ^ 31"
  shows "int_div a b = Inr (of_nat (unat a div unat b))"
proof -
  have "b \<noteq> 0"
    using assms(2) by auto
  then show ?thesis
    unfolding int_div_def sint_small [OF assms(1)] sint_small [OF assms(3)] sdiv_nat of_int_of_nat_eq by simp
qed

text \<open>The column to which a backspace at the left margin returns: that of the last cell of a line.\<close>

lemma last_column:
  assumes "0 < unat cw" and "10 + unat cw \<le> columns f" and "columns f \<le> 32768"
  shows "int_div (ucast (fb_width f) - DEFAULT_CURSOR_X) cw = Inr (of_nat ((columns f - 10) div unat cw))"
    and "unat (DEFAULT_CURSOR_X + (of_nat ((columns f - 10) div unat cw) - 1) * cw) \<le> columns f"
proof -
  have ten: "unat DEFAULT_CURSOR_X = 10"
    by (simp add: DEFAULT_CURSOR_X_def)
  let ?a = "ucast (fb_width f) - DEFAULT_CURSOR_X :: u32" and ?q = "(columns f - 10) div unat cw"
  have a: "unat ?a = columns f - 10"
    using assms ten by (subst unat_minus_small) (simp_all add: unat_ucast_small)
  have q: "1 \<le> ?q" "?q * unat cw \<le> columns f - 10"
    using assms by (simp_all add: Suc_le_eq div_greater_zero_iff)
  show "int_div ?a cw = Inr (of_nat ?q)"
    using int_div_small [of ?a cw] a assms by simp
  have mult: "(?q - 1) * unat cw \<le> columns f - 10 - unat cw"
    using diff_le_mono [OF q(2), of "unat cw"] by (simp only: diff_mult_distrib mult_1)
  have "?q < 4294967296"
    using div_le_dividend [of "columns f - 10" "unat cw"] assms(3) by linarith
  then have "unat (of_nat ?q :: u32) = ?q"
    by (simp add: unat_of_nat)
  then have "unat (of_nat ?q - 1 :: u32) = ?q - 1"
    using q(1) by (subst unat_minus_small) simp_all
  moreover have "(?q - 1) * unat cw < 4294967296"
    using mult assms(3) by linarith
  ultimately have "unat ((of_nat ?q - 1) * cw) = (?q - 1) * unat cw"
    using unat_mult_lem [of "of_nat ?q - 1" cw] by simp
  then show "unat (DEFAULT_CURSOR_X + (of_nat ?q - 1) * cw) \<le> columns f"
    using mult assms ten by (subst unat_sum_small) simp_all
qed

lemma kprint_backspace_draws:
  assumes s: "shape f s" and c: "cell_ok f cw up" and k: "cursor_ok f s"
  shows "\<exists>t. kprint_backspace f cw up d s = Inr t \<and> draws f d s t"
proof -
  note bounds = shape_bounds [OF s]
  have cell: "0 < unat cw" "10 + unat cw \<le> columns f" "unat up \<le> lines f" "unat cw < 2 ^ 31"
    using c bounds by (simp_all add: cell_ok_def)
  have ten: "unat DEFAULT_CURSOR_X = 10" "unat DEFAULT_CURSOR_Y = 10"
    by (simp_all add: DEFAULT_CURSOR_X_def DEFAULT_CURSOR_Y_def)
  have erase: "draws f d s (fill_rect (scast x) (scast y) cw up (current_background_color s) d
      (s\<lparr>cursor_x := x, cursor_y := y\<rparr>))" if "unat x \<le> columns f" "unat y \<le> lines f" for x y
  proof -
    let ?s = "s\<lparr>cursor_x := x, cursor_y := y\<rparr>"
    have ok: "shape f ?s" "cursor_ok f ?s"
      using s that by (simp_all add: cursor_ok_def)
    have "draws f d ?s ((fill_rect (scast x) (scast y) cw up (current_background_color s) d ?s)\<lparr>cursor_x := x\<rparr>)"
      using clear_cell_draws [OF ok(1) c ok(2) that(1)] by simp
    moreover have "(fill_rect (scast x) (scast y) cw up (current_background_color s) d ?s)\<lparr>cursor_x := x\<rparr> =
        fill_rect (scast x) (scast y) cw up (current_background_color s) d ?s"
      using clear_cell_eq [OF ok(1) c ok(2), of "current_background_color s" d] by simp
    ultimately show ?thesis
      using move_draws [OF that, of d s] by (auto intro: draws_trans)
  qed
  have x: "unat (cursor_x s) \<le> columns f" and y: "unat (cursor_y s) \<le> lines f"
    using k by (simp_all add: cursor_ok_def)
  consider (left) "DEFAULT_CURSOR_X + cw \<le>s cursor_x s"
    | (up) "\<not> DEFAULT_CURSOR_X + cw \<le>s cursor_x s" "DEFAULT_CURSOR_Y + up \<le>s cursor_y s"
    | (stay) "\<not> DEFAULT_CURSOR_X + cw \<le>s cursor_x s" "\<not> DEFAULT_CURSOR_Y + up \<le>s cursor_y s"
    by blast
  then show ?thesis
  proof cases
    case left
    have "unat (DEFAULT_CURSOR_X + cw) = 10 + unat cw"
      using cell bounds ten by (subst unat_sum_small) simp_all
    then have "unat cw \<le> unat (cursor_x s)"
      using left x cell bounds by (subst (asm) sle_small) simp_all
    then have "unat (cursor_x s - cw) \<le> columns f"
      using x by (simp add: unat_minus_small)
    from erase [OF this y] left show ?thesis
      by (simp add: kprint_backspace_def Let_def)
  next
    case up
    have "unat (DEFAULT_CURSOR_Y + up) = 10 + unat up"
      using cell bounds ten by (subst unat_sum_small) simp_all
    then have "unat up \<le> unat (cursor_y s)"
      using up y cell bounds by (subst (asm) sle_small) simp_all
    then have y': "unat (cursor_y s - up) \<le> lines f"
      using y by (simp add: unat_minus_small)
    note col = last_column [OF cell(1,2) bounds(7)]
    from erase [OF col(2) y'] up col(1) show ?thesis
      by (simp add: kprint_backspace_def Let_def)
  next
    case stay
    then show ?thesis
      using draws_refl [OF k] by (simp add: kprint_backspace_def Let_def)
  qed
qed

text \<open>\<open>scale_ok\<close>: a character of this scale fits on the screen.\<close>

definition scale_ok :: "limine_framebuffer \<Rightarrow> u32 \<Rightarrow> bool" where
  "scale_ok f scale \<longleftrightarrow> 0 < unat scale \<and> 10 + 7 * unat scale \<le> columns f \<and> 8 * unat scale \<le> lines f"

lemma scale_cell:
  assumes s: "shape f s" and k: "scale_ok f scale"
  shows "unat ((blit32_WIDTH + 2) * scale) = 7 * unat scale" and "unat ((blit32_HEIGHT + 2) * scale) = 8 * unat scale"
    and "cell_ok f ((blit32_WIDTH + 2) * scale) ((blit32_HEIGHT + 2) * scale)"
proof -
  have n: "7 * unat scale < 2 ^ 31" "8 * unat scale < 2 ^ 31"
    using k shape_bounds(5,7) [OF s] by (simp_all add: scale_ok_def)
  show u: "unat ((blit32_WIDTH + 2) * scale) = 7 * unat scale" "unat ((blit32_HEIGHT + 2) * scale) = 8 * unat scale"
    using small_product [OF n(1)] small_product [OF n(2)] by (simp_all add: blit32_WIDTH_def blit32_HEIGHT_def)
  show "cell_ok f ((blit32_WIDTH + 2) * scale) ((blit32_HEIGHT + 2) * scale)"
    using k unfolding cell_ok_def u by (simp add: scale_ok_def)
qed

text \<open>Drawing one printable character at the cursor.\<close>

lemma cursor_glyph:
  assumes s: "shape f s" and k: "scale_ok f scale" and cur: "cursor_ok f s" and c: "printable c"
    and p: "props = kprint_props f color scale d s"
  shows "blit32_TextNExplicit (Buffer props) (Value props) (Scale props) (BufWidth props) (BufHeight props)
           (Wrap props) (cursor_x s) (cursor_y s) (- 1) (single_char c) (mem s) =
         Some (Inr (1, if drawn_cell (unat scale) (stride s) (lines f) (unat (cursor_x s)) (unat (cursor_y s))
           then painted (mem s) (surface f d s) (glyph_pixels (glyph_of c) (unat scale) (stride s)
             ((unat (cursor_y s) + descent (glyph_of c) (unat scale)) * stride s + unat (cursor_x s))) color
           else mem s))"
proof -
  note bounds = shape_bounds [OF s]
  have w: "unat (ucast (screen_pitch_div_4 s) :: u32) = stride s" and h: "unat (ucast (fb_height f) :: u32) = lines f"
    using bounds by (simp_all add: unat_ucast_small)
  have size: "lines f * stride s \<le> 2 ^ 32"
    using mult_le_mono [OF bounds(5,3)] by simp
  have "unat (cursor_y s) + 8 * unat scale < 2 ^ 31" "unat (cursor_x s) + 6 * unat scale < 2 ^ 31"
    using cur k bounds by (simp_all add: cursor_ok_def scale_ok_def)
  then show ?thesis
    using blit32_draws [of c scale "ucast (screen_pitch_div_4 s)" "ucast (fb_height f)" "cursor_y s" "cursor_x s"
        "surface f d s" color "mem s"] w h c k bounds size
    by (simp add: p kprint_props_def surface_def scale_ok_def)
qed

lemma kprint_props_draws: "draws f d s t \<Longrightarrow> kprint_props f color scale d t = kprint_props f color scale d s"
  by (auto simp: kprint_props_def draws_def)

lemma props_for_kprint [simp]: "props_for f s (kprint_props f color scale d s)"
  by (simp add: props_for_def kprint_props_def)

lemma kprint_glyph_draws:
  assumes s: "shape f s" and k: "scale_ok f scale" and cur: "cursor_ok f s" and c: "printable c"
    and p: "props = kprint_props f color scale d s"
  shows "\<exists>t. kprint_glyph f props ((blit32_WIDTH + 2) * scale) ((blit32_HEIGHT + 2) * scale) d c s = Some (Inr t) \<and>
           draws f d s t"
proof -
  let ?cw = "(blit32_WIDTH + 2) * scale" and ?up = "(blit32_HEIGHT + 2) * scale"
  let ?t = "if ucast (fb_width f) <s cursor_x s + ?cw then check_newline_and_scroll f props ?up d s else s"
  have pf: "props_for f s props"
    by (simp add: p)
  note room = room_draws [OF s pf scale_cell(3) [OF s k] cur, of d]
  have t: "shape f ?t" "cursor_ok f ?t" "props = kprint_props f color scale d ?t"
    using draws_state [OF room(1)] s kprint_props_draws [OF room(1)] by (simp_all add: p)
  obtain m where m: "blit32_TextNExplicit (Buffer props) (Value props) (Scale props) (BufWidth props)
      (BufHeight props) (Wrap props) (cursor_x ?t) (cursor_y ?t) (- 1) (single_char c) (mem ?t) = Some (Inr (1, m))"
    and out: "\<And>a. 4 * (lines f * stride ?t) \<le> unat (a - surface f d ?t) \<Longrightarrow> m a = mem ?t a"
    using cursor_glyph [OF t(1) k t(2) c t(3)] painted_inside [OF glyph_inside]
    by (simp split: if_splits)
  have "draws f d ?t (?t\<lparr>mem := m, cursor_x := cursor_x ?t + ?cw\<rparr>)"
    using room(2) t(2) out
    by (intro drawsI [where m = m and x = "cursor_x ?t + ?cw" and y = "cursor_y ?t"]) (simp_all add: cursor_ok_def)
  from draws_trans [OF room(1) this] m show ?thesis
    by (simp add: kprint_glyph_def Let_def del: if_split)
qed

lemma kprint_char_draws:
  assumes s: "shape f s" and k: "scale_ok f scale" and cur: "cursor_ok f s" and c: "c \<noteq> 0x7F"
    and p: "props = kprint_props f color scale d s"
  shows "\<exists>t. kprint_char f props ((blit32_WIDTH + 2) * scale) ((blit32_HEIGHT + 2) * scale) d c s = Some (Inr t) \<and>
           draws f d s t"
proof -
  let ?c = "if 127 < c then 0x3F else c"
  have pf: "props_for f s props"
    by (simp add: p)
  note cell = scale_cell(3) [OF s k]
  have ret: "draws f d s (s\<lparr>cursor_x := DEFAULT_CURSOR_X\<rparr>)"
    using move_draws [of DEFAULT_CURSOR_X f "cursor_y s" d s] cur cell
    by (simp add: cursor_ok_def cell_ok_def DEFAULT_CURSOR_X_def)
  have c': "?c \<noteq> 0x7F" "\<not> 0x7F < ?c"
    using c by (auto simp: not_less)
  have "printable ?c" if "\<not> ?c < 0x20" "?c \<noteq> 0x20"
    using that c' by (auto simp: printable_def not_less order_le_less)
  from kprint_glyph_draws [OF s k cur this p] kprint_backspace_draws [OF s cell cur, of d]
    newline_draws(1) [OF s pf cell cur] kprint_space_draws [OF s pf cell cur] kprint_tab_draws [OF s pf cell cur]
    ret draws_refl [OF cur]
  show ?thesis
    unfolding kprint_char_def Let_def by auto
qed

lemma cstr_draws:
  assumes "draws f d s t" and "cstr (mem s) p xs" and "outside (surface f d s) (4 * (lines f * stride s)) p xs"
  shows "cstr (mem t) p xs"
  using assms(2,3)
proof (induction xs arbitrary: p)
  case Nil
  then show ?case
    using draws_outside [OF assms(1), of p] outside_head by fastforce
next
  case (Cons x xs)
  then show ?case
    using draws_outside [OF assms(1), of p] by (simp add: outside_Cons)
qed

lemma kprint_loop_draws:
  assumes "shape f s" and "scale_ok f scale" and "cursor_ok f s" and "0x7F \<notin> set xs"
    and "props = kprint_props f color scale d s"
    and "cstr (mem s) (txt + i) xs" and "outside (surface f d s) (4 * (lines f * stride s)) (txt + i) xs"
  shows "\<exists>t. kprint_loop f props ((blit32_WIDTH + 2) * scale) ((blit32_HEIGHT + 2) * scale) d txt i s = Some (Inr t) \<and>
           draws f d s t"
  using assms
proof (induction xs arbitrary: i s)
  case Nil
  then show ?case
    by (subst kprint_loop.simps) (simp add: draws_refl)
next
  case (Cons x xs)
  then obtain t where t: "kprint_char f props ((blit32_WIDTH + 2) * scale) ((blit32_HEIGHT + 2) * scale) d x s =
      Some (Inr t)" "draws f d s t"
    using kprint_char_draws [of f s scale x props color d] by auto
  have "cstr (mem t) (txt + (i + 1)) xs"
    using Cons.prems(6,7) by (intro cstr_draws [OF t(2)]) (simp_all add: outside_Cons add.assoc)
  then obtain u where "kprint_loop f props ((blit32_WIDTH + 2) * scale) ((blit32_HEIGHT + 2) * scale) d txt (i + 1) t =
      Some (Inr u)" "draws f d t u"
    using Cons.IH [of t "i + 1"] Cons.prems t(2) draws_state [OF t(2)] kprint_props_draws [OF t(2)]
    by (auto simp: outside_Cons add.assoc)
  with t Cons.prems(6) show ?case
    by (subst kprint_loop.simps) (auto intro: draws_trans)
qed

section \<open>Flushing the backbuffer\<close>

definition buffers_apart :: "limine_framebuffer \<Rightarrow> 'a screen_scheme \<Rightarrow> bool" where
  "buffers_apart f s \<longleftrightarrow> no_overlap (fb_address f) (backbuffer s) (of_nat (4 * (lines f * stride s)))"

lemma no_overlap_outside:
  assumes "no_overlap d s n" and "i < n"
  shows "\<not> s + i - d < n"
proof
  assume lt: "s + i - d < n"
  have "s - d = (s + i - d) - i" "d - s = i - (s + i - d)"
    by simp_all
  with diff_less [OF assms(2) lt] assms(1) show False
    unfolding no_overlap_def by (metis not_le)
qed

text \<open>The visible part of the first \<open>r\<close> lines copied.\<close>

definition flushed :: "nat \<Rightarrow> nat \<Rightarrow> u64 \<Rightarrow> u64 \<Rightarrow> nat \<Rightarrow> mem \<Rightarrow> mem" where
  "flushed cols w vram back r m =
     (\<lambda>a. if unat (a - vram) div 4 < r * w \<and> unat (a - vram) div 4 mod w < cols then m (back + (a - vram)) else m a)"

lemma next_line:
  fixes q w r cols :: nat
  assumes "cols \<le> w"
  shows "r * w \<le> q \<and> q < r * w + cols \<or> q < r * w \<and> q mod w < cols \<longleftrightarrow> q < Suc r * w \<and> q mod w < cols"
proof (cases "r * w \<le> q \<and> q < r * w + w")
  case True
  then have "q mod w = ((q - r * w) + r * w) mod w"
    by simp
  moreover have "q - r * w < w"
    using True by linarith
  ultimately have "q mod w = q - r * w"
    by (simp only: mod_mult_self1 mod_less)
  then show ?thesis
    using True by auto
next
  case False
  then have "q < r * w \<or> Suc r * w \<le> q"
    by auto
  then show ?thesis
    using assms by auto
qed

lemma flush_line:
  assumes sep: "no_overlap vram back (of_nat (4 * (l * w)))" and r: "r < l" and cols: "cols \<le> w"
    and n: "l * w \<le> 2 ^ 30"
  shows "memcpy (flushed cols w vram back r m) (vram + of_nat (4 * (r * w))) (back + of_nat (4 * (r * w)))
           (of_nat (4 * cols)) = flushed cols w vram back (Suc r) m"
proof -
  let ?t = "flushed cols w vram back r m" and ?o = "of_nat (4 * (r * w)) :: u64"
  let ?d = "vram + ?o" and ?s = "back + ?o"
  have lw: "l * w \<le> 1073741824"
    using n by simp
  have row: "r * w + w \<le> l * w"
    using r mult_le_mono1 [of "Suc r" l w] by simp
  have u: "unat (of_nat (4 * (l * w)) :: u64) = 4 * (l * w)" "unat ?o = 4 * (r * w)"
    "unat (of_nat (4 * cols) :: u64) = 4 * cols"
    using lw row cols by (intro unat_quad; linarith)+
  have le: "(of_nat (4 * cols) :: u64) \<le> of_nat (4 * (l * w))"
    unfolding word_le_nat_alt u using row cols by linarith
  have "?s - ?d = back - vram" "?d - ?s = vram - back"
    by (rule add_diff_cancel_right)+
  moreover have "(of_nat (4 * cols) :: u64) \<le> back - vram" "(of_nat (4 * cols) :: u64) \<le> vram - back"
    using le sep unfolding no_overlap_def by (blast intro: order_trans)+
  ultimately have "no_overlap ?d ?s (of_nat (4 * cols))"
    by (simp only: no_overlap_def)
  from memcpy_eq [OF this, of ?t] show ?thesis
  proof (rule trans, intro ext)
    fix a
    let ?j = "unat (a - vram)"
    have bound: "unat ?o + 4 * cols \<le> 2 ^ 64"
      unfolding u using row cols lw by simp
    have e: "a - ?d = (a - vram) - ?o" "?s + (a - ?d) = back + (a - vram)"
      by simp_all
    have win: "a - ?d < of_nat (4 * cols) \<longleftrightarrow> r * w \<le> ?j div 4 \<and> ?j div 4 < r * w + cols"
    proof -
      have "a - ?d < of_nat (4 * cols) \<longleftrightarrow> 4 * (r * w) \<le> ?j \<and> ?j < 4 * (r * w) + 4 * cols"
        unfolding word_less_nat_alt e u window(1) [OF bound] ..
      also have "\<dots> \<longleftrightarrow> r * w \<le> ?j div 4 \<and> ?j div 4 < r * w + cols"
        by auto
      finally show ?thesis .
    qed
    have read: "?t (back + (a - vram)) = m (back + (a - vram))" if "?j div 4 < r * w + cols"
    proof -
      have "a - vram < of_nat (4 * (l * w))"
        unfolding word_less_nat_alt u using that row cols by linarith
      from no_overlap_outside [OF sep this] have "4 * (l * w) \<le> unat (back + (a - vram) - vram)"
        unfolding word_less_nat_alt u by simp
      then have "\<not> unat (back + (a - vram) - vram) div 4 < r * w"
        using row by linarith
      then show ?thesis
        by (simp add: flushed_def)
    qed
    show "(if a - ?d < of_nat (4 * cols) then ?t (?s + (a - ?d)) else ?t a) = flushed cols w vram back (Suc r) m a"
    proof (cases "r * w \<le> ?j div 4 \<and> ?j div 4 < r * w + cols")
      case True
      then have "?j div 4 < Suc r * w \<and> ?j div 4 mod w < cols"
        using next_line [OF cols] by blast
      moreover have "?t (?s + (a - ?d)) = m (back + (a - vram))"
        unfolding e(2) using True by (intro read) simp
      ultimately show ?thesis
        using True win by (simp only: flushed_def [of _ _ _ _ "Suc r"] simp_thms if_True)
    next
      case False
      then have "?j div 4 < r * w \<and> ?j div 4 mod w < cols \<longleftrightarrow> ?j div 4 < Suc r * w \<and> ?j div 4 mod w < cols"
        using next_line [OF cols, of r "?j div 4"] by blast
      then show ?thesis
        using False win by (simp only: flushed_def if_False)
    qed
  qed
qed

lemma screen_flush_eq:
  assumes s: "shape f s" and sep: "buffers_apart f s"
  shows "screen_flush s = s\<lparr>mem := flushed (columns f) (stride s) (fb_address f) (backbuffer s) (lines f) (mem s)\<rparr>"
proof -
  note bounds = shape_bounds [OF s]
  let ?F = "\<lambda>r. flushed (columns f) (stride s) (fb_address f) (backbuffer s) r (mem s)"
  have n: "lines f * stride s \<le> 2 ^ 30"
    using mult_le_mono [OF bounds(5,3)] by simp
  have "for_range 0 (fb_height f) (\<lambda>y m. memcpy m (fb_address f + 4 * (y * screen_pitch_div_4 s))
      (backbuffer s + 4 * (y * screen_pitch_div_4 s)) (fb_width f * 4)) (mem s) = ?F (lines f)"
  proof (rule for_range_inv [where I = "\<lambda>i t. t = ?F (unat i)"])
    fix j t
    assume j: "j < fb_height f" and t: "t = ?F (unat j)"
    have w: "4 * (j * screen_pitch_div_4 s) = of_nat (4 * (unat j * stride s))" "fb_width f * 4 = of_nat (4 * columns f)"
      by simp_all
    show "memcpy t (fb_address f + 4 * (j * screen_pitch_div_4 s)) (backbuffer s + 4 * (j * screen_pitch_div_4 s))
        (fb_width f * 4) = ?F (unat (j + 1))"
      unfolding t w unat_succ_less [OF j] using sep j bounds n
      by (intro flush_line [where l = "lines f"]) (simp_all add: buffers_apart_def word_less_nat_alt)
  qed (simp_all add: flushed_def)
  then show ?thesis
    using bounds(1) by (simp add: screen_flush_def)
qed

section \<open>Text on a line\<close>

lemma pixel_moved_up:
  assumes "k < n - c" and "n \<le> 2 ^ 62"
  shows "pixel (moved_up d n c b m) b k = pixel m b (scroll_source d n c k)"
  unfolding pixel_def
proof (rule rd32_cong)
  fix i :: u64
  assume "i < 4"
  then have i: "unat i < 4"
    by (simp add: word_less_nat_alt)
  have e: "b + 4 * of_nat k + i - b = of_nat (4 * k + unat i)"
    by simp
  have j: "unat (b + 4 * of_nat k + i - b) = 4 * k + unat i"
    unfolding e using i assms by (intro unat_of_nat64) simp
  have "b + of_nat (4 * scroll_source d n c k + unat i) = b + 4 * of_nat (scroll_source d n c k) + i"
    by simp
  then show "moved_up d n c b m (b + 4 * of_nat k + i) = m (b + 4 * of_nat (scroll_source d n c k) + i)"
    unfolding moved_up_def j using i assms(1) by (simp add: add.assoc)
qed

text \<open>The pixels of a text whose first character is in column \<open>x\<close> of line \<open>y\<close>.\<close>

fun text_pixels :: "nat \<Rightarrow> nat \<Rightarrow> nat \<Rightarrow> nat \<Rightarrow> u8 list \<Rightarrow> nat set" where
  "text_pixels sc w x y [] = {}"
| "text_pixels sc w x y (c # cs) =
     glyph_pixels (glyph_of c) sc w ((y + descent (glyph_of c) sc) * w + x) \<union> text_pixels sc w (x + 7 * sc) y cs"

lemma kprint_char_printable:
  assumes s: "shape f s" and k: "scale_ok f scale" and cur: "cursor_ok f s" and c: "printable c"
    and x: "unat (cursor_x s) + 7 * unat scale \<le> columns f" and y: "unat (cursor_y s) + 8 * unat scale < lines f"
    and p: "props = kprint_props f color scale d s"
  shows "kprint_char f props ((blit32_WIDTH + 2) * scale) ((blit32_HEIGHT + 2) * scale) d c s =
           Some (Inr (s\<lparr>mem := painted (mem s) (surface f d s) (glyph_pixels (glyph_of c) (unat scale) (stride s)
             ((unat (cursor_y s) + descent (glyph_of c) (unat scale)) * stride s + unat (cursor_x s))) color,
             cursor_x := cursor_x s + (blit32_WIDTH + 2) * scale\<rparr>))"
proof -
  note bounds = shape_bounds [OF s]
  let ?cw = "(blit32_WIDTH + 2) * scale"
  have "unat (cursor_x s + ?cw) = unat (cursor_x s) + 7 * unat scale"
    using x bounds scale_cell(1) [OF s k] by (subst unat_sum_small) simp_all
  then have room: "\<not> ucast (fb_width f) <s cursor_x s + ?cw"
    using x bounds by (subst sless_small) (simp_all add: unat_ucast_small)
  have fits: "drawn_cell (unat scale) (stride s) (lines f) (unat (cursor_x s)) (unat (cursor_y s))"
    using x y bounds by (simp add: drawn_cell_def)
  have cs: "\<not> 127 < c" "c \<noteq> 10" "c \<noteq> 13" "c \<noteq> 8" "c \<noteq> 0x20" "c \<noteq> 9" "\<not> c < 0x20"
    using c by (auto simp: printable_def)
  show ?thesis
    using cs room cursor_glyph [OF s k cur c p] fits by (simp add: kprint_char_def kprint_glyph_def Let_def)
qed

lemma text_pixels_inside:
  assumes "x + 7 * sc * length xs \<le> w" and "y + 8 * sc < h"
  shows "text_pixels sc w x y xs \<subseteq> {..<h * w}"
  using assms(1)
proof (induction xs arbitrary: x)
  case (Cons c cs)
  then have "drawn_cell sc w h x y"
    using assms(2) by (simp add: drawn_cell_def)
  then show ?case
    using glyph_inside [of sc w h x y "glyph_of c"] Cons by simp
qed simp

lemma kprint_loop_text:
  assumes "shape f s" and "scale_ok f scale" and "cursor_ok f s" and "list_all printable xs"
    and "unat (cursor_x s) + 7 * unat scale * length xs \<le> columns f"
    and "unat (cursor_y s) + 8 * unat scale < lines f"
    and "props = kprint_props f color scale d s"
    and "cstr (mem s) (txt + i) xs" and "outside (surface f d s) (4 * (lines f * stride s)) (txt + i) xs"
  shows "kprint_loop f props ((blit32_WIDTH + 2) * scale) ((blit32_HEIGHT + 2) * scale) d txt i s =
           Some (Inr (s\<lparr>mem := painted (mem s) (surface f d s)
             (text_pixels (unat scale) (stride s) (unat (cursor_x s)) (unat (cursor_y s)) xs) color,
             cursor_x := cursor_x s + of_nat (length xs) * ((blit32_WIDTH + 2) * scale)\<rparr>))"
  using assms
proof (induction xs arbitrary: i s)
  case Nil
  then show ?case
    by (subst kprint_loop.simps) simp
next
  case (Cons c cs)
  note bounds = shape_bounds [OF Cons.prems(1)]
  let ?cw = "(blit32_WIDTH + 2) * scale"
  let ?t = "s\<lparr>mem := painted (mem s) (surface f d s) (glyph_pixels (glyph_of c) (unat scale) (stride s)
             ((unat (cursor_y s) + descent (glyph_of c) (unat scale)) * stride s + unat (cursor_x s))) color,
             cursor_x := cursor_x s + ?cw\<rparr>"
  have x: "unat (cursor_x s + ?cw) = unat (cursor_x s) + 7 * unat scale"
    using Cons.prems(5) bounds scale_cell(1) [OF Cons.prems(1,2)] by (subst unat_sum_small) simp_all
  have char: "kprint_char f props ?cw ((blit32_HEIGHT + 2) * scale) d c s = Some (Inr ?t)"
    using Cons.prems by (intro kprint_char_printable) simp_all
  obtain u where "kprint_char f props ?cw ((blit32_HEIGHT + 2) * scale) d c s = Some (Inr u)" and u: "draws f d s u"
    using kprint_char_draws [OF Cons.prems(1-3) _ Cons.prems(7), of c] Cons.prems(4) by (auto simp: printable_def)
  then have t: "draws f d s ?t"
    using char by simp
  have "cstr (mem ?t) (txt + (i + 1)) cs"
    using Cons.prems(8,9) by (intro cstr_draws [OF t]) (simp_all add: outside_Cons add.assoc)
  then have "kprint_loop f props ?cw ((blit32_HEIGHT + 2) * scale) d txt (i + 1) ?t =
      Some (Inr (?t\<lparr>mem := painted (mem ?t) (surface f d ?t)
        (text_pixels (unat scale) (stride ?t) (unat (cursor_x ?t)) (unat (cursor_y ?t)) cs) color,
        cursor_x := cursor_x ?t + of_nat (length cs) * ?cw\<rparr>))"
    using Cons.prems x draws_state [OF t] kprint_props_draws [OF t]
    by (intro Cons.IH) (simp_all add: outside_Cons add.assoc)
  then show ?case
    using char Cons.prems(8) x by (subst kprint_loop.simps) (simp add: painted_Un algebra_simps)
qed

section \<open>Properties\<close>

text \<open>
  C31. A line feed on the last line scrolls. The cursor stays on its line and goes to its first
  column; the lines freed at the bottom have the background colour, and every other pixel is the
  one a line of text below it. The exception: scrolling the backbuffer moves it with one
  \<^verbatim>\<open>memmove\<close> onto itself, and two pixels come from two lines of text below.
\<close>

theorem screen_scroll_moves_lines:
  assumes "shape f s" and "cell_ok f cw up" and "cursor_ok f s" and "props_for f s props"
    and "lines f < unat (cursor_y s) + 2 * unat up"
  shows "\<exists>m. check_newline_and_scroll f props up d s = s\<lparr>mem := m, cursor_x := DEFAULT_CURSOR_X\<rparr> \<and>
           (\<forall>k < lines f * stride s.
              pixel m (surface f d s) k =
                (if lines f * stride s - unat up * stride s \<le> k then current_background_color s
                 else pixel (mem s) (surface f d s)
                        (scroll_source d (lines f * stride s) (unat up * stride s) k))) \<and>
           (\<forall>a. 4 * (lines f * stride s) \<le> unat (a - surface f d s) \<longrightarrow> m a = mem s a)"
proof -
  note bounds = shape_bounds [OF assms(1)]
  let ?y = "cursor_y s + up" and ?n = "lines f * stride s" and ?c = "unat up * stride s"
  let ?s = "s\<lparr>cursor_x := DEFAULT_CURSOR_X, cursor_y := ?y\<rparr>"
  let ?m = "painted (moved_up d ?n ?c (surface f d s) (mem s)) (surface f d s) {?n - ?c..<?n} (current_background_color s)"
  have up: "0 < unat up" "unat up \<le> lines f" "even (unat up)" and y: "unat (cursor_y s) \<le> lines f"
    using assms(2,3) by (simp_all add: cell_ok_def cursor_ok_def)
  have "unat ?y = unat (cursor_y s) + unat up"
    using y up bounds(5) by (intro unat_sum_small) simp
  then have "unat (?y + up) = unat (cursor_y s) + unat up + unat up"
    using y up bounds(5) by (subst unat_sum_small) simp_all
  then have "BufHeight props <s ?y + up"
    using assms(4,5) y up bounds(5) by (subst sless_small) (simp_all add: props_for_def unat_ucast_small)
  moreover have "scroll_up f props up d ?s = ?m"
    using scroll_up_painted [of f ?s props up d] assms(1,4) up by (simp add: props_for_def)
  ultimately have "check_newline_and_scroll f props up d s = s\<lparr>mem := ?m, cursor_x := DEFAULT_CURSOR_X\<rparr>"
    by (simp add: check_newline_and_scroll_def Let_def)
  moreover have n: "?n \<le> 2 ^ 30"
    using mult_le_mono [OF bounds(5,3)] by simp
  then have "pixel ?m (surface f d s) k = (if ?n - ?c \<le> k then current_background_color s
      else pixel (mem s) (surface f d s) (scroll_source d ?n ?c k))" if "k < ?n" for k
    using that by (subst pixel_painted) (simp_all add: pixel_moved_up)
  moreover have "?m a = mem s a" if "4 * ?n \<le> unat (a - surface f d s)" for a
    using that by (subst painted_inside) (auto simp: moved_up_inside)
  ultimately show ?thesis
    by blast
qed

text \<open>
  C32. Flushing copies the visible pixels of the backbuffer to the framebuffer. It changes neither
  the invisible ends of the framebuffer's lines nor anything else.
\<close>

theorem screen_flush_shows:
  assumes "shape f s" and "buffers_apart f s"
  shows "\<exists>m. screen_flush s = s\<lparr>mem := m\<rparr> \<and>
           (\<forall>X Y. X < columns f \<longrightarrow> Y < lines f \<longrightarrow>
              pixel m (fb_address f) (Y * stride s + X) = pixel (mem s) (backbuffer s) (Y * stride s + X)) \<and>
           (\<forall>a. \<not> (\<exists>X Y. X < columns f \<and> Y < lines f \<and> unat (a - fb_address f) div 4 = Y * stride s + X) \<longrightarrow>
              m a = mem s a)"
proof -
  note bounds = shape_bounds [OF assms(1)]
  let ?m = "flushed (columns f) (stride s) (fb_address f) (backbuffer s) (lines f) (mem s)"
  have "pixel ?m (fb_address f) (Y * stride s + X) = pixel (mem s) (backbuffer s) (Y * stride s + X)"
    if X: "X < columns f" and Y: "Y < lines f" for X Y
    unfolding pixel_def
  proof (rule rd32_cong)
    fix i :: u64
    assume "i < 4"
    then have i: "unat i < 4"
      by (simp add: word_less_nat_alt)
    let ?k = "Y * stride s + X"
    have k: "?k < lines f * stride s" "lines f * stride s \<le> 2 ^ 30"
      using surface_index [OF assms(1) Y X] by simp_all
    have e: "fb_address f + 4 * of_nat ?k + i - fb_address f = of_nat (4 * ?k + unat i)"
      by simp
    have "unat (fb_address f + 4 * of_nat ?k + i - fb_address f) = 4 * ?k + unat i"
      unfolding e using k i by (intro unat_of_nat64) simp
    moreover have "(4 * ?k + unat i) div 4 = ?k"
      using i by simp
    moreover have "?k mod stride s < columns f"
      using X bounds(6) by simp
    ultimately show "?m (fb_address f + 4 * of_nat ?k + i) = mem s (backbuffer s + 4 * of_nat ?k + i)"
      unfolding flushed_def using k(1) by (simp add: algebra_simps)
  qed
  moreover have "?m a = mem s a"
    if "\<not> (\<exists>X Y. X < columns f \<and> Y < lines f \<and> unat (a - fb_address f) div 4 = Y * stride s + X)" for a
  proof -
    let ?q = "unat (a - fb_address f) div 4"
    have "\<not> (?q < lines f * stride s \<and> ?q mod stride s < columns f)"
    proof
      assume q: "?q < lines f * stride s \<and> ?q mod stride s < columns f"
      then have "?q div stride s < lines f"
        by (simp add: less_mult_imp_div_less)
      moreover have "?q = (?q div stride s) * stride s + ?q mod stride s"
        by simp
      ultimately show False
        using that q by blast
    qed
    then show ?thesis
      unfolding flushed_def by (rule if_not_P)
  qed
  ultimately show ?thesis
    using screen_flush_eq [OF assms] by blast
qed

text \<open>
  Printing any text without the character 0x7F returns. It changes the pixels of the surface
  and the cursor, and nothing else, and leaves the cursor on the screen, whatever line feeds,
  backspaces and tabs the text contains.
\<close>

lemma kprint_draws:
  assumes "shape f s" and "scale_ok f scale" and "cursor_ok f s" and "cstr (mem s) txt xs" and "0x7F \<notin> set xs"
    and "outside (surface f d s) (4 * (lines f * stride s)) txt xs"
  shows "\<exists>t. kprint txt color scale d s = Some (Inr t) \<and> draws f d s t"
proof (cases "txt = NULL")
  case True
  then show ?thesis
    using shape_bounds(1) [OF assms(1)] draws_refl [OF assms(3)] by (simp add: kprint_def)
next
  case False
  then show ?thesis
    using shape_bounds(1) [OF assms(1)] kprint_loop_draws [OF assms(1-3,5) refl, of "txt" 0] assms(4,6)
    by (simp add: kprint_def)
qed

text \<open>
  C29. A text of printable characters that fits on the rest of the line is drawn character by
  character from the cursor on, each glyph seven cells right of the one before; the memory changes
  in these pixels only, and the cursor ends up behind the text.
\<close>

theorem kprint_draws_text:
  assumes "shape f s" and "scale_ok f scale" and "cursor_ok f s" and "txt \<noteq> NULL"
    and "cstr (mem s) txt xs" and "list_all printable xs"
    and "outside (surface f d s) (4 * (lines f * stride s)) txt xs"
    and "unat (cursor_x s) + 7 * unat scale * length xs \<le> columns f"
    and "unat (cursor_y s) + 8 * unat scale < lines f"
  shows "kprint txt color scale d s =
           Some (Inr (s\<lparr>mem := painted (mem s) (surface f d s)
             (text_pixels (unat scale) (stride s) (unat (cursor_x s)) (unat (cursor_y s)) xs) color,
             cursor_x := cursor_x s + of_nat (length xs) * (7 * scale)\<rparr>))"
  using shape_bounds(1) [OF assms(1)] assms(4) kprint_loop_text [OF assms(1-3,6,8,9) refl, of "txt" 0] assms(5,7)
  by (simp add: kprint_def blit32_WIDTH_def)

text \<open>A screen of 24 by 24 pixels with the text \<^verbatim>\<open>"Hi"\<close> at 0x5000.\<close>

definition sample_fb :: limine_framebuffer where
  "sample_fb = \<lparr>fb_address = 0x100000, fb_width = 24, fb_height = 24, fb_pitch = 96, fb_bpp = 32,
     fb_memory_model = LIMINE_FRAMEBUFFER_RGB, fb_red_mask_size = 8, fb_red_mask_shift = 16,
     fb_green_mask_size = 8, fb_green_mask_shift = 8, fb_blue_mask_size = 8, fb_blue_mask_shift = 0,
     fb_edid = [], fb_modes = []\<rparr>"

definition sample_screen :: "mem \<Rightarrow> u32 \<Rightarrow> screen" where
  "sample_screen m y =
     (tables.extend sample_tables (screen.fields (Some sample_fb) 24 0x200000 10 y True COLOR_BLACK))\<lparr>mem := m\<rparr>"

lemma sample_screen_fields [simp]:
  "fb (sample_screen m y) = Some sample_fb" "screen_pitch_div_4 (sample_screen m y) = 24"
  "backbuffer (sample_screen m y) = 0x200000" "cursor_x (sample_screen m y) = 10" "cursor_y (sample_screen m y) = y"
  "auto_flush_enabled (sample_screen m y) = True" "current_background_color (sample_screen m y) = COLOR_BLACK"
  "mem (sample_screen m y) = m"
  by (simp_all add: sample_screen_def tables.extend_def screen.fields_def)

lemma sample_shape: "shape sample_fb (sample_screen m y)"
  by (simp add: shape_def sample_fb_def)

lemma sample_ok: "unat y \<le> 24 \<Longrightarrow> cursor_ok sample_fb (sample_screen m y)" "scale_ok sample_fb 1"
  by (simp_all add: cursor_ok_def scale_ok_def sample_fb_def)

theorem screen_scroll_moves_lines_witness:
  "let s = sample_screen (\<lambda>_. 7) 16;
       t = check_newline_and_scroll sample_fb (kprint_props sample_fb COLOR_WHITE 1 False s) 8 False s
   in pixel (mem t) 0x200000 575 = COLOR_BLACK \<and> pixel (mem t) 0x200000 0 = 0x07070707 \<and> cursor_y t = 16"
proof -
  let ?s = "sample_screen (\<lambda>_. 7) 16"
  have "cell_ok sample_fb 7 8"
    by (simp add: cell_ok_def sample_fb_def)
  moreover have "lines sample_fb = 24" "surface sample_fb False ?s = 0x200000"
    by (simp_all add: sample_fb_def surface_def)
  moreover have "pixel (\<lambda>_. 7) 0x200000 192 = 0x07070707"
    by (simp add: pixel_def rd32_def)
  ultimately show ?thesis
    using screen_scroll_moves_lines [of sample_fb ?s 7 8 "kprint_props sample_fb COLOR_WHITE 1 False ?s" False]
      sample_shape [of "\<lambda>_. 7" 16] sample_ok(1) [of 16 "\<lambda>_. 7"]
    by (auto simp: scroll_source_def)
qed

theorem screen_flush_shows_witness:
  "pixel (mem (screen_flush (sample_screen ((\<lambda>_. 0)(0x200004 := 9)) 10))) 0x100000 1 = 9"
proof -
  let ?s = "sample_screen ((\<lambda>_. 0)(0x200004 := 9)) 10"
  have "buffers_apart sample_fb ?s"
    by (simp add: buffers_apart_def no_overlap_def sample_fb_def)
  moreover have "pixel ((\<lambda>_. 0)(0x200004 := 9)) 0x200000 1 = 9"
    by (simp add: pixel_def rd32_def)
  moreover have "columns sample_fb = 24" "lines sample_fb = 24" "fb_address sample_fb = 0x100000"
    by (simp_all add: sample_fb_def)
  moreover obtain m where "screen_flush ?s = ?s\<lparr>mem := m\<rparr>"
    and m: "\<And>X Y. X < columns sample_fb \<Longrightarrow> Y < lines sample_fb \<Longrightarrow>
      pixel m (fb_address sample_fb) (Y * stride ?s + X) = pixel (mem ?s) (backbuffer ?s) (Y * stride ?s + X)"
    using screen_flush_shows [OF sample_shape calculation(1)] by blast
  ultimately show ?thesis
    using m [of 1 0] by simp
qed

definition sample_text :: mem where
  "sample_text = (\<lambda>_. 0)(0x5000 := 0x48, 0x5001 := 0x69)"

lemma sample_text_string: "cstr sample_text 0x5000 [0x48, 0x69]"
  by (simp add: sample_text_def)

lemma sample_text_outside: "outside (surface sample_fb d (sample_screen m y)) (4 * (lines sample_fb * 24)) 0x5000 [0x48, 0x69]"
  by (cases d) (simp_all add: outside_Cons outside_def [of _ _ _ "[]"] surface_def sample_fb_def)

theorem kprint_draws_text_witness:
  "\<exists>t. kprint 0x5000 COLOR_WHITE 1 False (sample_screen sample_text 10) = Some (Inr t) \<and> cursor_x t = 24"
  using kprint_draws_text [of sample_fb "sample_screen sample_text 10" 1 "0x5000" "[0x48, 0x69]" False COLOR_WHITE]
    sample_shape [of sample_text 10] sample_ok(1) [of 10 sample_text] sample_ok(2) sample_text_string
    sample_text_outside [of False sample_text 10]
  by (simp add: NULL_def printable_def sample_fb_def)

end
