(* ===== verification/Kprintf.thy ===== *)
theory Kprintf
  imports Screen
begin

text \<open>
  Formatted output in several colours: what the formats of \<^verbatim>\<open>kprintf\<close> stand for, and the proof
  that \<^verbatim>\<open>kprintf\<close> and \<^verbatim>\<open>flush_formatted_segment\<close> of \<^verbatim>\<open>drivers/screen/screen.c\<close> print it.
\<close>

section \<open>What a coloured format stands for\<close>

text \<open>
  A segment is the part of a format between two colour directives. It is cut to 1023 characters,
  must not end inside a directive, and stands for one run: a text, cut to 1023 characters and at
  its first zero byte, in one colour. \<open>coloured\<close> collects the runs of a format; \<open>part\<close> is the
  segment read so far.
\<close>

definition segment_runs :: "u32 \<Rightarrow> u8 list \<Rightarrow> arg list \<Rightarrow> ((u32 \<times> u8 list) list \<times> arg list) option" where
  "segment_runs color part as =
     (if part = [] then Some ([], as)
      else if \<not> complete (take 1023 part) then None
      else case format_text (take 1023 part) as of
             None \<Rightarrow> None
           | Some (out, as) \<Rightarrow> Some ([(color, takeWhile (\<lambda>x. x \<noteq> 0) (take 1023 out))], as))"

fun coloured :: "u32 \<Rightarrow> u8 list \<Rightarrow> u8 list \<Rightarrow> arg list \<Rightarrow> (u32 \<times> u8 list) list option" where
  "coloured color part [] as = map_option fst (segment_runs color part as)"
| "coloured color part [c] as = coloured color (part @ [c]) [] as"
| "coloured color part (c # c' # cs) as =
     (if c = ch CHR ''%'' \<and> c' = ch CHR ''C'' then
        (case segment_runs color part as of
           Some (runs, Slot v # as) \<Rightarrow> map_option ((@) runs) (coloured (ucast v) [] cs as)
         | _ \<Rightarrow> None)
      else coloured color (part @ [c]) (c' # cs) as)"

text \<open>
  \<open>console_run\<close>: every run is laid out in the second half of the 2048 bytes at \<open>frame\<close>, where
  nothing else changes, and printed by \<^verbatim>\<open>kprint\<close> in its colour.
\<close>

inductive console_run ::
  "u64 \<Rightarrow> u32 \<Rightarrow> bool \<Rightarrow> 'a screen_scheme \<Rightarrow> (u32 \<times> u8 list) list \<Rightarrow> 'a screen_scheme \<Rightarrow> bool"
  for frame scale d where
  none: "console_run frame scale d s [] s"
| run: "(\<And>a. 2048 \<le> unat (a - frame) \<Longrightarrow> m a = mem s a) \<Longrightarrow> cstr m (frame + 1024) xs \<Longrightarrow>
    kprint (frame + 1024) color scale d (s\<lparr>mem := m\<rparr>) = Some (Inr t) \<Longrightarrow>
    console_run frame scale d t runs u \<Longrightarrow> console_run frame scale d s ((color, xs) # runs) u"

lemma console_run_append:
  "console_run frame scale d s runs t \<Longrightarrow> console_run frame scale d t runs' u \<Longrightarrow>
   console_run frame scale d s (runs @ runs') u"
  by (induction rule: console_run.induct) (auto intro: console_run.intros)

section \<open>Strings away from the frame and the surface\<close>

definition away :: "u64 \<Rightarrow> limine_framebuffer \<Rightarrow> bool \<Rightarrow> 'a screen_scheme \<Rightarrow> u64 \<Rightarrow> bool" where
  "away frame f d s a \<longleftrightarrow> 2048 \<le> unat (a - frame) \<and> 4 * (lines f * stride s) \<le> unat (a - surface f d s)"

definition all_away :: "u64 \<Rightarrow> limine_framebuffer \<Rightarrow> bool \<Rightarrow> 'a screen_scheme \<Rightarrow> u64 \<Rightarrow> u8 list \<Rightarrow> bool" where
  "all_away frame f d s p xs \<longleftrightarrow> (\<forall>k \<le> length xs. away frame f d s (p + of_nat k))"

definition arg_away :: "u64 \<Rightarrow> limine_framebuffer \<Rightarrow> bool \<Rightarrow> 'a screen_scheme \<Rightarrow> arg \<Rightarrow> u64 \<Rightarrow> bool" where
  "arg_away frame f d s a w \<longleftrightarrow>
     passes (mem s) a w \<and> (case a of Text xs \<Rightarrow> all_away frame f d s w xs | Slot v \<Rightarrow> True)"

definition console_ok :: "u64 \<Rightarrow> limine_framebuffer \<Rightarrow> u32 \<Rightarrow> bool \<Rightarrow> 'a screen_scheme \<Rightarrow> bool" where
  "console_ok frame f scale d s \<longleftrightarrow> shape f s \<and> scale_ok f scale \<and> cursor_ok f s \<and>
     (\<forall>k<2048. 4 * (lines f * stride s) \<le> unat (frame + of_nat k - surface f d s))"

definition stays :: "u64 \<Rightarrow> limine_framebuffer \<Rightarrow> bool \<Rightarrow> 'a screen_scheme \<Rightarrow> 'a screen_scheme \<Rightarrow> bool" where
  "stays frame f d s t \<longleftrightarrow>
     (\<exists>m x y. t = s\<lparr>mem := m, cursor_x := x, cursor_y := y\<rparr> \<and> (\<forall>a. away frame f d s a \<longrightarrow> m a = mem s a)) \<and>
     cursor_ok f t"

lemma staysI:
  assumes "t = s\<lparr>mem := m, cursor_x := x, cursor_y := y\<rparr>" and "\<And>a. away frame f d s a \<Longrightarrow> m a = mem s a"
    and "cursor_ok f t"
  shows "stays frame f d s t"
  unfolding stays_def using assms by blast

lemma stays_refl: "cursor_ok f s \<Longrightarrow> stays frame f d s s"
  by (rule staysI [where m = "mem s" and x = "cursor_x s" and y = "cursor_y s"]) simp_all

lemma stays_fields:
  assumes "stays frame f d s t"
  shows "away frame f d t = away frame f d s" and "all_away frame f d t = all_away frame f d s"
    and "console_ok frame f scale d s \<Longrightarrow> console_ok frame f scale d t" and "surface f d t = surface f d s"
    and "away frame f d s a \<Longrightarrow> mem t a = mem s a"
    and "auto_flush_enabled t = auto_flush_enabled s"
  using assms by (auto simp: stays_def away_def all_away_def console_ok_def fun_eq_iff)

lemma stays_trans:
  assumes "stays frame f d s t" and "stays frame f d t u"
  shows "stays frame f d s u"
proof -
  obtain m x y where t: "t = s\<lparr>mem := m, cursor_x := x, cursor_y := y\<rparr>"
    using assms(1) by (auto simp: stays_def)
  obtain m' x' y' where u: "u = t\<lparr>mem := m', cursor_x := x', cursor_y := y'\<rparr>" and k: "cursor_ok f u"
    using assms(2) by (auto simp: stays_def)
  show ?thesis
  proof (rule staysI [where m = m' and x = x' and y = y', OF _ _ k])
    show "m' a = mem s a" if "away frame f d s a" for a
      using stays_fields(5) [OF assms(1) that] stays_fields(5) [OF assms(2), of a] stays_fields(1) [OF assms(1)] that u
      by simp
  qed (simp add: u t)
qed

lemma cstr_cong:
  "(\<And>k. k \<le> length xs \<Longrightarrow> m' (p + of_nat k) = m (p + of_nat k)) \<Longrightarrow> cstr m' p xs = cstr m p xs"
proof (induction xs arbitrary: p)
  case Nil
  then show ?case
    using Nil [of 0] by simp
next
  case (Cons x xs)
  have "cstr m' (p + 1) xs = cstr m (p + 1) xs"
    by (rule Cons.IH) (use Cons.prems [of "Suc _"] in \<open>simp add: add.assoc\<close>)
  then show ?case
    using Cons.prems [of 0] by simp
qed

lemma cstr_nthI:
  assumes "\<And>i. i < length xs \<Longrightarrow> m (p + of_nat i) = xs ! i" and "m (p + of_nat (length xs)) = 0" and "0 \<notin> set xs"
  shows "cstr m p xs"
  using assms
proof (induction xs arbitrary: p)
  case (Cons x xs)
  have "cstr m (p + 1) xs"
    by (rule Cons.IH) (use Cons.prems(1) [of "Suc _"] Cons.prems(2,3) in \<open>simp_all add: add.assoc\<close>)
  then show ?case
    using Cons.prems(1) [of 0] Cons.prems(3) by auto
qed simp

lemma cstr_stays:
  "stays frame f d s t \<Longrightarrow> all_away frame f d s p xs \<Longrightarrow> cstr (mem s) p xs \<Longrightarrow> cstr (mem t) p xs"
  using cstr_cong [of xs "mem t" p "mem s"] by (simp add: all_away_def stays_fields(5))

lemma args_stay:
  assumes "stays frame f d s t" and "list_all2 (arg_away frame f d s) as slots"
  shows "list_all2 (arg_away frame f d t) as slots"
  using assms(2)
proof (rule list_all2_mono)
  fix a w
  assume "arg_away frame f d s a w"
  then show "arg_away frame f d t a w"
    using cstr_stays [OF assms(1)] stays_fields(2) [OF assms(1)]
    by (cases a) (auto simp: arg_away_def)
qed

section \<open>One segment\<close>

lemma copy_segment:
  assumes "unat len = length xs" and "\<And>k. k < length xs \<Longrightarrow> m (p + of_nat k) = xs ! k"
    and "\<And>k. k < length xs \<Longrightarrow> length xs \<le> unat (p + of_nat k - frame)"
  shows "for_range 0 len (\<lambda>i m. m(frame + i := m (p + i))) m = stores m frame xs"
proof -
  let ?I = "\<lambda>i t. t = stores m frame (take (unat i) xs)"
  have "?I len (for_range 0 len (\<lambda>i m. m(frame + i := m (p + i))) m)"
  proof (rule for_range_inv [where I = ?I])
    fix j t
    assume j: "j < len" and t: "t = stores m frame (take (unat j) xs)"
    have less: "unat j < length xs"
      using j assms(1) by (simp add: word_less_nat_alt)
    have "stores m frame (take (unat j) xs) (p + j) = m (p + j)"
      by (rule stores_outside [where n = "length xs"]) (use assms(3) [of "unat j"] less in simp_all)
    then have "t (p + j) = xs ! unat j"
      using assms(2) [of "unat j"] less by (simp add: t)
    moreover have "(stores m frame (take (unat j) xs))(frame + j := xs ! unat j) =
        stores m frame (take (unat j) xs @ [xs ! unat j])"
      by (rule stores_snoc) (use less in simp)
    moreover have "take (unat (j + 1)) xs = take (unat j) xs @ [xs ! unat j]"
      using less by (simp add: unat_succ_less [OF j] take_Suc_conv_app_nth)
    ultimately show "t(frame + j := t (p + j)) = stores m frame (take (unat (j + 1)) xs)"
      by (simp add: t)
  qed simp_all
  then show ?thesis
    using assms(1) by simp
qed

lemma cstr_until_zero:
  assumes "length xs < 2 ^ 64"
  shows "cstr (stores m p (xs @ [0])) p (takeWhile (\<lambda>x. x \<noteq> 0) xs)"
proof (rule cstr_nthI)
  let ?ys = "takeWhile (\<lambda>x. x \<noteq> 0) xs"
  have len: "length ?ys \<le> length xs"
    by (rule length_takeWhile_le)
  have at: "stores m p (xs @ [0]) (p + of_nat i) = (xs @ [0]) ! i" if "i \<le> length xs" for i
    using that assms stores_read [of "of_nat i" "xs @ [0]" m p] by (simp add: unat_of_nat64)
  show "stores m p (xs @ [0]) (p + of_nat i) = ?ys ! i" if "i < length ?ys" for i
    using that len at [of i] by (simp add: nth_append takeWhile_nth)
  show "stores m p (xs @ [0]) (p + of_nat (length ?ys)) = 0"
  proof (cases "length ?ys = length xs")
    case True
    then show ?thesis
      using at [of "length xs"] by (simp add: nth_append)
  next
    case False
    then have less: "length ?ys < length xs"
      using len by simp
    then have "xs ! length ?ys = 0"
      using nth_length_takeWhile [of "\<lambda>x. x \<noteq> 0" xs] by simp
    then show ?thesis
      using at [of "length ?ys"] less by (simp add: nth_append)
  qed
  show "0 \<notin> set ?ys"
    by (auto dest: set_takeWhileD)
qed

lemma away_frame:
  assumes "away frame f d s a"
  shows "1024 \<le> unat (a - (frame + 1024))" and "1024 \<le> unat (a - frame)"
proof -
  have far: "2048 \<le> unat (a - frame)"
    using assms by (simp add: away_def)
  then have "(1024 :: u64) \<le> a - frame"
    by (simp add: word_le_nat_alt)
  then have "unat (a - frame - 1024) = unat (a - frame) - 1024"
    by (simp add: unat_sub)
  then show "1024 \<le> unat (a - (frame + 1024))" "1024 \<le> unat (a - frame)"
    using far by (simp_all add: diff_diff_add)
qed

lemma kprint_returns:
  assumes "console_ok frame f scale d s" and "cstr (mem s) (frame + 1024) xs" and "length xs < 1024" and "0x7F \<notin> set xs"
  shows "\<exists>t. kprint (frame + 1024) color scale d s = Some (Inr t) \<and> draws f d s t"
proof -
  have "4 * (lines f * stride s) \<le> unat (frame + 1024 + of_nat k - surface f d s)" if "k \<le> length xs" for k
  proof -
    have "1024 + k < 2048"
      using that assms(3) by simp
    then have "4 * (lines f * stride s) \<le> unat (frame + of_nat (1024 + k) - surface f d s)"
      using assms(1) unfolding console_ok_def by blast
    then show ?thesis
      by (simp add: algebra_simps)
  qed
  then have "outside (surface f d s) (4 * (lines f * stride s)) (frame + 1024) xs"
    by (simp add: outside_def)
  then show ?thesis
    using assms kprint_draws by (auto simp: console_ok_def)
qed

lemma args_ok_formatted:
  assumes "list_all2 (arg_away frame f d s) as slots" and "length bs \<le> 1024"
  shows "args_ok (stores (mem s) frame bs) (frame + 1024) 1024 as slots"
  using assms(1)
proof (rule list_all2_mono)
  fix a w
  assume a: "arg_away frame f d s a w"
  show "arg_ok (stores (mem s) frame bs) (frame + 1024) 1024 a w"
  proof (cases a)
    case (Text xs)
    have far: "away frame f d s (w + of_nat k)" if "k \<le> length xs" for k
      using a that by (simp add: Text arg_away_def all_away_def)
    have "cstr (stores (mem s) frame bs) w xs = cstr (mem s) w xs"
      by (rule cstr_cong) (rule stores_outside [OF assms(2)], rule away_frame(2), rule far)
    moreover have "outside (frame + 1024) 1024 w xs"
      unfolding outside_def using away_frame(1) [OF far] by blast
    ultimately show ?thesis
      using a by (simp add: Text arg_away_def arg_ok_def)
  qed (use a in \<open>simp add: arg_away_def arg_ok_def\<close>)
qed

lemma frame_format_outside:
  assumes "length xs < 1024"
  shows "outside (frame + 1024) 1024 frame xs"
  unfolding outside_def
proof (intro allI impI)
  fix k
  assume "k \<le> length xs"
  then have k: "k < 1024"
    using assms by simp
  have "frame + of_nat k - (frame + 1024) = of_nat k - (1024 :: u64)"
    by simp
  moreover have "unat (of_nat k - (1024 :: u64)) = 2 ^ 64 + k - 1024"
    using k by (simp add: unat_sub_if' unat_of_nat64)
  ultimately show "1024 \<le> unat (frame + of_nat k - (frame + 1024))"
    using k by simp
qed

text \<open>The memory \<^verbatim>\<open>kprint\<close> gets: the segment and its text in the frame.\<close>

lemma segment_formatted:
  assumes len: "unat n = length part" and part: "0 \<notin> set part"
    and here: "\<And>k. k < length part \<Longrightarrow> mem s (p + of_nat k) = part ! k \<and> away frame f d s (p + of_nat k)"
    and fmt: "format_text (take 1023 part) as = Some (out, as')" and args: "list_all2 (arg_away frame f d s) as slots"
    and l: "l = (if 1024 \<le> n then 1023 else n)"
    and m1: "m1 = (for_range 0 l (\<lambda>i m. m(frame + i := m (p + i))) (mem s))(frame + l := 0)"
  shows "\<exists>m r slots'. kvsnprintf m1 (frame + 1024) 1024 frame slots = Some (Inr (m, r, slots')) \<and>
     cstr m frame (take 1023 part) \<and> cstr m (frame + 1024) (takeWhile (\<lambda>x. x \<noteq> 0) (take 1023 out)) \<and>
     (\<forall>a. 2048 \<le> unat (a - frame) \<longrightarrow> m a = mem s a)"
proof -
  let ?part = "take 1023 part" and ?out = "take 1023 out"
  have ul: "unat l = length ?part"
    using len by (simp add: l word_le_nat_alt)
  have far: "length ?part \<le> unat (p + of_nat k - frame)" if "k < length ?part" for k
    using away_frame(2) [of frame f d s "p + of_nat k"] here [of k] that by simp
  have "for_range 0 l (\<lambda>i m. m(frame + i := m (p + i))) (mem s) = stores (mem s) frame ?part"
    by (rule copy_segment [OF ul]) (use here far in auto)
  then have m1: "m1 = stores (mem s) frame (?part @ [0])"
    by (simp add: m1 stores_snoc [OF ul])
  have zero: "0 \<notin> set ?part"
    using part by (auto dest: in_set_takeD)
  have c: "cstr m1 frame ?part"
    unfolding m1 by (rule cstr_stores [OF _ zero]) simp
  have a: "args_ok m1 (frame + 1024) 1024 as slots"
    unfolding m1 by (rule args_ok_formatted [OF args]) simp
  have o: "outside (frame + 1024) 1024 frame ?part"
    by (rule frame_format_outside) simp
  have "length (take (unat (1024 - 1 :: u64)) out) \<le> 1024"
    by simp
  then obtain slots' where k: "kvsnprintf m1 (frame + 1024) 1024 frame slots =
      Some (Inr (stores m1 (frame + 1024) (?out @ [0]), of_nat (length ?out), slots'))"
    using kvsnprintf_eq [OF fmt a c o, of 1024] by auto
  let ?m = "stores m1 (frame + 1024) (?out @ [0])"
  have "cstr ?m frame ?part"
    by (rule cstr_outside [OF c frame_format_outside]) simp_all
  moreover have "cstr ?m (frame + 1024) (takeWhile (\<lambda>x. x \<noteq> 0) ?out)"
    by (rule cstr_until_zero) simp
  moreover have "?m a = mem s a" if "2048 \<le> unat (a - frame)" for a
  proof -
    have "(1024 :: u64) \<le> a - frame"
      using that by (simp add: word_le_nat_alt)
    then have "unat (a - frame - 1024) = unat (a - frame) - 1024"
      by (simp add: unat_sub)
    then have far: "1024 \<le> unat (a - (frame + 1024))" "1024 \<le> unat (a - frame)"
      using that by (simp_all add: diff_diff_add)
    have "?m a = m1 a"
      by (rule stores_outside [OF _ far(1)]) simp
    also have "m1 a = mem s a"
      unfolding m1 by (rule stores_outside [OF _ far(2)]) simp
    finally show ?thesis .
  qed
  ultimately show ?thesis
    using k by blast
qed

lemma flush_segment_runs:
  assumes ok: "console_ok frame f scale d s" and runs: "segment_runs color part as = Some (runs, as')"
    and len: "unat n = length part" and part: "0 \<notin> set part"
    and here: "\<And>k. k < length part \<Longrightarrow> mem s (p + of_nat k) = part ! k \<and> away frame f d s (p + of_nat k)"
    and args: "list_all2 (arg_away frame f d s) as slots" and drawable: "\<And>c xs. (c, xs) \<in> set runs \<Longrightarrow> 0x7F \<notin> set xs"
  shows "\<exists>u slots'. flush_formatted_segment frame p n color scale d slots s = Some (Inr (u, slots')) \<and>
     console_run frame scale d s runs u \<and> stays frame f d s u \<and> list_all2 (arg_away frame f d u) as' slots'"
proof (cases "part = []")
  case True
  then have "n = 0"
    using len by (simp add: unat_eq_0)
  then show ?thesis
    using True runs args ok
    by (auto simp: flush_formatted_segment_def segment_runs_def console_ok_def intro: console_run.none stays_refl)
next
  case False
  then obtain out where fmt: "format_text (take 1023 part) as = Some (out, as')" and complete: "complete (take 1023 part)"
    and r: "runs = [(color, takeWhile (\<lambda>x. x \<noteq> 0) (take 1023 out))]"
    using runs by (auto simp: segment_runs_def split: if_splits option.splits)
  let ?xs = "takeWhile (\<lambda>x. x \<noteq> 0) (take 1023 out)"
  define l where "l = (if 1024 \<le> n then 1023 else n)"
  define m1 where "m1 = (for_range 0 l (\<lambda>i m. m(frame + i := m (p + i))) (mem s))(frame + l := 0)"
  obtain m w rest where k: "kvsnprintf m1 (frame + 1024) 1024 frame slots = Some (Inr (m, w, rest))"
    and m: "cstr m frame (take 1023 part)" "cstr m (frame + 1024) ?xs" "\<And>a. 2048 \<le> unat (a - frame) \<Longrightarrow> m a = mem s a"
    using segment_formatted [OF len part here fmt args l_def m1_def] by blast
  have ok': "console_ok frame f scale d (s\<lparr>mem := m\<rparr>)"
    using ok by (simp add: console_ok_def cursor_ok_def)
  have "length ?xs < 1024"
    using length_takeWhile_le [of "\<lambda>x. x \<noteq> 0" "take 1023 out"] by simp
  then obtain t where t: "kprint (frame + 1024) color scale d (s\<lparr>mem := m\<rparr>) = Some (Inr t)"
    and draws: "draws f d (s\<lparr>mem := m\<rparr>) t"
    using kprint_returns [OF ok', of ?xs color] m(2) drawable [of color ?xs] r by auto
  have mt: "mem t a = m a" if "4 * (lines f * stride s) \<le> unat (a - surface f d s)" for a
    using draws_outside [OF draws, of a] that by simp
  obtain m' x' y' where "t = s\<lparr>mem := m', cursor_x := x', cursor_y := y'\<rparr>"
    using draws by (auto simp: draws_def)
  then have stays: "stays frame f d s t"
    using mt m(3) draws_state(1) [OF draws]
    by (intro staysI [where m = m' and x = x' and y = y']) (auto simp: away_def)
  have "cstr (mem t) frame (take 1023 part) = cstr m frame (take 1023 part)"
  proof (rule cstr_cong)
    fix k
    assume "k \<le> length (take 1023 part)"
    then show "mem t (frame + of_nat k) = m (frame + of_nat k)"
      using ok by (intro mt) (simp add: console_ok_def)
  qed
  then obtain slots' where consume: "consume_format_args (mem t) frame slots = Some (Inr slots')"
    and args': "list_all2 (arg_away frame f d t) as' slots'"
    using consume_loop_eq [OF fmt args_stay [OF stays args], of "mem t" frame 0] complete m(1)
    by (auto simp: consume_format_args_def)
  have "n \<noteq> 0"
    using False len by (auto simp: unat_eq_0)
  then have "flush_formatted_segment frame p n color scale d slots s = Some (Inr (t, slots'))"
    using k t consume by (simp add: flush_formatted_segment_def Let_def l_def [symmetric] m1_def [symmetric])
  moreover have "console_run frame scale d s runs t"
    unfolding r by (rule console_run.run [OF m(3,2) t console_run.none])
  ultimately show ?thesis
    using stays args' by blast
qed

section \<open>The whole format\<close>

lemma string_part:
  assumes "cstr m p (xs @ ys)"
  shows "k < length xs \<Longrightarrow> m (p + of_nat k) = xs ! k" and "0 \<notin> set xs"
    and "unat (of_nat (length xs) :: u64) = length xs" and "cstr m (p + of_nat (length xs)) ys"
proof -
  show "k < length xs \<Longrightarrow> m (p + of_nat k) = xs ! k" "0 \<notin> set xs"
    using cstr_nth(1) [OF assms, of k] cstr_nth(3) [OF assms] by (simp_all add: nth_append)
  show "unat (of_nat (length xs) :: u64) = length xs"
    using cstr_length [OF assms] by (simp add: unat_of_nat64)
  show "cstr m (p + of_nat (length xs)) ys"
    using assms by (induction xs arbitrary: p) (simp_all add: add.assoc [symmetric])
qed

lemma string_at:
  assumes "cstr m p (part @ cs)" and "p + of_nat (length part) = fmt + i"
  shows "cstr m (fmt + i) cs"
  using string_part(4) [OF assms(1)] assms(2) by simp

lemma flush_part:
  assumes "console_ok frame f scale d s" and "segment_runs color part as = Some (runs, as')"
    and "cstr (mem s) p (part @ cs)" and "all_away frame f d s p (part @ cs)" and "p + of_nat (length part) = fmt + i"
    and "list_all2 (arg_away frame f d s) as slots" and "\<And>c xs. (c, xs) \<in> set runs \<Longrightarrow> 0x7F \<notin> set xs"
  shows "\<exists>u slots'. flush_formatted_segment frame p (fmt + i - p) color scale d slots s = Some (Inr (u, slots')) \<and>
     console_run frame scale d s runs u \<and> stays frame f d s u \<and> list_all2 (arg_away frame f d u) as' slots'"
proof (rule flush_segment_runs [OF assms(1,2) _ string_part(2) [OF assms(3)] _ assms(6,7)])
  show "unat (fmt + i - p) = length part"
    using string_part(3) [OF assms(3)] by (simp add: assms(5) [symmetric])
  show "mem s (p + of_nat k) = part ! k \<and> away frame f d s (p + of_nat k)" if "k < length part" for k
    using string_part(1) [OF assms(3) that] assms(4) that by (simp add: all_away_def)
qed

lemma all_away_rest:
  assumes "all_away frame f d s p (part @ c # c' # cs)" and "p + of_nat (length part) = fmt + i"
  shows "all_away frame f d s (fmt + (i + 1) + 1) cs"
  unfolding all_away_def
proof (intro allI impI)
  fix k
  assume "k \<le> length cs"
  then have "length part + (2 + k) \<le> length (part @ c # c' # cs)"
    by simp
  then have "away frame f d s (p + of_nat (length part + (2 + k)))"
    using assms(1) unfolding all_away_def by blast
  moreover have "p + of_nat (length part + (2 + k)) = p + of_nat (length part) + (2 + of_nat k)"
    by simp
  then have "p + of_nat (length part + (2 + k)) = fmt + (i + 1) + 1 + of_nat k"
    by (simp only: assms(2)) simp
  ultimately show "away frame f d s (fmt + (i + 1) + 1 + of_nat k)"
    by (simp only:)
qed

lemma kprintf_loop_runs:
  assumes "coloured color part cs as = Some runs" and "console_ok frame f scale d s"
    and "cstr (mem s) p (part @ cs)" and "all_away frame f d s p (part @ cs)" and "p + of_nat (length part) = fmt + i"
    and "list_all2 (arg_away frame f d s) as slots" and "\<And>c xs. (c, xs) \<in> set runs \<Longrightarrow> 0x7F \<notin> set xs"
  shows "\<exists>u. kprintf_loop frame fmt scale d i p color slots s = Some (Inr u) \<and>
     console_run frame scale d s runs u \<and> stays frame f d s u"
  using assms
proof (induction color part cs as arbitrary: runs s p i slots rule: coloured.induct)
  case (1 color part as)
  obtain as' where r: "segment_runs color part as = Some (runs, as')"
    using "1.prems"(1) by auto
  have "mem s (fmt + i) = 0"
    using string_at [OF "1.prems"(3,5)] by simp
  moreover obtain u slots' where "flush_formatted_segment frame p (fmt + i - p) color scale d slots s = Some (Inr (u, slots'))"
    and "console_run frame scale d s runs u" "stays frame f d s u"
    using flush_part [OF "1.prems"(2) r "1.prems"(3-6)] "1.prems"(7) by blast
  ultimately show ?case
    by (subst kprintf_loop.simps) simp
next
  case (2 color part c as)
  have at: "mem s (fmt + i) = c" "c \<noteq> 0" "mem s (fmt + (i + 1)) = 0"
    using string_at [OF "2.prems"(3,5)] by (simp_all add: add.assoc)
  have "\<exists>u. kprintf_loop frame fmt scale d (i + 1) p color slots s = Some (Inr u) \<and>
     console_run frame scale d s runs u \<and> stays frame f d s u"
    by (rule "2.IH") (use "2.prems" in \<open>simp_all add: add.assoc [symmetric]\<close>)
  then show ?case
    using at by (subst kprintf_loop.simps) (simp add: ch_def)
next
  case (3 color part c c' cs as)
  have at: "mem s (fmt + i) = c" "c \<noteq> 0" "mem s (fmt + (i + 1)) = c'" "cstr (mem s) (fmt + (i + 1) + 1) cs"
    using string_at [OF "3.prems"(3,5)] by (simp_all add: add.assoc)
  show ?case
  proof (cases "c = ch CHR ''%'' \<and> c' = ch CHR ''C''")
    case False
    have "\<exists>u. kprintf_loop frame fmt scale d (i + 1) p color slots s = Some (Inr u) \<and>
       console_run frame scale d s runs u \<and> stays frame f d s u"
      by (rule "3.IH"(2) [OF False]) (use False "3.prems" in \<open>simp_all add: add.assoc [symmetric] split: if_splits\<close>)
    then show ?thesis
      using at False by (subst kprintf_loop.simps) auto
  next
    case True
    obtain runs1 v as' runs2 where r1: "segment_runs color part as = Some (runs1, Slot v # as')"
      and r2: "coloured (ucast v) [] cs as' = Some runs2" and runs: "runs = runs1 @ runs2"
      using "3.prems"(1) True by (auto split: option.splits list.splits arg.splits)
    obtain u slots1 where u: "flush_formatted_segment frame p (fmt + i - p) color scale d slots s = Some (Inr (u, slots1))"
      "console_run frame scale d s runs1 u" "stays frame f d s u"
      and a1: "list_all2 (arg_away frame f d u) (Slot v # as') slots1"
      using flush_part [OF "3.prems"(2) r1 "3.prems"(3-6)] "3.prems"(7) runs by auto
    obtain slots2 where a2: "slots1 = v # slots2" "list_all2 (arg_away frame f d u) as' slots2"
      using a1 by (auto simp: list_all2_Cons1 arg_away_def)
    let ?p = "fmt + (i + 1) + 1"
    have away: "all_away frame f d s ?p cs"
      by (rule all_away_rest [OF "3.prems"(4,5)])
    have "\<exists>w. kprintf_loop frame fmt scale d (i + 1 + 1) ?p (ucast v) slots2 u = Some (Inr w) \<and>
       console_run frame scale d u runs2 w \<and> stays frame f d u w"
    proof (rule "3.IH"(1) [OF True r1 refl refl refl r2])
      show "console_ok frame f scale d u"
        by (rule stays_fields(3) [OF u(3) "3.prems"(2)])
      show "cstr (mem u) ?p ([] @ cs)"
        using cstr_stays [OF u(3) away at(4)] by simp
      show "all_away frame f d u ?p ([] @ cs)"
        using away stays_fields(2) [OF u(3)] by simp
      show "0x7F \<notin> set xs" if "(c, xs) \<in> set runs2" for c xs
        using "3.prems"(7) [of c xs] that runs by simp
    qed (use a2(2) in \<open>simp_all add: add.assoc\<close>)
    then obtain w where w: "kprintf_loop frame fmt scale d (i + 1 + 1) ?p (ucast v) slots2 u = Some (Inr w)"
      "console_run frame scale d u runs2 w" "stays frame f d u w"
      by blast
    have "kprintf_loop frame fmt scale d i p color slots s = Some (Inr w)"
      using at True u(1) w(1) a2(1) by (subst kprintf_loop.simps) (simp add: va_arg_def)
    then show ?thesis
      using console_run_append [OF u(2) w(2)] stays_trans [OF u(3) w(3)] runs by blast
  qed
qed

section \<open>Properties\<close>

text \<open>
  C28. \<^verbatim>\<open>kprintf\<close> returns and prints exactly the coloured texts that the format and the arguments
  stand for, in order, each with \<^verbatim>\<open>kprint\<close>; then it flushes if it drew on the backbuffer and
  flushing is on. Until then it changes the surface, its own two arrays and the cursor only, and the
  cursor stays on the screen, whatever line feeds, backspaces and tabs the texts contain. The texts
  must not contain the character 0x7F, and the format and the strings it prints must be elsewhere.
\<close>

theorem kprintf_correct:
  assumes "console_ok frame f scale d s" and "cstr (mem s) fmt cs" and "all_away frame f d s fmt cs"
    and "list_all2 (arg_away frame f d s) as slots" and "coloured color [] cs as = Some runs"
    and "\<forall>(c, xs) \<in> set runs. 0x7F \<notin> set xs"
  shows "\<exists>u. kprintf frame color scale d fmt slots s =
             Some (Inr (if \<not> d \<and> auto_flush_enabled s then screen_flush u else u)) \<and>
           console_run frame scale d s runs u \<and> stays frame f d s u"
proof -
  obtain u where "kprintf_loop frame fmt scale d 0 fmt color slots s = Some (Inr u)"
    and "console_run frame scale d s runs u" and "stays frame f d s u"
    using kprintf_loop_runs [OF assms(5,1), of fmt fmt 0 slots] assms(2,3,4,6) by fastforce
  then show ?thesis
    using stays_fields(6) [of frame f d s u] by (auto simp: kprintf_def)
qed

text \<open>The format \<^verbatim>\<open>"%CH%d"\<close> at 0x5000, with a colour and the number 7, on a screen of 24 by 24 pixels.\<close>

definition sample_coloured :: mem where
  "sample_coloured = stores (\<lambda>_. 0) 0x5000 (map ch ''%CH%d'')"

lemma sample_coloured_runs:
  "coloured COLOR_WHITE [] (map ch ''%CH%d'') [Slot 0xFFFF0000, Slot 7] = Some [(0xFFFF0000, map ch ''H7'')]"
  by code_simp

theorem kprintf_correct_witness:
  "\<exists>u. kprintf 0x8000 COLOR_WHITE 1 True 0x5000 [0xFFFF0000, 7] (sample_screen sample_coloured 10) = Some (Inr u) \<and>
     console_run 0x8000 1 True (sample_screen sample_coloured 10) [(0xFFFF0000, map ch ''H7'')] u"
proof -
  let ?s = "sample_screen sample_coloured 10" and ?cs = "map ch ''%CH%d''"
  have surface: "surface sample_fb True ?s = 0x100000" "lines sample_fb = 24"
    by (simp_all add: surface_def sample_fb_def)
  have below: "2 ^ 64 - unat w \<le> unat (of_nat k - w)" if "k < 2048" "2048 \<le> unat w" for k and w :: u64
    using that unat64_bound [of w] by (simp add: unat_sub_if' unat_of_nat64)
  have "4 * (lines sample_fb * stride ?s) \<le> unat (0x8000 + of_nat k - surface sample_fb True ?s)" if "k < 2048" for k
    using below [OF that, of "0xF8000"] by (simp add: surface)
  then have "console_ok 0x8000 sample_fb 1 True ?s"
    using sample_shape sample_ok by (simp add: console_ok_def)
  moreover have "cstr (mem ?s) 0x5000 ?cs"
    by (simp add: sample_coloured_def stores_def ch_def)
  moreover have "all_away 0x8000 sample_fb True ?s 0x5000 ?cs"
    unfolding all_away_def
  proof (intro allI impI)
    fix k
    assume "k \<le> length ?cs"
    then show "away 0x8000 sample_fb True ?s (0x5000 + of_nat k)"
      using below [of k "0x3000"] below [of k "0xFB000"] by (simp add: away_def surface)
  qed
  moreover have "list_all2 (arg_away 0x8000 sample_fb True ?s) [Slot 0xFFFF0000, Slot 7] [0xFFFF0000, 7]"
    by (simp add: arg_away_def)
  ultimately show ?thesis
    using kprintf_correct [OF _ _ _ _ sample_coloured_runs, of "0x8000" sample_fb 1 True ?s "0x5000" "[0xFFFF0000, 7]"]
    by (auto simp: ch_def)
qed

end
