(* ===== verification/Units.thy ===== *)
theory Units
  imports Prelude
begin

text \<open>
  The conversions of \<^verbatim>\<open>klib/math.h\<close> on \<^verbatim>\<open>size_t\<close>: which arguments they are exact for, and what the
  wrap-around of 64 bits makes of the others. A division by zero raises exception 0, whose handler
  panics.
\<close>

section \<open>Definitions\<close>

definition bit_to_byte :: "u64 \<Rightarrow> u64" where
  "bit_to_byte bits = bits div 8"

definition byte_to_bit :: "u64 \<Rightarrow> u64" where
  "byte_to_bit bytes = bytes * 8"

definition byte_to_kibibyte :: "u64 \<Rightarrow> u64" where
  "byte_to_kibibyte bytes = bytes div 1024"

definition kibibyte_to_byte :: "u64 \<Rightarrow> u64" where
  "kibibyte_to_byte kibibytes = kibibytes * 1024"

definition byte_to_mebibyte :: "u64 \<Rightarrow> u64" where
  "byte_to_mebibyte bytes = bytes div 1024 div 1024"

definition mebibyte_to_byte :: "u64 \<Rightarrow> u64" where
  "mebibyte_to_byte mebibytes = mebibytes * 1024 * 1024"

definition div_round_up :: "u64 \<Rightarrow> u64 \<Rightarrow> u64 outcome" where
  "div_round_up num den =
     (if den = 0 then Inl (Panic ''Division By Zero'') else Inr ((num + den - 1) div den))"

definition bit_to_byte_ceil :: "u64 \<Rightarrow> u64 outcome" where
  "bit_to_byte_ceil bits = div_round_up bits 8"

definition mebibyte_to_gibibyte :: "u64 \<Rightarrow> u64" where
  "mebibyte_to_gibibyte mebibytes = mebibytes div 1024"

definition gibibyte_to_mebibyte :: "u64 \<Rightarrow> u64" where
  "gibibyte_to_mebibyte gibibytes = gibibytes * 1024"

section \<open>Facts\<close>

lemma unat_mult_small:
  fixes x k :: u64
  assumes "unat x * unat k < 2 ^ 64"
  shows "unat (x * k) = unat x * unat k"
  using assms by (simp add: unat_word_ariths)

text \<open>Converting to the smaller unit and back is the identity as long as the product fits.\<close>

lemma byte_bit_roundtrip: "unat n < 2 ^ 61 \<Longrightarrow> bit_to_byte (byte_to_bit n) = n"
  by (simp add: word_unat_eq_iff bit_to_byte_def byte_to_bit_def unat_mult_small unat_div)

lemma kibibyte_roundtrip: "unat n < 2 ^ 54 \<Longrightarrow> byte_to_kibibyte (kibibyte_to_byte n) = n"
  by (simp add: word_unat_eq_iff byte_to_kibibyte_def kibibyte_to_byte_def unat_mult_small unat_div)

lemma gibibyte_roundtrip: "unat n < 2 ^ 54 \<Longrightarrow> mebibyte_to_gibibyte (gibibyte_to_mebibyte n) = n"
  by (simp add: word_unat_eq_iff mebibyte_to_gibibyte_def gibibyte_to_mebibyte_def unat_mult_small unat_div)

lemma mebibyte_roundtrip: "unat n < 2 ^ 44 \<Longrightarrow> byte_to_mebibyte (mebibyte_to_byte n) = n"
  by (simp add: word_unat_eq_iff byte_to_mebibyte_def mebibyte_to_byte_def unat_mult_small unat_div)

text \<open>\<^verbatim>\<open>div_round_up\<close> rounds up as long as the sum fits.\<close>

lemma div_round_up_ceiling:
  assumes "den \<noteq> 0" and "unat num + unat den \<le> 2 ^ 64"
  shows "\<exists>q. div_round_up num den = Inr q \<and> unat num \<le> unat q * unat den \<and> unat q * unat den < unat num + unat den"
proof -
  have d: "0 < unat den"
    using assms(1) by (simp add: word_neq_0_conv word_less_nat_alt)
  have p: "unat (den - 1) = unat den - 1"
    by (rule unat_minus_one [OF assms(1)])
  have "unat (num + (den - 1)) = unat num + unat (den - 1)"
    using assms(2) d p by (simp add: unat_word_ariths)
  then have n: "unat (num + den - 1) = unat num + unat den - 1"
    using d p by (simp add: add_diff_eq)
  let ?n = "unat num + unat den - 1"
  have "?n div unat den * unat den + ?n mod unat den = ?n" "?n mod unat den < unat den"
    using d by (simp_all only: div_mult_mod_eq mod_less_divisor)
  then have "unat num \<le> ?n div unat den * unat den" "?n div unat den * unat den < unat num + unat den"
    using d by linarith+
  then show ?thesis
    by (simp add: div_round_up_def assms(1) unat_div n)
qed

text \<open>Beyond that it wraps: the bytes of 2^64 - 1 bits come out as none.\<close>

lemma bit_to_byte_ceil_wraps: "bit_to_byte_ceil (- 1) = Inr 0"
  by (simp add: bit_to_byte_ceil_def div_round_up_def)

end
