(* ===== verification/Kernel_Panic.thy ===== *)
theory Kernel_Panic
  imports Kprintf
begin

text \<open>
  Panics (\<^verbatim>\<open>kernel/panic.c\<close>): the report on the serial port and on the screen, and the halt. The
  other parts of the development stop at the call of \<^verbatim>\<open>kernel_panic\<close>; this is what it does.
\<close>

section \<open>Definitions\<close>

text \<open>
  What the compiler and the linker choose: the address of a string literal, of the arrays in the
  frames of \<^verbatim>\<open>flush_formatted_segment\<close> and \<^verbatim>\<open>kernel_panic_detailed\<close>, of the static objects and the
  sections. \<open>base_revision\<close> is \<^verbatim>\<open>limine_base_revision\<close> as the bootloader has left it.
\<close>

record image =
  literal :: "string \<Rightarrow> u64"
  print_frame :: u64
  panic_buffer :: u64
  sections :: linker_symbols
  table_objects :: table_symbols
  heap_start :: u64
  base_revision :: "u64 list"

definition COLOR_RED :: u32 where "COLOR_RED = 0xFFFF0000"

definition nl :: string where "nl = [CHR 0x0A]"

text \<open>\<^verbatim>\<open>draw_sad_face\<close>; the divisors are constants.\<close>

definition int_quotient :: "u32 \<Rightarrow> u32 \<Rightarrow> u32" where
  "int_quotient a b = word_of_int (sint a sdiv sint b)"

definition draw_sad_face :: "u32 \<Rightarrow> 'a screen_scheme \<Rightarrow> 'a screen_scheme" where
  "draw_sad_face color s =
     (case screen_get_fb s of
        None \<Rightarrow> s
      | Some f \<Rightarrow>
          let scale = 2;
              face_x = int_quotient (ucast (fb_width f)) 2;
              face_y = screen_get_cursor_y s +
                int_quotient (ucast (fb_height f) - screen_get_cursor_y s) 2 - 50 * scale;
              put = (\<lambda>x y. screen_put_pixel (scast (face_x + x)) (scast (face_y + y)) color True);
              s = for_int (- 20 * scale) 0 (\<lambda>y s.
                    for_int (20 * scale) (40 * scale) (\<lambda>x. put x y)
                      (for_int (- 40 * scale) (- 20 * scale) (\<lambda>x. put x y) s)) s
          in for_int (- 30 * scale) (30 * scale + 1) (\<lambda>x.
               let y = int_quotient (x * x) (30 * scale)
               in for_int 0 scale (\<lambda>thick. put x (y + 50 * scale + thick))) s)"

text \<open>The result is the state in which \<^verbatim>\<open>hcf\<close> stops the processor for good.\<close>

definition kernel_panic :: "image \<Rightarrow> u64 \<Rightarrow> 'a screen_scheme \<Rightarrow> 'a screen_scheme outcome option" where
  "kernel_panic im message s =
     (let say = (\<lambda>p s. map_option Inr (serial_puts (mem s) p s)) in
      and_then (say (literal im (nl @ nl @ ''!!! KERNEL PANIC !!!'' @ nl)) (disable_interrupts s)) (\<lambda>s.
      and_then (say (literal im nl) s) (\<lambda>s.
      and_then (say message s) (\<lambda>s.
      and_then (say (literal im (nl @ nl @ ''System halted.'')) s) (\<lambda>s.
      let s = screen_clear COLOR_BLACK True s in
      and_then (kprintf (print_frame im) COLOR_WHITE 2 True
          (literal im (nl @ nl @ ''%C!!! KERNEL PANIC !!!'' @ nl @ nl @ ''%C%s'' @ nl @ nl @ ''%CSystem halted.''))
          [ucast COLOR_RED, ucast COLOR_WHITE, message, ucast COLOR_RED] s) (\<lambda>s.
      Some (Inr (halt (draw_sad_face COLOR_RED s)))))))))"

definition panic_format :: string where
  "panic_format =
     ''unknownOS has encountered a fatal error and must be shut down.'' @ nl @
     ''Detail: %s (Vector: %d, Error Code: 0x%x)'' @ nl @ nl @
     ''--- STATE DUMP (REGISTERS) ---'' @ nl @
     ''RIP: 0x%x    CS:  0x%x    RFLAGS: 0x%x'' @ nl @
     ''RSP: 0x%x    SS:  0x%x'' @ nl @ nl @
     ''RAX: 0x%x    RBX: 0x%x    RCX:    0x%x    RDX: 0x%x'' @ nl @
     ''RSI: 0x%x    RDI: 0x%x    RBP:    0x%x'' @ nl @
     ''R8:  0x%x    R9:  0x%x    R10:    0x%x    R11: 0x%x'' @ nl @
     ''R12: 0x%x    R13: 0x%x    R14:    0x%x    R15: 0x%x'' @ nl @ nl @
     ''--------------------------------------------------------------------------------'' @ nl @
     ''The system has been halted. Please reboot your hardware manually.'' @ nl"

definition panic_args :: "u64 \<Rightarrow> registers \<Rightarrow> va_list" where
  "panic_args message r =
     [message, int_no r, error_code r, r_rip r, r_cs r, r_rflags r, r_rsp r, r_ss r,
      r_rax r, r_rbx r, r_rcx r, r_rdx r, r_rsi r, r_rdi r, r_rbp r,
      r_r8 r, r_r9 r, r_r10 r, r_r11 r, r_r12 r, r_r13 r, r_r14 r, r_r15 r]"

definition kernel_panic_detailed ::
  "image \<Rightarrow> registers \<Rightarrow> u64 \<Rightarrow> 'a screen_scheme \<Rightarrow> 'a screen_scheme outcome option" where
  "kernel_panic_detailed im r message s =
     (let s = disable_interrupts s in
      and_then (create_string_buf (mem s) (panic_buffer im) 2048 (literal im panic_format) (panic_args message r))
        (\<lambda>(m, len). kernel_panic im (panic_buffer im) (s\<lparr>mem := m\<rparr>)))"

section \<open>What a panic reports\<close>

definition panic_report :: "u8 list \<Rightarrow> u8 list" where
  "panic_report xs = map ch (nl @ nl @ ''!!! KERNEL PANIC !!!'' @ nl) @ map ch nl @ xs @ map ch (nl @ nl @ ''System halted.'')"

definition panic_runs :: "u8 list \<Rightarrow> (u32 \<times> u8 list) list" where
  "panic_runs xs =
     [(COLOR_WHITE, map ch (nl @ nl)), (COLOR_RED, map ch (''!!! KERNEL PANIC !!!'' @ nl @ nl)),
      (COLOR_WHITE, take 1023 (xs @ map ch (nl @ nl))), (COLOR_RED, map ch ''System halted.'')]"

definition panic_screen_format :: string where
  "panic_screen_format =
     nl @ nl @ ''%C!!! KERNEL PANIC !!!'' @ nl @ nl @ ''%C%s'' @ nl @ nl @ ''%CSystem halted.''"

definition panic_literals :: "string list" where
  "panic_literals = [nl @ nl @ ''!!! KERNEL PANIC !!!'' @ nl, nl, nl @ nl @ ''System halted.'', panic_screen_format]"

text \<open>
  What the report needs: a screen, the format and the other literals in memory, and the frame of
  \<^verbatim>\<open>flush_formatted_segment\<close>, none of them in the framebuffer.
\<close>

definition panic_ready :: "image \<Rightarrow> limine_framebuffer \<Rightarrow> 'a screen_scheme \<Rightarrow> bool" where
  "panic_ready im f s \<longleftrightarrow>
     shape f s \<and> scale_ok f 2 \<and> fb_pitch f = 4 * screen_pitch_div_4 s \<and>
     (\<forall>k<2048. 4 * (lines f * stride s) \<le> unat (print_frame im + of_nat k - fb_address f)) \<and>
     (\<forall>x \<in> set panic_literals. cstr (mem s) (literal im x) (map ch x) \<and>
        all_away (print_frame im) f True s (literal im x) (map ch x))"

lemma sent_append:
  "sent inp n xs log n' \<Longrightarrow> sent inp n' ys log' n'' \<Longrightarrow> sent inp n (xs @ ys) (log @ log') n''"
  by (induction rule: sent.induct) (auto intro: sent_Cons)

lemma say:
  fixes s :: "'a screen_scheme"
  assumes "cstr (mem s) p xs" and "\<forall>n. \<exists>k. bit (inputs s (n + k)) 5"
  shows "\<exists>log n'. map_option Inr (serial_puts (mem s) p s) =
           (Some (Inr (s\<lparr>reads := n', trace := trace s @ log\<rparr>)) :: 'a screen_scheme outcome option) \<and>
         sent (inputs s) (reads s) xs log n'"
  using serial_puts_text [OF assms] by fastforce

lemma panic_runs_coloured:
  assumes "0 \<notin> set xs"
  shows "coloured COLOR_WHITE [] (map ch panic_screen_format)
     [Slot (ucast COLOR_RED), Slot (ucast COLOR_WHITE), Text xs, Slot (ucast COLOR_RED)] = Some (panic_runs xs)"
proof -
  have "takeWhile (\<lambda>x. x \<noteq> 0) (take 1023 (xs @ [0xA, 0xA])) = take 1023 (xs @ [0xA, 0xA])"
    using assms by (auto simp: takeWhile_eq_all_conv dest!: in_set_takeD)
  then show ?thesis
    by (simp add: panic_screen_format_def panic_runs_def nl_def ch_def segment_runs_def COLOR_RED_def COLOR_WHITE_def
        takes_arg_def is_flag_def)
qed

lemma for_int_closed:
  assumes "\<And>j t. P t \<Longrightarrow> P (f j t)" and "P t"
  shows "P (for_int i n f t)"
  using assms
proof (induction i n f t rule: for_int.induct)
  case (1 i n f t)
  then show ?case
    by (subst for_int.simps) simp
qed

text \<open>Drawing into the framebuffer: the memory outside it, and everything else, stays.\<close>

definition only_draws :: "limine_framebuffer \<Rightarrow> 'a screen_scheme \<Rightarrow> 'a screen_scheme \<Rightarrow> bool" where
  "only_draws f s t \<longleftrightarrow>
     (\<exists>m. t = s\<lparr>mem := m\<rparr> \<and> (\<forall>a. 4 * (lines f * stride s) \<le> unat (a - fb_address f) \<longrightarrow> m a = mem s a))"

lemma put_pixel_only_draws:
  assumes "shape f s" and "only_draws f s t"
  shows "only_draws f s (screen_put_pixel x y c True t)"
proof -
  obtain m where t: "t = s\<lparr>mem := m\<rparr>" and m: "\<And>a. 4 * (lines f * stride s) \<le> unat (a - fb_address f) \<Longrightarrow> m a = mem s a"
    using assms(2) by (auto simp: only_draws_def)
  let ?R = "rect (columns f) (lines f) (stride s) (unat x) (unat y) 1 1"
  have "screen_put_pixel x y c True t = s\<lparr>mem := painted m (fb_address f) ?R c\<rparr>"
    using screen_put_pixel_painted [of f t x y c True] assms(1) by (simp add: t surface_def)
  moreover have "painted m (fb_address f) ?R c a = mem s a" if "4 * (lines f * stride s) \<le> unat (a - fb_address f)" for a
    using painted_inside [OF rect_inside [OF shape_bounds(6) [OF assms(1)]] that] m [OF that] by simp
  ultimately show ?thesis
    unfolding only_draws_def by blast
qed

lemma sad_face_only_draws:
  assumes "shape f s"
  shows "only_draws f s (draw_sad_face c s)"
proof -
  have "only_draws f s s"
    unfolding only_draws_def by (rule exI [of _ "mem s"]) simp
  then show ?thesis
    using shape_bounds(1) [OF assms]
    by (simp add: draw_sad_face_def screen_get_fb_def Let_def)
      (intro for_int_closed [where P = "only_draws f s"] put_pixel_only_draws [OF assms])
qed

lemma screen_clear_vram:
  assumes "shape f s" and "fb_pitch f = 4 * screen_pitch_div_4 s" and "color \<noteq> 0"
  shows "\<exists>m. screen_clear color True s = s\<lparr>mem := m, current_background_color := color,
           cursor_x := DEFAULT_CURSOR_X, cursor_y := DEFAULT_CURSOR_Y\<rparr> \<and>
         (\<forall>a. 4 * (lines f * stride s) \<le> unat (a - fb_address f) \<longrightarrow> m a = mem s a)"
proof -
  note bounds = shape_bounds [OF assms(1)]
  have "lines f * stride s \<le> 32768 * 32768"
    using bounds(3,5) by (intro mult_le_mono)
  moreover have "unat (fb_pitch f) = 4 * stride s"
    using bounds(3) by (simp add: assms(2) unat_word_ariths)
  ultimately have "unat (fb_pitch f * fb_height f) = 4 * (lines f * stride s)"
    by (simp add: unat_word_ariths mult.commute mult.left_commute)
  then have inside: "{..<2 * (unat (fb_pitch f * fb_height f) div 8)} \<subseteq> {..<lines f * stride s}"
    by auto
  have "screen_clear color True s = s\<lparr>mem := painted (mem s) (fb_address f)
      {..<2 * (unat (fb_pitch f * fb_height f) div 8)} color, current_background_color := color,
      cursor_x := DEFAULT_CURSOR_X, cursor_y := DEFAULT_CURSOR_Y\<rparr>"
    using bounds(1) by (simp add: screen_clear_def Let_def reset_cursor_def fill_nonzero [OF assms(3)])
  then show ?thesis
    using painted_inside [OF inside] by blast
qed

text \<open>The four messages on the serial port.\<close>

lemma panic_says:
  fixes s :: "'a screen_scheme"
  assumes "panic_ready im f s" and "cstr (mem s) message xs" and "\<forall>n. \<exists>k. bit (inputs s (n + k)) 5"
  defines "say \<equiv> \<lambda>p t. map_option Inr (serial_puts (mem t) p t) :: 'a screen_scheme outcome option"
  shows "\<exists>log n. and_then (say (literal im (nl @ nl @ ''!!! KERNEL PANIC !!!'' @ nl)) s) (\<lambda>s.
      and_then (say (literal im nl) s) (\<lambda>s.
      and_then (say message s) (\<lambda>s.
      and_then (say (literal im (nl @ nl @ ''System halted.'')) s) g))) =
        g (s\<lparr>reads := n, trace := trace s @ log\<rparr>) \<and>
      sent (inputs s) (reads s) (panic_report xs) log n"
proof -
  have lits: "cstr (mem s) (literal im x) (map ch x)" if "x \<in> set panic_literals" for x
    using assms(1) that by (simp add: panic_ready_def)
  let ?t = "\<lambda>n log. s\<lparr>reads := n, trace := trace s @ log\<rparr>"
  have next_text: "\<exists>log' n'. say p (?t n log) = Some (Inr (?t n' (log @ log'))) \<and> sent (inputs s) n ys log' n'"
    if "cstr (mem s) p ys" for p ys n log
    using say [of "?t n log" p ys] that assms(3) unfolding say_def by fastforce
  have member: "nl @ nl @ ''!!! KERNEL PANIC !!!'' @ nl \<in> set panic_literals" "nl \<in> set panic_literals"
    "nl @ nl @ ''System halted.'' \<in> set panic_literals"
    by (simp_all add: panic_literals_def)
  have t0: "?t (reads s) [] = s"
    by simp
  obtain l1 n1 where s1: "say (literal im (nl @ nl @ ''!!! KERNEL PANIC !!!'' @ nl)) s = Some (Inr (?t n1 ([] @ l1)))"
    and r1: "sent (inputs s) (reads s) (map ch (nl @ nl @ ''!!! KERNEL PANIC !!!'' @ nl)) l1 n1"
    using next_text [OF lits [OF member(1)], where log = "[]" and n = "reads s"] unfolding t0 by blast
  obtain l2 n2 where s2: "say (literal im nl) (?t n1 ([] @ l1)) = Some (Inr (?t n2 (([] @ l1) @ l2)))"
    and r2: "sent (inputs s) n1 (map ch nl) l2 n2"
    using next_text [OF lits [OF member(2)]] by blast
  obtain l3 n3 where s3: "say message (?t n2 (([] @ l1) @ l2)) = Some (Inr (?t n3 ((([] @ l1) @ l2) @ l3)))"
    and r3: "sent (inputs s) n2 xs l3 n3"
    using next_text [OF assms(2)] by blast
  obtain l4 n4 where s4: "say (literal im (nl @ nl @ ''System halted.'')) (?t n3 ((([] @ l1) @ l2) @ l3)) =
      Some (Inr (?t n4 (((([] @ l1) @ l2) @ l3) @ l4)))"
    and r4: "sent (inputs s) n3 (map ch (nl @ nl @ ''System halted.'')) l4 n4"
    using next_text [OF lits [OF member(3)]] by blast
  have "sent (inputs s) (reads s) (panic_report xs) (((l1 @ l2) @ l3) @ l4) n4"
    using sent_append [OF sent_append [OF sent_append [OF r1 r2] r3] r4] by (simp add: panic_report_def)
  then show ?thesis
    using s1 s2 s3 s4 by (intro exI [of _ "((l1 @ l2) @ l3) @ l4"] exI [of _ n4]) (simp add: and_then_def)
qed

text \<open>The report on the screen.\<close>

lemma panic_prints:
  assumes "panic_ready im f s" and "cstr (mem s) message xs" and "all_away (print_frame im) f True s message xs"
    and "message \<noteq> NULL" and "0x7F \<notin> set xs"
  defines "c \<equiv> screen_clear COLOR_BLACK True s"
  shows "\<exists>u. kprintf (print_frame im) COLOR_WHITE 2 True (literal im panic_screen_format)
      [ucast COLOR_RED, ucast COLOR_WHITE, message, ucast COLOR_RED] c = Some (Inr u) \<and>
    console_run (print_frame im) 2 True c (panic_runs xs) u \<and> trace u = trace s \<and> shape f u \<and> stride u = stride s \<and>
    (\<forall>a. away (print_frame im) f True s a \<longrightarrow> mem u a = mem s a)"
proof -
  obtain m where c: "c = s\<lparr>mem := m, current_background_color := COLOR_BLACK,
      cursor_x := DEFAULT_CURSOR_X, cursor_y := DEFAULT_CURSOR_Y\<rparr>"
    and m: "\<And>a. 4 * (lines f * stride s) \<le> unat (a - fb_address f) \<Longrightarrow> m a = mem s a"
    using screen_clear_vram [of f s COLOR_BLACK] assms(1) by (auto simp: c_def panic_ready_def COLOR_BLACK_def)
  have away: "away (print_frame im) f True c = away (print_frame im) f True s"
    "all_away (print_frame im) f True c = all_away (print_frame im) f True s"
    by (simp_all add: c away_def all_away_def surface_def fun_eq_iff)
  have kept: "cstr (mem c) p ys" if "cstr (mem s) p ys" "all_away (print_frame im) f True s p ys" for p ys
    using that cstr_cong [of ys m p "mem s"] m by (simp add: c all_away_def away_def surface_def)
  have fmt: "cstr (mem c) (literal im panic_screen_format) (map ch panic_screen_format)"
    "all_away (print_frame im) f True c (literal im panic_screen_format) (map ch panic_screen_format)"
    using assms(1) kept by (simp_all add: panic_ready_def panic_literals_def away)
  have ok: "console_ok (print_frame im) f 2 True c"
    using assms(1) by (auto simp: console_ok_def panic_ready_def c shape_def surface_def cursor_ok_def scale_ok_def
        DEFAULT_CURSOR_X_def DEFAULT_CURSOR_Y_def)
  have args: "list_all2 (arg_away (print_frame im) f True c)
      [Slot (ucast COLOR_RED), Slot (ucast COLOR_WHITE), Text xs, Slot (ucast COLOR_RED)]
      [ucast COLOR_RED, ucast COLOR_WHITE, message, ucast COLOR_RED]"
    using assms(3,4) kept [OF assms(2,3)] by (simp add: arg_away_def away)
  have clean: "0x7F \<notin> set ys" if "(col, ys) \<in> set (panic_runs xs)" for col ys
    using that assms(5) in_set_takeD [of "0x7F" 1023 "xs @ map ch (nl @ nl)"]
    by (auto simp: panic_runs_def nl_def ch_def simp del: take_append)
  let ?fmt = "literal im panic_screen_format" and ?cs = "map ch panic_screen_format"
  have here: "cstr (mem c) ?fmt ([] @ ?cs)" "all_away (print_frame im) f True c ?fmt ([] @ ?cs)"
    "?fmt + of_nat (length ([] :: u8 list)) = ?fmt + 0"
    using fmt by simp_all
  obtain u where "kprintf_loop (print_frame im) ?fmt 2 True 0 ?fmt COLOR_WHITE
        [ucast COLOR_RED, ucast COLOR_WHITE, message, ucast COLOR_RED] c = Some (Inr u)"
    and run: "console_run (print_frame im) 2 True c (panic_runs xs) u" and stays: "stays (print_frame im) f True c u"
    using kprintf_loop_runs [OF panic_runs_coloured [OF cstr_nth(3) [OF assms(2)]] ok here args] clean by blast
  moreover have "trace u = trace s" "shape f u" "stride u = stride s"
    using stays assms(1) by (auto simp: stays_def c panic_ready_def shape_def)
  moreover have "mem u a = mem s a" if "away (print_frame im) f True s a" for a
  proof -
    have "mem u a = mem c a"
      by (rule stays_fields(5) [OF stays]) (simp only: away that)
    also have "mem c a = mem s a"
      using m [of a] that by (simp add: c away_def surface_def)
    finally show ?thesis .
  qed
  ultimately show ?thesis
    by (simp add: kprintf_def)
qed

lemma sad_face_halt:
  assumes "shape f u"
  shows "trace (halt (draw_sad_face c u)) = trace u @ [Hlt]"
    and "4 * (lines f * stride u) \<le> unat (a - fb_address f) \<Longrightarrow> mem (halt (draw_sad_face c u)) a = mem u a"
  using sad_face_only_draws [OF assms, of c] by (auto simp: only_draws_def halt_def note_access_def)

section \<open>Properties\<close>

text \<open>
  C34. If the serial transmitter keeps becoming ready, \<^verbatim>\<open>kernel_panic\<close> reports its message and stops
  the processor with interrupts disabled: the first access is \<^verbatim>\<open>cli\<close>, then the serial port gets
  exactly the report, and the last access is \<^verbatim>\<open>hlt\<close>. The screen is cleared, the heading, the message
  and the closing line are printed in their colours, and the face is drawn over them. Memory outside
  the framebuffer and the frame of \<^verbatim>\<open>flush_formatted_segment\<close> does not change.
\<close>

theorem kernel_panic_reports:
  fixes s :: "'a screen_scheme"
  assumes "panic_ready im f s" and "cstr (mem s) message xs" and "all_away (print_frame im) f True s message xs"
    and "message \<noteq> NULL" and "0x7F \<notin> set xs" and "\<forall>n. \<exists>k. bit (inputs s (n + k)) 5"
  shows "\<exists>t log n u. kernel_panic im message s = Some (Inr t) \<and>
           trace t = trace s @ [Cli] @ log @ [Hlt] \<and> sent (inputs s) (reads s) (panic_report xs) log n \<and>
           console_run (print_frame im) 2 True
             (screen_clear COLOR_BLACK True (s\<lparr>reads := n, trace := trace s @ [Cli] @ log\<rparr>)) (panic_runs xs) u \<and>
           t = halt (draw_sad_face COLOR_RED u) \<and>
           (\<forall>a. away (print_frame im) f True s a \<longrightarrow> mem t a = mem s a)"
proof -
  let ?s = "\<lambda>n log. s\<lparr>reads := n, trace := trace s @ [Cli] @ log\<rparr>"
  define s0 where "s0 = disable_interrupts s"
  have s0: "s0 = s\<lparr>trace := trace s @ [Cli]\<rparr>"
    by (simp add: s0_def disable_interrupts_def note_access_def)
  have ready: "panic_ready im f (?s n log)" "all_away (print_frame im) f True (?s n log) = all_away (print_frame im) f True s"
    "away (print_frame im) f True (?s n log) = away (print_frame im) f True s" for n log
    using assms(1) by (simp_all add: panic_ready_def shape_def all_away_def away_def surface_def fun_eq_iff)
  let ?g = "\<lambda>s. and_then (kprintf (print_frame im) COLOR_WHITE 2 True (literal im panic_screen_format)
      [ucast COLOR_RED, ucast COLOR_WHITE, message, ucast COLOR_RED] (screen_clear COLOR_BLACK True s))
      (\<lambda>s. Some (Inr (halt (draw_sad_face COLOR_RED s))))"
  have ready0: "panic_ready im f s0" "cstr (mem s0) message xs" "\<forall>n. \<exists>k. bit (inputs s0 (n + k)) 5"
    using ready(1) [where n = "reads s" and log = "[]"] assms(2,6) by (simp_all add: s0)
  obtain log n where says: "kernel_panic im message s = ?g (s0\<lparr>reads := n, trace := trace s0 @ log\<rparr>)"
    and "sent (inputs s0) (reads s0) (panic_report xs) log n"
    using panic_says [OF ready0, where g = ?g] unfolding kernel_panic_def Let_def s0_def panic_screen_format_def by blast
  then have says: "kernel_panic im message s = ?g (?s n log)"
    and sent: "sent (inputs s) (reads s) (panic_report xs) log n"
    by (simp_all add: s0)
  let ?c = "screen_clear COLOR_BLACK True (?s n log)"
  obtain u where u: "kprintf (print_frame im) COLOR_WHITE 2 True (literal im panic_screen_format)
        [ucast COLOR_RED, ucast COLOR_WHITE, message, ucast COLOR_RED] ?c = Some (Inr u)"
    and run: "console_run (print_frame im) 2 True ?c (panic_runs xs) u"
    and kept: "trace u = trace (?s n log)" "shape f u" "stride u = stride (?s n log)"
      "\<And>a. away (print_frame im) f True (?s n log) a \<Longrightarrow> mem u a = mem (?s n log) a"
    using panic_prints [OF ready(1), where message = message and xs = xs] assms(2-5) ready(2) by fastforce
  let ?t = "halt (draw_sad_face COLOR_RED u)"
  have "mem ?t a = mem s a" if "away (print_frame im) f True s a" for a
  proof -
    have "mem ?t a = mem u a"
      by (rule sad_face_halt(2) [OF kept(2)]) (use that kept(3) in \<open>simp add: away_def surface_def\<close>)
    then show ?thesis
      using kept(4) [of a] that ready(3) by simp
  qed
  moreover have "trace ?t = trace s @ [Cli] @ log @ [Hlt]"
    using sad_face_halt(1) [OF kept(2)] kept(1) by simp
  moreover have "kernel_panic im message s = Some (Inr ?t)"
    using says u by (simp add: and_then_def)
  ultimately show ?thesis
    using sent run by blast
qed

section \<open>A sample\<close>

text \<open>Strings laid out in memory at increasing addresses.\<close>

definition layout :: "(nat \<times> string) list \<Rightarrow> mem \<Rightarrow> mem" where
  "layout = fold (\<lambda>(p, x) m. stores m (of_nat p) (map ch x @ [0]))"

lemma unat_of_nat_minus:
  assumes "p < 2 ^ 63" and "q < 2 ^ 63"
  shows "unat (of_nat p - of_nat q :: u64) = (if q \<le> p then p - q else 2 ^ 64 + p - q)"
proof (cases "q \<le> p")
  case False
  then show ?thesis
    using assms by (simp add: unat_sub_if' unat_of_nat64)
qed (use assms in \<open>simp add: unat_sub_if' unat_of_nat64\<close>)

lemma outside_numbers:
  assumes "p + length xs < 2 ^ 63" and "q < 2 ^ 63" and "n \<le> 2 ^ 63" and "q + n \<le> p \<or> p + length xs < q"
  shows "outside (of_nat q) n (of_nat p) xs"
  unfolding outside_def
proof (intro allI impI)
  fix k
  assume "k \<le> length xs"
  then show "n \<le> unat (of_nat p + of_nat k - (of_nat q :: u64))"
    using assms unat_of_nat_minus [of "p + k" q] by (auto simp: of_nat_add [symmetric] simp del: of_nat_add)
qed

lemma layout_keeps:
  assumes "cstr m (of_nat p) xs" and "p + length xs < 2 ^ 63"
    and "\<forall>(q, y) \<in> set l. p + length xs < q \<and> q + length y < 2 ^ 63"
  shows "cstr (layout l m) (of_nat p) xs"
  using assms(1,3)
proof (induction l arbitrary: m)
  case (Cons z l)
  obtain q y where z: "z = (q, y)"
    by fastforce
  have "outside (of_nat q) (length (map ch y @ [0 :: u8])) (of_nat p) xs"
    by (rule outside_numbers) (use assms(2) Cons.prems(2) in \<open>auto simp: z\<close>)
  then have "cstr (stores m (of_nat q) (map ch y @ [0])) (of_nat p) xs"
    by (rule cstr_outside [OF Cons.prems(1)]) simp
  then show ?case
    using Cons by (simp add: layout_def z)
qed (simp add: layout_def)

lemma layout_string:
  assumes "(p, x) \<in> set l" and "sorted_wrt (\<lambda>(p, x) (q, y). p + length x < q) l"
    and "\<forall>(q, y) \<in> set l. q + length y < 2 ^ 63 \<and> 0 \<notin> set (map ch y)"
  shows "cstr (layout l m) (of_nat p) (map ch x)"
  using assms
proof (induction l arbitrary: m)
  case (Cons z l)
  obtain q y where z: "z = (q, y)"
    by fastforce
  let ?m = "stores m (of_nat q) (map ch y @ [0])"
  show ?case
  proof (cases "(p, x) = z")
    case True
    then have "length (map ch y) < 2 ^ 64" "0 \<notin> set (map ch y)"
      using Cons.prems(3) z by auto
    then have "cstr ?m (of_nat p) (map ch x)"
      using cstr_stores [of "map ch y" m "of_nat q"] True z by simp
    then have "cstr (layout l ?m) (of_nat p) (map ch x)"
      using Cons.prems(2,3) True z by (intro layout_keeps) auto
    then show ?thesis
      by (simp add: layout_def z)
  next
    case False
    then have "cstr (layout l ?m) (of_nat p) (map ch x)"
      using Cons.prems z by (intro Cons.IH) auto
    then show ?thesis
      by (simp add: layout_def z)
  qed
qed simp

text \<open>
  A screen of 24 by 24 pixels at 0x100000, the frame at 0x8000, the literals and the message
  \<^verbatim>\<open>"Hi"\<close> from 0x5000 on, and a transmitter that is always ready.
\<close>

definition sample_strings :: "(nat \<times> string) list" where
  "sample_strings = [(0x5000, nl @ nl @ ''!!! KERNEL PANIC !!!'' @ nl), (0x5100, nl),
     (0x5200, nl @ nl @ ''System halted.''), (0x5300, panic_screen_format), (0x5400, ''Hi'')]"

definition sample_image :: image where
  "sample_image =
     \<lparr>literal = (\<lambda>x. if x = nl @ nl @ ''!!! KERNEL PANIC !!!'' @ nl then 0x5000 else if x = nl then 0x5100
        else if x = nl @ nl @ ''System halted.'' then 0x5200 else 0x5300),
      print_frame = 0x8000, panic_buffer = 0x9000,
      sections = \<lparr>requests_start = 0, requests_end = 0, text_start = 0, text_end = 0, rodata_start = 0,
        rodata_end = 0, data_start = 0, data_end = 0\<rparr>,
      table_objects = sample_symbols, heap_start = 0x10000, base_revision = [0, 0, 0]\<rparr>"

definition sample_panicked :: screen where
  "sample_panicked = (sample_screen (layout sample_strings (\<lambda>_. 0)) 10)\<lparr>inputs := \<lambda>_. 0x60, reads := 0, trace := []\<rparr>"

lemma sample_panicked_fields [simp]:
  "inputs sample_panicked = (\<lambda>_. 0x60)" "reads sample_panicked = 0" "trace sample_panicked = []"
  "stride sample_panicked = 24" "mem sample_panicked = layout sample_strings (\<lambda>_. 0)"
  by (simp_all add: sample_panicked_def sample_screen_def tables.extend_def screen.fields_def)

lemma sample_strings_placed:
  assumes "(p, x) \<in> set sample_strings"
  shows "cstr (mem sample_panicked) (of_nat p) (map ch x)"
    and "all_away 0x8000 sample_fb True sample_panicked (of_nat p) (map ch x)"
proof -
  have all: "\<forall>(q, y) \<in> set sample_strings. 0x5000 \<le> q \<and> q + length y < 0x5500 \<and> 0 \<notin> set (map ch y)"
    by (simp add: sample_strings_def nl_def ch_def panic_screen_format_def)
  have "sorted_wrt (\<lambda>(p, x) (q, y). p + length x < q) sample_strings"
    by (simp add: sample_strings_def nl_def panic_screen_format_def)
  moreover have "\<forall>(q, y) \<in> set sample_strings. q + length y < 2 ^ 63 \<and> 0 \<notin> set (map ch y)"
    using all by fastforce
  ultimately show "cstr (mem sample_panicked) (of_nat p) (map ch x)"
    using layout_string [OF assms] by simp
  have "0x5000 \<le> p" "p + length x < 0x5500"
    using all assms by auto
  then have "away 0x8000 sample_fb True sample_panicked (of_nat p + of_nat k)" if "k \<le> length x" for k
    using that unat_of_nat_minus [of "p + k" "0x8000"] unat_of_nat_minus [of "p + k" "0x100000"]
    by (simp add: away_def surface_def sample_fb_def)
  then show "all_away 0x8000 sample_fb True sample_panicked (of_nat p) (map ch x)"
    by (simp add: all_away_def)
qed

lemma sample_literal:
  assumes "x \<in> set panic_literals"
  shows "\<exists>p. literal sample_image x = of_nat p \<and> (p, x) \<in> set sample_strings"
proof -
  let ?h = "nl @ nl @ ''!!! KERNEL PANIC !!!'' @ nl" and ?e = "nl @ nl @ ''System halted.''"
  have ne: "nl \<noteq> ?h" "?e \<noteq> ?h" "?e \<noteq> nl" "panic_screen_format \<noteq> nl" "panic_screen_format \<noteq> ?h" "panic_screen_format \<noteq> ?e"
    by (simp_all add: panic_screen_format_def nl_def)
  have "literal sample_image ?h = of_nat 0x5000" "literal sample_image nl = of_nat 0x5100"
    "literal sample_image ?e = of_nat 0x5200" "literal sample_image panic_screen_format = of_nat 0x5300"
    using ne unfolding sample_image_def by simp_all
  moreover have "(0x5000, ?h) \<in> set sample_strings" "(0x5100, nl) \<in> set sample_strings" "(0x5200, ?e) \<in> set sample_strings"
    "(0x5300, panic_screen_format) \<in> set sample_strings"
    unfolding sample_strings_def by simp_all
  moreover consider "x = ?h" | "x = nl" | "x = ?e" | "x = panic_screen_format"
    using assms unfolding panic_literals_def by auto
  ultimately show ?thesis
    by cases blast+
qed

theorem kernel_panic_reports_witness:
  "\<exists>t log n. kernel_panic sample_image 0x5400 sample_panicked = Some (Inr t) \<and> trace t = [Cli] @ log @ [Hlt] \<and>
     sent (\<lambda>_. 0x60) 0 (panic_report (map ch ''Hi'')) log n"
proof -
  have frame: "print_frame sample_image = 0x8000"
    by (simp add: sample_image_def)
  have "4 * (lines sample_fb * 24) \<le> unat (0x8000 + of_nat k - (0x100000 :: u64))" if "k < 2048" for k
    using that unat_of_nat_minus [of "0x8000 + k" "0x100000"] by (simp add: sample_fb_def)
  moreover have "shape sample_fb sample_panicked" "screen_pitch_div_4 sample_panicked = 24"
    using sample_shape by (simp_all add: sample_panicked_def shape_def)
  moreover have "cstr (mem sample_panicked) (literal sample_image x) (map ch x) \<and>
      all_away 0x8000 sample_fb True sample_panicked (literal sample_image x) (map ch x)"
    if x: "x \<in> set panic_literals" for x
  proof -
    obtain p where "literal sample_image x = of_nat p" "(p, x) \<in> set sample_strings"
      using sample_literal [OF x] by blast
    then show ?thesis
      using sample_strings_placed by simp
  qed
  ultimately have "panic_ready sample_image sample_fb sample_panicked"
    by (simp add: panic_ready_def frame) (simp add: scale_ok_def sample_fb_def)
  moreover have "(0x5400, ''Hi'') \<in> set sample_strings"
    by (simp add: sample_strings_def)
  note sample_strings_placed [OF this]
  moreover have "\<forall>n :: nat. \<exists>k :: nat. bit (0x60 :: u32) 5"
    by (simp add: bit_numeral_rec)
  ultimately show ?thesis
    using kernel_panic_reports [of sample_image sample_fb sample_panicked "0x5400" "map ch ''Hi''"]
    by (auto simp: NULL_def ch_def frame)
qed

end
