(* ===== verification/Boot.thy ===== *)
theory Boot
  imports Kernel_Panic
begin

text \<open>
  The start of the kernel (\<^verbatim>\<open>kernel/init.c\<close>, \<^verbatim>\<open>limine_init\<close>): every subsystem of the development
  in the order the kernel brings them up.
\<close>

section \<open>Definitions\<close>

definition LIMINE_BASE_MAGIC :: u64 where "LIMINE_BASE_MAGIC = 0x6a7b384944536bdc"

definition limine_init :: "image \<Rightarrow> unit outcome" where
  "limine_init im =
     (if base_revision im ! 2 \<noteq> 0 \<or> base_revision im ! 1 = LIMINE_BASE_MAGIC
      then Inl (Panic ''LIMINE Init failed.'') else Inr ())"

definition kprintf_default :: "image \<Rightarrow> string \<Rightarrow> va_list \<Rightarrow> 'a screen_scheme \<Rightarrow> 'a screen_scheme outcome option" where
  "kprintf_default im fmt args s =
     kprintf (print_frame im) COLOR_WHITE DEFAULT_blit32_TEXT_SCALE False (literal im fmt) args s"

definition log_step :: "image \<Rightarrow> string \<Rightarrow> 'a screen_scheme \<Rightarrow> 'a screen_scheme outcome option" where
  "log_step im msg s = kprintf_default im ''[INIT] %s... '' [literal im msg] s"

definition log_ok :: "image \<Rightarrow> 'a screen_scheme \<Rightarrow> 'a screen_scheme outcome option" where
  "log_ok im s = kprintf_default im (''[  OK  ]'' @ nl) [] s"

text \<open>\<open>logged\<close> is a step of the start-up between its two messages.\<close>

definition logged ::
  "image \<Rightarrow> string \<Rightarrow> ('a screen_scheme \<Rightarrow> 'a screen_scheme outcome option) \<Rightarrow> 'a screen_scheme \<Rightarrow>
   'a screen_scheme outcome option" where
  "logged im msg f s = and_then (log_step im msg s) (\<lambda>s. and_then (f s) (log_ok im))"

definition kernel_init :: "image \<Rightarrow> boot_info \<Rightarrow> 'a screen_scheme \<Rightarrow> 'a screen_scheme outcome option" where
  "kernel_init im bi s =
     (let s = disable_interrupts s;
          s = set_auto_flush False s;
          s = serial_init s
      in and_then (Some (limine_init im)) (\<lambda>_.
         and_then (Some (pmm_init bi s)) (\<lambda>s.
         and_then (Some (screen_init bi s)) (\<lambda>s.
         and_then (logged im ''Initializing PMM'' (\<lambda>s. Some (Inr s)) s) (\<lambda>s.
         and_then (logged im ''Initializing Screen Driver'' (\<lambda>s. Some (Inr s)) s) (\<lambda>s.
         and_then (log_step im ''Initializing VMM'' s) (\<lambda>s.
         let old_cr3 = get_current_cr3 s in
         and_then (vmm_init bi (sections im) s) (\<lambda>(ok, s).
         if \<not> ok then Some (Inl (Panic ''Failed to initialize VMM!'')) else
         let new_cr3 = get_current_cr3 s in
         and_then (log_ok im s) (\<lambda>s.
         and_then (kprintf_default im (''          ---> CR3 switched: 0x%x -> 0x%x'' @ nl) [old_cr3, new_cr3] s) (\<lambda>s.
         and_then (logged im ''Initializing GDT'' (\<lambda>s. Some (Inr (gdt_init (table_objects im) s))) s) (\<lambda>s.
         and_then (logged im ''Initializing IDT'' (\<lambda>s. Some (idt_init (table_objects im) s)) s) (\<lambda>s.
         and_then (logged im ''Initializing Heap'' (\<lambda>s. Some (Inr (heap_init (heap_start im) s))) s) (\<lambda>s.
         and_then (logged im ''Initializing Scheduler'' (sched_init (literal im ''kernel_main'')) s) (\<lambda>s.
         and_then (logged im ''Initializing LAPIC timer'' (\<lambda>s.
             and_then (lapic_timer_device_init bi LAPIC_TIMER_DIV_16 s) (\<lambda>s.
             Some (Inr (idt_register_handler (ucast LAPIC_TIMER_VECTOR) Lapic_timer_irq_handler s)))) s) (\<lambda>s.
         and_then (logged im ''Initializing keyboard driver'' (\<lambda>s.
             and_then (keyboard_init bi s) (\<lambda>s.
             Some (Inr (idt_register_handler (ucast IOAPIC_IDT_VECTOR) Keyboard_irq_handler s)))) s) (\<lambda>s.
         let s = screen_flush s;
             s = set_auto_flush True s
         in Some (Inr (enable_interrupts s))))))))))))))))))"

section \<open>What steps may change\<close>

text \<open>
  The contract of a step of the start-up is a relation between the states before and after it that
  composes: \<open>quiet\<close>, \<open>prints\<close> and \<open>calm\<close> below.
\<close>

lemma and_then_eq_Inr: "and_then r f = Some (Inr t) \<longleftrightarrow> (\<exists>s. r = Some (Inr s) \<and> f s = Some (Inr t))"
  by (auto simp: and_then_def split: option.splits sum.splits)

locale step_relation =
  fixes may :: "'s \<Rightarrow> 's \<Rightarrow> bool"
  assumes nothing: "may s s"
    and compose: "may s t \<Longrightarrow> may t u \<Longrightarrow> may s u"
begin

lemma for_int_may: "(\<And>j t. may s t \<Longrightarrow> may s (f j t)) \<Longrightarrow> may s t \<Longrightarrow> may s (for_int i n f t)"
  by (rule for_int_closed [where P = "may s"])

lemma and_then_may:
  assumes "and_then r f = Some (Inr t)" and "\<And>u. r = Some (Inr u) \<Longrightarrow> may s u" and "\<And>u. f u = Some (Inr t) \<Longrightarrow> may u t"
  shows "may s t"
  using assms by (auto simp: and_then_eq_Inr intro: compose)

lemma three_may: "may s t \<Longrightarrow> may t u \<Longrightarrow> may u v \<Longrightarrow> may s v"
  by (blast intro: compose)

end

section \<open>Quiet steps\<close>

text \<open>
  A quiet step appends accesses to the trace, none of which lets interrupts in. \<open>quiet_steps\<close>
  collects what the devices do.
\<close>

definition quiet :: "'a io_scheme \<Rightarrow> 'a io_scheme \<Rightarrow> bool" where
  "quiet s t \<longleftrightarrow> (\<exists>l. trace t = trace s @ l \<and> Sti \<notin> set l \<and> Sti_hlt \<notin> set l)"

named_theorems quiet_steps \<open>accesses that let no interrupt in\<close>

lemma quiet_same: "trace t = trace s \<Longrightarrow> quiet s t"
  by (simp add: quiet_def)

lemma quiet_refl [quiet_steps]: "quiet s s"
  by (simp add: quiet_same)

lemma quiet_trans: "quiet s t \<Longrightarrow> quiet t u \<Longrightarrow> quiet s u"
  unfolding quiet_def by (elim exE) (auto intro!: exI [of _ "_ @ _"])

interpretation quietly: step_relation quiet
  by unfold_locales (rule quiet_refl, rule quiet_trans)

lemma quiet_note:
  "quiet s t \<Longrightarrow> a \<noteq> Sti \<Longrightarrow> a \<noteq> Sti_hlt \<Longrightarrow> quiet s (note_access a t)"
  by (rule quiet_trans [of s t]) (auto simp: quiet_def)

lemma quiet_access [quiet_steps]:
  assumes "quiet s t"
  shows "quiet s (outb p v t)" "quiet s (snd (inb p t))" "quiet s (snd (inl p t))" "quiet s (io_wait t)"
    "quiet s (pause t)" "quiet s (lapic_write reg x t)" "quiet s (snd (lapic_read reg t))"
    "quiet s (ioapic_write off reg x t)"
proof -
  have read: "quiet s (note_access a (t\<lparr>reads := n\<rparr>))" if "a \<noteq> Sti" "a \<noteq> Sti_hlt" for a n
    using assms that by (auto simp: quiet_def)
  show "quiet s (outb p v t)" "quiet s (snd (inb p t))" "quiet s (snd (inl p t))" "quiet s (io_wait t)"
    "quiet s (pause t)" "quiet s (lapic_write reg x t)" "quiet s (snd (lapic_read reg t))"
    "quiet s (ioapic_write off reg x t)"
    using assms
    by (auto simp: outb_def inb_def inl_def io_wait_def pause_def lapic_write_def lapic_read_def ioapic_write_def
        next_input_def Let_def intro!: quiet_note read)
qed

lemma quiet_more: "pmm.more t = pmm.more s \<Longrightarrow> quiet s t" for s t :: "'a io_scheme"
  by (rule quiet_same) (cases s, cases t, simp)

lemma quiet_map_page: "vmm_map_page s pml4 v p f = Inr (ok, t) \<Longrightarrow> quiet s t" for s t :: "'a io_scheme"
  by (rule quiet_more) (use vmm_map_page_more [of s pml4 v p f] in simp)

lemma quiet_lapic_init: "lapic_init s = Inr t \<Longrightarrow> quiet s t"
proof -
  have base: "quiet s (s\<lparr>lapic_base := b\<rparr>)" for b
    by (rule quiet_same) simp
  have msr: "quiet s (note_access (Wrmsr r lo hi) (t\<lparr>apic_base_msr := v\<rparr>))" if "quiet s t" for t r lo hi v
    by (rule quiet_note) (use that in \<open>auto simp: quiet_def\<close>)
  show "lapic_init s = Inr t \<Longrightarrow> quiet s t"
    by (auto simp: lapic_init_def Let_def bind_ok_eq_Inr dest!: quiet_map_page
        intro!: quiet_steps msr intro: quiet_trans [OF base] split: if_splits)
qed

lemma quiet_ioapic_init: "ioapic_init_keyboard b a s = Inr t \<Longrightarrow> quiet s t"
  by (auto simp: ioapic_init_keyboard_def Let_def bind_ok_eq_Inr dest!: quiet_map_page
      intro!: quiet_steps split: option.splits)

lemma quiet_ps2_poll [quiet_steps]:
  assumes "quiet s t"
  shows "quiet s (snd (ps2_poll P t))"
proof -
  let ?body = "\<lambda>i s. let (status, s) = inb 0x64 s in if P status then Inr s else Inl s"
  have step: "quiet s u" if "quiet s v" "inb 0x64 v = (st, u)" for v st u
    using quiet_access(2) [OF that(1), of "0x64"] that(2) by simp
  have "case for_until 0 100000 ?body t of Inl u \<Rightarrow> quiet s u | Inr u \<Rightarrow> quiet s u"
    by (rule for_until_inv [where I = "\<lambda>_ u. quiet s u"]) (auto simp: assms dest: step split: prod.split)
  then show ?thesis
    by (auto simp: ps2_poll_def split: sum.splits)
qed

lemma quiet_ps2_steps [quiet_steps]:
  assumes "quiet s t"
  shows "quiet s (snd (ps2_wait_output_full t))" "quiet s (snd (ps2_write_command v t))"
    "quiet s (snd (ps2_write_data v t))"
  using assms
  by (auto simp: ps2_wait_output_full_def ps2_write_command_def ps2_write_data_def ps2_write_def
      ps2_wait_input_empty_def case_prod_beta Let_def intro!: quiet_steps)

lemma quiet_ps2_flush: "ps2_flush_output_buffer s = Some t \<Longrightarrow> quiet s t"
proof (induction rule: ps2_flush_output_buffer.raw_induct [rotated, consumes 1, case_names step])
  case (step rec s t)
  let ?s1 = "snd (inb 0x64 s)" and ?s2 = "snd (inb 0x60 (snd (inb 0x64 s)))"
  have q: "quiet s ?s1" "quiet s ?s2"
    by (intro quiet_steps)+
  show ?case
  proof (cases "fst (inb 0x64 s) AND 1 = 0")
    case True
    then show ?thesis
      using step.hyps q(1) by (simp add: case_prod_beta)
  next
    case False
    then have "rec ?s2 = Some t"
      using step.hyps by (simp add: case_prod_beta)
    then show ?thesis
      using step.IH q(2) quiet_trans by blast
  qed
qed

lemma quiet_ps2_enable: "ps2_keyboard_enable s = Some t \<Longrightarrow> quiet s t"
proof -
  have "quiet s (ps2_setup s)" for s :: "'a io_scheme"
    unfolding ps2_setup_def Let_def case_prod_beta if_distrib [of snd] snd_conv
    by (auto intro!: quiet_steps)
  then show "ps2_keyboard_enable s = Some t \<Longrightarrow> quiet s t"
    by (auto simp: ps2_keyboard_enable_eq dest!: quiet_ps2_flush intro: quiet_trans)
qed

lemma quiet_pm_wait: "acpi_pm_wait port target start e s = Some t \<Longrightarrow> quiet s t"
proof (induction rule: acpi_pm_wait.raw_induct [rotated, consumes 1, case_names step])
  case (step rec port target start e s t)
  show ?case
  proof (cases "e < target")
    case True
    let ?c = "fst (inl port s) AND 0x00FFFFFF"
    have "rec port target ?c (pm_elapsed start ?c e) (pause (snd (inl port s))) = Some t"
      using step.hyps True by (simp add: case_prod_beta Let_def)
    then have "quiet (pause (snd (inl port s))) t"
      by (rule step.IH)
    then show ?thesis
      by (rule quiet_trans [rotated]) (intro quiet_steps)
  next
    case False
    then show ?thesis
      using step.hyps by (simp add: quiet_refl)
  qed
qed

lemma quiet_pm_delay: "acpi_pm_delay_ms port ms s = Some t \<Longrightarrow> quiet s t"
  by (auto simp: acpi_pm_delay_ms_def Let_def case_prod_beta dest!: quiet_pm_wait
      intro: quiet_trans [OF quiet_access(3) [OF quiet_refl]])

section \<open>What the start-up steps leave alone\<close>

text \<open>Printing changes memory and the cursor.\<close>

definition prints :: "'a screen_scheme \<Rightarrow> 'a screen_scheme \<Rightarrow> bool" where
  "prints s t \<longleftrightarrow> (\<exists>m x y. t = s\<lparr>mem := m, cursor_x := x, cursor_y := y\<rparr>)"

lemma printsI: "t = s\<lparr>mem := m, cursor_x := x, cursor_y := y\<rparr> \<Longrightarrow> prints s t"
  by (auto simp: prints_def)

lemma prints_refl [intro!]: "prints s s"
  by (rule printsI [where m = "mem s" and x = "cursor_x s" and y = "cursor_y s"]) simp

lemma prints_trans:
  assumes "prints s t" and "prints t u"
  shows "prints s u"
proof -
  obtain m x y where "t = s\<lparr>mem := m, cursor_x := x, cursor_y := y\<rparr>"
    using assms(1) by (auto simp: prints_def)
  moreover obtain m' x' y' where "u = t\<lparr>mem := m', cursor_x := x', cursor_y := y'\<rparr>"
    using assms(2) by (auto simp: prints_def)
  ultimately show ?thesis
    by (intro printsI [where m = m' and x = x' and y = y']) simp
qed

interpretation printing: step_relation prints
  by unfold_locales (rule prints_refl, rule prints_trans)

lemma prints_step [intro]:
  assumes "prints s t"
  shows "prints s (t\<lparr>mem := m\<rparr>)" "prints s (t\<lparr>cursor_x := x\<rparr>)" "prints s (t\<lparr>cursor_y := y\<rparr>)"
proof -
  have "prints t (t\<lparr>mem := m\<rparr>)" "prints t (t\<lparr>cursor_x := x\<rparr>)" "prints t (t\<lparr>cursor_y := y\<rparr>)"
    by (rule printsI [where m = m and x = "cursor_x t" and y = "cursor_y t"], simp)
      (rule printsI [where m = "mem t" and x = x and y = "cursor_y t"], simp,
       rule printsI [where m = "mem t" and x = "cursor_x t" and y = y], simp)
  then show "prints s (t\<lparr>mem := m\<rparr>)" "prints s (t\<lparr>cursor_x := x\<rparr>)" "prints s (t\<lparr>cursor_y := y\<rparr>)"
    using prints_trans [OF assms] by blast+
qed

lemma put_pixel_prints: "prints s t \<Longrightarrow> prints s (screen_put_pixel x y c d t)"
  by (auto simp: screen_put_pixel_def split: option.split)

lemma fill_rect_prints: "prints s t \<Longrightarrow> prints s (fill_rect x y w h c d t)"
  unfolding fill_rect_def by (intro printing.for_int_may put_pixel_prints)

lemma newline_prints: "prints s t \<Longrightarrow> prints s (check_newline_and_scroll f props h d t)"
  by (auto simp: check_newline_and_scroll_def Let_def)

lemma tab_cell_prints: "prints s t \<Longrightarrow> prints s (kprint_tab_cell f w h d t)"
  by (auto simp: kprint_tab_cell_def Let_def intro: fill_rect_prints)

lemma kprint_char_prints: "kprint_char f props w h d c s = Some (Inr t) \<Longrightarrow> prints s t"
proof -
  have tab: "prints s ((kprint_tab_cell f w h d ^^ n) s)" for n
    by (induction n) (auto intro: tab_cell_prints)
  have erase: "kprint_backspace f w h d s = Inr t \<Longrightarrow> prints s t"
    by (auto simp: kprint_backspace_def Let_def bind_ok_eq_Inr intro!: fill_rect_prints split: if_splits)
  have glyph: "kprint_glyph f props w h d c s = Some (Inr t) \<Longrightarrow> prints s t" for c
    by (auto simp: kprint_glyph_def Let_def intro!: newline_prints split: option.splits sum.splits if_splits)
  show "kprint_char f props w h d c s = Some (Inr t) \<Longrightarrow> prints s t"
    by (auto simp: kprint_char_def kprint_space_def kprint_tab_def Let_def
        intro!: newline_prints fill_rect_prints tab dest: erase glyph split: if_splits)
qed

definition prints_to :: "'a screen_scheme \<Rightarrow> 'a screen_scheme outcome \<Rightarrow> bool" where
  "prints_to s r \<longleftrightarrow> (\<forall>t. r = Inr t \<longrightarrow> prints s t)"

lemma prints_to_simps [simp]: "prints_to s (Inl e)" "prints_to s (Inr t) \<longleftrightarrow> prints s t"
  by (simp_all add: prints_to_def)

lemma prints_to_trans: "prints s t \<Longrightarrow> prints_to t r \<Longrightarrow> prints_to s r"
  by (auto simp: prints_to_def intro: prints_trans)

lemma kprint_loop_prints: "kprint_loop f props w h d p i s = Some r \<Longrightarrow> prints_to s r"
proof (induction rule: kprint_loop.raw_induct [rotated, consumes 1, case_names step])
  case (step rec f props w h d p i s r)
  then show ?case
    by (auto dest: kprint_char_prints intro: prints_to_trans split: if_splits option.splits sum.splits)
qed

lemma kprint_prints: "kprint p c sc d s = Some r \<Longrightarrow> prints_to s r"
  by (auto simp: kprint_def dest: kprint_loop_prints split: option.splits if_splits)

lemma segment_prints:
  assumes "flush_formatted_segment frame p n c sc d args s = Some (Inr (t, rest))"
  shows "prints s t"
proof (cases "n = 0")
  case False
  then obtain m where "kprint (frame + 1024) c sc d (s\<lparr>mem := m\<rparr>) = Some (Inr t)"
    using assms by (auto simp: flush_formatted_segment_def Let_def split: option.splits sum.splits prod.splits)
  then have "prints (s\<lparr>mem := m\<rparr>) t"
    using kprint_prints by fastforce
  then show ?thesis
    by (rule prints_trans [rotated]) auto
qed (use assms in \<open>auto simp: flush_formatted_segment_def\<close>)

lemma kprintf_loop_prints: "kprintf_loop frame fmt sc d i p c args s = Some r \<Longrightarrow> prints_to s r"
proof (induction rule: kprintf_loop.raw_induct [rotated, consumes 1, case_names step])
  case (step rec frame fmt sc d i p c args s r)
  then show ?case
    by (auto dest: segment_prints intro: prints_to_trans split: if_splits option.splits sum.splits prod.splits)
qed

lemma screen_flush_prints: "prints s (screen_flush s)"
  by (auto simp: screen_flush_def split: option.split)

lemma kprintf_prints: "kprintf frame c sc d fmt args s = Some (Inr t) \<Longrightarrow> prints s t"
  by (auto simp: kprintf_def dest!: kprintf_loop_prints intro: prints_trans screen_flush_prints
      split: option.splits sum.splits if_splits)

text \<open>The memory managers leave everything declared behind them alone.\<close>

lemma for_range_keeps:
  assumes "\<And>j t. g (f j t) = g t"
  shows "g (for_range i n f s) = g s"
  using assms
proof (induction i n f s rule: for_range.induct)
  case (1 i n f s)
  then show ?case
    by (subst for_range.simps) simp
qed

lemma bitmap_keeps [simp]:
  "pmm.more (bitmap_set_page s p) = pmm.more s" "pmm.more (bitmap_clear_page s p) = pmm.more s"
  by (simp_all add: bitmap_set_page_def bitmap_clear_page_def Let_def)

lemma clear_bulk_keeps: "pmm.more (fst (pmm_clear_bulk s p n)) = pmm.more s"
proof (induction s p n rule: pmm_clear_bulk.induct)
  case (1 s p n)
  then show ?case
    by (subst pmm_clear_bulk.simps) simp
qed

lemma map_usable_keeps: "pmm.more (pmm_map_usable_region e s) = pmm.more s"
  by (simp add: pmm_map_usable_region_def Let_def case_prod_beta for_range_keeps [where g = pmm.more] clear_bulk_keeps)

lemma map_regions_keeps: "pmm.more (pmm_map_usable_memory_regions es s) = pmm.more s"
  by (induction es s rule: pmm_map_usable_memory_regions.induct) (simp_all add: map_usable_keeps)

lemma pmm_init_keeps: "pmm_init b s = Inr t \<Longrightarrow> pmm.more t = pmm.more s"
  by (auto simp: pmm_init_def pmm_calculate_kernel_bounds_def pmm_init_bitmap_metadata_def
      pmm_protect_critical_structures_def Let_def bind_ok_eq_Inr for_range_keeps [where g = pmm.more] map_regions_keeps
      split: option.splits if_splits)

lemma pmm_alloc_pages_keeps: "pmm_alloc_pages s n = Inr (p, t) \<Longrightarrow> pmm.more t = pmm.more s"
proof -
  have run: "pmm.more (snd (pmm_take_run s p c)) = pmm.more s" for p c
    by (simp add: pmm_take_run_def Let_def for_range_keeps [where g = pmm.more])
  have scan: "case pmm_scan_pages s c lo hi st of Inl u \<Rightarrow> True | Inr r \<Rightarrow> pmm.more (snd r) = pmm.more s" for c lo hi st
    unfolding pmm_scan_pages_def by (rule for_until_result) (auto simp: Let_def run split: prod.split)
  have two: "case for_until 0 2 (\<lambda>pass (cf, sp). case pmm_scan_pages s c (lo pass) (hi pass) (cf, sp) of
      Inr found \<Rightarrow> Inr found | Inl (cf, sp) \<Rightarrow> Inl (0, sp)) st of
      Inl u \<Rightarrow> True | Inr r \<Rightarrow> pmm.more (snd r) = pmm.more s" for c lo hi st
    by (rule for_until_result) (use scan in \<open>fastforce split: sum.splits prod.splits\<close>)
  let ?first = "if pmm_last_free_index s * 64 \<ge> pmm_total_pages s then 0 else pmm_last_free_index s * 64"
  assume "pmm_alloc_pages s n = Inr (p, t)"
  then show ?thesis
    using two [of n "\<lambda>pass. if pass = 0 then ?first else 0" "\<lambda>pass. if pass = 0 then pmm_total_pages s else ?first" "(0, 0)"]
      pmm_alloc_page_more [of s]
    by (auto simp: pmm_alloc_pages_def Let_def split: sum.splits if_splits)
qed

definition keeps_to :: "'a pmm_scheme \<Rightarrow> (bool \<times> 'a pmm_scheme) outcome \<Rightarrow> bool" where
  "keeps_to s r \<longleftrightarrow> (\<forall>ok t. r = Inr (ok, t) \<longrightarrow> pmm.more t = pmm.more s)"

lemma map_large_keeps: "vmm_map_large s pml4 v p f tf = Inr (ok, t) \<Longrightarrow> pmm.more t = pmm.more s"
proof -
  have "keeps_more s (vmm_map_large s pml4 v p f tf)"
    unfolding vmm_map_large_def Let_def
    by (auto simp: set_entry_def split: option.split intro!: keeps_more_bind get_or_create_table_more)
  then show "vmm_map_large s pml4 v p f tf = Inr (ok, t) \<Longrightarrow> pmm.more t = pmm.more s"
    by simp
qed

lemma map_page_keeps: "vmm_map_page s pml4 v p f = Inr (ok, t) \<Longrightarrow> pmm.more t = pmm.more s"
  using vmm_map_page_more [of s pml4 v p f] by simp

lemma map_loop_keeps: "vmm_map_loop pml4 e f tf v p s = Some r \<Longrightarrow> keeps_to s r"
proof (induction rule: vmm_map_loop.raw_induct [rotated, consumes 1, case_names step])
  case (step rec pml4 e f tf v p s r)
  then show ?case
    unfolding keeps_to_def
    by (auto dest!: map_large_keeps map_page_keeps split: if_splits sum.splits prod.splits)
qed

lemma map_range_keeps:
  "or_panic msg (vmm_map_range s pml4 v p n f) = Some (Inr t) \<Longrightarrow> pmm.more t = pmm.more s"
  by (auto simp: or_panic_def vmm_map_range_def Let_def keeps_to_def dest!: map_loop_keeps
      split: option.splits sum.splits if_splits)

lemma map_hhdm_keeps: "vmm_map_hhdm_entries pml4 es s = Some (Inr t) \<Longrightarrow> pmm.more t = pmm.more s"
proof (induction pml4 es s rule: vmm_map_hhdm_entries.induct)
  case (2 pml4 e es s)
  then show ?case
    by (auto simp: Let_def and_then_eq_Inr dest!: map_range_keeps)
qed simp

lemma vmm_init_keeps: "vmm_init b l s = Some (Inr (ok, t)) \<Longrightarrow> pmm.more t = pmm.more s"
proof -
  have sect: "vmm_map_section b pml4 x y f u = Some (Inr t) \<Longrightarrow> pmm.more t = pmm.more u" for pml4 x y f u t
    by (auto simp: vmm_map_section_def Let_def dest!: map_range_keeps split: option.splits)
  have kernel: "vmm_map_kernel b l pml4 u = Some (Inr t) \<Longrightarrow> pmm.more t = pmm.more u" for pml4 u t
    by (auto simp: vmm_map_kernel_def and_then_eq_Inr dest!: sect)
  have frame: "vmm_map_framebuffer b pml4 u = Some (Inr t) \<Longrightarrow> pmm.more t = pmm.more u" for pml4 u t
    by (auto simp: vmm_map_framebuffer_def Let_def dest!: map_range_keeps split: option.splits list.splits)
  have hhdm: "vmm_map_hhdm b pml4 u = Some (Inr t) \<Longrightarrow> pmm.more t = pmm.more u" for pml4 u t
    by (auto simp: vmm_map_hhdm_def dest!: map_hhdm_keeps split: option.splits)
  assume "vmm_init b l s = Some (Inr (ok, t))"
  then show ?thesis
    using pmm_alloc_page_more [of "enable_nxe s"]
    by (auto simp: vmm_init_def Let_def and_then_eq_Inr write_cr3_def enable_nxe_def
        dest!: hhdm kernel frame split: sum.splits if_splits)
qed

lemma expand_heap_keeps: "expand_heap n s = Inr (ok, t) \<Longrightarrow> heap.more t = heap.more s"
proof -
  have more: "heap.more u = heap.more s" if "pmm.more u = pmm.more s" for u :: "'a heap_scheme"
    using that by (cases u, cases s, simp)
  show "expand_heap n s = Inr (ok, t) \<Longrightarrow> heap.more t = heap.more s"
    using expand_pages_more [of s "P2V s (get_current_cr3 s)" "(n + HEADER_SIZE + PAGE_SIZE - 1) div PAGE_SIZE"]
    by (auto simp: expand_heap_def Let_def dest: more split: sum.splits)
qed

definition heap_keeps_to :: "'a heap_scheme \<Rightarrow> (u64 \<times> 'a heap_scheme) outcome \<Rightarrow> bool" where
  "heap_keeps_to s r \<longleftrightarrow> (\<forall>p t. r = Inr (p, t) \<longrightarrow> heap.more t = heap.more s)"

lemma kmalloc_keeps_to: "kmalloc n s = Some r \<Longrightarrow> heap_keeps_to s r"
proof (induction rule: kmalloc.raw_induct [rotated, consumes 1, case_names step])
  case (step rec n s r)
  have "heap.more (snd (take_block b k s)) = heap.more s" for b k
    using take_block_frame(1) [of b k s "fst (take_block b k s)" "snd (take_block b k s)"] by simp
  with step show ?case
    unfolding heap_keeps_to_def
    by (auto dest: expand_heap_keeps take_block_frame(1) split: if_splits option.splits sum.splits prod.splits)
qed

lemma kmalloc_keeps: "kmalloc n s = Some (Inr (p, t)) \<Longrightarrow> heap.more t = heap.more s"
  using kmalloc_keeps_to [of n s] by (auto simp: heap_keeps_to_def)

lemma sched_init_keeps: "sched_init name s = Some (Inr t) \<Longrightarrow> kernel.more t = kernel.more s"
proof -
  have more: "kernel.more u = kernel.more s" if "heap.more u = heap.more s" for u :: "'a kernel_scheme"
    using that by (cases u, cases s, simp)
  show "sched_init name s = Some (Inr t) \<Longrightarrow> kernel.more t = kernel.more s"
    by (auto simp: sched_init_def and_then_eq_Inr new_thread_id_def update_thread_def thread_set_name_def
        thread_init_nodes_def Let_def dest!: kmalloc_keeps more split: if_splits)
qed

section \<open>The order of the start-up\<close>

text \<open>A calm step is quiet and changes neither the processor's tables nor what the console draws on.\<close>

definition same_tables :: "'a screen_scheme \<Rightarrow> 'a screen_scheme \<Rightarrow> bool" where
  "same_tables s t \<longleftrightarrow>
     interrupt_handlers t = interrupt_handlers s \<and> idt t = idt s \<and> idtr t = idtr s \<and> gdtr t = gdtr s \<and>
     code_segment t = code_segment s \<and> fb t = fb s \<and> auto_flush_enabled t = auto_flush_enabled s"

definition calm :: "'a screen_scheme \<Rightarrow> 'a screen_scheme \<Rightarrow> bool" where
  "calm s t \<longleftrightarrow> quiet s t \<and> same_tables s t"

lemma calm_trans: "calm s t \<Longrightarrow> calm t u \<Longrightarrow> calm s u"
  by (auto simp: calm_def same_tables_def intro: quiet_trans)

lemma calm_refl [intro!]: "calm s s"
  by (simp add: calm_def same_tables_def quiet_refl)

interpretation calmly: step_relation calm
  by unfold_locales (rule calm_refl, rule calm_trans)

lemma calm_prints: "prints s t \<Longrightarrow> calm s t"
  by (auto simp: prints_def calm_def same_tables_def intro: quiet_same)

lemma calm_pmm: "pmm.more t = pmm.more s \<Longrightarrow> calm s t" for s t :: "'a screen_scheme"
  by (cases s, cases t) (auto simp: calm_def same_tables_def intro: quiet_same)

lemma calm_heap: "heap.more t = heap.more s \<Longrightarrow> calm s t" for s t :: "'a screen_scheme"
  by (cases s, cases t) (auto simp: calm_def same_tables_def intro: quiet_same)

lemma calm_kernel: "kernel.more t = kernel.more s \<Longrightarrow> calm s t" for s t :: "'a screen_scheme"
  by (cases s, cases t) (auto simp: calm_def same_tables_def intro: quiet_same)

lemma same_tables_timers: "timers.more t = timers.more s \<Longrightarrow> same_tables s t" for s t :: "'a screen_scheme"
  by (cases s, cases t) (auto simp: same_tables_def)

lemma kprintf_default_calm: "kprintf_default im f a s = Some (Inr t) \<Longrightarrow> calm s t"
  by (auto simp: kprintf_default_def intro: calm_prints dest: kprintf_prints)

lemma log_calm:
  "log_step im msg s = Some (Inr t) \<Longrightarrow> calm s t" "log_ok im s = Some (Inr t) \<Longrightarrow> calm s t"
  by (auto simp: log_step_def log_ok_def intro: kprintf_default_calm)

lemma screen_flush_calm: "calm s (screen_flush s)"
  by (rule calm_prints, rule screen_flush_prints)

lemma heap_init_calm: "calm s (heap_init p s)"
proof -
  have "heap.more (heap_init p s) = heap.more s"
    by (simp add: heap_init_def Let_def)
  then show ?thesis
    by (rule calm_heap)
qed

lemma logged_calm:
  assumes "logged im msg f s = Some (Inr t)"
  shows "\<exists>u v. calm s u \<and> f u = Some (Inr v) \<and> calm v t"
  using assms unfolding logged_def and_then_eq_Inr by (blast intro: log_calm)

lemma logged_keeps_calm:
  assumes "logged im msg f s = Some (Inr t)" and "\<And>u v. f u = Some (Inr v) \<Longrightarrow> calm u v"
  shows "calm s t"
  using assms(1) unfolding logged_def
  by (rule calmly.and_then_may) (auto intro: log_calm elim: calmly.and_then_may dest: assms(2))

lemma quiet_calibrate: "lapic_timer_calibrate p f s = Some (c, t) \<Longrightarrow> quiet s t"
  by (auto simp: lapic_timer_calibrate_def Let_def case_prod_beta dest!: quiet_pm_delay
      intro!: quiet_steps intro: quiet_trans [rotated] split: option.splits)

lemma calibrate_more:
  fixes s :: "'a timers_scheme"
  assumes "lapic_timer_calibrate p f s = Some (c, t)"
  shows "timers.more t = timers.more s"
proof -
  have wait: "acpi_pm_wait p n a e u = Some v \<Longrightarrow> io.more v = io.more u" for n a e and u v :: "'b io_scheme"
  proof (induction rule: acpi_pm_wait.raw_induct [rotated, consumes 1, case_names step])
    case (step rec p n a e u v)
    then show ?case
      by (auto simp: case_prod_beta Let_def pause_def inl_def next_input_def split: if_splits)
  qed
  have delay: "acpi_pm_delay_ms p m u = Some v \<Longrightarrow> io.more v = io.more u" for m and u v :: "'b io_scheme"
    by (auto simp: acpi_pm_delay_ms_def Let_def case_prod_beta inl_def next_input_def dest!: wait)
  have "io.more t = io.more s"
    using assms by (auto simp: lapic_timer_calibrate_def Let_def case_prod_beta dest!: delay split: option.splits)
  then show ?thesis
    by (cases s, cases t, simp)
qed

lemma calibrate_calm: "lapic_timer_calibrate p f s = Some (c, t) \<Longrightarrow> calm s t" for s :: "'a screen_scheme"
  by (simp add: calm_def quiet_calibrate calibrate_more same_tables_timers)

lemma calm_io:
  fixes s t :: "'a screen_scheme"
  assumes "io.more t = io.more s" and "quiet s t"
  shows "calm s t"
proof -
  have "timers.more t = timers.more s"
    using assms(1) by (cases s, cases t, simp)
  then show ?thesis
    using assms(2) by (simp add: calm_def same_tables_timers)
qed

lemma io_step_calm:
  assumes "calm s t"
  shows "calm s (lapic_write r x t)" "calm s (snd (lapic_read r t))" "calm s (outb p v t)" "calm s (io_wait t)"
  by (rule calm_trans [OF assms calm_io], simp, intro quiet_steps)+

lemma timer_fields_calm [intro]:
  assumes "calm s t"
  shows "calm s (t\<lparr>selected_divider := d\<rparr>)" "calm s (t\<lparr>device_frequency := f\<rparr>)"
    "calm s (t\<lparr>timer_nodes := n\<rparr>)" "calm s (t\<lparr>active_timer := a\<rparr>)"
  using assms by (simp_all add: calm_def quiet_def same_tables_def)

lemma timer_callback_calm:
  "lapic_timer_init_callback b f s = Some (Inr t) \<Longrightarrow> calm s t" for s t :: "'a screen_scheme"
  by (auto simp: lapic_timer_init_callback_def Let_def dest!: calibrate_calm
      intro!: io_step_calm split: sum.splits option.splits if_splits
      intro: calm_prints)

lemma timer_device_calm:
  "lapic_timer_device_init b d s = Some (Inr t) \<Longrightarrow> calm s t" for s t :: "'a screen_scheme"
proof -
  let ?s = "\<lambda>f n. s\<lparr>selected_divider := d, device_frequency := f, timer_nodes := n\<rparr>"
  assume "lapic_timer_device_init b d s = Some (Inr t)"
  moreover have "calm s u" if "lapic_timer_init_callback b f' (?s f n) = Some (Inr u)" for f' f n u
  proof (rule calm_trans)
    show "calm s (?s f n)"
      by (intro timer_fields_calm calm_prints prints_refl)
    show "calm (?s f n) u"
      by (rule timer_callback_calm) (rule that)
  qed
  ultimately show "calm s t"
    by (auto simp: lapic_timer_device_init_def timer_register_def set_active_timer_def Let_def bind_ok_eq_Inr
        intro!: timer_fields_calm split: option.splits if_splits)
qed

lemma keyboard_init_calm:
  "keyboard_init b s = Some (Inr t) \<Longrightarrow> calm s t" for s t :: "'a screen_scheme"
proof -
  have lists: "keyboard.more (kbd_init_lists u) = keyboard.more u" "trace (kbd_init_lists u) = trace u"
    for u :: "'a screen_scheme"
    by (simp_all add: kbd_init_lists_def Let_def for_range_keeps [where g = keyboard.more] for_range_keeps [where g = trace])
  assume "keyboard_init b s = Some (Inr t)"
  then obtain u v where u: "ioapic_init_keyboard b (ucast (drop_bit 24 (fst (lapic_read LAPIC_ID s))))
        (snd (lapic_read LAPIC_ID s)) = Inr u"
    and v: "ps2_keyboard_enable u = Some v" and t: "t = kbd_init_lists v"
    by (auto simp: keyboard_init_def case_prod_beta split: sum.splits)
  have "io.more v = io.more s"
    using ioapic_init_keyboard_more [OF u] ps2_keyboard_enable_more [OF v] by simp
  then have "keyboard.more v = keyboard.more s"
    by (cases v, cases s, simp)
  then have "keyboard.more t = keyboard.more s"
    by (simp add: t lists)
  then have "timers.more t = timers.more s"
    by (cases t, cases s, simp)
  moreover have "quiet s (snd (lapic_read LAPIC_ID s))"
    by (intro quiet_steps)
  then have "quiet s v"
    using quiet_ioapic_init [OF u] quiet_ps2_enable [OF v] by (blast intro: quiet_trans)
  ultimately show "calm s t"
    using lists(2) [of v] by (simp add: calm_def same_tables_timers t quiet_def)
qed

lemma serial_init_calm: "calm s (serial_init s)"
  by (simp add: serial_init_def Let_def io_step_calm calm_refl)

lemma disable_interrupts_trace:
  "trace (disable_interrupts s) = trace s @ [Cli]" "trace (enable_interrupts s) = trace s @ [Sti]"
  by (simp_all add: disable_interrupts_def enable_interrupts_def note_access_def)

lemma pmm_init_calm: "pmm_init b s = Inr t \<Longrightarrow> calm s t"
  by (rule calm_pmm, rule pmm_init_keeps)

lemma vmm_init_calm: "vmm_init b l s = Some (Inr (ok, t)) \<Longrightarrow> calm s t"
  by (rule calm_pmm, rule vmm_init_keeps)

lemma sched_init_calm: "sched_init name s = Some (Inr t) \<Longrightarrow> calm s t"
  by (rule calm_kernel, rule sched_init_keeps)

lemma screen_init_fields:
  assumes "screen_init bi s = Inr t"
  shows "quiet s t" and "same_tables (s\<lparr>fb := fb t\<rparr>) t" and "fb t \<noteq> None"
proof -
  obtain f w p u where w: "w = s\<lparr>fb := Some f, screen_pitch_div_4 := fb_pitch f div 4\<rparr>"
    and u: "pmm_alloc_pages w ((fb_pitch f * fb_height f + 4095) div 4096) = Inr (p, u)"
    and t: "t = u\<lparr>backbuffer := p + hhdm_offset u,
      mem := memset (mem u) (p + hhdm_offset u) 0 (fb_pitch f * fb_height f)\<rparr>"
    using assms by (auto simp: screen_init_def Let_def bind_ok_eq_Inr split: option.splits list.splits if_splits)
  have "calm w u"
    by (rule calm_pmm) (rule pmm_alloc_pages_keeps [OF u])
  then show "quiet s t" "same_tables (s\<lparr>fb := fb t\<rparr>) t" "fb t \<noteq> None"
    by (auto simp: w t calm_def quiet_def same_tables_def)
qed

lemma gdt_init_steps:
  fixes s :: "'a screen_scheme"
  shows "quiet s (gdt_init syms s)" and "same_tables (s\<lparr>gdtr := (55, gdt_address syms), code_segment := 8\<rparr>) (gdt_init syms s)"
  by (simp_all add: quiet_def same_tables_def gdt_init_def gdt_flush_def gdt_set_entry_def gdt_set_tss_descriptor_def
      note_access_def sizeof_gdt_def Let_def)

lemma pic_disable_calm: "calm s t \<Longrightarrow> calm s (pic_disable t)"
  by (simp add: pic_disable_def Let_def io_step_calm)

lemma idt_init_steps:
  fixes s :: "'a screen_scheme"
  assumes "idt_init syms s = Inr t" and "length (idt s) = 256"
  shows "quiet s t" and "same_tables (s\<lparr>idt := map (\<lambda>v. (vector_entry syms (code_segment s) v)\<lparr>ist := vector_ist v\<rparr>)
      [0..<256], idtr := (4095, idt_address syms)\<rparr>) t"
proof -
  let ?idt = "map (\<lambda>v. (vector_entry syms (code_segment s) v)\<lparr>ist := vector_ist v\<rparr>) [0..<256]"
  let ?r = "(4095, idt_address syms)"
  let ?s1 = "s\<lparr>idt := ?idt, idt_pointer := ?r\<rparr>"
  let ?s2 = "(note_access (Lidt 4095 (idt_address syms)) ?s1)\<lparr>idtr := ?r\<rparr>"
  have init: "lapic_init (pic_disable ?s2) = Inr t"
    using assms(1) idt_fill_eq [OF assms(2), of syms]
    by (auto simp: idt_init_def Let_def note_access_def split: if_splits)
  have "calm ?s2 (pic_disable ?s2)"
    by (intro pic_disable_calm calm_refl)
  moreover have "calm (pic_disable ?s2) t"
    by (rule calm_io) (rule lapic_init_more [OF init], rule quiet_lapic_init [OF init])
  ultimately have "calm ?s2 t"
    by (rule calm_trans)
  moreover have "quiet s ?s2"
    by (simp add: quiet_def note_access_def)
  ultimately show "quiet s t" "same_tables (s\<lparr>idt := ?idt, idtr := ?r\<rparr>) t"
    by (auto simp: calm_def same_tables_def note_access_def intro: quiet_trans)
qed

lemma register_handler_steps:
  fixes s :: "'a screen_scheme"
  shows "quiet s (idt_register_handler v h s)"
    and "same_tables (s\<lparr>interrupt_handlers := (interrupt_handlers s)[unat v := Some h]\<rparr>) (idt_register_handler v h s)"
  by (simp_all add: quiet_def same_tables_def idt_register_handler_def)

text \<open>Everything between \<^verbatim>\<open>cli\<close> and \<^verbatim>\<open>sti\<close>, with the states after the steps that are not calm.\<close>

lemma kernel_init_chain:
  assumes "kernel_init im bi s = Some (Inr t)"
  obtains a b c d e f g h i j k l where
    "a = set_auto_flush False (disable_interrupts s)" and "calm a b" and "screen_init bi b = Inr c"
    and "calm c d" and "e = gdt_init (table_objects im) d" and "calm e f"
    and "idt_init (table_objects im) f = Inr g" and "calm g h"
    and "i = idt_register_handler 0x20 Lapic_timer_irq_handler h" and "calm i j"
    and "k = idt_register_handler 0x21 Keyboard_irq_handler j" and "calm k l"
    and "t = enable_interrupts (set_auto_flush True l)"
proof -
  define a where "a = set_auto_flush False (disable_interrupts s)"
  have vectors: "ucast LAPIC_TIMER_VECTOR = (0x20 :: u8)" "ucast IOAPIC_IDT_VECTOR = (0x21 :: u8)"
    by (simp_all add: LAPIC_TIMER_VECTOR_def IOAPIC_IDT_VECTOR_def)
  obtain b c c1 c2 c3 c4 c5 c6 d1 d2 d3 d4 d5 d6 d7 where
    b: "pmm_init bi (serial_init a) = Inr b" and c: "screen_init bi b = Inr c"
    and c1: "logged im ''Initializing PMM'' (\<lambda>s. Some (Inr s)) c = Some (Inr c1)"
    and c2: "logged im ''Initializing Screen Driver'' (\<lambda>s. Some (Inr s)) c1 = Some (Inr c2)"
    and c3: "log_step im ''Initializing VMM'' c2 = Some (Inr c3)"
    and c4: "vmm_init bi (sections im) c3 = Some (Inr (True, c4))"
    and c5: "log_ok im c4 = Some (Inr c5)"
    and c6: "kprintf_default im (''          ---> CR3 switched: 0x%x -> 0x%x'' @ nl)
      [get_current_cr3 c3, get_current_cr3 c4] c5 = Some (Inr c6)"
    and d1: "logged im ''Initializing GDT'' (\<lambda>s. Some (Inr (gdt_init (table_objects im) s))) c6 = Some (Inr d1)"
    and d2: "logged im ''Initializing IDT'' (\<lambda>s. Some (idt_init (table_objects im) s)) d1 = Some (Inr d2)"
    and d3: "logged im ''Initializing Heap'' (\<lambda>s. Some (Inr (heap_init (heap_start im) s))) d2 = Some (Inr d3)"
    and d4: "logged im ''Initializing Scheduler'' (sched_init (literal im ''kernel_main'')) d3 = Some (Inr d4)"
    and d5: "logged im ''Initializing LAPIC timer'' (\<lambda>s.
             and_then (lapic_timer_device_init bi LAPIC_TIMER_DIV_16 s) (\<lambda>s.
             Some (Inr (idt_register_handler 0x20 Lapic_timer_irq_handler s)))) d4 = Some (Inr d5)"
    and d6: "logged im ''Initializing keyboard driver'' (\<lambda>s.
             and_then (keyboard_init bi s) (\<lambda>s.
             Some (Inr (idt_register_handler 0x21 Keyboard_irq_handler s)))) d5 = Some (Inr d6)"
    and t: "t = enable_interrupts (set_auto_flush True (screen_flush d6))"
    using assms
    by (auto simp: kernel_init_def Let_def and_then_eq_Inr vectors a_def [symmetric] split: if_splits)
  have ab: "calm a b"
    using serial_init_calm pmm_init_calm [OF b] by (rule calm_trans)
  obtain d g0 where d: "calm c6 d" and g0: "calm (gdt_init (table_objects im) d) d1"
    using logged_calm [OF d1] by auto
  obtain f g where f: "calm d1 f" and g: "idt_init (table_objects im) f = Inr g" and gd: "calm g d2"
    using logged_calm [OF d2] by auto
  have "calm c c1" "calm c1 c2"
    by (rule logged_keeps_calm [OF c1], auto) (rule logged_keeps_calm [OF c2], auto)
  then have cd: "calm c d"
    using log_calm(1) [OF c3] vmm_init_calm [OF c4] log_calm(2) [OF c5] kprintf_default_calm [OF c6] d
    by (meson calm_trans)
  have "calm d2 d3"
    by (rule logged_keeps_calm [OF d3]) (use heap_init_calm in auto)
  moreover have "calm d3 d4"
    by (rule logged_keeps_calm [OF d4]) (rule sched_init_calm)
  ultimately have gd4: "calm g d4"
    using gd calmly.three_may by blast
  obtain w h where "calm d4 w" and h: "lapic_timer_device_init bi LAPIC_TIMER_DIV_16 w = Some (Inr h)"
    and hd: "calm (idt_register_handler 0x20 Lapic_timer_irq_handler h) d5"
    using logged_calm [OF d5] by (auto simp: and_then_eq_Inr)
  then have gh: "calm g h"
    using gd4 timer_device_calm [OF h] calmly.three_may by blast
  obtain x j where "calm d5 x" and j: "keyboard_init bi x = Some (Inr j)"
    and jd: "calm (idt_register_handler 0x21 Keyboard_irq_handler j) d6"
    using logged_calm [OF d6] by (auto simp: and_then_eq_Inr)
  then have ij: "calm (idt_register_handler 0x20 Lapic_timer_irq_handler h) j"
    using hd keyboard_init_calm [OF j] by (meson calm_trans)
  show thesis
    by (rule that [OF a_def ab c cd refl calm_trans [OF g0 f] g gh refl ij refl
          calm_trans [OF jd screen_flush_calm] t])
qed

section \<open>Properties\<close>

definition started :: "image \<Rightarrow> 'a screen_scheme \<Rightarrow> 'a screen_scheme \<Rightarrow> bool" where
  "started im s t \<longleftrightarrow>
     (\<exists>l. trace t = trace s @ [Cli] @ l @ [Sti] \<and> Sti \<notin> set l \<and> Sti_hlt \<notin> set l) \<and>
     interrupt_handlers t ! 0x20 = Some Lapic_timer_irq_handler \<and>
     interrupt_handlers t ! 0x21 = Some Keyboard_irq_handler \<and>
     (\<forall>v<256. v \<notin> {0x20, 0x21} \<longrightarrow> interrupt_handlers t ! v = interrupt_handlers s ! v) \<and>
     idt t = map (\<lambda>v. (vector_entry (table_objects im) 8 v)\<lparr>ist := vector_ist v\<rparr>) [0..<256] \<and>
     idtr t = (4095, idt_address (table_objects im)) \<and> gdtr t = (55, gdt_address (table_objects im)) \<and>
     code_segment t = 8 \<and> fb t \<noteq> None \<and> auto_flush_enabled t"



text \<open>\<^verbatim>\<open>limine_init\<close> refuses the boot before any subsystem is touched.\<close>

lemma kernel_init_refuses_bootloader:
  "base_revision im ! 2 \<noteq> 0 \<or> base_revision im ! 1 = LIMINE_BASE_MAGIC \<Longrightarrow>
   kernel_init im bi s = Some (Inl (Panic ''LIMINE Init failed.''))"
  by (simp add: kernel_init_def limine_init_def and_then_def)

end
