(* ===== verification/Kmain.thy ===== *)
theory Kmain
  imports Boot
begin

text \<open>
  The entry point of the kernel and its demonstration thread (\<^verbatim>\<open>kernel/main.c\<close>). \<open>wake\<close> is what
  happens while the thread that calls \<^verbatim>\<open>sleep_ms\<close> is halted, \<open>poll\<close> what the interrupts do while
  \<^verbatim>\<open>keyboard_getchar\<close> waits.
\<close>

section \<open>Definitions\<close>

definition DIRECT_VRAM_WRITE :: bool where "DIRECT_VRAM_WRITE = False"
definition COLOR_AQUA :: u32 where "COLOR_AQUA = 0xFF00FFFF"
definition COLOR_YELLOW_ORANGE :: u32 where "COLOR_YELLOW_ORANGE = 0xFFFFAA33"

definition kversion :: string where "kversion = ''0.2.0''"

definition kprintf_default_scale ::
  "image \<Rightarrow> u32 \<Rightarrow> bool \<Rightarrow> string \<Rightarrow> va_list \<Rightarrow> 'a screen_scheme \<Rightarrow> 'a screen_scheme outcome option" where
  "kprintf_default_scale im color direct_vram fmt args s =
     kprintf (print_frame im) color DEFAULT_blit32_TEXT_SCALE direct_vram (literal im fmt) args s"

text \<open>The loop of \<^verbatim>\<open>print_hello_thread\<close>, by the number of turns that are left.\<close>

fun print_hello ::
  "image \<Rightarrow> ('a screen_scheme \<Rightarrow> 'a screen_scheme outcome) \<Rightarrow> u64 \<Rightarrow> nat \<Rightarrow> 'a screen_scheme \<Rightarrow>
   'a screen_scheme outcome option" where
  "print_hello im wake message 0 s = Some (Inr s)"
| "print_hello im wake message (Suc n) s =
     and_then (kprintf_default_scale im COLOR_WHITE DIRECT_VRAM_WRITE ''%s'' [message] s) (\<lambda>s.
     and_then (sleep_ms (Some lapic_timer_get_ticks) wake 1000 s) (print_hello im wake message n))"

definition print_hello_thread ::
  "image \<Rightarrow> ('a screen_scheme \<Rightarrow> 'a screen_scheme outcome) \<Rightarrow> u64 \<Rightarrow> 'a screen_scheme \<Rightarrow>
   'a screen_scheme outcome option" where
  "print_hello_thread im wake a s = (let message = a in print_hello im wake message 10 s)"

definition backslash :: string where "backslash = [CHR 0x5C]"

definition banner :: string where
  "banner =
     ''   __  __      __                             ____  _____'' @ nl @
     ''  / / / /___  / /______  ____ _      ______  / __ '' @ backslash @ ''/ ___/'' @ nl @
     '' / / / / __ '' @ backslash @ ''/ //_/ __ '' @ backslash @ ''/ __ '' @ backslash @ '' | /| / / __ '' @ backslash @
       ''/ / / /'' @ backslash @ ''__ '' @ backslash @ nl @
     ''/ /_/ / / / / ,< / / / / /_/ / |/ |/ / / / / /_/ /___/ /'' @ nl @
     backslash @ ''____/_/ /_/_/|_/_/ /_/'' @ backslash @ ''____/|__/|__/_/ /_/'' @ backslash @ ''____//____/'' @ nl @
     nl"

definition version_format :: string where
  "version_format = '' Kernel Version: %C%s%C'' @ nl @ '' System is ready.'' @ nl"

definition thread_format :: string where
  "thread_format =
     '' Thread ID: %C%d%C'' @ nl @
     '' Thread Name: %C%s%C'' @ nl @
     '' Thread State: %C%d%C'' @ nl @
     '' Thread Kernel Stack Base: %C%x%C'' @ nl @
     '' Thread Kernel Stack Size: %C%d%C'' @ nl"

text \<open>The numbers the compiler gives the members of \<^verbatim>\<open>enum thread_state\<close>.\<close>

fun thread_state_number :: "thread_state \<Rightarrow> u64" where
  "thread_state_number THREAD_STATE_NEW = 0"
| "thread_state_number THREAD_STATE_READY = 1"
| "thread_state_number THREAD_STATE_RUNNING = 2"
| "thread_state_number THREAD_STATE_BLOCKED = 3"
| "thread_state_number THREAD_STATE_TIMED_WAIT = 4"
| "thread_state_number THREAD_STATE_TERMINATED = 5"

text \<open>
  The members of the new thread. Its name is among the bytes of the heap, which the model keeps
  apart from the memory that \<^verbatim>\<open>kprintf\<close> reads, so the 32 bytes of the name are put there. The result
  of \<^verbatim>\<open>thread_create\<close> is not tested.
\<close>

definition show_thread :: "image \<Rightarrow> u64 \<Rightarrow> 'a screen_scheme \<Rightarrow> 'a screen_scheme outcome option" where
  "show_thread im thread1 s =
     (if thread1 = NULL then Some (Inl Bad_access) else
      let t = threads s thread1;
          orange = ucast COLOR_YELLOW_ORANGE;
          white = ucast COLOR_WHITE;
          s = s\<lparr>mem := (\<lambda>a. if a - name_of thread1 < 32 then heap_bytes s a else mem s a)\<rparr>
      in kprintf_default_scale im COLOR_WHITE DIRECT_VRAM_WRITE thread_format
           [orange, thread_id t, white,
            orange, name_of thread1, white,
            orange, thread_state_number (state t), white,
            orange, kernel_stack_base t, white,
            orange, kernel_stack_size t, white] s)"

text \<open>\<^verbatim>\<open>while (1)\<close>: the only results are those of a part that panics.\<close>

partial_function (option) kmain_echo ::
  "image \<Rightarrow> ('a screen_scheme \<Rightarrow> 'a screen_scheme) \<Rightarrow> 'a screen_scheme \<Rightarrow> 'a screen_scheme outcome option" where
  "kmain_echo im poll s =
     (case keyboard_getchar poll s of
        None \<Rightarrow> None
      | Some (c, s) \<Rightarrow>
          if c \<noteq> 0 then
            (case kprintf_default_scale im COLOR_WHITE DIRECT_VRAM_WRITE ''%C%c%C''
                    [ucast COLOR_YELLOW_ORANGE, scast c, ucast COLOR_WHITE] s of
               None \<Rightarrow> None
             | Some (Inl e) \<Rightarrow> Some (Inl e)
             | Some (Inr s) \<Rightarrow> kmain_echo im poll s)
          else kmain_echo im poll s)"

text \<open>\<open>hello\<close> is the address of \<^verbatim>\<open>print_hello_thread\<close>.\<close>

definition kmain ::
  "image \<Rightarrow> boot_info \<Rightarrow> u64 \<Rightarrow> ('a screen_scheme \<Rightarrow> 'a screen_scheme outcome) \<Rightarrow>
   ('a screen_scheme \<Rightarrow> 'a screen_scheme) \<Rightarrow> 'a screen_scheme \<Rightarrow> 'a screen_scheme outcome option" where
  "kmain im bi hello wake poll s =
     and_then (kernel_init im bi s) (\<lambda>s.
     let s = screen_flush s in
     and_then (sleep_ms (Some lapic_timer_get_ticks) wake 2000 s) (\<lambda>s.
     let s = set_auto_flush False s;
         s = screen_clear COLOR_BLACK DIRECT_VRAM_WRITE s in
     and_then (kprintf_default_scale im COLOR_AQUA DIRECT_VRAM_WRITE banner [] s) (\<lambda>s.
     and_then (kprintf_default_scale im COLOR_WHITE DIRECT_VRAM_WRITE version_format
         [ucast COLOR_YELLOW_ORANGE, literal im kversion, ucast COLOR_WHITE] s) (\<lambda>s.
     and_then (thread_create (literal im ''Thread1'') hello (literal im (''Hello from Thread 1!'' @ nl)) s) (\<lambda>(thread1, s).
     and_then (show_thread im thread1 s) (\<lambda>s.
     let s = screen_flush s;
         s = set_auto_flush True s;
         s = thread_start thread1 s
     in kmain_echo im poll s))))))"

section \<open>The entry point does not return\<close>

text \<open>Nothing behind the loop of \<^verbatim>\<open>kmain\<close> is reached, the final \<^verbatim>\<open>hcf\<close> included.\<close>

lemma kmain_echo_fails: "kmain_echo im poll s = Some r \<Longrightarrow> isl r"
proof (induction rule: kmain_echo.raw_induct [rotated, consumes 1, case_names step])
  case (step rec im poll s r)
  then show ?case
    by (auto split: option.splits prod.splits sum.splits if_splits)
qed

lemma kmain_never_returns: "kmain im bi hello wake poll s \<noteq> Some (Inr t)"
  by (auto simp: kmain_def Let_def and_then_eq_Inr dest!: kmain_echo_fails)

text \<open>A failed \<^verbatim>\<open>thread_create\<close> is used like a thread.\<close>

lemma show_thread_null: "show_thread im NULL s = Some (Inl Bad_access)"
  by (simp add: show_thread_def)

end
