(* ===== verification/Spec2Isabelle.thy ===== *)
theory Spec2Isabelle
  imports Heap Format Thread Interrupts Kprintf Units Boot Kmain
begin

text \<open>
  Verification library of the unknownOS kernel (the sources under \<^verbatim>\<open>src/src\<close>), an x86-64 kernel in C
  that the Limine bootloader starts.

  \<^bold>\<open>The program.\<close> \<^verbatim>\<open>kernel_init\<close> brings the subsystems up in order: the bootloader's answers
  (\<^verbatim>\<open>bootloader/limine_request.c\<close>) describe memory to the page allocator
  (\<^verbatim>\<open>kernel/memory/pmm.c\<close>); the console (\<^verbatim>\<open>drivers/screen/screen.c\<close>) takes its backbuffer
  from it and reports every later step; the page tables (\<^verbatim>\<open>kernel/memory/vmm.c\<close>) are built and
  loaded, then the segments and interrupt descriptors (\<^verbatim>\<open>arch/x86_64/gdt.c\<close>, \<^verbatim>\<open>idt.c\<close>), the heap
  (\<^verbatim>\<open>kernel/memory/heap.c\<close>), which grows through page allocator and page tables, the scheduler
  (\<^verbatim>\<open>kernel/sched/sched.c\<close>), whose threads (\<^verbatim>\<open>kernel/thread/thread.c\<close>) live on the heap, the timer
  that drives it and the keyboard. Afterwards everything happens in interrupts: the entry code
  stores the registers, the dispatcher runs the handler of the timer, which may switch threads, or
  of the keyboard, which queues a character for the thread that waits for one.

  \<^bold>\<open>The state.\<close> One record grows from theory to theory, as the code's static variables are spread
  over its files: \<open>machine\<close> (memory and control register, \<open>Mem\<close>, \<open>Pmm\<close>), \<open>pmm\<close>, \<open>heap\<close>,
  \<open>kernel\<close> (threads and scheduler), \<open>io\<close> (devices), \<open>keyboard\<close>, \<open>timers\<close>, \<open>tables\<close>
  (descriptors and table registers) and \<open>screen\<close>. An operation is a function on the record that
  declares the state it needs and any extension of it, so that the frame of an operation is a
  statement on \<open>more\<close>. Memory is a map from 64-bit addresses to bytes; list nodes, block headers
  and thread structures are typed stores over their addresses. Integers are words of the width the
  code has, and signed ones are read with the signed comparisons.

  \<^bold>\<open>Errors and loops.\<close> A kernel panic, which never returns, is \<open>Inl (Panic message)\<close>; \<open>Inl Bad_access\<close>
  is an access the code makes through a null pointer or outside an array. A loop with a counter is
  \<open>for_range\<close>, \<open>for_until\<close> (with an early exit) or \<open>for_int\<close>, which terminate; a loop that may not
  end is \<open>partial_function (option)\<close>, whose \<open>None\<close> means that the code does not return. There is no
  fuel: that such a loop returns is a theorem, under the condition on the devices or on memory it needs.

  \<^bold>\<open>Theories and what their lemmas show.\<close>

  \<^item> \<open>Prelude\<close>: words, loops and their invariant rules, alignment.
  \<^item> \<open>Mem\<close>, \<open>Mem32\<close>, \<open>Memmove\<close> (\<^verbatim>\<open>klib/mem.c\<close>): the unrolled and word-wise \<^verbatim>\<open>memset\<close>,
    \<^verbatim>\<open>memcpy\<close>, \<^verbatim>\<open>memmove\<close> and \<^verbatim>\<open>memcmp\<close> against bytewise references, and exactly which bytes
    \<^verbatim>\<open>memmove\<close> and \<^verbatim>\<open>memcmp\<close> get wrong.
  \<^item> \<open>Klist\<close> (\<^verbatim>\<open>klib/list.h\<close>): the intrusive ring refines a list; the locale \<open>node_list\<close> is the
    interface the heap, the scheduler, the timers and the keyboard use.
  \<^item> \<open>Limine\<close>, \<open>Pmm\<close>, \<open>Pmm_Init\<close>: the bitmap refines a set of free pages; initialisation frees
    exactly the usable pages, reclaiming those of the bootloader.
  \<^item> \<open>Vmm\<close>, \<open>Vmm_Spec\<close>: the operations, and the processor's walk over the entries in memory as
    their specification; mapping changes the translation of the pages mapped and of no others.
  \<^item> \<open>Heap\<close>: blocks tile the heap and the free ones are on the ring; \<^verbatim>\<open>kmalloc\<close> returns fresh
    disjoint blocks. The locale \<open>allocator\<close> states what a client may rely on.
  \<^item> \<open>Strings\<close>, \<open>Units\<close>, \<open>Format\<close> (\<^verbatim>\<open>klib/string.c\<close>, \<^verbatim>\<open>klib/math.c\<close>, \<^verbatim>\<open>math.h\<close>,
    \<^verbatim>\<open>kvsnprintf\<close>): numbers, conversions and formatting against the texts they stand for.
  \<^item> \<open>Context\<close>, \<open>Thread\<close>: switching saves and restores every register; the ready queue keeps its
    invariant under all interleavings of ticks, starts and terminations (\<open>sched_step\<close>), scheduling
    is round robin and every queued thread runs.
  \<^item> \<open>Io\<close>, \<open>Keyboard\<close>, \<open>Timer\<close> (\<^verbatim>\<open>arch/x86_64\<close>, \<^verbatim>\<open>drivers/serial.c\<close>, \<^verbatim>\<open>keyboard.c\<close>,
    \<^verbatim>\<open>acpi.c\<close>, \<^verbatim>\<open>kernel/timer/timer.c\<close>): the environment answers the \<open>n\<close>-th device read with
    \<open>inputs n\<close>, an arbitrary function, and every access is appended to \<open>trace\<close>. Serial output, the
    bounds of the device waits, the keyboard as a queue under interleaved interrupts (\<open>kbd_run\<close>), the
    calibration delay and \<^verbatim>\<open>sleep_ms\<close>.
  \<^item> \<open>Interrupts\<close>: the descriptor tables as the processor reads them, entry and exit, dispatch, and
    the timer interrupt down to the context switch.
  \<^item> \<open>Pixels\<close>, \<open>Blit\<close>, \<open>Screen\<close> (\<^verbatim>\<open>screen.c\<close>, \<^verbatim>\<open>fonts/blit32.h\<close>): \<open>painted\<close> is the specification
    of drawing in one colour. Glyphs are drawn pixel by pixel as their bitmaps say; text stays on the
    surface; scrolling and flushing move the right pixels.
  \<^item> \<open>Kprintf\<close>, \<open>Kernel_Panic\<close> (\<^verbatim>\<open>screen.c\<close>, \<^verbatim>\<open>kernel/panic.c\<close>): \<^verbatim>\<open>kprintf\<close> is a run of the
    console over the coloured texts its format stands for (\<open>console_run\<close>, \<open>coloured\<close>); a panic
    reports its message on a cleared screen and on the serial port and never returns.
  \<^item> \<open>Boot\<close> (\<^verbatim>\<open>kernel/init.c\<close>): the composition of all of the above. No step between the first and
    the last instruction of \<^verbatim>\<open>kernel_init\<close> lets an interrupt in, and what each step sets up is still
    there at the end. The locale \<open>step_relation\<close> lifts a relation between two states through loops
    and sequences of steps; it is interpreted on the frames the boot sequence needs.
  \<^item> \<open>Kmain\<close> (\<^verbatim>\<open>kernel/main.c\<close>): what the kernel does once it is up, which never returns.

  \<^bold>\<open>Bounds.\<close> A surface has at most 32768 lines of at least 4 and at most 32768 pixels and does not
  wrap around the address space; beyond that the code's 32-bit arithmetic would overflow. Other
  bounds are premises of the theorems and are stated with them.

  \<^bold>\<open>Parameters.\<close> What is not in the sources is an argument: the addresses the linker and the
  compiler choose (\<open>linker_symbols\<close>, \<open>table_symbols\<close>, \<open>image\<close>, the frame of
  \<^verbatim>\<open>flush_formatted_segment\<close>), the bootloader's answers (\<open>boot_info\<close>), the inputs of the devices,
  what happens while a thread waits (\<open>intr\<close>), and the functions a timer device or a thread brings.

  \<^bold>\<open>Not modelled.\<close>
  \<^item> The requests of \<^verbatim>\<open>bootloader/limine.h\<close> that the kernel does not make, the colours of
    \<^verbatim>\<open>colors.h\<close> that nobody uses, the wrappers of \<^verbatim>\<open>blit32.h\<close> that the
    configuration of the console disables, and the linker script.
  \<^item> Caches, the effect of a page fault, and preemption inside the C functions other than at the
    points where the code enables interrupts; the pages of the heap are taken to be mapped and the
    heap's bytes to be apart from the rest of memory.
  \<^item> The layout of a thread structure in bytes: where \<^verbatim>\<open>main.c\<close> prints the name of a thread, the
    bytes of the name are laid over memory at its address (\<open>show_thread\<close>).
  \<^item> Undefined behaviour of C on signed overflow: the words wrap.

  \<^bold>\<open>Open.\<close> That \<^verbatim>\<open>kernel_init\<close> returns needs a well-formed machine description from firmware to
  devices; here it is shown what holds when it does.
\<close>

end
